(* ===== verification/Gem5_Prelude.thy ===== *)
theory Gem5_Prelude
  imports Main "HOL-Library.Word" "HOL-Library.Product_Lexorder"
begin

text \<open>
  Shared vocabulary of the development: the machine types of \<open>base/types.hh\<close>, the
  abnormal outcomes of the simulator (\<open>panic\<close>, \<open>fatal\<close>, a failed \<open>assert\<close>, undefined
  behaviour of C++ and a loop that does not return) as values of a sum type, and the
  generic list and word lemmas the component theories use.
\<close>

unbundle bit_operations_syntax

section \<open>Machine types\<close>

type_synonym Tick = "64 word"
type_synonym Addr = "64 word"

section \<open>Abnormal outcomes\<close>

text \<open>
  \<open>base/logging.hh\<close> ends the simulation in \<open>panic\<close> (a simulator bug) or \<open>fatal\<close> (a user
  error); \<open>assert\<close> aborts in the debug and opt builds; \<open>Throws\<close> is a C++ exception. \<open>Undefined\<close> marks an operation C++
  gives no meaning to (a null dereference, an oversized shift) and \<open>Diverges\<close> a loop that
  never returns.
\<close>

datatype gem5_error =
    Panic string
  | Fatal string
  | AssertFail string
  | Throws string
  | Undefined string
  | Diverges string

type_synonym 'a result = "gem5_error + 'a"

definition rbind :: "'a result \<Rightarrow> ('a \<Rightarrow> 'b result) \<Rightarrow> 'b result" where
  "rbind m f = (case m of Inl e \<Rightarrow> Inl e | Inr x \<Rightarrow> f x)"

definition assert_that :: "bool \<Rightarrow> string \<Rightarrow> 'a result \<Rightarrow> 'a result" where
  "assert_that c msg r = (if c then r else Inl (AssertFail msg))"

definition panic_if :: "bool \<Rightarrow> string \<Rightarrow> 'a result \<Rightarrow> 'a result" where
  "panic_if c msg r = (if c then Inl (Panic msg) else r)"

definition fatal_if :: "bool \<Rightarrow> string \<Rightarrow> 'a result \<Rightarrow> 'a result" where
  "fatal_if c msg r = (if c then Inl (Fatal msg) else r)"

definition returned :: "string \<Rightarrow> 'a option \<Rightarrow> 'a result" where
  "returned msg r = (case r of None \<Rightarrow> Inl (Diverges msg) | Some x \<Rightarrow> Inr x)"

named_theorems result_simps

lemma rbind_Inl [simp, result_simps]: "rbind (Inl e) f = Inl e"
  by (simp add: rbind_def)

lemma rbind_Inr [simp, result_simps]: "rbind (Inr x) f = f x"
  by (simp add: rbind_def)

lemma rbind_eq_Inr: "rbind m f = Inr y \<longleftrightarrow> (\<exists>x. m = Inr x \<and> f x = Inr y)"
  by (cases m) auto

lemma assert_that_True [simp, result_simps]: "assert_that True msg r = r"
  by (simp add: assert_that_def)

lemma assert_that_False [simp, result_simps]: "assert_that False msg r = Inl (AssertFail msg)"
  by (simp add: assert_that_def)

lemma assert_that_eq_Inr: "assert_that c msg r = Inr y \<longleftrightarrow> c \<and> r = Inr y"
  by (simp add: assert_that_def)

lemma panic_if_True [simp, result_simps]: "panic_if True msg r = Inl (Panic msg)"
  by (simp add: panic_if_def)

lemma panic_if_False [simp, result_simps]: "panic_if False msg r = r"
  by (simp add: panic_if_def)

lemma panic_if_eq_Inr: "panic_if c msg r = Inr y \<longleftrightarrow> \<not> c \<and> r = Inr y"
  by (simp add: panic_if_def)

lemma fatal_if_True [simp, result_simps]: "fatal_if True msg r = Inl (Fatal msg)"
  by (simp add: fatal_if_def)

lemma fatal_if_False [simp, result_simps]: "fatal_if False msg r = r"
  by (simp add: fatal_if_def)

lemma fatal_if_eq_Inr: "fatal_if c msg r = Inr y \<longleftrightarrow> \<not> c \<and> r = Inr y"
  by (simp add: fatal_if_def)

lemma returned_Some [simp, result_simps]: "returned msg (Some x) = Inr x"
  by (simp add: returned_def)

lemma returned_None [simp, result_simps]: "returned msg None = Inl (Diverges msg)"
  by (simp add: returned_def)

lemma returned_eq_Inr: "returned msg r = Inr y \<longleftrightarrow> r = Some y"
  by (cases r) auto

lemmas result_eq_Inr =
  rbind_eq_Inr assert_that_eq_Inr panic_if_eq_Inr fatal_if_eq_Inr returned_eq_Inr

section \<open>Lists\<close>

text \<open>
  \<open>std::list::sort\<close> and \<open>std::stable_sort\<close>: a stable sort by a strict order given as a
  comparison function.
\<close>

primrec stable_insert :: "('a \<Rightarrow> 'a \<Rightarrow> bool) \<Rightarrow> 'a \<Rightarrow> 'a list \<Rightarrow> 'a list" where
  "stable_insert lt x [] = [x]"
| "stable_insert lt x (y # ys) = (if lt y x then y # stable_insert lt x ys else x # y # ys)"

definition stable_sort :: "('a \<Rightarrow> 'a \<Rightarrow> bool) \<Rightarrow> 'a list \<Rightarrow> 'a list" where
  "stable_sort lt xs = foldr (stable_insert lt) xs []"

lemma stable_insert_insort:
  "\<forall>y \<in> set ys. lt y x = (k y < k x) \<Longrightarrow> stable_insert lt x ys = insort_key k x ys"
  by (induction ys) auto

lemma stable_sort_sort_key:
  "\<forall>x \<in> set xs. \<forall>y \<in> set xs. lt x y = (k x < k y) \<Longrightarrow> stable_sort lt xs = sort_key k xs"
  by (induction xs) (simp_all add: stable_sort_def stable_insert_insort)

lemma distinct_concat_Cons_hd:
  "distinct (concat (b # bs)) \<Longrightarrow> b \<noteq> [] \<Longrightarrow> hd b \<notin> set (concat bs)"
  by (cases b) auto

lemma takeWhile_dropWhile_split:
  "xs = takeWhile P xs @ dropWhile P xs"
  by simp

lemma remove1_middle:
  "x \<notin> set us \<Longrightarrow> remove1 x (us @ x # vs) = us @ vs"
  by (simp add: remove1_append)

section \<open>Words\<close>

lemma unat_of_nat_64: "n < 2 ^ 64 \<Longrightarrow> unat (of_nat n :: 64 word) = n"
  by (simp add: unsigned_of_nat take_bit_nat_eq_self)

end
