(* ===== verification/Gem5_Flags.thy ===== *)
theory Gem5_Flags
  imports Gem5_Prelude
begin

text \<open>
  The flag sets of \<open>base/flags.hh\<close>, a template over the unsigned type that holds the bits:
  events use sixteen bits, packets thirty-two, requests sixty-four and sixteen.
\<close>

definition Flags_isSet :: "'w::len word \<Rightarrow> 'w word \<Rightarrow> bool" where
  "Flags_isSet fl msk = (fl AND msk \<noteq> 0)"

definition Flags_noneSet :: "'w::len word \<Rightarrow> 'w word \<Rightarrow> bool" where
  "Flags_noneSet fl msk = (fl AND msk = 0)"

definition Flags_clear :: "'w::len word \<Rightarrow> 'w word \<Rightarrow> 'w word" where
  "Flags_clear fl msk = fl AND NOT msk"

definition Flags_set :: "'w::len word \<Rightarrow> 'w word \<Rightarrow> 'w word" where
  "Flags_set fl msk = fl OR msk"

text \<open>
  Setting and clearing a mask is seen through another mask exactly as far as the two meet.
\<close>

lemma Flags_isSet_bit: "Flags_isSet fl msk \<longleftrightarrow> (\<exists>n. bit fl n \<and> bit msk n)"
  by (auto simp: Flags_isSet_def bit_eq_iff bit_and_iff dest: bit_imp_le_length)

lemma Flags_noneSet_iff: "Flags_noneSet fl msk \<longleftrightarrow> \<not> Flags_isSet fl msk"
  by (simp add: Flags_noneSet_def Flags_isSet_def)

lemma Flags_isSet_set:
  "Flags_isSet (Flags_set fl msk) m = (Flags_isSet fl m \<or> Flags_isSet msk m)"
  by (auto simp: Flags_isSet_bit Flags_set_def bit_or_iff)

lemma Flags_isSet_set_same: "m \<noteq> 0 \<Longrightarrow> Flags_isSet (Flags_set fl m) m"
  by (simp add: Flags_isSet_set) (simp add: Flags_isSet_def)

lemma Flags_isSet_clear_disjoint:
  assumes "msk AND m = 0"
  shows "Flags_isSet (Flags_clear fl msk) m = Flags_isSet fl m"
proof -
  have "\<not> (bit msk n \<and> bit m n)" for n
    using assms by (metis bit_0_eq bit_and_iff bot_apply bot_bool_def)
  thus ?thesis
    by (auto simp: Flags_isSet_bit Flags_clear_def bit_and_iff bit_not_iff dest: bit_imp_le_length)
qed

lemma Flags_isSet_clear_same: "\<not> Flags_isSet (Flags_clear fl m) m"
  by (auto simp: Flags_isSet_bit Flags_clear_def bit_and_iff bit_not_iff)

end
