(* ===== verification/Event_Queue.thy ===== *)
theory Event_Queue
  imports Gem5_Flags
begin

text \<open>
  The discrete-event core of the simulator: \<open>sim/eventq.hh\<close> and \<open>sim/eventq.cc\<close>. Events live
  in an explicit store, because the queue is an intrusive linked list of linked lists
  (\<open>nextBin\<close> between bins, \<open>nextInBin\<close> inside a bin) and the code reads and overwrites these
  pointers in place. An event queue is a head pointer, the current tick and the list of
  asynchronously inserted events.
\<close>

section \<open>Events\<close>

abbreviation "Squashed \<equiv> (0x0001 :: 16 word)"
abbreviation "Scheduled \<equiv> (0x0002 :: 16 word)"
abbreviation "Managed \<equiv> (0x0004 :: 16 word)"
abbreviation "IsExitEvent \<equiv> (0x0010 :: 16 word)"
abbreviation "IsMainQueue \<equiv> (0x0020 :: 16 word)"
abbreviation "Initialized \<equiv> (0x7a40 :: 16 word)"
abbreviation "InitMask \<equiv> (0xffc0 :: 16 word)"
abbreviation "PublicWrite \<equiv> (0x001d :: 16 word)"

type_synonym eptr = nat
type_synonym qptr = nat

text \<open>\<open>Priority\<close> is an \<open>int8_t\<close>: an 8-bit word compared through \<^const>\<open>sint\<close>.\<close>

record event =
  nextBin :: "eptr option"
  nextInBin :: "eptr option"
  ev_when :: Tick
  ev_priority :: "8 word"
  ev_flags :: "16 word"
  ev_queue :: "qptr option"

type_synonym heap = "eptr \<Rightarrow> event"

definition Event_new :: "8 word \<Rightarrow> 16 word \<Rightarrow> event result" where
  "Event_new p f = assert_that (Flags_noneSet f (NOT PublicWrite)) ''f.noneSet(~PublicWrite)''
     (Inr \<lparr>nextBin = None, nextInBin = None, ev_when = 0, ev_priority = p,
           ev_flags = Initialized OR f, ev_queue = None\<rparr>)"

definition Event_initialized :: "event \<Rightarrow> bool" where
  "Event_initialized e = (ev_flags e AND InitMask = Initialized)"

definition Event_scheduled :: "event \<Rightarrow> bool" where
  "Event_scheduled e = Flags_isSet (ev_flags e) Scheduled"

definition Event_squashed :: "event \<Rightarrow> bool" where
  "Event_squashed e = Flags_isSet (ev_flags e) Squashed"

definition Event_squash :: "event \<Rightarrow> event" where
  "Event_squash e = e\<lparr>ev_flags := Flags_set (ev_flags e) Squashed\<rparr>"

definition Event_isExitEvent :: "event \<Rightarrow> bool" where
  "Event_isExitEvent e = Flags_isSet (ev_flags e) IsExitEvent"

definition Event_isManaged :: "event \<Rightarrow> bool" where
  "Event_isManaged e = Flags_isSet (ev_flags e) Managed"

definition Event_setWhen :: "Tick \<Rightarrow> qptr \<Rightarrow> event \<Rightarrow> event" where
  "Event_setWhen w q e = e\<lparr>ev_when := w, ev_queue := Some q\<rparr>"

definition Event_less :: "event \<Rightarrow> event \<Rightarrow> bool" where
  "Event_less l r = (ev_when l < ev_when r \<or>
     (ev_when l = ev_when r \<and> sint (ev_priority l) < sint (ev_priority r)))"

definition Event_le :: "event \<Rightarrow> event \<Rightarrow> bool" where
  "Event_le l r = (ev_when l < ev_when r \<or>
     (ev_when l = ev_when r \<and> sint (ev_priority l) \<le> sint (ev_priority r)))"

definition Event_eq :: "event \<Rightarrow> event \<Rightarrow> bool" where
  "Event_eq l r = (ev_when l = ev_when r \<and> ev_priority l = ev_priority r)"

definition Event_neq :: "event \<Rightarrow> event \<Rightarrow> bool" where
  "Event_neq l r = (ev_when l \<noteq> ev_when r \<or> ev_priority l \<noteq> ev_priority r)"

text \<open>In-place field writes through an event pointer.\<close>

definition upd_ev :: "eptr \<Rightarrow> (event \<Rightarrow> event) \<Rightarrow> heap \<Rightarrow> heap" where
  "upd_ev p f h = h(p := f (h p))"

definition Event_insertBefore :: "heap \<Rightarrow> eptr \<Rightarrow> eptr option \<Rightarrow> heap \<times> eptr" where
  "Event_insertBefore h event cur =
     (case cur of
        None \<Rightarrow> (upd_ev event (\<lambda>e. e\<lparr>nextBin := cur, nextInBin := None\<rparr>) h, event)
      | Some c \<Rightarrow>
          if Event_less (h event) (h c)
          then (upd_ev event (\<lambda>e. e\<lparr>nextBin := cur, nextInBin := None\<rparr>) h, event)
          else (upd_ev event (\<lambda>e. e\<lparr>nextBin := nextBin (h c), nextInBin := Some c\<rparr>) h, event))"

partial_function (option) Event_removeItem_loop ::
  "heap \<Rightarrow> eptr \<Rightarrow> eptr \<Rightarrow> eptr option \<Rightarrow> (eptr \<times> eptr) option option" where
  "Event_removeItem_loop h event cur nxt =
     (if nxt = Some event then Some (Some (cur, event))
      else case nxt of
             None \<Rightarrow> Some None
           | Some n \<Rightarrow> Event_removeItem_loop h event n (nextInBin (h n)))"

declare Event_removeItem_loop.simps [code]

definition Event_removeItem :: "heap \<Rightarrow> eptr \<Rightarrow> eptr \<Rightarrow> (heap \<times> eptr option) result" where
  "Event_removeItem h event tp =
     (let nxt = nextInBin (h tp) in
      if event = tp then
        (case nxt of
           None \<Rightarrow> Inr (h, nextBin (h tp))
         | Some n \<Rightarrow> Inr (upd_ev n (\<lambda>e. e\<lparr>nextBin := nextBin (h tp)\<rparr>) h, Some n))
      else
        rbind (returned ''removeItem'' (Event_removeItem_loop h event tp nxt))
          (\<lambda>found. case found of
             None \<Rightarrow> Inl (Panic ''event not found!'')
           | Some (cur, n) \<Rightarrow>
               Inr (upd_ev cur (\<lambda>e. e\<lparr>nextInBin := nextInBin (h n)\<rparr>) h, Some tp)))"

section \<open>Event queues and the simulator state they share\<close>

record event_queue =
  objName :: string
  eq_head :: "eptr option"
  eq_curTick :: Tick
  async_queue :: "eptr list"

record sim_state =
  sim_heap :: heap
  sim_queues :: "qptr \<Rightarrow> event_queue"
  inParallelMode :: bool
  curEventQueue :: "qptr option"
  deleted :: "eptr list"

definition EventQueue_new :: "string \<Rightarrow> event_queue" where
  "EventQueue_new n = \<lparr>objName = n, eq_head = None, eq_curTick = 0, async_queue = []\<rparr>"

definition set_head :: "qptr \<Rightarrow> eptr option \<Rightarrow> sim_state \<Rightarrow> sim_state" where
  "set_head q p s = s\<lparr>sim_queues := (sim_queues s)(q := (sim_queues s q)\<lparr>eq_head := p\<rparr>)\<rparr>"

definition set_heap :: "heap \<Rightarrow> sim_state \<Rightarrow> sim_state" where
  "set_heap h s = s\<lparr>sim_heap := h\<rparr>"

definition upd_flags :: "eptr \<Rightarrow> (16 word \<Rightarrow> 16 word) \<Rightarrow> sim_state \<Rightarrow> sim_state" where
  "upd_flags p f s = set_heap (upd_ev p (\<lambda>e. e\<lparr>ev_flags := f (ev_flags e)\<rparr>) (sim_heap s)) s"

definition EventQueue_setCurTick :: "qptr \<Rightarrow> Tick \<Rightarrow> sim_state \<Rightarrow> sim_state" where
  "EventQueue_setCurTick q t s =
     s\<lparr>sim_queues := (sim_queues s)(q := (sim_queues s q)\<lparr>eq_curTick := t\<rparr>)\<rparr>"

definition EventQueue_empty :: "qptr \<Rightarrow> sim_state \<Rightarrow> bool" where
  "EventQueue_empty q s = (eq_head (sim_queues s q) = None)"

definition EventQueue_nextTick :: "qptr \<Rightarrow> sim_state \<Rightarrow> Tick result" where
  "EventQueue_nextTick q s =
     (case eq_head (sim_queues s q) of
        None \<Rightarrow> Inl (Undefined ''null head'')
      | Some p \<Rightarrow> Inr (ev_when (sim_heap s p)))"

text \<open>The loop shared by \<open>insert\<close> and \<open>remove\<close>: walk the bins strictly before \<open>event\<close>.\<close>

partial_function (option) seek_bin ::
  "heap \<Rightarrow> eptr \<Rightarrow> eptr \<Rightarrow> eptr option \<Rightarrow> (eptr \<times> eptr option) option" where
  "seek_bin h event prev cur =
     (if cur = None then Some (prev, None)
      else if Event_less (h (the cur)) (h event)
           then seek_bin h event (the cur) (nextBin (h (the cur)))
           else Some (prev, cur))"

declare seek_bin.simps [code]

definition EventQueue_insert :: "qptr \<Rightarrow> eptr \<Rightarrow> sim_state \<Rightarrow> sim_state result" where
  "EventQueue_insert q event s =
     (let h = sim_heap s in
      case eq_head (sim_queues s q) of
        None \<Rightarrow>
          (let (h', p) = Event_insertBefore h event None
           in Inr (set_head q (Some p) (set_heap h' s)))
      | Some hp \<Rightarrow>
          if Event_le (h event) (h hp) then
            (let (h', p) = Event_insertBefore h event (Some hp)
             in Inr (set_head q (Some p) (set_heap h' s)))
          else
            rbind (returned ''insert'' (seek_bin h event hp (nextBin (h hp))))
              (\<lambda>(prev, cur).
                 let (h', p) = Event_insertBefore h event cur
                 in Inr (set_heap (upd_ev prev (\<lambda>e. e\<lparr>nextBin := Some p\<rparr>) h') s)))"

definition EventQueue_remove :: "qptr \<Rightarrow> eptr \<Rightarrow> sim_state \<Rightarrow> sim_state result" where
  "EventQueue_remove q event s =
     (let h = sim_heap s in
      case eq_head (sim_queues s q) of
        None \<Rightarrow> Inl (Panic ''event not found!'')
      | Some hp \<Rightarrow>
          assert_that (ev_queue (h event) = Some q) ''event->queue == this''
            (if Event_eq (h hp) (h event) then
               rbind (Event_removeItem h event hp)
                 (\<lambda>(h', p). Inr (set_head q p (set_heap h' s)))
             else
               rbind (returned ''remove'' (seek_bin h event hp (nextBin (h hp))))
                 (\<lambda>(prev, cur).
                    case cur of
                      None \<Rightarrow> Inl (Panic ''event not found!'')
                    | Some c \<Rightarrow>
                        if Event_neq (h c) (h event) then Inl (Panic ''event not found!'')
                        else rbind (Event_removeItem h event c)
                               (\<lambda>(h', p).
                                  Inr (set_heap (upd_ev prev (\<lambda>e. e\<lparr>nextBin := p\<rparr>) h') s)))))"

definition EventQueue_asyncInsert :: "qptr \<Rightarrow> eptr \<Rightarrow> sim_state \<Rightarrow> sim_state" where
  "EventQueue_asyncInsert q event s =
     s\<lparr>sim_queues := (sim_queues s)
         (q := (sim_queues s q)\<lparr>async_queue := async_queue (sim_queues s q) @ [event]\<rparr>)\<rparr>"

fun handleAsyncInsertions_loop :: "qptr \<Rightarrow> eptr list \<Rightarrow> sim_state \<Rightarrow> sim_state result" where
  "handleAsyncInsertions_loop q [] s = Inr s"
| "handleAsyncInsertions_loop q (e # es) s =
     rbind (EventQueue_insert q e s)
       (\<lambda>s'. handleAsyncInsertions_loop q es
          (s'\<lparr>sim_queues := (sim_queues s')
               (q := (sim_queues s' q)\<lparr>async_queue := es\<rparr>)\<rparr>))"

definition EventQueue_handleAsyncInsertions :: "qptr \<Rightarrow> sim_state \<Rightarrow> sim_state result" where
  "EventQueue_handleAsyncInsertions q s =
     assert_that (curEventQueue s = Some q) ''this == curEventQueue()''
       (handleAsyncInsertions_loop q (async_queue (sim_queues s q)) s)"

text \<open>
  The default life-cycle hooks: \<open>acquireImpl\<close> does nothing, \<open>releaseImpl\<close> deletes a managed
  event that is no longer scheduled. Deletion runs \<open>~Event\<close>, which clears the flags; the
  freed pointer is recorded in \<^const>\<open>deleted\<close>.
\<close>

definition Event_acquire :: "eptr \<Rightarrow> sim_state \<Rightarrow> sim_state" where
  "Event_acquire p s = s"

definition Event_delete :: "eptr \<Rightarrow> sim_state \<Rightarrow> sim_state result" where
  "Event_delete p s =
     assert_that (\<not> Event_scheduled (sim_heap s p)) ''!scheduled()''
       (Inr ((upd_flags p (\<lambda>_. 0) s)\<lparr>deleted := p # deleted s\<rparr>))"

definition Event_releaseImpl :: "eptr \<Rightarrow> sim_state \<Rightarrow> sim_state result" where
  "Event_releaseImpl p s =
     (if \<not> Event_scheduled (sim_heap s p) then Event_delete p s else Inr s)"

definition Event_release :: "eptr \<Rightarrow> sim_state \<Rightarrow> sim_state result" where
  "Event_release p s =
     (if Flags_isSet (ev_flags (sim_heap s p)) Managed then Event_releaseImpl p s else Inr s)"

definition EventQueue_schedule ::
  "qptr \<Rightarrow> eptr \<Rightarrow> Tick \<Rightarrow> bool \<Rightarrow> sim_state \<Rightarrow> sim_state result" where
  "EventQueue_schedule q event when global s =
     assert_that (when \<ge> eq_curTick (sim_queues s q)) ''when >= getCurTick()''
     (assert_that (\<not> Event_scheduled (sim_heap s event)) ''!event->scheduled()''
     (assert_that (Event_initialized (sim_heap s event)) ''event->initialized()''
     (let s1 = set_heap (upd_ev event (Event_setWhen when q) (sim_heap s)) s in
      rbind (if inParallelMode s1 \<and> (curEventQueue s1 \<noteq> Some q \<or> global)
             then Inr (EventQueue_asyncInsert q event s1)
             else EventQueue_insert q event s1)
        (\<lambda>s2. Inr (Event_acquire event
                    (upd_flags event (\<lambda>fl. Flags_set fl Scheduled) s2))))))"

definition EventQueue_deschedule :: "qptr \<Rightarrow> eptr \<Rightarrow> sim_state \<Rightarrow> sim_state result" where
  "EventQueue_deschedule q event s =
     assert_that (Event_scheduled (sim_heap s event)) ''event->scheduled()''
     (assert_that (Event_initialized (sim_heap s event)) ''event->initialized()''
     (assert_that (\<not> inParallelMode s \<or> curEventQueue s = Some q)
        ''!inParallelMode || this == curEventQueue()''
     (rbind (EventQueue_remove q event s)
        (\<lambda>s1. Event_release event
           (upd_flags event (\<lambda>fl. Flags_clear fl Scheduled)
             (upd_flags event (\<lambda>fl. Flags_clear fl Squashed) s1))))))"

definition EventQueue_reschedule ::
  "qptr \<Rightarrow> eptr \<Rightarrow> Tick \<Rightarrow> bool \<Rightarrow> sim_state \<Rightarrow> sim_state result" where
  "EventQueue_reschedule q event when always s =
     assert_that (when \<ge> eq_curTick (sim_queues s q)) ''when >= getCurTick()''
     (assert_that (always \<or> Event_scheduled (sim_heap s event)) ''always || event->scheduled()''
     (assert_that (Event_initialized (sim_heap s event)) ''event->initialized()''
     (assert_that (\<not> inParallelMode s \<or> curEventQueue s = Some q)
        ''!inParallelMode || this == curEventQueue()''
     (rbind (if Event_scheduled (sim_heap s event) then EventQueue_remove q event s
             else Inr (Event_acquire event s))
        (\<lambda>s1. rbind (EventQueue_insert q event
                        (set_heap (upd_ev event (Event_setWhen when q) (sim_heap s1)) s1))
           (\<lambda>s2. Inr (upd_flags event (\<lambda>fl. Flags_set fl Scheduled)
                        (upd_flags event (\<lambda>fl. Flags_clear fl Squashed) s2))))))))"

text \<open>
  \<open>Event::process()\<close> is virtual; the action of each event is the parameter \<open>process\<close>, which
  may change any part of the state or end the simulation.
\<close>

type_synonym process = "eptr \<Rightarrow> sim_state \<Rightarrow> sim_state result"

definition serviceOne_pop :: "qptr \<Rightarrow> eptr \<Rightarrow> sim_state \<Rightarrow> sim_state" where
  "serviceOne_pop q event s =
     (let nxt = nextInBin (sim_heap s event);
          s1 = upd_flags event (\<lambda>fl. Flags_clear fl Scheduled) s
      in case nxt of
           Some n \<Rightarrow>
             set_head q nxt
               (set_heap (upd_ev n (\<lambda>e. e\<lparr>nextBin := nextBin (sim_heap s1 event)\<rparr>)
                            (sim_heap s1)) s1)
         | None \<Rightarrow> set_head q (nextBin (sim_heap s1 event)) s1)"

definition EventQueue_serviceOne ::
  "process \<Rightarrow> qptr \<Rightarrow> sim_state \<Rightarrow> (sim_state \<times> eptr option) result" where
  "EventQueue_serviceOne process q s =
     (case eq_head (sim_queues s q) of
        None \<Rightarrow> Inl (Undefined ''null head'')
      | Some event \<Rightarrow>
          (let s2 = serviceOne_pop q event s in
           if \<not> Event_squashed (sim_heap s2 event) then
             rbind (process event (EventQueue_setCurTick q (ev_when (sim_heap s2 event)) s2))
               (\<lambda>s3. if Event_isExitEvent (sim_heap s3 event) then
                   assert_that (\<not> Flags_isSet (ev_flags (sim_heap s3 event)) Managed \<or>
                                \<not> Flags_isSet (ev_flags (sim_heap s3 event)) IsMainQueue)
                     ''!Managed || !IsMainQueue'' (Inr (s3, Some event))
                 else rbind (Event_release event s3) (\<lambda>s4. Inr (s4, None)))
           else
             rbind (Event_release event
                      (upd_flags event (\<lambda>fl. Flags_clear fl Squashed) s2))
               (\<lambda>s4. Inr (s4, None))))"

partial_function (option) serviceEvents_loop ::
  "process \<Rightarrow> qptr \<Rightarrow> Tick \<Rightarrow> sim_state \<Rightarrow> sim_state result option" where
  "serviceEvents_loop process q when s =
     (if EventQueue_empty q s then Some (Inr s)
      else case EventQueue_nextTick q s of
             Inl e \<Rightarrow> Some (Inl e)
           | Inr t \<Rightarrow>
               if t > when then Some (Inr s)
               else case EventQueue_serviceOne process q s of
                      Inl e \<Rightarrow> Some (Inl e)
                    | Inr r \<Rightarrow> serviceEvents_loop process q when (fst r))"

declare serviceEvents_loop.simps [code]

definition EventQueue_serviceEvents ::
  "process \<Rightarrow> qptr \<Rightarrow> Tick \<Rightarrow> sim_state \<Rightarrow> sim_state result" where
  "EventQueue_serviceEvents process q when s =
     rbind (returned ''serviceEvents'' (serviceEvents_loop process q when s))
       (\<lambda>r. rbind r (\<lambda>s'. Inr (EventQueue_setCurTick q when s')))"

partial_function (option) EventQueue_destroy_loop ::
  "qptr \<Rightarrow> sim_state \<Rightarrow> sim_state result option" where
  "EventQueue_destroy_loop q s =
     (if EventQueue_empty q s then Some (Inr s)
      else case EventQueue_deschedule q (the (eq_head (sim_queues s q))) s of
             Inl e \<Rightarrow> Some (Inl e)
           | Inr s' \<Rightarrow> EventQueue_destroy_loop q s')"

declare EventQueue_destroy_loop.simps [code]

section \<open>Checkpoints\<close>

record event_ckpt =
  ck_when :: Tick
  ck_priority :: "8 word"
  ck_flags :: "16 word"

definition Event_serialize :: "event \<Rightarrow> event_ckpt" where
  "Event_serialize e = \<lparr>ck_when = ev_when e, ck_priority = ev_priority e, ck_flags = ev_flags e\<rparr>"

definition Event_unserialize :: "event_ckpt \<Rightarrow> event \<Rightarrow> event result" where
  "Event_unserialize cp e =
     assert_that (\<not> Event_scheduled e) ''!scheduled()''
       (let e1 = e\<lparr>ev_when := ck_when cp, ev_priority := ck_priority cp\<rparr> in
        assert_that (Event_initialized e1) ''initialized()''
          (let fl = Flags_set (ck_flags cp) Initialized in
           if Flags_isSet fl Scheduled \<and> \<not> Flags_isSet fl Squashed
           then Inr (e1\<lparr>ev_flags := Flags_clear fl (Squashed OR Scheduled)\<rparr>)
           else Inr (e1\<lparr>ev_flags := fl\<rparr>)))"

definition EventQueue_checkpointReschedule :: "qptr \<Rightarrow> eptr \<Rightarrow> sim_state \<Rightarrow> sim_state result" where
  "EventQueue_checkpointReschedule q event s =
     (if Flags_isSet (ev_flags (sim_heap s event)) Scheduled then EventQueue_insert q event s
      else Inr s)"

text \<open>The macro \<open>UNSERIALIZE_EVENT\<close>: restore the event, then offer it to the queue.\<close>

definition UNSERIALIZE_EVENT :: "qptr \<Rightarrow> eptr \<Rightarrow> event_ckpt \<Rightarrow> sim_state \<Rightarrow> sim_state result" where
  "UNSERIALIZE_EVENT q event cp s =
     rbind (Event_unserialize cp (sim_heap s event))
       (\<lambda>e. EventQueue_checkpointReschedule q event
              (set_heap ((sim_heap s)(event := e)) s))"

section \<open>The self-check of the queue\<close>

text \<open>
  \<open>debugVerify\<close> walks every bin. The local \<open>priority\<close> is a \<open>short\<close>, which holds every
  \<open>int8_t\<close>, so it is an \<^typ>\<open>int\<close> here. \<open>Some None\<close> is the early \<open>return false\<close>.
\<close>

partial_function (option) debugVerify_bin ::
  "heap \<Rightarrow> Tick \<Rightarrow> int \<Rightarrow> eptr list \<Rightarrow> eptr option \<Rightarrow> (Tick \<times> int \<times> eptr list) option option" where
  "debugVerify_bin h time prio seen p =
     (if p = None then Some (Some (time, prio, seen))
      else if ev_when (h (the p)) < time then Some None
      else if ev_when (h (the p)) = time \<and> sint (ev_priority (h (the p))) < prio then Some None
      else if the p \<in> set seen then Some None
      else debugVerify_bin h (ev_when (h (the p))) (sint (ev_priority (h (the p))))
             (the p # seen) (nextInBin (h (the p))))"

declare debugVerify_bin.simps [code]

partial_function (option) debugVerify_bins ::
  "heap \<Rightarrow> Tick \<Rightarrow> int \<Rightarrow> eptr list \<Rightarrow> eptr option \<Rightarrow> bool option" where
  "debugVerify_bins h time prio seen p =
     (if p = None then Some True
      else Option.bind (debugVerify_bin h time prio seen p)
             (\<lambda>r. if r = None then Some False
                  else debugVerify_bins h (fst (the r)) (fst (snd (the r))) (snd (snd (the r)))
                         (nextBin (h (the p)))))"

declare debugVerify_bins.simps [code]

definition EventQueue_debugVerify :: "qptr \<Rightarrow> sim_state \<Rightarrow> bool result" where
  "EventQueue_debugVerify q s =
     returned ''debugVerify''
       (debugVerify_bins (sim_heap s) 0 0 [] (eq_head (sim_queues s q)))"

end
