(* ===== verification/Event_Queue_Correct.thy ===== *)
theory Event_Queue_Correct
  imports Event_Queue
begin

text \<open>
  Correctness of the event queue. The pointer structure is related to the list of bins it
  spells out, the bins to one list of events sorted by time and priority, and every queue
  operation is shown to implement its counterpart on that list: insertion in front of the
  events of the same time and priority, removal, removal of the first event.
\<close>

section \<open>Keys\<close>

definition ev_key :: "heap \<Rightarrow> eptr \<Rightarrow> Tick \<times> int" where
  "ev_key h p = (ev_when (h p), sint (ev_priority (h p)))"

lemma Event_less_key: "Event_less (h a) (h b) \<longleftrightarrow> ev_key h a < ev_key h b"
  by (auto simp: Event_less_def ev_key_def less_prod_def')

lemma Event_le_key: "Event_le (h a) (h b) \<longleftrightarrow> ev_key h a \<le> ev_key h b"
  by (auto simp: Event_le_def ev_key_def less_eq_prod_def)

lemma Event_eq_key: "Event_eq (h a) (h b) \<longleftrightarrow> ev_key h a = ev_key h b"
  by (auto simp: Event_eq_def ev_key_def signed_word_eqI)

lemma Event_neq_key: "Event_neq (h a) (h b) \<longleftrightarrow> ev_key h a \<noteq> ev_key h b"
  by (auto simp: Event_neq_def ev_key_def signed_word_eqI)

lemmas Event_order_key = Event_less_key Event_le_key Event_eq_key Event_neq_key

lemma upd_ev_same [simp]: "upd_ev p f h p = f (h p)"
  by (simp add: upd_ev_def)

lemma upd_ev_other [simp]: "x \<noteq> p \<Longrightarrow> upd_ev p f h x = h x"
  by (simp add: upd_ev_def)

lemma ev_key_upd_ev:
  "(\<And>e. ev_when (f e) = ev_when e) \<Longrightarrow> (\<And>e. ev_priority (f e) = ev_priority e) \<Longrightarrow>
   ev_key (upd_ev p f h) = ev_key h"
  by (auto simp: ev_key_def upd_ev_def)

section \<open>The pointer structure\<close>

fun in_bin :: "heap \<Rightarrow> eptr option \<Rightarrow> eptr list \<Rightarrow> bool" where
  "in_bin h p [] = (p = None)"
| "in_bin h p (x # xs) = (p = Some x \<and> in_bin h (nextInBin (h x)) xs)"

text \<open>\<open>bseg h p bs r\<close>: following \<open>nextBin\<close> from \<open>p\<close> visits the bins \<open>bs\<close> and arrives at \<open>r\<close>.\<close>

fun bseg :: "heap \<Rightarrow> eptr option \<Rightarrow> eptr list list \<Rightarrow> eptr option \<Rightarrow> bool" where
  "bseg h p [] r = (p = r)"
| "bseg h p (b # bs) r =
     (b \<noteq> [] \<and> p = Some (hd b) \<and> in_bin h p b \<and> bseg h (nextBin (h (hd b))) bs r)"

lemma in_bin_cong:
  "(\<And>x. x \<in> set xs \<Longrightarrow> nextInBin (h' x) = nextInBin (h x)) \<Longrightarrow> in_bin h' p xs = in_bin h p xs"
  by (induction xs arbitrary: p) auto

lemma bseg_cong:
  "(\<And>x. x \<in> set (concat bs) \<Longrightarrow> nextInBin (h' x) = nextInBin (h x) \<and> nextBin (h' x) = nextBin (h x))
   \<Longrightarrow> bseg h' p bs r = bseg h p bs r"
proof (induction bs arbitrary: p)
  case (Cons b bs)
  have "in_bin h' p b = in_bin h p b"
    using Cons.prems by (intro in_bin_cong) auto
  moreover have "b \<noteq> [] \<Longrightarrow> nextBin (h' (hd b)) = nextBin (h (hd b))"
    using Cons.prems[of "hd b"] by simp
  moreover have "bseg h' q bs r = bseg h q bs r" for q
    using Cons.prems by (intro Cons.IH) auto
  ultimately show ?case by (cases "b = []") simp_all
qed simp

lemma bseg_upd_ev: "p \<notin> set (concat bs) \<Longrightarrow> bseg (upd_ev p f h) q bs r = bseg h q bs r"
  by (rule bseg_cong) (metis upd_ev_other)

lemma bseg_append:
  "bseg h p (as @ bs) r \<longleftrightarrow> (\<exists>q. bseg h p as q \<and> bseg h q bs r)"
  by (induction as arbitrary: p) auto

lemma bseg_last: "bseg h p bs r \<Longrightarrow> bs \<noteq> [] \<Longrightarrow> r = nextBin (h (hd (last bs)))"
  by (induction bs arbitrary: p) auto

lemma bseg_nonempty: "bseg h p bs r \<Longrightarrow> b \<in> set bs \<Longrightarrow> b \<noteq> []"
  by (induction bs arbitrary: p) auto

lemma bseg_redirect:
  assumes "bseg h p bs r" "bs \<noteq> []" "distinct (concat bs)"
  shows "bseg (upd_ev (hd (last bs)) (\<lambda>e. e\<lparr>nextBin := r'\<rparr>) h) p bs r'"
  using assms
proof (induction bs arbitrary: p)
  case (Cons b bs)
  let ?h = "\<lambda>x. upd_ev x (\<lambda>e. e\<lparr>nextBin := r'\<rparr>) h"
  have ib: "in_bin (?h x) p b = in_bin h p b" for x
    by (rule in_bin_cong) (simp add: upd_ev_def)
  show ?case
  proof (cases "bs = []")
    case True
    with Cons.prems show ?thesis using ib[of "hd b"] by auto
  next
    case False
    from Cons.prems(1) False have "last bs \<noteq> []"
      using bseg_nonempty[of h "nextBin (h (hd b))" bs r "last bs"] by simp
    with False have "hd (last bs) \<in> set (concat bs)" by (auto intro: bexI[of _ "last bs"])
    moreover have "hd b \<in> set b" using Cons.prems(1) by simp
    ultimately have "hd b \<noteq> hd (last bs)" using Cons.prems(3) by auto
    with Cons False ib show ?thesis by auto
  qed
qed simp

section \<open>The abstract queue: one list sorted by key\<close>

text \<open>\<open>bins_sorted k bs\<close>: each bin holds events of one key, and the keys increase strictly.\<close>

definition one_key :: "('e \<Rightarrow> 'k) \<Rightarrow> 'e list \<Rightarrow> bool" where
  "one_key k b \<longleftrightarrow> (\<forall>x \<in> set b. k x = k (hd b))"

definition bins_sorted :: "('e \<Rightarrow> 'k::linorder) \<Rightarrow> 'e list list \<Rightarrow> bool" where
  "bins_sorted k bs \<longleftrightarrow>
     (\<forall>b \<in> set bs. b \<noteq> [] \<and> one_key k b) \<and> sorted_wrt (\<lambda>a b. k (hd a) < k (hd b)) bs"

text \<open>The specification of \<open>insert\<close>: in front of every event that is not strictly earlier.\<close>

definition ins_ev :: "('e \<Rightarrow> 'k::linorder) \<Rightarrow> 'e \<Rightarrow> 'e list \<Rightarrow> 'e list" where
  "ins_ev k e l = takeWhile (\<lambda>x. k x < k e) l @ e # dropWhile (\<lambda>x. k x < k e) l"

fun bins_insert :: "('e \<Rightarrow> 'k::linorder) \<Rightarrow> 'e \<Rightarrow> 'e list list \<Rightarrow> 'e list list" where
  "bins_insert k e [] = [[e]]"
| "bins_insert k e (b # bs) =
     (if k e < k (hd b) then [e] # b # bs
      else if k e = k (hd b) then (e # b) # bs
      else b # bins_insert k e bs)"

fun bins_remove :: "'e \<Rightarrow> 'e list list \<Rightarrow> 'e list list" where
  "bins_remove e [] = []"
| "bins_remove e (b # bs) =
     (if e \<in> set b then (if remove1 e b = [] then bs else remove1 e b # bs)
      else b # bins_remove e bs)"

lemma one_keyD: "one_key k b \<Longrightarrow> x \<in> set b \<Longrightarrow> k x = k (hd b)"
  by (simp add: one_key_def)

lemma one_key_single [simp]: "one_key k [x]"
  by (simp add: one_key_def)

lemma one_key_Cons: "one_key k b \<Longrightarrow> k e = k (hd b) \<Longrightarrow> one_key k (e # b)"
  by (auto simp: one_key_def)

lemma hd_remove1_key: "one_key k b \<Longrightarrow> remove1 e b \<noteq> [] \<Longrightarrow> k (hd (remove1 e b)) = k (hd b)"
  by (meson hd_in_set notin_set_remove1 one_keyD)

lemma one_key_remove1: "one_key k b \<Longrightarrow> one_key k (remove1 e b)"
proof (cases "remove1 e b = []")
  case False
  assume "one_key k b"
  from hd_remove1_key[OF this False] one_keyD[OF this] show ?thesis
    by (metis notin_set_remove1 one_key_def)
qed (simp add: one_key_def)

lemma bins_sorted_Nil [simp]: "bins_sorted k []"
  by (simp add: bins_sorted_def)

lemma bins_sorted_Cons:
  "bins_sorted k (b # bs) \<longleftrightarrow>
     b \<noteq> [] \<and> one_key k b \<and> (\<forall>c \<in> set bs. k (hd b) < k (hd c)) \<and> bins_sorted k bs"
  by (auto simp: bins_sorted_def)

lemma bins_sorted_one_key: "bins_sorted k bs \<Longrightarrow> b \<in> set bs \<Longrightarrow> b \<noteq> [] \<and> one_key k b"
  by (simp add: bins_sorted_def)

lemma bins_sorted_later:
  assumes "bins_sorted k (b # bs)" "x \<in> set (concat bs)"
  shows "k (hd b) < k x"
proof -
  from assms(2) obtain c where c: "c \<in> set bs" "x \<in> set c" by auto
  with assms(1) have "k x = k (hd c)"
    by (intro one_keyD) (auto simp: bins_sorted_Cons dest: bins_sorted_one_key)
  with assms(1) c show ?thesis by (simp add: bins_sorted_Cons)
qed

lemma set_bins_insert: "set (concat (bins_insert k e bs)) = insert e (set (concat bs))"
  by (induction bs) auto

lemma hd_bins_insert:
  "c \<in> set (bins_insert k e bs) \<Longrightarrow> k (hd c) = k e \<or> (\<exists>d \<in> set bs. hd c = hd d)"
  by (induction bs) (auto split: if_splits)

lemma bins_sorted_insert: "bins_sorted k bs \<Longrightarrow> bins_sorted k (bins_insert k e bs)"
proof (induction bs)
  case (Cons b bs)
  then have IH: "bins_sorted k (bins_insert k e bs)" by (simp add: bins_sorted_Cons)
  have later: "k (hd b) < k (hd c)" if "c \<in> set (bins_insert k e bs)" "k (hd b) < k e" for c
    using hd_bins_insert[OF that(1)] that(2) Cons.prems by (auto simp: bins_sorted_Cons)
  consider "k e < k (hd b)" | "k e = k (hd b)" | "k (hd b) < k e" by fastforce
  then show ?case
  proof cases
    case 1
    then have "k e < k (hd c)" if "c \<in> set bs" for c
      using Cons.prems that by (auto simp: bins_sorted_Cons)
    with 1 Cons.prems show ?thesis by (simp add: bins_sorted_Cons)
  next
    case 2
    with Cons.prems show ?thesis by (simp add: bins_sorted_Cons one_key_Cons)
  next
    case 3
    then have "\<not> k e < k (hd b)" "k e \<noteq> k (hd b)" by auto
    with Cons.prems IH later[OF _ 3] show ?thesis by (simp add: bins_sorted_Cons)
  qed
qed (simp add: bins_sorted_Cons)

lemma concat_bins_insert:
  "bins_sorted k bs \<Longrightarrow> concat (bins_insert k e bs) = ins_ev k e (concat bs)"
proof (induction bs)
  case (Cons b bs)
  from Cons.prems obtain x xs where b: "b = x # xs" by (cases b) (auto simp: bins_sorted_Cons)
  have tail: "bins_sorted k bs" using Cons.prems by (simp add: bins_sorted_Cons)
  show ?case
  proof (cases "k e \<le> k (hd b)")
    case True
    with b show ?thesis by (auto simp: ins_ev_def)
  next
    case False
    then have gt: "\<not> k e < k (hd b)" "k e \<noteq> k (hd b)" by auto
    have "k y < k e" if "y \<in> set b" for y
      using that False Cons.prems one_keyD[of k b y] by (simp add: bins_sorted_Cons)
    with gt Cons.IH[OF tail] show ?thesis
      by (simp add: ins_ev_def takeWhile_append2 dropWhile_append2)
  qed
qed (simp add: ins_ev_def)

lemma concat_bins_remove: "concat (bins_remove e bs) = remove1 e (concat bs)"
  by (induction bs) (auto simp: remove1_append)

lemma hd_bins_remove:
  "bins_sorted k bs \<Longrightarrow> c \<in> set (bins_remove e bs) \<Longrightarrow> \<exists>d \<in> set bs. k (hd c) = k (hd d)"
  by (induction bs) (auto simp: bins_sorted_Cons hd_remove1_key split: if_splits)

lemma bins_sorted_remove: "bins_sorted k bs \<Longrightarrow> bins_sorted k (bins_remove e bs)"
proof (induction bs)
  case (Cons b bs)
  then have IH: "bins_sorted k (bins_remove e bs)" by (simp add: bins_sorted_Cons)
  have "k (hd b) < k (hd c)" if "c \<in> set (bins_remove e bs)" for c
  proof -
    have "bins_sorted k bs" using Cons.prems by (simp add: bins_sorted_Cons)
    from hd_bins_remove[OF this that] Cons.prems show ?thesis by (auto simp: bins_sorted_Cons)
  qed
  with IH Cons.prems show ?case
    by (simp add: bins_sorted_Cons hd_remove1_key one_key_remove1)
qed simp

lemma sorted_one_key: "one_key k b \<Longrightarrow> sorted (map k b)"
proof -
  assume "one_key k b"
  then have "\<forall>v \<in> set (map k b). v = k (hd b)" by (auto dest: one_keyD)
  then have "map k b = replicate (length b) (k (hd b))"
    by (metis length_map replicate_eqI)
  then show ?thesis by simp
qed

lemma sorted_concat_bins: "bins_sorted k bs \<Longrightarrow> sorted (map k (concat bs))"
proof (induction bs)
  case (Cons b bs)
  then have b: "sorted (map k b)" and t: "sorted (map k (concat bs))"
    by (simp_all add: bins_sorted_Cons sorted_one_key)
  have "k x \<le> k y" if "x \<in> set b" "y \<in> set (concat bs)" for x y
    using bins_sorted_later[OF Cons.prems that(2)] one_keyD[of k b x] that(1) Cons.prems
    by (simp add: bins_sorted_Cons)
  with b t show ?case by (auto simp: sorted_append)
qed simp

section \<open>Insertion and removal on the pointer structure\<close>

text \<open>Queue operations change the two link fields of events and nothing else.\<close>

definition links_only :: "heap \<Rightarrow> heap \<Rightarrow> bool" where
  "links_only h h' \<longleftrightarrow> (\<forall>x. ev_when (h' x) = ev_when (h x) \<and> ev_priority (h' x) = ev_priority (h x) \<and>
     ev_flags (h' x) = ev_flags (h x) \<and> ev_queue (h' x) = ev_queue (h x))"

lemma links_only_refl [simp]: "links_only h h"
  by (simp add: links_only_def)

lemma links_only_trans: "links_only h h1 \<Longrightarrow> links_only h1 h2 \<Longrightarrow> links_only h h2"
  by (simp add: links_only_def)

lemma links_only_nextBin [simp]: "links_only h (upd_ev p (\<lambda>e. e\<lparr>nextBin := q\<rparr>) h)"
  by (simp add: links_only_def upd_ev_def)

lemma links_only_nextInBin [simp]: "links_only h (upd_ev p (\<lambda>e. e\<lparr>nextInBin := q\<rparr>) h)"
  by (simp add: links_only_def upd_ev_def)

lemma links_only_both [simp]: "links_only h (upd_ev p (\<lambda>e. e\<lparr>nextBin := q, nextInBin := r\<rparr>) h)"
  by (simp add: links_only_def upd_ev_def)

lemma links_only_key: "links_only h h' \<Longrightarrow> ev_key h' = ev_key h"
  by (auto simp: links_only_def ev_key_def)

definition bin_ptr :: "eptr list list \<Rightarrow> eptr option" where
  "bin_ptr bs = (case bs of [] \<Rightarrow> None | b # _ \<Rightarrow> Some (hd b))"

lemma bin_ptr_simps [simp]: "bin_ptr [] = None" "bin_ptr (b # bs) = Some (hd b)"
  by (simp_all add: bin_ptr_def)

lemma bseg_None_ptr: "bseg h p bs None \<Longrightarrow> p = bin_ptr bs"
  by (cases bs) auto

definition ins_here :: "('e \<Rightarrow> 'k::linorder) \<Rightarrow> 'e \<Rightarrow> 'e list list \<Rightarrow> 'e list list" where
  "ins_here k e bs = (case bs of [] \<Rightarrow> [[e]]
     | c # cs \<Rightarrow> if k e < k (hd c) then [e] # c # cs else (e # c) # cs)"

lemma bins_insert_split:
  "bins_insert k e bs =
     takeWhile (\<lambda>c. k (hd c) < k e) bs @ ins_here k e (dropWhile (\<lambda>c. k (hd c) < k e) bs)"
  by (induction bs) (auto simp: ins_here_def)

lemma seek_bin_bins:
  "bseg h (nextBin (h p)) bs None \<Longrightarrow>
   seek_bin h e p (nextBin (h p)) =
     Some (if takeWhile (\<lambda>c. ev_key h (hd c) < ev_key h e) bs = [] then p
           else hd (last (takeWhile (\<lambda>c. ev_key h (hd c) < ev_key h e) bs)),
           bin_ptr (dropWhile (\<lambda>c. ev_key h (hd c) < ev_key h e) bs))"
proof (induction bs arbitrary: p)
  case Nil
  then show ?case by (simp add: seek_bin.simps[of h e p])
next
  case (Cons b bs)
  then have hb: "nextBin (h p) = Some (hd b)" and seg: "bseg h (nextBin (h (hd b))) bs None"
    by auto
  show ?case
  proof (cases "ev_key h (hd b) < ev_key h e")
    case True
    then show ?thesis
      using Cons.IH[OF seg] by (auto simp: seek_bin.simps[of h e p] hb Event_less_key)
  next
    case False
    then show ?thesis by (simp add: seek_bin.simps[of h e p] hb Event_less_key)
  qed
qed

lemma insertBefore_bins:
  assumes seg: "bseg h p bs None" and fresh: "e \<notin> set (concat bs)"
  shows "\<exists>h'. Event_insertBefore h e p = (h', e) \<and>
     bseg h' (Some e) (ins_here (ev_key h) e bs) None \<and> (\<forall>y. y \<noteq> e \<longrightarrow> h' y = h y) \<and> links_only h h'"
proof -
  have fr: "bseg (upd_ev e f h) q cs r = bseg h q cs r" if "set (concat cs) \<subseteq> set (concat bs)" for f q cs r
    using fresh that by (intro bseg_cong) (metis subsetD upd_ev_other)
  show ?thesis
  proof (cases bs)
    case Nil
    with seg show ?thesis by (auto simp: Event_insertBefore_def ins_here_def)
  next
    case (Cons c cs)
    with seg have p: "p = Some (hd c)" by simp
    show ?thesis
    proof (cases "ev_key h e < ev_key h (hd c)")
      case True
      with Cons p seg fr[of bs] show ?thesis
        by (auto simp: Event_insertBefore_def ins_here_def Event_less_key)
    next
      case False
      let ?h = "upd_ev e (\<lambda>ev. ev\<lparr>nextBin := nextBin (h (hd c)), nextInBin := Some (hd c)\<rparr>) h"
      have "in_bin ?h (Some (hd c)) c = in_bin h (Some (hd c)) c"
        using fresh Cons by (intro in_bin_cong) (metis UnCI concat.simps(2) set_append upd_ev_other)
      with Cons p seg False fr[of cs] show ?thesis
        by (auto simp: Event_insertBefore_def ins_here_def Event_less_key)
    qed
  qed
qed

definition queue_bins :: "heap \<Rightarrow> eptr option \<Rightarrow> eptr list list \<Rightarrow> bool" where
  "queue_bins h p bs \<longleftrightarrow> bseg h p bs None \<and> bins_sorted (ev_key h) bs \<and> distinct (concat bs)"

text \<open>\<open>queue_step q s s'\<close>: only links and the head of queue \<open>q\<close> differ.\<close>

definition queue_step :: "qptr \<Rightarrow> sim_state \<Rightarrow> sim_state \<Rightarrow> bool" where
  "queue_step q s s' \<longleftrightarrow> (\<exists>h p. s' = set_head q p (set_heap h s) \<and> links_only (sim_heap s) h)"

lemma set_head_same: "eq_head (sim_queues s q) = p \<Longrightarrow> set_head q p s = s"
  by (auto simp: set_head_def)

lemma set_head_simps [simp]:
  "sim_heap (set_head q p s) = sim_heap s"
  "eq_head (sim_queues (set_head q p s) q) = p"
  "q' \<noteq> q \<Longrightarrow> sim_queues (set_head q p s) q' = sim_queues s q'"
  "eq_curTick (sim_queues (set_head q p s) q') = eq_curTick (sim_queues s q')"
  "async_queue (sim_queues (set_head q p s) q') = async_queue (sim_queues s q')"
  "objName (sim_queues (set_head q p s) q') = objName (sim_queues s q')"
  "inParallelMode (set_head q p s) = inParallelMode s"
  "curEventQueue (set_head q p s) = curEventQueue s"
  "deleted (set_head q p s) = deleted s"
  by (auto simp: set_head_def)

lemma set_heap_simps [simp]:
  "sim_heap (set_heap h s) = h"
  "sim_queues (set_heap h s) = sim_queues s"
  "inParallelMode (set_heap h s) = inParallelMode s"
  "curEventQueue (set_heap h s) = curEventQueue s"
  "deleted (set_heap h s) = deleted s"
  by (auto simp: set_heap_def)

lemma queue_stepD:
  assumes "queue_step q s s'"
  shows "links_only (sim_heap s) (sim_heap s')" "ev_key (sim_heap s') = ev_key (sim_heap s)"
    "eq_curTick (sim_queues s' q') = eq_curTick (sim_queues s q')"
    "async_queue (sim_queues s' q') = async_queue (sim_queues s q')"
    "inParallelMode s' = inParallelMode s" "curEventQueue s' = curEventQueue s"
    "deleted s' = deleted s"
  using assms by (auto simp: queue_step_def dest: links_only_key)

lemma queue_stepI_heap: "links_only (sim_heap s) h \<Longrightarrow> queue_step q s (set_heap h s)"
  unfolding queue_step_def
  by (intro exI[of _ h] exI[of _ "eq_head (sim_queues s q)"]) (simp add: set_head_same)

lemma queue_stepI_head: "links_only (sim_heap s) h \<Longrightarrow> queue_step q s (set_head q p (set_heap h s))"
  by (auto simp: queue_step_def)

lemma distinct_concat_insert:
  "distinct (concat bs) \<Longrightarrow> e \<notin> set (concat bs) \<Longrightarrow> distinct (concat (bins_insert k e bs))"
  by (induction bs) (auto simp: set_bins_insert[simplified])

lemma bseg_splice:
  assumes A: "bseg h p A r" "A \<noteq> []" "distinct (concat A)"
    and B: "bseg h' r' B None"
    and h': "\<And>y. y \<in> set (concat A) \<Longrightarrow> h' y = h y"
    and disj: "set (concat A) \<inter> set (concat B) = {}"
  shows "bseg (upd_ev (hd (last A)) (\<lambda>ev. ev\<lparr>nextBin := r'\<rparr>) h') p (A @ B) None"
proof -
  let ?h = "upd_ev (hd (last A)) (\<lambda>ev. ev\<lparr>nextBin := r'\<rparr>) h'"
  have "bseg h' p A r = bseg h p A r"
    using h' by (intro bseg_cong) simp
  with A have "bseg ?h p A r'" by (auto intro: bseg_redirect)
  moreover have "hd (last A) \<in> set (concat A)"
    using A bseg_nonempty[OF A(1), of "last A"] by (auto intro: bexI[of _ "last A"])
  with disj have "bseg ?h r' B None = bseg h' r' B None"
    by (intro bseg_cong) (metis disjoint_iff upd_ev_other)
  ultimately show ?thesis using B by (auto simp: bseg_append)
qed

lemma set_ins_here: "set (concat (ins_here k e bs)) = insert e (set (concat bs))"
  by (auto simp: ins_here_def split: list.splits)

lemma EventQueue_insert_bins:
  assumes Q: "queue_bins (sim_heap s) (eq_head (sim_queues s q)) bs" and fresh: "e \<notin> set (concat bs)"
  shows "\<exists>s'. EventQueue_insert q e s = Inr s' \<and> queue_step q s s' \<and>
    queue_bins (sim_heap s') (eq_head (sim_queues s' q)) (bins_insert (ev_key (sim_heap s)) e bs)"
proof -
  let ?h = "sim_heap s" and ?k = "ev_key (sim_heap s)"
  let ?P = "\<lambda>c. ?k (hd c) < ?k e"
  have seg: "bseg ?h (eq_head (sim_queues s q)) bs None" and srt: "bins_sorted ?k bs"
    and dist: "distinct (concat bs)"
    using Q by (auto simp: queue_bins_def)
  have fin: "queue_bins h' p (bins_insert ?k e bs)"
    if "bseg h' p (bins_insert ?k e bs) None" "links_only ?h h'" for h' p
    using that srt dist fresh
    by (simp add: queue_bins_def links_only_key bins_sorted_insert distinct_concat_insert)
  show ?thesis
  proof (cases "takeWhile ?P bs = []")
    case True
    then have drop: "dropWhile ?P bs = bs" by (cases bs) (auto split: if_splits)
    with True have ins: "bins_insert ?k e bs = ins_here ?k e bs" by (simp add: bins_insert_split)
    obtain h' where h': "Event_insertBefore ?h e (eq_head (sim_queues s q)) = (h', e)"
      "bseg h' (Some e) (ins_here ?k e bs) None" "links_only ?h h'"
      using insertBefore_bins[OF seg fresh] by blast
    have "EventQueue_insert q e s = Inr (set_head q (Some e) (set_heap h' s))"
    proof (cases bs)
      case Nil
      with seg h'(1) show ?thesis by (simp add: EventQueue_insert_def)
    next
      case (Cons b cs)
      with True have "?k e \<le> ?k (hd b)" by (auto split: if_splits)
      with Cons seg h'(1) show ?thesis by (simp add: EventQueue_insert_def Event_le_key)
    qed
    with h' ins fin show ?thesis by (auto intro: queue_stepI_head)
  next
    case False
    then obtain b cs where bs: "bs = b # cs" by (cases bs) auto
    with False have lt: "?k (hd b) < ?k e" by (auto split: if_splits)
    let ?A = "takeWhile ?P bs" and ?B = "dropWhile ?P bs"
    have hd: "eq_head (sim_queues s q) = Some (hd b)" and segc: "bseg ?h (nextBin (?h (hd b))) cs None"
      using seg bs by auto
    obtain r where A: "bseg ?h (Some (hd b)) ?A r" and B: "bseg ?h r ?B None"
      using seg hd bseg_append[of ?h "Some (hd b)" ?A ?B None] by auto
    have conc: "concat bs = concat ?A @ concat ?B"
      by (metis concat_append takeWhile_dropWhile_id)
    have freshB: "e \<notin> set (concat ?B)" using fresh conc by (metis UnCI set_append)
    obtain h' where h': "Event_insertBefore ?h e r = (h', e)"
      "bseg h' (Some e) (ins_here ?k e ?B) None" "\<And>y. y \<noteq> e \<Longrightarrow> h' y = ?h y" "links_only ?h h'"
      using insertBefore_bins[OF B freshB] by blast
    let ?h2 = "upd_ev (hd (last ?A)) (\<lambda>ev. ev\<lparr>nextBin := Some e\<rparr>) h'"
    have "seek_bin ?h e (hd b) (nextBin (?h (hd b))) = Some (hd (last ?A), r)"
      using seek_bin_bins[OF segc, of e] lt bs bseg_None_ptr[OF B] by auto
    then have run: "EventQueue_insert q e s = Inr (set_heap ?h2 s)"
      using hd lt[THEN not_le[THEN iffD2]] h'(1) by (simp add: EventQueue_insert_def Event_le_key Let_def)
    have disj: "set (concat ?A) \<inter> set (concat (ins_here ?k e ?B)) = {}"
      unfolding set_ins_here using dist fresh conc by (metis Int_insert_right distinct_append set_append UnCI)
    have "bseg ?h2 (Some (hd b)) (?A @ ins_here ?k e ?B) None"
    proof (rule bseg_splice[OF A _ _ h'(2)])
      show "h' y = ?h y" if "y \<in> set (concat ?A)" for y
        using that fresh conc h'(3) by (metis UnCI set_append)
      show "distinct (concat ?A)" using dist conc by (metis distinct_append)
    qed (use False disj in auto)
    then have "bseg ?h2 (Some (hd b)) (bins_insert ?k e bs) None" by (simp add: bins_insert_split)
    moreover have "links_only ?h ?h2" using h'(4) by (rule links_only_trans) simp
    ultimately show ?thesis using run fin hd by (auto intro!: queue_stepI_heap)
  qed
qed


text \<open>Removal from one bin: the loop stops at the predecessor of the event.\<close>

lemma removeItem_loop_found:
  "in_bin h nxt (us @ e # vs) \<Longrightarrow> e \<notin> set us \<Longrightarrow>
   Event_removeItem_loop h e c nxt = Some (Some (last (c # us), e))"
proof (induction us arbitrary: c nxt)
  case Nil
  then show ?case by (simp add: Event_removeItem_loop.simps[of h e c])
next
  case (Cons u us)
  then show ?case by (auto simp: Event_removeItem_loop.simps[of h e c])
qed

lemma in_bin_bypass:
  assumes "in_bin h p (us @ e # vs)" "us \<noteq> []" "distinct us" "set us \<inter> set vs = {}"
  shows "in_bin (upd_ev (last us) (\<lambda>ev. ev\<lparr>nextInBin := nextInBin (h e)\<rparr>) h) p (us @ vs)"
  using assms
proof (induction us arbitrary: p)
  case (Cons u us)
  let ?h = "\<lambda>x. upd_ev x (\<lambda>ev. ev\<lparr>nextInBin := nextInBin (h e)\<rparr>) h"
  show ?case
  proof (cases "us = []")
    case True
    have "in_bin (?h u) (nextInBin (h e)) vs = in_bin h (nextInBin (h e)) vs"
      using Cons.prems True by (intro in_bin_cong) (metis disjoint_iff list.set_intros(1) upd_ev_other)
    with True Cons.prems show ?thesis by simp
  next
    case False
    with Cons.prems have "u \<noteq> last us" by auto
    with False Cons show ?thesis by auto
  qed
qed simp

lemma removeItem_bin:
  assumes ib: "in_bin h (Some (hd c)) c" and e: "e \<in> set c" and dist: "distinct (c @ concat bs)"
    and seg: "bseg h (nextBin (h (hd c))) bs None"
  shows "\<exists>h' p. Event_removeItem h e (hd c) = Inr (h', p) \<and>
    bseg h' p (if remove1 e c = [] then bs else remove1 e c # bs) None \<and>
    (\<forall>y. y \<notin> set c \<longrightarrow> h' y = h y) \<and> links_only h h'"
proof -
  obtain us vs where c: "c = us @ e # vs" and us: "e \<notin> set us"
    using e by (meson split_list_first)
  then have rem: "remove1 e c = us @ vs" by (simp add: remove1_append)
  show ?thesis
  proof (cases us)
    case Nil
    show ?thesis
    proof (cases vs)
      case Nil
      with \<open>us = []\<close> c ib seg rem show ?thesis by (simp add: Event_removeItem_def)
    next
      case (Cons v ws)
      let ?h = "upd_ev v (\<lambda>ev. ev\<lparr>nextBin := nextBin (h e)\<rparr>) h"
      have "v \<notin> set (concat bs)" using dist c Cons by auto
      then have "bseg ?h r bs None = bseg h r bs None" for r
        by (rule bseg_upd_ev)
      moreover have "in_bin ?h r vs = in_bin h r vs" for r
        by (rule in_bin_cong) (simp add: upd_ev_def)
      ultimately show ?thesis
        using \<open>us = []\<close> Cons c ib seg rem by (auto simp: Event_removeItem_def)
    qed
  next
    case (Cons u ws)
    let ?h = "upd_ev (last us) (\<lambda>ev. ev\<lparr>nextInBin := nextInBin (h e)\<rparr>) h"
    have hdc: "hd c = u" and neq: "e \<noteq> u" using c Cons us by auto
    have loop: "Event_removeItem_loop h e u (nextInBin (h u)) = Some (Some (last us, e))"
      using removeItem_loop_found[of h "nextInBin (h u)" ws e vs u] ib c Cons us by auto
    have b': "in_bin ?h (Some u) (us @ vs)"
    proof (rule in_bin_bypass)
      show "in_bin h (Some u) (us @ e # vs)" using ib c hdc by simp
    qed (use c Cons dist in auto)
    have "last us \<in> set us" using Cons by simp
    then have "last us \<notin> set (concat bs)" using dist c by auto
    then have "bseg ?h r bs None = bseg h r bs None" for r
      by (rule bseg_upd_ev)
    moreover have "nextBin (?h u) = nextBin (h u)" by (simp add: upd_ev_def)
    ultimately have "bseg ?h (Some u) ((us @ vs) # bs) None"
      using b' seg hdc Cons by auto
    moreover have "\<forall>y. y \<notin> set c \<longrightarrow> ?h y = h y"
      using \<open>last us \<in> set us\<close> c by (metis UnCI set_append upd_ev_other)
    moreover have "Event_removeItem h e (hd c) = Inr (?h, Some u)"
      using loop neq by (simp add: Event_removeItem_def hdc)
    ultimately show ?thesis using rem Cons by auto
  qed
qed

lemma bins_remove_split:
  "(\<forall>a \<in> set A. e \<notin> set a) \<Longrightarrow> e \<in> set c \<Longrightarrow>
   bins_remove e (A @ c # C) = A @ (if remove1 e c = [] then C else remove1 e c # C)"
  by (induction A) auto

lemma bins_sorted_split:
  assumes "bins_sorted k (A @ c # C)"
  shows "\<forall>a \<in> set A. k (hd a) < k (hd c)" "c \<noteq> []" "one_key k c"
  using assms by (auto simp: bins_sorted_def sorted_wrt_append)

lemma EventQueue_remove_bins:
  assumes Q: "queue_bins (sim_heap s) (eq_head (sim_queues s q)) bs" and e: "e \<in> set (concat bs)"
    and owner: "ev_queue (sim_heap s e) = Some q"
  shows "\<exists>s'. EventQueue_remove q e s = Inr s' \<and> queue_step q s s' \<and>
    queue_bins (sim_heap s') (eq_head (sim_queues s' q)) (bins_remove e bs)"
proof -
  let ?h = "sim_heap s" and ?k = "ev_key (sim_heap s)"
  let ?P = "\<lambda>b. ?k (hd b) < ?k e"
  have seg: "bseg ?h (eq_head (sim_queues s q)) bs None" and srt: "bins_sorted ?k bs"
    and dist: "distinct (concat bs)"
    using Q by (auto simp: queue_bins_def)
  have fin: "queue_bins h' p (bins_remove e bs)"
    if "bseg h' p (bins_remove e bs) None" "links_only ?h h'" for h' p
    using that srt dist
    by (simp add: queue_bins_def links_only_key bins_sorted_remove concat_bins_remove)
  obtain A c C where bs: "bs = A @ c # C" and ec: "e \<in> set c" using e by (auto dest: split_list)
  have before: "\<forall>a \<in> set A. ?k (hd a) < ?k (hd c)" and kc: "?k e = ?k (hd c)"
    using bins_sorted_split[of ?k A c C] srt bs one_keyD[OF _ ec] by auto
  have rem: "bins_remove e bs = A @ (if remove1 e c = [] then C else remove1 e c # C)" (is "_ = A @ ?B")
    unfolding bs by (rule bins_remove_split) (use dist ec bs in auto)
  obtain r where A: "bseg ?h (eq_head (sim_queues s q)) A r" and B: "bseg ?h r (c # C) None"
    using seg bs by (auto simp only: bseg_append)
  have dc: "distinct (c @ concat C)" using dist bs by simp
  obtain h' p where h': "Event_removeItem ?h e (hd c) = Inr (h', p)" "bseg h' p ?B None"
    "\<And>y. y \<notin> set c \<Longrightarrow> h' y = ?h y" "links_only ?h h'"
    using removeItem_bin[OF _ ec dc, of ?h] B by (metis bseg.simps(2))
  show ?thesis
  proof (cases A)
    case Nil
    then have "EventQueue_remove q e s = Inr (set_head q p (set_heap h' s))"
      using A B owner h'(1) kc by (simp add: EventQueue_remove_def Event_eq_key)
    with h' fin rem Nil show ?thesis by (auto intro: queue_stepI_head)
  next
    case (Cons b as)
    have hd: "eq_head (sim_queues s q) = Some (hd b)" and segc: "bseg ?h (nextBin (?h (hd b))) (as @ c # C) None"
      using seg bs Cons by auto
    have neq: "?k (hd b) \<noteq> ?k e" using before Cons kc by auto
    have tw: "takeWhile ?P (as @ c # C) = as" "dropWhile ?P (as @ c # C) = c # C"
      using before kc Cons by (simp_all add: takeWhile_append2 dropWhile_append2)
    have "seek_bin ?h e (hd b) (nextBin (?h (hd b))) = Some (hd (last A), Some (hd c))"
      using seek_bin_bins[OF segc, of e] tw Cons by simp
    then have run: "EventQueue_remove q e s =
        Inr (set_heap (upd_ev (hd (last A)) (\<lambda>ev. ev\<lparr>nextBin := p\<rparr>) h') s)"
      using hd owner neq h'(1) kc by (simp add: EventQueue_remove_def Event_eq_key Event_neq_key)
    have "set (concat ?B) \<subseteq> set (concat (c # C))" by (auto dest: notin_set_remove1)
    then have disj: "set (concat A) \<inter> set (concat ?B) = {}" using dist bs by fastforce
    have "bseg (upd_ev (hd (last A)) (\<lambda>ev. ev\<lparr>nextBin := p\<rparr>) h') (eq_head (sim_queues s q)) (A @ ?B) None"
    proof (rule bseg_splice[OF A _ _ h'(2)])
      show "h' y = ?h y" if "y \<in> set (concat A)" for y
        using that dist bs by (intro h'(3)) auto
    qed (use Cons dist bs disj in auto)
    moreover have "links_only ?h (upd_ev (hd (last A)) (\<lambda>ev. ev\<lparr>nextBin := p\<rparr>) h')"
      using h'(4) by (rule links_only_trans) simp
    ultimately show ?thesis using run fin rem by (auto intro!: queue_stepI_heap)
  qed
qed

section \<open>The interface of a timed queue\<close>

text \<open>
  What the simulator relies on: the queue represents a list sorted by key without
  duplicates, insertion puts an event in front of all events that are not strictly earlier,
  removal takes one event out, and neither disturbs the keys.
\<close>

locale timed_queue =
  fixes rep :: "'s \<Rightarrow> 'e list \<Rightarrow> bool"
    and key :: "'s \<Rightarrow> 'e \<Rightarrow> 'k::linorder"
    and owned :: "'s \<Rightarrow> 'e \<Rightarrow> bool"
    and ins :: "'e \<Rightarrow> 's \<Rightarrow> 's result"
    and rem :: "'e \<Rightarrow> 's \<Rightarrow> 's result"
  assumes rep_sorted: "rep s l \<Longrightarrow> sorted (map (key s) l)"
    and rep_distinct: "rep s l \<Longrightarrow> distinct l"
    and ins_law: "rep s l \<Longrightarrow> e \<notin> set l \<Longrightarrow> owned s e \<Longrightarrow>
      \<exists>s'. ins e s = Inr s' \<and> rep s' (ins_ev (key s) e l) \<and> key s' = key s \<and> owned s' = owned s"
    and rem_law: "rep s l \<Longrightarrow> e \<in> set l \<Longrightarrow> owned s e \<Longrightarrow>
      \<exists>s'. rem e s = Inr s' \<and> rep s' (remove1 e l) \<and> key s' = key s \<and> owned s' = owned s"
begin

lemma ins_then_rem:
  assumes "rep s l" "e \<notin> set l" "owned s e"
  shows "\<exists>s1 s2. ins e s = Inr s1 \<and> rem e s1 = Inr s2 \<and> rep s2 l \<and> key s2 = key s"
proof -
  from ins_law[OF assms] obtain s1 where s1: "ins e s = Inr s1" "rep s1 (ins_ev (key s) e l)"
    "key s1 = key s" "owned s1 = owned s" by blast
  have "e \<in> set (ins_ev (key s) e l)" by (simp add: ins_ev_def)
  moreover have "remove1 e (ins_ev (key s) e l) = l"
    using assms(2) by (auto simp: ins_ev_def remove1_append dest: set_takeWhileD)
  ultimately show ?thesis using rem_law[OF s1(2), of e] s1 assms(3) by auto
qed

lemma earliest_first:
  "rep s (e # l) \<Longrightarrow> x \<in> set l \<Longrightarrow> key s e \<le> key s x"
  using rep_sorted[of s "e # l"] by simp

end

section \<open>The event queue implements it\<close>

definition queue_rep :: "qptr \<Rightarrow> sim_state \<Rightarrow> eptr list \<Rightarrow> bool" where
  "queue_rep q s l \<longleftrightarrow>
     (\<exists>bs. queue_bins (sim_heap s) (eq_head (sim_queues s q)) bs \<and> l = concat bs)"

definition owned_by :: "qptr \<Rightarrow> sim_state \<Rightarrow> eptr \<Rightarrow> bool" where
  "owned_by q s e \<longleftrightarrow> ev_queue (sim_heap s e) = Some q"

abbreviation sim_key :: "sim_state \<Rightarrow> eptr \<Rightarrow> Tick \<times> int" where
  "sim_key s \<equiv> ev_key (sim_heap s)"

lemma queue_step_owned: "queue_step q s s' \<Longrightarrow> owned_by q' s' = owned_by q' s"
  by (auto simp: owned_by_def fun_eq_iff links_only_def dest!: queue_stepD(1))

lemma queue_rep_insert:
  assumes "queue_rep q s l" "e \<notin> set l"
  shows "\<exists>s'. EventQueue_insert q e s = Inr s' \<and> queue_step q s s' \<and> queue_rep q s' (ins_ev (sim_key s) e l)"
proof -
  from assms(1) obtain bs where bs: "queue_bins (sim_heap s) (eq_head (sim_queues s q)) bs" "l = concat bs"
    by (auto simp: queue_rep_def)
  then have "concat (bins_insert (sim_key s) e bs) = ins_ev (sim_key s) e l"
    by (simp add: queue_bins_def concat_bins_insert)
  with EventQueue_insert_bins[OF bs(1)] bs(2) assms(2) show ?thesis
    unfolding queue_rep_def by metis
qed

lemma queue_rep_remove:
  assumes "queue_rep q s l" "e \<in> set l" "owned_by q s e"
  shows "\<exists>s'. EventQueue_remove q e s = Inr s' \<and> queue_step q s s' \<and> queue_rep q s' (remove1 e l)"
proof -
  from assms(1) obtain bs where bs: "queue_bins (sim_heap s) (eq_head (sim_queues s q)) bs" "l = concat bs"
    by (auto simp: queue_rep_def)
  with EventQueue_remove_bins[OF bs(1), of e] assms(2,3) show ?thesis
    unfolding queue_rep_def owned_by_def by (metis concat_bins_remove)
qed

lemma queue_rep_sorted: "queue_rep q s l \<Longrightarrow> sorted (map (sim_key s) l)"
  by (auto simp: queue_rep_def queue_bins_def intro: sorted_concat_bins)

lemma queue_rep_distinct: "queue_rep q s l \<Longrightarrow> distinct l"
  by (auto simp: queue_rep_def queue_bins_def)

interpretation evq: timed_queue "queue_rep q" sim_key "owned_by q" "EventQueue_insert q" "EventQueue_remove q"
proof unfold_locales
  show "\<exists>s'. EventQueue_insert q e s = Inr s' \<and> queue_rep q s' (ins_ev (sim_key s) e l) \<and>
      sim_key s' = sim_key s \<and> owned_by q s' = owned_by q s"
    if "queue_rep q s l" "e \<notin> set l" "owned_by q s e" for s l e
    using queue_rep_insert[OF that(1,2)] by (metis queue_stepD(2) queue_step_owned)
  show "\<exists>s'. EventQueue_remove q e s = Inr s' \<and> queue_rep q s' (remove1 e l) \<and>
      sim_key s' = sim_key s \<and> owned_by q s' = owned_by q s"
    if "queue_rep q s l" "e \<in> set l" "owned_by q s e" for s l e
    using queue_rep_remove[OF that] by (metis queue_stepD(2) queue_step_owned)
qed (auto intro: queue_rep_sorted queue_rep_distinct)

section \<open>Scheduling, descheduling and service keep the queue well-formed\<close>

lemma Flags_algebra [simp]:
  "Flags_isSet (Flags_set fl Scheduled) Scheduled"
  "\<not> Flags_isSet (Flags_clear fl Scheduled) Scheduled"
  "\<not> Flags_isSet (Flags_clear fl Squashed) Squashed"
  "Flags_isSet (Flags_clear fl Squashed) Scheduled = Flags_isSet fl Scheduled"
  "Flags_isSet (Flags_clear fl Scheduled) Squashed = Flags_isSet fl Squashed"
  "Flags_isSet (Flags_set fl Scheduled) Squashed = Flags_isSet fl Squashed"
  "Flags_isSet (Flags_clear fl Scheduled) Managed = Flags_isSet fl Managed"
  "Flags_isSet (Flags_clear fl Squashed) Managed = Flags_isSet fl Managed"
  "Flags_set fl Scheduled AND InitMask = fl AND InitMask"
  "Flags_clear fl Scheduled AND InitMask = fl AND InitMask"
  "Flags_clear fl Squashed AND InitMask = fl AND InitMask"
  by (simp_all add: Flags_isSet_def Flags_set_def Flags_clear_def bit.conj_disj_distrib2 and.assoc)

lemma bins_sorted_cong:
  assumes "\<And>x. x \<in> set (concat bs) \<Longrightarrow> k' x = k x"
  shows "bins_sorted k' bs = bins_sorted k bs"
  using assms
proof (induction bs)
  case (Cons b bs)
  then have IH: "bins_sorted k' bs = bins_sorted k bs" and b: "\<And>x. x \<in> set b \<Longrightarrow> k' x = k x"
    by auto
  show ?case
  proof (cases "b = [] \<or> \<not> bins_sorted k bs")
    case True
    with IH show ?thesis by (auto simp: bins_sorted_Cons)
  next
    case False
    then have "one_key k' b = one_key k b" and hb: "k' (hd b) = k (hd b)"
      using b by (auto simp: one_key_def)
    moreover have "k' (hd c) = k (hd c)" if "c \<in> set bs" for c
    proof (rule Cons.prems)
      have "c \<noteq> []" using False that bins_sorted_one_key by blast
      with that show "hd c \<in> set (concat (b # bs))" by (auto intro: bexI[of _ c])
    qed
    ultimately show ?thesis using IH by (simp add: bins_sorted_Cons)
  qed
qed simp

lemma queue_rep_cong:
  assumes "queue_rep q s l" "eq_head (sim_queues s' q) = eq_head (sim_queues s q)"
    and same: "\<And>x. x \<in> set l \<Longrightarrow> nextBin (sim_heap s' x) = nextBin (sim_heap s x) \<and>
      nextInBin (sim_heap s' x) = nextInBin (sim_heap s x) \<and> sim_key s' x = sim_key s x"
  shows "queue_rep q s' l"
proof -
  from assms(1) obtain bs where bs: "queue_bins (sim_heap s) (eq_head (sim_queues s q)) bs" "l = concat bs"
    by (auto simp: queue_rep_def)
  have "bseg (sim_heap s') p bs None = bseg (sim_heap s) p bs None" for p
    using same bs(2) by (intro bseg_cong) simp
  moreover have "bins_sorted (sim_key s') bs = bins_sorted (sim_key s) bs"
    using same bs(2) by (intro bins_sorted_cong) simp
  ultimately show ?thesis using bs assms(2) by (auto simp: queue_rep_def queue_bins_def)
qed

lemma upd_flags_simps [simp]:
  "sim_queues (upd_flags p f s) = sim_queues s"
  "inParallelMode (upd_flags p f s) = inParallelMode s"
  "curEventQueue (upd_flags p f s) = curEventQueue s"
  "deleted (upd_flags p f s) = deleted s"
  "nextBin (sim_heap (upd_flags p f s) x) = nextBin (sim_heap s x)"
  "nextInBin (sim_heap (upd_flags p f s) x) = nextInBin (sim_heap s x)"
  "ev_when (sim_heap (upd_flags p f s) x) = ev_when (sim_heap s x)"
  "ev_priority (sim_heap (upd_flags p f s) x) = ev_priority (sim_heap s x)"
  "ev_queue (sim_heap (upd_flags p f s) x) = ev_queue (sim_heap s x)"
  "ev_flags (sim_heap (upd_flags p f s) p) = f (ev_flags (sim_heap s p))"
  "x \<noteq> p \<Longrightarrow> sim_heap (upd_flags p f s) x = sim_heap s x"
  by (auto simp: upd_flags_def upd_ev_def)

lemma bseg_upd_flags: "bseg (sim_heap (upd_flags p f s)) q bs r = bseg (sim_heap s) q bs r"
  by (rule bseg_cong) simp

lemma upd_flags_key [simp]: "sim_key (upd_flags p f s) = sim_key s"
  by (simp add: ev_key_def fun_eq_iff)

lemma upd_flags_owned [simp]: "owned_by q (upd_flags p f s) = owned_by q s"
  by (simp add: owned_by_def fun_eq_iff)

lemma queue_rep_upd_flags: "queue_rep q s l \<Longrightarrow> queue_rep q (upd_flags p f s) l"
  by (rule queue_rep_cong) auto

lemma setCurTick_simps [simp]:
  "sim_heap (EventQueue_setCurTick q t s) = sim_heap s"
  "eq_head (sim_queues (EventQueue_setCurTick q t s) q') = eq_head (sim_queues s q')"
  "async_queue (sim_queues (EventQueue_setCurTick q t s) q') = async_queue (sim_queues s q')"
  "eq_curTick (sim_queues (EventQueue_setCurTick q t s) q) = t"
  "inParallelMode (EventQueue_setCurTick q t s) = inParallelMode s"
  "curEventQueue (EventQueue_setCurTick q t s) = curEventQueue s"
  "deleted (EventQueue_setCurTick q t s) = deleted s"
  by (auto simp: EventQueue_setCurTick_def)

lemma queue_rep_setCurTick: "queue_rep q s l \<Longrightarrow> queue_rep q (EventQueue_setCurTick q' t s) l"
  by (rule queue_rep_cong) auto

text \<open>
  The invariant of a queue in use: every queued event carries the Scheduled and
  Initialized flags, points back to the queue and lies at or after the current tick.
\<close>

definition queue_inv :: "qptr \<Rightarrow> sim_state \<Rightarrow> eptr list \<Rightarrow> bool" where
  "queue_inv q s l \<longleftrightarrow> queue_rep q s l \<and>
     (\<forall>x \<in> set l. owned_by q s x \<and> Event_scheduled (sim_heap s x) \<and>
        Event_initialized (sim_heap s x) \<and> eq_curTick (sim_queues s q) \<le> ev_when (sim_heap s x))"

lemma queue_step_flags:
  "queue_step q s s' \<Longrightarrow> ev_flags (sim_heap s' x) = ev_flags (sim_heap s x) \<and>
     ev_when (sim_heap s' x) = ev_when (sim_heap s x) \<and> ev_priority (sim_heap s' x) = ev_priority (sim_heap s x)"
  by (auto dest!: queue_stepD(1) simp: links_only_def)

lemma set_ins_ev [simp]: "set (ins_ev k e l) = insert e (set l)"
  by (auto simp: ins_ev_def dest: set_takeWhileD set_dropWhileD)
     (metis Un_iff set_append takeWhile_dropWhile_id)

lemma EventQueue_schedule_inv:
  assumes inv: "queue_inv q s l"
    and guards: "eq_curTick (sim_queues s q) \<le> when" "\<not> Event_scheduled (sim_heap s e)"
      "Event_initialized (sim_heap s e)"
    and sync: "\<not> (inParallelMode s \<and> (curEventQueue s \<noteq> Some q \<or> global))"
  shows "\<exists>s'. EventQueue_schedule q e when global s = Inr s' \<and>
    queue_inv q s' (ins_ev (sim_key s') e l) \<and> ev_when (sim_heap s' e) = when \<and>
    Event_scheduled (sim_heap s' e) \<and> (\<forall>x. x \<noteq> e \<longrightarrow> sim_key s' x = sim_key s x) \<and>
    eq_curTick (sim_queues s' q) = eq_curTick (sim_queues s q) \<and>
    (\<forall>x. ev_flags (sim_heap s' x) = (if x = e then Flags_set (ev_flags (sim_heap s e)) Scheduled else ev_flags (sim_heap s x)))"
proof -
  let ?s1 = "set_heap (upd_ev e (Event_setWhen when q) (sim_heap s)) s"
  have new: "e \<notin> set l" using inv guards(2) by (auto simp: queue_inv_def)
  have same: "sim_heap ?s1 x = sim_heap s x" if "x \<noteq> e" for x using that by simp
  have "queue_rep q ?s1 l"
    by (rule queue_rep_cong[where s = s])
       (use inv new in \<open>auto simp: queue_inv_def ev_key_def upd_ev_def\<close>)
  then obtain s2 where s2: "EventQueue_insert q e ?s1 = Inr s2" "queue_step q ?s1 s2"
    "queue_rep q s2 (ins_ev (sim_key ?s1) e l)"
    using queue_rep_insert new by blast
  let ?s' = "upd_flags e (\<lambda>fl. Flags_set fl Scheduled) s2"
  have run: "EventQueue_schedule q e when global s = Inr ?s'"
    using guards sync s2(1) by (auto simp: EventQueue_schedule_def Event_acquire_def Let_def)
  have fl: "ev_flags (sim_heap s2 x) = ev_flags (sim_heap s x)" for x
    using queue_step_flags[OF s2(2), of x] by (simp add: upd_ev_def Event_setWhen_def)
  have wh: "ev_when (sim_heap s2 x) = (if x = e then when else ev_when (sim_heap s x))" for x
    using queue_step_flags[OF s2(2), of x] by (simp add: upd_ev_def Event_setWhen_def)
  have own: "owned_by q ?s' x = (x = e \<or> owned_by q s x)" for x
    using queue_step_owned[OF s2(2), of q] by (simp add: owned_by_def fun_eq_iff upd_ev_def Event_setWhen_def)
  have key: "sim_key ?s' = sim_key ?s1" using queue_stepD(2)[OF s2(2)] by simp
  have tick: "eq_curTick (sim_queues ?s' q) = eq_curTick (sim_queues s q)"
    using queue_stepD(3)[OF s2(2), of q] by simp
  have flags': "Event_scheduled (sim_heap ?s' x) = (x = e \<or> Event_scheduled (sim_heap s x))"
    "Event_initialized (sim_heap ?s' x) = Event_initialized (sim_heap s x)" for x
    using fl[of x] by (cases "x = e"; simp add: Event_scheduled_def Event_initialized_def)+
  have "queue_inv q ?s' (ins_ev (sim_key ?s') e l)"
    using s2(3) inv guards own flags' tick wh unfolding queue_inv_def key
    by (auto intro: queue_rep_upd_flags)
  moreover have "sim_key ?s' x = sim_key s x" if "x \<noteq> e" for x
    unfolding key using that by (simp add: ev_key_def)
  ultimately show ?thesis using run wh flags' tick fl by (intro exI[of _ ?s']) simp
qed

lemma queue_inv_cong:
  assumes "queue_rep q s' l" "queue_inv q s l'" "set l \<subseteq> set l'"
    and "\<And>x. x \<in> set l \<Longrightarrow> owned_by q s x \<Longrightarrow> owned_by q s' x"
    and "\<And>x. x \<in> set l \<Longrightarrow> ev_flags (sim_heap s' x) = ev_flags (sim_heap s x) \<and>
      ev_when (sim_heap s' x) = ev_when (sim_heap s x)"
    and "\<And>x. x \<in> set l \<Longrightarrow> eq_curTick (sim_queues s q) \<le> ev_when (sim_heap s x) \<Longrightarrow>
      eq_curTick (sim_queues s' q) \<le> ev_when (sim_heap s x)"
  shows "queue_inv q s' l"
  using assms unfolding queue_inv_def Event_scheduled_def Event_initialized_def
  by (metis subsetD)

lemma Event_release_cases:
  assumes "Event_release e s = Inr s'"
  shows "s' = s \<or> (s' = (upd_flags e (\<lambda>_. 0) s)\<lparr>deleted := e # deleted s\<rparr> \<and>
    \<not> Event_scheduled (sim_heap s e))"
  using assms
  by (auto simp: Event_release_def Event_releaseImpl_def Event_delete_def split: if_splits)

lemma Event_release_total:
  "\<not> Event_scheduled (sim_heap s e) \<Longrightarrow> \<exists>s'. Event_release e s = Inr s'"
  by (auto simp: Event_release_def Event_releaseImpl_def Event_delete_def)

text \<open>Releasing an event leaves every other event and every queue alone.\<close>

lemma Event_release_frame:
  assumes "Event_release e s = Inr s'"
  shows "sim_queues s' = sim_queues s" "x \<noteq> e \<Longrightarrow> sim_heap s' x = sim_heap s x"
    "\<not> Event_scheduled (sim_heap s e) \<Longrightarrow> \<not> Event_scheduled (sim_heap s' e)"
    "inParallelMode s' = inParallelMode s" "curEventQueue s' = curEventQueue s"
    "nextBin (sim_heap s' x) = nextBin (sim_heap s x)"
    "nextInBin (sim_heap s' x) = nextInBin (sim_heap s x)" "sim_key s' = sim_key s"
  using Event_release_cases[OF assms]
  by (auto simp: Event_scheduled_def Flags_isSet_def ev_key_def fun_eq_iff)

lemma queue_rep_release: "queue_rep q s l \<Longrightarrow> Event_release e s = Inr s' \<Longrightarrow> queue_rep q s' l"
  by (erule queue_rep_cong) (simp_all add: Event_release_frame)

lemma queue_inv_release:
  assumes "queue_inv q s l" "Event_release e s = Inr s'" "e \<notin> set l"
  shows "queue_inv q s' l"
proof (rule queue_inv_cong[OF _ assms(1)])
  show "queue_rep q s' l"
    using assms by (auto simp: queue_inv_def intro: queue_rep_release)
  have same: "sim_heap s' x = sim_heap s x" if "x \<in> set l" for x
    using that assms(3) Event_release_frame(2)[OF assms(2), of x] by blast
  show "owned_by q s' x" if "x \<in> set l" "owned_by q s x" for x
    using that same[of x] by (simp add: owned_by_def)
  show "ev_flags (sim_heap s' x) = ev_flags (sim_heap s x) \<and> ev_when (sim_heap s' x) = ev_when (sim_heap s x)"
    if "x \<in> set l" for x using same[OF that] by simp
qed (use Event_release_frame(1)[OF assms(2)] in auto)

lemma EventQueue_deschedule_inv:
  assumes inv: "queue_inv q s l" and e: "e \<in> set l"
    and sync: "\<not> inParallelMode s \<or> curEventQueue s = Some q"
  shows "\<exists>s'. EventQueue_deschedule q e s = Inr s' \<and> queue_inv q s' (remove1 e l) \<and>
    \<not> Event_scheduled (sim_heap s' e) \<and> sim_key s' = sim_key s"
proof -
  have d: "distinct l" and own: "owned_by q s e" "Event_scheduled (sim_heap s e)"
    "Event_initialized (sim_heap s e)"
    using inv e by (auto simp: queue_inv_def queue_rep_distinct)
  obtain s1 where s1: "EventQueue_remove q e s = Inr s1" "queue_step q s s1" "queue_rep q s1 (remove1 e l)"
    using queue_rep_remove[of q s l e] inv e own by (auto simp: queue_inv_def)
  let ?s2 = "upd_flags e (\<lambda>fl. Flags_clear fl Scheduled) (upd_flags e (\<lambda>fl. Flags_clear fl Squashed) s1)"
  have ns: "\<not> Event_scheduled (sim_heap ?s2 e)" by (simp add: Event_scheduled_def)
  then obtain s' where s': "Event_release e ?s2 = Inr s'" using Event_release_total by blast
  have notin: "e \<notin> set (remove1 e l)" using d by simp
  have "queue_inv q ?s2 (remove1 e l)"
  proof (rule queue_inv_cong[OF _ inv])
    show "queue_rep q ?s2 (remove1 e l)" using s1(3) by (intro queue_rep_upd_flags)
    show "set (remove1 e l) \<subseteq> set l" by (rule set_remove1_subset)
    show "ev_flags (sim_heap ?s2 x) = ev_flags (sim_heap s x) \<and> ev_when (sim_heap ?s2 x) = ev_when (sim_heap s x)"
      if "x \<in> set (remove1 e l)" for x
    proof -
      have "x \<noteq> e" using that notin by auto
      then show ?thesis using queue_step_flags[OF s1(2), of x] by simp
    qed
  qed (use queue_step_owned[OF s1(2)] queue_stepD(3)[OF s1(2), of q] in auto)
  then have "queue_inv q s' (remove1 e l)" using s' notin by (rule queue_inv_release)
  moreover have "EventQueue_deschedule q e s = Inr s'"
    using own sync s1(1) s' by (simp add: EventQueue_deschedule_def)
  moreover have "sim_key s' = sim_key s"
    using Event_release_frame(8)[OF s'] queue_stepD(2)[OF s1(2)] by simp
  ultimately show ?thesis using Event_release_frame(3)[OF s' ns] by blast
qed

section \<open>Servicing the head\<close>

lemma serviceOne_pop_simps [simp]:
  "eq_curTick (sim_queues (serviceOne_pop q e s) q') = eq_curTick (sim_queues s q')"
  "async_queue (sim_queues (serviceOne_pop q e s) q') = async_queue (sim_queues s q')"
  "inParallelMode (serviceOne_pop q e s) = inParallelMode s"
  "curEventQueue (serviceOne_pop q e s) = curEventQueue s"
  "ev_when (sim_heap (serviceOne_pop q e s) x) = ev_when (sim_heap s x)"
  "ev_priority (sim_heap (serviceOne_pop q e s) x) = ev_priority (sim_heap s x)"
  "ev_queue (sim_heap (serviceOne_pop q e s) x) = ev_queue (sim_heap s x)"
  "x \<noteq> e \<Longrightarrow> ev_flags (sim_heap (serviceOne_pop q e s) x) = ev_flags (sim_heap s x)"
  "ev_flags (sim_heap (serviceOne_pop q e s) e) = Flags_clear (ev_flags (sim_heap s e)) Scheduled"
  by (auto simp: serviceOne_pop_def Let_def upd_ev_def upd_flags_def split: option.splits)

lemma serviceOne_pop_key [simp]: "sim_key (serviceOne_pop q e s) = sim_key s"
  by (simp add: ev_key_def fun_eq_iff)

lemma queue_rep_pop:
  assumes "queue_rep q s (e # l)"
  shows "eq_head (sim_queues s q) = Some e" "queue_rep q (serviceOne_pop q e s) l"
proof -
  let ?h = "sim_heap s"
  from assms obtain bs where bs: "queue_bins ?h (eq_head (sim_queues s q)) bs" "e # l = concat bs"
    by (auto simp: queue_rep_def)
  then obtain b cs where Cons: "bs = b # cs" by (cases bs) auto
  with bs have seg: "b \<noteq> []" "eq_head (sim_queues s q) = Some (hd b)" "in_bin ?h (Some (hd b)) b"
    "bseg ?h (nextBin (?h (hd b))) cs None" and srt: "bins_sorted (sim_key s) (b # cs)"
    and dist: "distinct (b @ concat cs)"
    by (auto simp: queue_bins_def)
  obtain vs where b: "b = e # vs" and l: "l = vs @ concat cs"
    using bs(2) Cons seg(1) by (cases b) auto
  show "eq_head (sim_queues s q) = Some e" using seg b by simp
  let ?s1 = "upd_flags e (\<lambda>fl. Flags_clear fl Scheduled) s"
  let ?s' = "serviceOne_pop q e s"
  show "queue_rep q ?s' l"
  proof (cases vs)
    case Nil
    have "bseg (sim_heap ?s1) p cs None = bseg ?h p cs None" for p by (rule bseg_upd_flags)
    moreover have "?s' = set_head q (nextBin (?h e)) ?s1"
      using seg(3) b Nil by (simp add: serviceOne_pop_def)
    ultimately show ?thesis
      using seg(4) b Nil l srt dist
      by (auto simp: queue_rep_def queue_bins_def bins_sorted_Cons intro!: exI[of _ cs])
  next
    case (Cons v ws)
    have nx: "nextInBin (?h e) = Some v" using seg(3) b Cons by simp
    let ?h' = "upd_ev v (\<lambda>ev. ev\<lparr>nextBin := nextBin (?h e)\<rparr>) (sim_heap ?s1)"
    have s': "?s' = set_head q (Some v) (set_heap ?h' ?s1)"
      using nx by (simp add: serviceOne_pop_def Let_def)
    have "v \<notin> set (concat cs)" using dist b Cons by auto
    then have "bseg ?h' p cs None = bseg ?h p cs None" for p
      by (simp add: bseg_upd_ev bseg_upd_flags)
    moreover have "in_bin ?h' p vs = in_bin ?h p vs" for p
      by (rule in_bin_cong) (simp add: upd_ev_def)
    ultimately have "bseg ?h' (Some v) (vs # cs) None" using seg(3,4) b Cons by auto
    moreover have ok: "one_key (sim_key s) b" using srt by (simp add: bins_sorted_Cons)
    have "one_key (sim_key s) vs" using one_key_remove1[OF ok, of e] b by simp
    moreover have "sim_key s v = sim_key s e" using one_keyD[OF ok, of v] b Cons by simp
    ultimately have "bins_sorted (sim_key s) (vs # cs)" "bseg ?h' (Some v) (vs # cs) None"
      using srt b Cons by (simp_all add: bins_sorted_Cons)
    moreover have "sim_key ?s' = ev_key ?h'" using s' by simp
    ultimately show ?thesis
      using dist b l s' serviceOne_pop_key[of q e s] by (auto simp: queue_rep_def queue_bins_def intro!: exI[of _ "vs # cs"])
  qed
qed

text \<open>The state in which the action of the serviced event runs.\<close>

abbreviation service_state :: "qptr \<Rightarrow> eptr \<Rightarrow> sim_state \<Rightarrow> sim_state" where
  "service_state q e s \<equiv> EventQueue_setCurTick q (ev_when (sim_heap s e)) (serviceOne_pop q e s)"

lemma queue_inv_service_state:
  assumes "queue_inv q s (e # l)"
  shows "queue_inv q (service_state q e s) l" "queue_inv q (serviceOne_pop q e s) l"
    "e \<notin> set l" "\<not> Event_scheduled (sim_heap (service_state q e s) e)"
proof -
  have rep: "queue_rep q s (e # l)" using assms by (simp add: queue_inv_def)
  then show e: "e \<notin> set l" by (auto dest: queue_rep_distinct)
  have le: "ev_when (sim_heap s e) \<le> ev_when (sim_heap s x)" if "x \<in> set l" for x
    using evq.earliest_first[OF rep that] by (auto simp: ev_key_def less_eq_prod_def)
  show pop: "queue_inv q (serviceOne_pop q e s) l"
    by (rule queue_inv_cong[OF queue_rep_pop(2)[OF rep] assms])
      (use e in \<open>auto simp: owned_by_def intro!: serviceOne_pop_simps(8)\<close>)
  show "queue_inv q (service_state q e s) l"
  proof (rule queue_inv_cong[OF _ pop])
    show "queue_rep q (service_state q e s) l"
      using queue_rep_pop(2)[OF rep] by (rule queue_rep_setCurTick)
  qed (use le in \<open>auto simp: owned_by_def\<close>)
  show "\<not> Event_scheduled (sim_heap (service_state q e s) e)" by (simp add: Event_scheduled_def)
qed

definition serviceOne_finish :: "eptr \<Rightarrow> sim_state \<Rightarrow> (sim_state \<times> eptr option) result" where
  "serviceOne_finish e s3 =
     (if Event_isExitEvent (sim_heap s3 e) then
        assert_that (\<not> Flags_isSet (ev_flags (sim_heap s3 e)) Managed \<or>
                     \<not> Flags_isSet (ev_flags (sim_heap s3 e)) IsMainQueue)
          ''!Managed || !IsMainQueue'' (Inr (s3, Some e))
      else rbind (Event_release e s3) (\<lambda>s4. Inr (s4, None)))"

lemma serviceOne_run:
  assumes "queue_rep q s (e # l)" "\<not> Event_squashed (sim_heap s e)"
  shows "EventQueue_serviceOne process q s = rbind (process e (service_state q e s)) (serviceOne_finish e)"
proof -
  have "\<not> Event_squashed (sim_heap (serviceOne_pop q e s) e)"
    using assms(2) by (simp add: Event_squashed_def)
  then show ?thesis
    using queue_rep_pop(1)[OF assms(1)] unfolding EventQueue_serviceOne_def serviceOne_finish_def
    by (simp add: Let_def)
qed

lemma serviceOne_squashed:
  assumes inv: "queue_inv q s (e # l)" and sq: "Event_squashed (sim_heap s e)"
  shows "\<exists>s'. EventQueue_serviceOne process q s = Inr (s', None) \<and> queue_inv q s' l \<and>
    sim_key s' = sim_key s \<and> eq_curTick (sim_queues s' q) = eq_curTick (sim_queues s q)"
proof -
  let ?s1 = "upd_flags e (\<lambda>fl. Flags_clear fl Squashed) (serviceOne_pop q e s)"
  have rep: "queue_rep q s (e # l)" using inv by (simp add: queue_inv_def)
  have e: "e \<notin> set l" using queue_inv_service_state(3)[OF inv] .
  have ns: "\<not> Event_scheduled (sim_heap ?s1 e)" by (simp add: Event_scheduled_def)
  then obtain s' where s': "Event_release e ?s1 = Inr s'" using Event_release_total by blast
  have "queue_inv q ?s1 l"
  proof (rule queue_inv_cong[OF _ queue_inv_service_state(2)[OF inv]])
    show "queue_rep q ?s1 l" using queue_rep_pop(2)[OF rep] by (rule queue_rep_upd_flags)
    show "ev_flags (sim_heap ?s1 x) = ev_flags (sim_heap (serviceOne_pop q e s) x) \<and>
        ev_when (sim_heap ?s1 x) = ev_when (sim_heap (serviceOne_pop q e s) x)" if "x \<in> set l" for x
    proof -
      have "x \<noteq> e" using that e by auto
      then show ?thesis by simp
    qed
  qed auto
  then have "queue_inv q s' l" using s' e by (rule queue_inv_release)
  moreover have "EventQueue_serviceOne process q s = Inr (s', None)"
    using queue_rep_pop(1)[OF rep] sq s'
    by (simp add: EventQueue_serviceOne_def Let_def Event_squashed_def)
  ultimately show ?thesis using Event_release_frame(1,8)[OF s'] by simp
qed

lemma serviceOne_finish_inv:
  assumes inv: "queue_inv q s l"
    and ok: "Event_isExitEvent (sim_heap s e) \<Longrightarrow> \<not> Flags_isSet (ev_flags (sim_heap s e)) Managed"
  shows "\<exists>s' r. serviceOne_finish e s = Inr (s', r) \<and> queue_inv q s' l \<and> sim_key s' = sim_key s"
proof (cases "Event_isExitEvent (sim_heap s e)")
  case True
  with ok inv show ?thesis by (simp add: serviceOne_finish_def)
next
  case False
  show ?thesis
  proof (cases "Event_scheduled (sim_heap s e)")
    case True
    then have "Event_release e s = Inr s" by (simp add: Event_release_def Event_releaseImpl_def)
    with False inv show ?thesis by (simp add: serviceOne_finish_def)
  next
    case ns: False
    then obtain s' where s': "Event_release e s = Inr s'" using Event_release_total by blast
    have "e \<notin> set l" using ns inv by (auto simp: queue_inv_def)
    with inv s' have "queue_inv q s' l" by (blast intro: queue_inv_release)
    with False s' Event_release_frame(8)[OF s'] show ?thesis by (simp add: serviceOne_finish_def)
  qed
qed

section \<open>Servicing all due events\<close>

definition no_managed_exit :: "sim_state \<Rightarrow> bool" where
  "no_managed_exit s \<longleftrightarrow> (\<forall>x. \<not> (Event_isExitEvent (sim_heap s x) \<and> Event_isManaged (sim_heap s x)))"

text \<open>
  The events that are due by a tick, each weighed by one more than its rank. An action may schedule events for the current tick; the
  ranks say how far such a chain can go.
\<close>

definition load :: "(eptr \<Rightarrow> nat) \<Rightarrow> Tick \<Rightarrow> sim_state \<Rightarrow> eptr list \<Rightarrow> nat" where
  "load rank t s l = sum_list (map (\<lambda>x. Suc (rank x)) (filter (\<lambda>x. ev_when (sim_heap s x) \<le> t) l))"

text \<open>
  What \<open>serviceEvents\<close> asks of the event actions: an action fails with an error in \<open>E\<close>, or it returns, keeps
  the queue well-formed and its time as it is, and what it adds to the current tick ranks below the event. It
  may schedule any events for later, its own event included, and it may take events out of the queue or
  move them, but for those in \<open>K\<close>.
\<close>

definition well_behaved :: "process \<Rightarrow> qptr \<Rightarrow> (eptr \<Rightarrow> nat) \<Rightarrow> eptr set \<Rightarrow> gem5_error set \<Rightarrow> bool" where
  "well_behaved process q rank K E \<longleftrightarrow>
     (\<forall>e s l. queue_inv q s l \<and> e \<notin> set l \<and> no_managed_exit s \<longrightarrow>
        (case process e s of
           Inl err \<Rightarrow> err \<in> E
         | Inr s' \<Rightarrow> \<exists>l'. queue_inv q s' l' \<and> no_managed_exit s' \<and>
             eq_curTick (sim_queues s' q) = eq_curTick (sim_queues s q) \<and>
             load rank (eq_curTick (sim_queues s q)) s' l' \<le> load rank (eq_curTick (sim_queues s q)) s l + rank e \<and>
             (\<forall>x \<in> K \<inter> set l. x \<in> set l' \<and> ev_when (sim_heap s' x) = ev_when (sim_heap s x))))"

text \<open>The events that a sequence of calls of \<open>serviceOne\<close> takes from the queue, with their ticks.\<close>

fun services :: "process \<Rightarrow> qptr \<Rightarrow> (Tick \<times> eptr) list \<Rightarrow> sim_state \<Rightarrow> sim_state \<Rightarrow> bool" where
  "services process q [] s s' = (s' = s)"
| "services process q ((t, e) # tr) s s' =
    (eq_head (sim_queues s q) = Some e \<and> ev_when (sim_heap s e) = t \<and>
     (\<exists>s1 r. EventQueue_serviceOne process q s = Inr (s1, r) \<and> services process q tr s1 s'))"

lemma sim_key_when: "sim_key s' = sim_key s \<Longrightarrow> ev_when (sim_heap s' x) = ev_when (sim_heap s x)"
  by (drule fun_cong[of _ _ x]) (simp add: ev_key_def)

lemma load_key_cong: "sim_key s' = sim_key s \<Longrightarrow> load rank t s' l = load rank t s l"
proof -
  assume "sim_key s' = sim_key s"
  then have "ev_when (sim_heap s' x) = ev_when (sim_heap s x)" for x by (rule sim_key_when)
  then show ?thesis by (simp add: load_def)
qed

lemma no_managed_exit_pop: "no_managed_exit s \<Longrightarrow> no_managed_exit (serviceOne_pop q e s)"
  unfolding no_managed_exit_def
proof
  fix x assume a: "\<forall>x. \<not> (Event_isExitEvent (sim_heap s x) \<and> Event_isManaged (sim_heap s x))"
  show "\<not> (Event_isExitEvent (sim_heap (serviceOne_pop q e s) x) \<and> Event_isManaged (sim_heap (serviceOne_pop q e s) x))"
    using a[rule_format, of x] a[rule_format, of e]
    by (cases "x = e") (auto simp: Event_isExitEvent_def Event_isManaged_def Flags_isSet_def Flags_clear_def and.assoc)
qed

lemma no_managed_exit_clear:
  "no_managed_exit s \<Longrightarrow> no_managed_exit (upd_flags e (\<lambda>fl. Flags_clear fl Squashed) s)"
  unfolding no_managed_exit_def
proof
  fix x assume a: "\<forall>x. \<not> (Event_isExitEvent (sim_heap s x) \<and> Event_isManaged (sim_heap s x))"
  show "\<not> (Event_isExitEvent (sim_heap (upd_flags e (\<lambda>fl. Flags_clear fl Squashed) s) x) \<and>
      Event_isManaged (sim_heap (upd_flags e (\<lambda>fl. Flags_clear fl Squashed) s) x))"
    using a[rule_format, of x]
    by (cases "x = e") (auto simp: Event_isExitEvent_def Event_isManaged_def Flags_isSet_def Flags_clear_def and.assoc)
qed

lemma no_managed_exit_release:
  assumes "no_managed_exit s" "Event_release e s = Inr s'"
  shows "no_managed_exit s'"
  unfolding no_managed_exit_def
proof
  fix x
  show "\<not> (Event_isExitEvent (sim_heap s' x) \<and> Event_isManaged (sim_heap s' x))"
    using assms(1)[unfolded no_managed_exit_def, rule_format, of x] Event_release_cases[OF assms(2)]
    by (cases "x = e") (auto simp: Event_isExitEvent_def Flags_isSet_def)
qed

lemma queue_inv_le:
  "queue_inv q s (e # l) \<Longrightarrow> x \<in> set l \<Longrightarrow> ev_when (sim_heap s e) \<le> ev_when (sim_heap s x)"
  using evq.earliest_first [of q s e l x] by (auto simp: queue_inv_def ev_key_def less_eq_prod_def)

lemma serviceOne_progress:
  assumes inv: "queue_inv q s (e # l)" and nm: "no_managed_exit s" and wb: "well_behaved process q rank K E"
  defines "t \<equiv> ev_when (sim_heap s e)"
  shows "case EventQueue_serviceOne process q s of Inl err \<Rightarrow> err \<in> E
    | Inr (s', r) \<Rightarrow> \<exists>l'. queue_inv q s' l' \<and> no_managed_exit s' \<and> load rank t s' l' < load rank t s (e # l) \<and>
        (\<forall>x \<in> set l'. t \<le> ev_when (sim_heap s' x)) \<and>
        (\<forall>x \<in> K \<inter> set l. x \<in> set l' \<and> ev_when (sim_heap s' x) = ev_when (sim_heap s x))"
proof (cases "Event_squashed (sim_heap s e)")
  case True
  from serviceOne_squashed[OF inv True, of process] obtain s' where s':
    "EventQueue_serviceOne process q s = Inr (s', None)" "queue_inv q s' l" "sim_key s' = sim_key s"
    by blast
  have rep: "queue_rep q s (e # l)" using inv by (simp add: queue_inv_def)
  have "no_managed_exit s'"
    using s'(1) queue_rep_pop(1)[OF rep] True no_managed_exit_clear[OF no_managed_exit_pop[OF nm]]
    by (auto simp: EventQueue_serviceOne_def Let_def Event_squashed_def result_eq_Inr
        intro: no_managed_exit_release)
  moreover have "load rank t s' l < load rank t s (e # l)"
    using load_key_cong[OF s'(3), of rank t l] by (simp add: load_def t_def)
  ultimately show ?thesis
    using s'(1,2) queue_inv_le[OF inv] sim_key_when[OF s'(3)] by (auto simp: t_def)
next
  case False
  let ?s = "service_state q e s"
  have rep: "queue_rep q s (e # l)" using inv by (simp add: queue_inv_def)
  have nm1: "no_managed_exit ?s" using no_managed_exit_pop[OF nm] by (simp add: no_managed_exit_def)
  note inv1 = queue_inv_service_state[OF inv]
  have tick: "eq_curTick (sim_queues ?s q) = t" by (simp add: t_def)
  have run: "EventQueue_serviceOne process q s = rbind (process e ?s) (serviceOne_finish e)"
    by (rule serviceOne_run[OF rep False])
  have wb1: "case process e ?s of Inl err \<Rightarrow> err \<in> E
    | Inr s2 \<Rightarrow> \<exists>l'. queue_inv q s2 l' \<and> no_managed_exit s2 \<and> eq_curTick (sim_queues s2 q) = t \<and>
        load rank t s2 l' \<le> load rank t ?s l + rank e \<and>
        (\<forall>x \<in> K \<inter> set l. x \<in> set l' \<and> ev_when (sim_heap s2 x) = ev_when (sim_heap ?s x))"
    using wb[unfolded well_behaved_def, rule_format, of ?s l e] inv1(1,3) nm1 unfolding tick by blast
  show ?thesis
  proof (cases "process e ?s")
    case (Inl err)
    then show ?thesis using run wb1 by simp
  next
    case (Inr s2)
    then obtain l' where s2: "queue_inv q s2 l'" "no_managed_exit s2" "eq_curTick (sim_queues s2 q) = t"
        "load rank t s2 l' \<le> load rank t ?s l + rank e"
        "\<forall>x \<in> K \<inter> set l. x \<in> set l' \<and> ev_when (sim_heap s2 x) = ev_when (sim_heap ?s x)"
      using wb1 by auto
    have key: "sim_key ?s = sim_key s" by simp
    obtain s' r where s': "serviceOne_finish e s2 = Inr (s', r)" "queue_inv q s' l'" "sim_key s' = sim_key s2"
      using serviceOne_finish_inv[OF s2(1), of e] s2(2)
      by (auto simp: no_managed_exit_def Event_isManaged_def)
    have "no_managed_exit s'"
      using s'(1) s2(2) by (auto simp: serviceOne_finish_def result_eq_Inr intro: no_managed_exit_release split: if_splits)
    moreover have "load rank t s' l' < load rank t s (e # l)"
      using s2(4) load_key_cong[OF s'(3), of rank t l'] load_key_cong[OF key, of rank t l] by (simp add: load_def t_def)
    moreover have "t \<le> ev_when (sim_heap s' x)" if "x \<in> set l'" for x
      using s2(1,3) that sim_key_when[OF s'(3), of x] by (auto simp: queue_inv_def)
    moreover have "x \<in> set l' \<and> ev_when (sim_heap s' x) = ev_when (sim_heap s x)" if "x \<in> K \<inter> set l" for x
      using s2(5) that sim_key_when[OF s'(3), of x] sim_key_when[OF key, of x] by simp
    ultimately show ?thesis using run Inr s'(1,2) by auto
  qed
qed

lemma queue_rep_Nil: "queue_rep q s [] \<Longrightarrow> eq_head (sim_queues s q) = None"
  by (auto simp: queue_rep_def queue_bins_def) (metis bseg.simps bseg_nonempty hd_in_set list.exhaust list.set_intros(1) set_empty)

text \<open>What decreases from one call of \<open>serviceOne\<close> to the next: the time left, or the load of the tick.\<close>

definition service_measure :: "(eptr \<Rightarrow> nat) \<Rightarrow> Tick \<Rightarrow> sim_state \<Rightarrow> eptr list \<Rightarrow> nat \<times> nat" where
  "service_measure rank T s l = (case l of [] \<Rightarrow> (0, 0)
     | e # _ \<Rightarrow> (Suc (unat T) - unat (ev_when (sim_heap s e)), load rank (ev_when (sim_heap s e)) s l))"

lemma service_measure_decreases:
  assumes "ev_when (sim_heap s e) \<le> T" "\<forall>x \<in> set l'. ev_when (sim_heap s e) \<le> ev_when (sim_heap s' x)"
    "load rank (ev_when (sim_heap s e)) s' l' < load rank (ev_when (sim_heap s e)) s (e # l)"
  shows "service_measure rank T s' l' < service_measure rank T s (e # l)"
proof -
  have le: "unat (ev_when (sim_heap s e)) \<le> unat T" using assms(1) by (simp add: word_le_nat_alt)
  show ?thesis
  proof (cases l')
    case Nil
    then show ?thesis using le by (simp add: service_measure_def)
  next
    case (Cons x xs)
    then have "ev_when (sim_heap s e) \<le> ev_when (sim_heap s' x)" using assms(2) by simp
    then consider "ev_when (sim_heap s' x) = ev_when (sim_heap s e)"
      | "unat (ev_when (sim_heap s e)) < unat (ev_when (sim_heap s' x))"
      by (metis order_le_less word_less_nat_alt)
    then show ?thesis
    proof cases
      case 1
      then show ?thesis using assms(3) Cons by (simp add: service_measure_def)
    next
      case 2
      then have "Suc (unat T) - unat (ev_when (sim_heap s' x)) < Suc (unat T) - unat (ev_when (sim_heap s e))"
        using le by (intro diff_less_mono2) simp_all
      then show ?thesis using Cons by (simp add: service_measure_def)
    qed
  qed
qed

definition services_done :: "process \<Rightarrow> qptr \<Rightarrow> Tick \<Rightarrow> eptr set \<Rightarrow> sim_state \<Rightarrow> eptr list \<Rightarrow> sim_state \<Rightarrow> bool" where
  "services_done process q T K s l s' \<longleftrightarrow> (\<exists>tr l'. services process q tr s s' \<and> queue_inv q s' l' \<and>
     (\<forall>x \<in> set l'. T < ev_when (sim_heap s' x)) \<and> sorted (map fst tr) \<and>
     (\<forall>t \<in> set (map fst tr). t \<le> T \<and> (\<forall>b. (\<forall>x \<in> set l. b \<le> ev_when (sim_heap s x)) \<longrightarrow> b \<le> t)) \<and>
     (\<forall>x \<in> K \<inter> set l. ev_when (sim_heap s x) \<le> T \<longrightarrow> (ev_when (sim_heap s x), x) \<in> set tr))"

lemma services_done_Cons:
  assumes inv: "queue_inv q s (e # l)" and le: "ev_when (sim_heap s e) \<le> T"
    and one: "EventQueue_serviceOne process q s = Inr (s1, r)"
    and later: "\<forall>x \<in> set l1. ev_when (sim_heap s e) \<le> ev_when (sim_heap s1 x)"
    and keep: "\<forall>x \<in> K \<inter> set l. x \<in> set l1 \<and> ev_when (sim_heap s1 x) = ev_when (sim_heap s x)"
    and fin: "services_done process q T K s1 l1 s'"
  shows "services_done process q T K s (e # l) s'"
proof -
  let ?t = "ev_when (sim_heap s e)"
  obtain tr l' where tr: "services process q tr s1 s'" "queue_inv q s' l'" "\<forall>x \<in> set l'. T < ev_when (sim_heap s' x)" "sorted (map fst tr)"
      "\<forall>t \<in> set (map fst tr). t \<le> T \<and> (\<forall>b. (\<forall>x \<in> set l1. b \<le> ev_when (sim_heap s1 x)) \<longrightarrow> b \<le> t)"
      "\<forall>x \<in> K \<inter> set l1. ev_when (sim_heap s1 x) \<le> T \<longrightarrow> (ev_when (sim_heap s1 x), x) \<in> set tr"
    using fin by (auto simp: services_done_def)
  have head: "eq_head (sim_queues s q) = Some e"
    using queue_rep_pop(1)[of q s e l] inv by (simp add: queue_inv_def)
  have ge: "\<forall>t \<in> set (map fst tr). ?t \<le> t" using tr(5) later by blast
  have "\<forall>t \<in> set (map fst ((?t, e) # tr)). t \<le> T \<and> (\<forall>b. (\<forall>x \<in> set (e # l). b \<le> ev_when (sim_heap s x)) \<longrightarrow> b \<le> t)"
    using ge tr(5) le by (auto intro: order_trans)
  moreover have "\<forall>x \<in> K \<inter> set (e # l). ev_when (sim_heap s x) \<le> T \<longrightarrow> (ev_when (sim_heap s x), x) \<in> set ((?t, e) # tr)"
  proof (intro ballI impI)
    fix x assume x: "x \<in> K \<inter> set (e # l)" "ev_when (sim_heap s x) \<le> T"
    show "(ev_when (sim_heap s x), x) \<in> set ((?t, e) # tr)"
    proof (cases "x = e")
      case False
      then have "x \<in> K \<inter> set l1" "ev_when (sim_heap s1 x) = ev_when (sim_heap s x)" using x(1) keep by auto
      then show ?thesis using bspec[OF tr(6), of x] x(2) by simp
    qed simp
  qed
  moreover have "services process q ((?t, e) # tr) s s'" using head one tr(1) by auto
  moreover have "sorted (map fst ((?t, e) # tr))" using ge tr(4) by simp
  ultimately show ?thesis using tr(2,3) unfolding services_done_def by blast
qed

lemma serviceEvents_loop_done:
  assumes "queue_inv q s l" "no_managed_exit s" "well_behaved process q rank K E"
  shows "\<exists>r. serviceEvents_loop process q T s = Some r \<and>
    (case r of Inl err \<Rightarrow> err \<in> E | Inr s' \<Rightarrow> services_done process q T K s l s')"
  using assms
proof (induction "service_measure rank T s l" arbitrary: s l rule: less_induct)
  case less
  have stop: ?case if "serviceEvents_loop process q T s = Some (Inr s)" "\<forall>x \<in> set l. T < ev_when (sim_heap s x)"
  proof -
    have "services_done process q T K s l s"
      unfolding services_done_def using less.prems(1) that(2)
      by (intro exI[of _ "[]"] exI[of _ l]) (auto simp flip: not_less)
    then show ?thesis using that(1) by simp
  qed
  show ?case
  proof (cases l)
    case Nil
    with less.prems have "EventQueue_empty q s"
      by (auto simp: queue_inv_def EventQueue_empty_def dest: queue_rep_Nil)
    then show ?thesis using Nil by (intro stop) (simp_all add: serviceEvents_loop.simps)
  next
    case (Cons e ls)
    have rep: "queue_rep q s (e # ls)" using less.prems Cons by (simp add: queue_inv_def)
    have head: "\<not> EventQueue_empty q s" "EventQueue_nextTick q s = Inr (ev_when (sim_heap s e))"
      using queue_rep_pop(1)[OF rep] by (simp_all add: EventQueue_empty_def EventQueue_nextTick_def)
    show ?thesis
    proof (cases "ev_when (sim_heap s e) \<le> T")
      case False
      then have "\<forall>x \<in> set l. T < ev_when (sim_heap s x)"
        using queue_inv_le[of q s e ls] less.prems(1) Cons by (auto simp: not_le intro: less_le_trans)
      moreover have "serviceEvents_loop process q T s = Some (Inr s)"
        using head False[unfolded not_le] by (simp add: serviceEvents_loop.simps[of process q T s])
      ultimately show ?thesis by (intro stop)
    next
      case True
      have loop: "serviceEvents_loop process q T s = (case EventQueue_serviceOne process q s of
          Inl err \<Rightarrow> Some (Inl err) | Inr r \<Rightarrow> serviceEvents_loop process q T (fst r))"
        using head True[THEN leD] by (simp add: serviceEvents_loop.simps[of process q T s])
      note one = serviceOne_progress[OF less.prems(1)[unfolded Cons] less.prems(2,3)]
      show ?thesis
      proof (cases "EventQueue_serviceOne process q s")
        case (Inl err)
        then show ?thesis using one loop by simp
      next
        case (Inr p)
        obtain s1 r where p: "p = (s1, r)" by (cases p)
        obtain l1 where l1: "queue_inv q s1 l1" "no_managed_exit s1"
            "load rank (ev_when (sim_heap s e)) s1 l1 < load rank (ev_when (sim_heap s e)) s (e # ls)"
            "\<forall>x \<in> set l1. ev_when (sim_heap s e) \<le> ev_when (sim_heap s1 x)"
            "\<forall>x \<in> K \<inter> set ls. x \<in> set l1 \<and> ev_when (sim_heap s1 x) = ev_when (sim_heap s x)"
          using one Inr p by auto
        then obtain res where res: "serviceEvents_loop process q T s1 = Some res"
            "case res of Inl err \<Rightarrow> err \<in> E | Inr s' \<Rightarrow> services_done process q T K s1 l1 s'"
          using less.hyps[of s1 l1] service_measure_decreases[OF True l1(4,3)] less.prems(3) Cons by blast
        have "services_done process q T K s l s'" if "res = Inr s'" for s'
          using services_done_Cons[OF less.prems(1)[unfolded Cons] True _ l1(4,5)] Inr p res(2) that Cons by auto
        then show ?thesis using loop Inr p res by (auto split: sum.splits)
      qed
    qed
  qed
qed

section \<open>The self-check, asynchronous insertion and destruction\<close>

lemma debugVerify_bin_exact:
  "in_bin h p xs \<Longrightarrow>
   debugVerify_bin h t pr seen p =
     Some (if sorted ((t, pr) # map (ev_key h) xs) \<and> distinct xs \<and> set xs \<inter> set seen = {}
           then Some (fst (last ((t, pr) # map (ev_key h) xs)), snd (last ((t, pr) # map (ev_key h) xs)),
                      rev xs @ seen)
           else None)"
proof (induction xs arbitrary: p t pr seen)
  case Nil
  then show ?case by (simp add: debugVerify_bin.simps)
next
  case (Cons x xs)
  then have p: "p = Some x" and ib: "in_bin h (nextInBin (h x)) xs" by auto
  let ?k = "ev_key h"
  have le: "(t, pr) \<le> ?k x \<longleftrightarrow> \<not> ev_when (h x) < t \<and> \<not> (ev_when (h x) = t \<and> sint (ev_priority (h x)) < pr)"
    by (auto simp: ev_key_def less_eq_prod_def)
  show ?case
  proof (cases "(t, pr) \<le> ?k x \<and> x \<notin> set seen")
    case True
    then have "debugVerify_bin h t pr seen p =
        debugVerify_bin h (fst (?k x)) (snd (?k x)) (x # seen) (nextInBin (h x))"
      using p le by (auto simp: debugVerify_bin.simps[of h t pr seen "Some x"] ev_key_def)
    with Cons.IH[OF ib, of "fst (?k x)" "snd (?k x)" "x # seen"] True show ?thesis
      by (auto intro: order_trans)
  next
    case False
    then have "debugVerify_bin h t pr seen p = Some None"
      using p le by (auto simp: debugVerify_bin.simps[of h t pr seen "Some x"])
    with False show ?thesis by auto
  qed
qed

lemma sorted_last_append:
  "sorted (z # xs @ ys) \<longleftrightarrow> sorted (z # xs) \<and> sorted (last (z # xs) # ys)"
proof -
  have "sorted ((z # xs) @ ys) \<longleftrightarrow> sorted (z # xs) \<and> sorted (last (z # xs) # ys)"
  proof (induction "z # xs" arbitrary: z xs)
    case (Cons z xs)
    then show ?case by (cases xs) (auto intro: order_trans)
  qed
  then show ?thesis by simp
qed

lemma debugVerify_bins_exact:
  "bseg h p bs None \<Longrightarrow>
   debugVerify_bins h t pr seen p =
     Some (sorted ((t, pr) # map (ev_key h) (concat bs)) \<and> distinct (concat bs) \<and>
           set (concat bs) \<inter> set seen = {})"
proof (induction bs arbitrary: p t pr seen)
  case Nil
  then show ?case by (simp add: debugVerify_bins.simps)
next
  case (Cons b bs)
  then have b: "b \<noteq> []" "p = Some (hd b)" "in_bin h p b" and seg: "bseg h (nextBin (h (hd b))) bs None"
    by auto
  let ?L = "last ((t, pr) # map (ev_key h) b)"
  note bin = debugVerify_bin_exact[OF b(3), of t pr seen]
  show ?case
  proof (cases "sorted ((t, pr) # map (ev_key h) b) \<and> distinct b \<and> set b \<inter> set seen = {}")
    case True
    then have "debugVerify_bins h t pr seen p =
        debugVerify_bins h (fst ?L) (snd ?L) (rev b @ seen) (nextBin (h (hd b)))"
      using bin b(2) by (simp add: debugVerify_bins.simps[of h t pr seen "Some (hd b)"])
    with Cons.IH[OF seg, of "fst ?L" "snd ?L" "rev b @ seen"] True
      sorted_last_append[of "(t, pr)" "map (ev_key h) b" "map (ev_key h) (concat bs)"]
    show ?thesis by auto
  next
    case False
    then have "debugVerify_bin h t pr seen p = Some None" by (simp only: bin if_False)
    then have "debugVerify_bins h t pr seen p = Some False"
      using b(2) by (simp add: debugVerify_bins.simps[of h t pr seen "Some (hd b)"])
    with False sorted_last_append[of "(t, pr)" "map (ev_key h) b" "map (ev_key h) (concat bs)"]
    show ?thesis by auto
  qed
qed

lemma handleAsyncInsertions_loop_rep:
  assumes "queue_rep q s l" "distinct es" "set es \<inter> set l = {}"
  shows "\<exists>s' l'. handleAsyncInsertions_loop q es s = Inr s' \<and> queue_rep q s' l' \<and>
    l' = foldl (\<lambda>l e. ins_ev (sim_key s) e l) l es \<and> sim_key s' = sim_key s \<and>
    (es \<noteq> [] \<longrightarrow> async_queue (sim_queues s' q) = [])"
  using assms
proof (induction es arbitrary: s l)
  case (Cons e es)
  then have "e \<notin> set l" by auto
  then obtain s1 where s1: "EventQueue_insert q e s = Inr s1" "queue_step q s s1"
    "queue_rep q s1 (ins_ev (sim_key s) e l)"
    using queue_rep_insert[OF Cons.prems(1)] by blast
  let ?s2 = "s1\<lparr>sim_queues := (sim_queues s1)(q := (sim_queues s1 q)\<lparr>async_queue := es\<rparr>)\<rparr>"
  have rep2: "queue_rep q ?s2 (ins_ev (sim_key s) e l)"
    by (rule queue_rep_cong[OF s1(3)]) (auto simp: ev_key_def)
  have key2: "sim_key ?s2 = sim_key s" using queue_stepD(2)[OF s1(2)] by simp
  have d: "distinct es" "set es \<inter> set (ins_ev (sim_key s) e l) = {}" using Cons.prems(2,3) by auto
  obtain s' where s': "handleAsyncInsertions_loop q es ?s2 = Inr s'"
    "queue_rep q s' (foldl (\<lambda>l e. ins_ev (sim_key s) e l) (ins_ev (sim_key s) e l) es)"
    "sim_key s' = sim_key s" "es \<noteq> [] \<longrightarrow> async_queue (sim_queues s' q) = []"
    using Cons.IH[OF rep2 d] unfolding key2 by blast
  then have "async_queue (sim_queues s' q) = []" by (cases es) auto
  with s' s1(1) show ?case by simp
qed simp

lemma deschedule_sync:
  assumes "queue_inv q s l" "e \<in> set l" "EventQueue_deschedule q e s = Inr s'"
  shows "inParallelMode s' = inParallelMode s \<and> curEventQueue s' = curEventQueue s"
proof -
  have "queue_rep q s l" "owned_by q s e" using assms by (auto simp: queue_inv_def)
  then obtain s1 where s1: "EventQueue_remove q e s = Inr s1" "queue_step q s s1"
    using queue_rep_remove assms(2) by blast
  with assms(3) show ?thesis
    by (auto simp: EventQueue_deschedule_def result_eq_Inr Event_release_frame(4,5) queue_stepD(5,6))
qed

lemma EventQueue_destroy_loop_done:
  assumes "queue_inv q s l" "\<not> inParallelMode s \<or> curEventQueue s = Some q"
  shows "\<exists>s'. EventQueue_destroy_loop q s = Some (Inr s') \<and> EventQueue_empty q s'"
  using assms
proof (induction l arbitrary: s)
  case Nil
  then have "EventQueue_empty q s"
    by (auto simp: queue_inv_def EventQueue_empty_def dest: queue_rep_Nil)
  then show ?case by (simp add: EventQueue_destroy_loop.simps)
next
  case (Cons e l)
  have head: "eq_head (sim_queues s q) = Some e"
    using Cons.prems(1) queue_rep_pop(1) by (auto simp: queue_inv_def)
  obtain s1 where s1: "EventQueue_deschedule q e s = Inr s1" "queue_inv q s1 l"
    using EventQueue_deschedule_inv[OF Cons.prems(1) _ Cons.prems(2), of e] by auto
  have "\<not> inParallelMode s1 \<or> curEventQueue s1 = Some q"
    using deschedule_sync[OF Cons.prems(1) _ s1(1)] Cons.prems(2) by auto
  from Cons.IH[OF s1(2) this] head s1(1) show ?case
    by (simp add: EventQueue_destroy_loop.simps[of q s] EventQueue_empty_def)
qed

section \<open>Properties\<close>

text \<open>A queue with two bins, used by the witnesses below.\<close>

definition demo_heap :: heap where
  "demo_heap = (\<lambda>p. \<lparr>nextBin = (if p = 1 then Some 2 else None), nextInBin = None,
     ev_when = (if p = 1 then 10 else if p = 2 then 20 else 0), ev_priority = 0,
     ev_flags = (if p = 1 \<or> p = 2 then 0x7a42 else 0x7a40), ev_queue = Some 0\<rparr>)"

definition demo_sim :: sim_state where
  "demo_sim = \<lparr>sim_heap = demo_heap,
     sim_queues = (\<lambda>_. \<lparr>objName = ''MainEventQueue-0'', eq_head = Some 1, eq_curTick = 5, async_queue = []\<rparr>),
     inParallelMode = False, curEventQueue = Some 0, deleted = []\<rparr>"

lemma demo_rep: "queue_rep 0 demo_sim [1, 2]"
  unfolding queue_rep_def
  by (rule exI[of _ "[[1], [2]]"])
     (simp add: demo_sim_def demo_heap_def queue_bins_def bins_sorted_Cons ev_key_def)

lemma demo_inv: "queue_inv 0 demo_sim [1, 2]"
  using demo_rep
  by (auto simp: queue_inv_def owned_by_def demo_sim_def demo_heap_def Event_scheduled_def
      Event_initialized_def Flags_isSet_def)

lemma demo_no_managed_exit: "no_managed_exit demo_sim"
  by (auto simp: no_managed_exit_def demo_sim_def demo_heap_def Event_isExitEvent_def
      Event_isManaged_def Flags_isSet_def)

text \<open>An action that schedules its event again, four ticks later.\<close>

definition rearm :: process where
  "rearm e s = (if inParallelMode s then Inr s else EventQueue_schedule 0 e (eq_curTick (sim_queues s 0) + 4) False s)"

lemma rearm_well_behaved:
  "well_behaved rearm 0 (\<lambda>_. 0) UNIV
     {AssertFail ''when >= getCurTick()'', AssertFail ''!event->scheduled()'', AssertFail ''event->initialized()''}"
  (is "well_behaved _ _ _ _ ?E")
  unfolding well_behaved_def
proof (intro allI impI)
  fix e s l assume a: "queue_inv 0 s l \<and> e \<notin> set l \<and> no_managed_exit s"
  let ?now = "eq_curTick (sim_queues s 0)"
  show "case rearm e s of Inl err \<Rightarrow> err \<in> ?E
    | Inr s' \<Rightarrow> \<exists>l'. queue_inv 0 s' l' \<and> no_managed_exit s' \<and> eq_curTick (sim_queues s' 0) = ?now \<and>
        load (\<lambda>_. 0) ?now s' l' \<le> load (\<lambda>_. 0) ?now s l + 0 \<and>
        (\<forall>x \<in> UNIV \<inter> set l. x \<in> set l' \<and> ev_when (sim_heap s' x) = ev_when (sim_heap s x))"
  proof (cases "inParallelMode s \<or> \<not> (?now \<le> ?now + 4 \<and> \<not> Event_scheduled (sim_heap s e) \<and> Event_initialized (sim_heap s e))")
    case True
    then show ?thesis using a by (auto simp: rearm_def EventQueue_schedule_def assert_that_def intro!: exI[of _ l])
  next
    case False
    then obtain s' where s': "EventQueue_schedule 0 e (?now + 4) False s = Inr s'" "queue_inv 0 s' (ins_ev (sim_key s') e l)"
        "ev_when (sim_heap s' e) = ?now + 4" "\<forall>x. x \<noteq> e \<longrightarrow> sim_key s' x = sim_key s x"
        "eq_curTick (sim_queues s' 0) = ?now"
        "\<forall>x. ev_flags (sim_heap s' x) = (if x = e then Flags_set (ev_flags (sim_heap s e)) Scheduled else ev_flags (sim_heap s x))"
      using EventQueue_schedule_inv[of 0 s l "?now + 4" e False] a by blast
    have same: "ev_when (sim_heap s' x) = ev_when (sim_heap s x)" if "x \<in> set l" for x
    proof -
      have "x \<noteq> e" using that a by auto
      with s'(4) have "sim_key s' x = sim_key s x" by simp
      then show ?thesis by (simp add: ev_key_def)
    qed
    have "?now + 4 \<noteq> ?now" by simp
    then have late: "\<not> ev_when (sim_heap s' e) \<le> ?now" using False s'(3) by auto
    have "filter (\<lambda>x. ev_when (sim_heap s' x) \<le> ?now) (ins_ev (sim_key s') e l) = filter (\<lambda>x. ev_when (sim_heap s' x) \<le> ?now) l"
    proof -
      let ?p = "\<lambda>x. sim_key s' x < sim_key s' e"
      have "filter P (takeWhile ?p l) @ filter P (dropWhile ?p l) = filter P l" for P
        by (metis filter_append takeWhile_dropWhile_id)
      then show ?thesis using late by (simp add: ins_ev_def)
    qed
    also have "\<dots> = filter (\<lambda>x. ev_when (sim_heap s x) \<le> ?now) l" using same by (intro filter_cong) simp_all
    finally have "load (\<lambda>_. 0) ?now s' (ins_ev (sim_key s') e l) = load (\<lambda>_. 0) ?now s l" by (simp add: load_def)
    moreover have "no_managed_exit s'"
    proof -
      have "Flags_isSet (Flags_set fl Scheduled) IsExitEvent = Flags_isSet fl IsExitEvent"
          "Flags_isSet (Flags_set fl Scheduled) Managed = Flags_isSet fl Managed" for fl
        by (simp_all add: Flags_isSet_def Flags_set_def bit.conj_disj_distrib2)
      then show ?thesis
        using a s'(6) by (auto simp: no_managed_exit_def Event_isExitEvent_def Event_isManaged_def split: if_splits)
    qed
    moreover have "set l \<subseteq> set (ins_ev (sim_key s') e l)" by auto
    ultimately show ?thesis using False s'(1,2,5) same by (auto simp: rearm_def)
  qed
qed

text \<open>
  C1. \<open>EventQueue::insert\<close> on the linked list of linked lists returns, and the queue then
  spells out the old sequence with the new event placed directly in front of the first
  event that is not strictly earlier in (tick, priority); only link fields change.
\<close>

theorem EventQueue_insert_refines:
  assumes "queue_rep q s l" "e \<notin> set l"
  shows "\<exists>s'. EventQueue_insert q e s = Inr s' \<and>
    queue_rep q s' (takeWhile (\<lambda>x. sim_key s x < sim_key s e) l @ e # dropWhile (\<lambda>x. sim_key s x < sim_key s e) l) \<and>
    links_only (sim_heap s) (sim_heap s')"
  using queue_rep_insert[OF assms] unfolding ins_ev_def by (metis queue_stepD(1))

theorem EventQueue_insert_refines_witness:
  "\<exists>s'. EventQueue_insert 0 3 demo_sim = Inr s' \<and> queue_rep 0 s' [3, 1, 2]"
proof -
  have "(3::eptr) \<notin> set [1, 2]" by simp
  from EventQueue_insert_refines[OF demo_rep this] show ?thesis
    by (auto simp: ev_key_def demo_sim_def demo_heap_def)
qed

text \<open>
  C4. Inserting an event and removing it again gives back a queue that represents exactly
  the sequence it represented before.
\<close>

theorem EventQueue_insert_remove:
  assumes "queue_rep q s l" "e \<notin> set l" "ev_queue (sim_heap s e) = Some q"
  shows "\<exists>s1 s2. EventQueue_insert q e s = Inr s1 \<and> EventQueue_remove q e s1 = Inr s2 \<and> queue_rep q s2 l"
  using evq.ins_then_rem[OF assms(1,2)] assms(3) by (auto simp: owned_by_def)

theorem EventQueue_insert_remove_witness:
  "\<exists>s1 s2. EventQueue_insert 0 3 demo_sim = Inr s1 \<and> EventQueue_remove 0 3 s1 = Inr s2 \<and> queue_rep 0 s2 [1, 2]"
proof (rule EventQueue_insert_remove[OF demo_rep])
  show "ev_queue (sim_heap demo_sim 3) = Some 0" by (simp add: demo_sim_def demo_heap_def)
qed simp

text \<open>
  C10. \<open>schedule\<close> of an initialized, unscheduled event at or after the current tick succeeds
  and keeps the queue invariant: sorted, duplicate free, every queued event scheduled,
  initialized, owned by the queue and not in the past.
\<close>

theorem EventQueue_schedule_keeps_inv:
  assumes "queue_inv q s l" "eq_curTick (sim_queues s q) \<le> when"
    "\<not> Event_scheduled (sim_heap s e)" "Event_initialized (sim_heap s e)"
    "\<not> (inParallelMode s \<and> (curEventQueue s \<noteq> Some q \<or> global))"
  shows "\<exists>s'. EventQueue_schedule q e when global s = Inr s' \<and> queue_inv q s' (ins_ev (sim_key s') e l) \<and>
    ev_when (sim_heap s' e) = when \<and> Event_scheduled (sim_heap s' e)"
  using EventQueue_schedule_inv[OF assms] by blast

theorem EventQueue_schedule_keeps_inv_witness:
  "\<exists>s'. EventQueue_schedule 0 3 15 False demo_sim = Inr s' \<and> queue_inv 0 s' (ins_ev (sim_key s') 3 [1, 2]) \<and>
    ev_when (sim_heap s' 3) = 15 \<and> Event_scheduled (sim_heap s' 3)"
  by (rule EventQueue_schedule_keeps_inv[OF demo_inv])
     (simp_all add: demo_sim_def demo_heap_def Event_scheduled_def Event_initialized_def Flags_isSet_def)

text \<open>
  C11. \<open>deschedule\<close> of a queued event succeeds, takes exactly that event out of the queue,
  keeps the invariant and leaves the event unscheduled.
\<close>

theorem EventQueue_deschedule_keeps_inv:
  assumes "queue_inv q s l" "e \<in> set l" "\<not> inParallelMode s \<or> curEventQueue s = Some q"
  shows "\<exists>s'. EventQueue_deschedule q e s = Inr s' \<and> queue_inv q s' (remove1 e l) \<and>
    \<not> Event_scheduled (sim_heap s' e)"
  using EventQueue_deschedule_inv[OF assms] by blast

theorem EventQueue_deschedule_keeps_inv_witness:
  "\<exists>s'. EventQueue_deschedule 0 2 demo_sim = Inr s' \<and> queue_inv 0 s' (remove1 2 [1, 2]) \<and>
    \<not> Event_scheduled (sim_heap s' 2)"
  by (rule EventQueue_deschedule_keeps_inv[OF demo_inv]) (simp_all add: demo_sim_def)

text \<open>
  C16. \<open>serviceOne\<close> runs the action of the earliest event, in a state where that event has
  left the queue and is unscheduled, the current tick has advanced to the event's time and
  the rest of the queue keeps its invariant; no remaining event is earlier.
\<close>

theorem EventQueue_serviceOne_earliest:
  assumes "queue_inv q s (e # l)" "\<not> Event_squashed (sim_heap s e)"
  shows "\<exists>s1. EventQueue_serviceOne process q s = rbind (process e s1) (serviceOne_finish e) \<and>
    queue_inv q s1 l \<and> eq_curTick (sim_queues s1 q) = ev_when (sim_heap s e) \<and>
    \<not> Event_scheduled (sim_heap s1 e) \<and> (\<forall>x \<in> set l. sim_key s e \<le> sim_key s1 x)"
proof (intro exI conjI)
  have rep: "queue_rep q s (e # l)" using assms(1) by (simp add: queue_inv_def)
  show "EventQueue_serviceOne process q s = rbind (process e (service_state q e s)) (serviceOne_finish e)"
    using rep assms(2) by (rule serviceOne_run)
  show "\<forall>x \<in> set l. sim_key s e \<le> sim_key (service_state q e s) x"
    using evq.earliest_first[OF rep] by simp
qed (use queue_inv_service_state[OF assms(1)] in simp_all)

theorem EventQueue_serviceOne_earliest_witness:
  "\<exists>s1. EventQueue_serviceOne (\<lambda>_. Inr) 0 demo_sim = rbind (Inr s1) (serviceOne_finish 1) \<and>
    queue_inv 0 s1 [2] \<and> eq_curTick (sim_queues s1 0) = 10"
proof -
  have "\<not> Event_squashed (sim_heap demo_sim 1)"
    by (simp add: demo_sim_def demo_heap_def Event_squashed_def Flags_isSet_def)
  from EventQueue_serviceOne_earliest[OF demo_inv this, of "\<lambda>_. Inr"] show ?thesis
    by (auto simp: demo_sim_def demo_heap_def)
qed

text \<open>
  C17. \<open>serviceEvents(T)\<close> ends: it returns, or it fails with an error that an event action fails with. Actions may
  schedule events for any later tick, so that an event may rearm itself any number of times before \<open>T\<close>, may
  take events out of the queue, and may add to the current tick events that rank below their own. If it
  returns, it has called \<open>serviceOne\<close> for a sequence of events, each the first of the queue, in the
  order of their ticks and up to \<open>T\<close>; the sequence has every event that was in the queue and due by \<open>T\<close> at
  that tick, but for events that an action took out of the queue or moved; every event still in the queue is later than \<open>T\<close>,
  and the time of the queue is \<open>T\<close>.
\<close>

theorem EventQueue_serviceEvents_done:
  assumes "queue_inv q s l" "no_managed_exit s" "well_behaved process q rank K E"
  shows "serviceEvents_loop process q T s \<noteq> None \<and>
    (case EventQueue_serviceEvents process q T s of
       Inl err \<Rightarrow> err \<in> E
     | Inr s' \<Rightarrow> \<exists>tr s1 l'. services process q tr s s1 \<and> s' = EventQueue_setCurTick q T s1 \<and>
         sorted (map fst tr) \<and> (\<forall>t \<in> set (map fst tr). t \<le> T) \<and>
         (\<forall>x \<in> K \<inter> set l. ev_when (sim_heap s x) \<le> T \<longrightarrow> (ev_when (sim_heap s x), x) \<in> set tr) \<and>
         queue_rep q s' l' \<and> (\<forall>x \<in> set l'. T < ev_when (sim_heap s' x)) \<and> eq_curTick (sim_queues s' q) = T)"
proof -
  obtain r where r: "serviceEvents_loop process q T s = Some r"
      "case r of Inl err \<Rightarrow> err \<in> E | Inr s' \<Rightarrow> services_done process q T K s l s'"
    using serviceEvents_loop_done[OF assms] by blast
  show ?thesis
  proof (cases r)
    case (Inl err)
    then show ?thesis using r by (simp add: EventQueue_serviceEvents_def)
  next
    case (Inr s1)
    let ?s = "EventQueue_setCurTick q T s1"
    obtain tr l' where tr: "services process q tr s s1" "queue_inv q s1 l'" "\<forall>x \<in> set l'. T < ev_when (sim_heap s1 x)"
        "sorted (map fst tr)" "\<forall>t \<in> set (map fst tr). t \<le> T"
        "\<forall>x \<in> K \<inter> set l. ev_when (sim_heap s x) \<le> T \<longrightarrow> (ev_when (sim_heap s x), x) \<in> set tr"
      using r(2) Inr by (auto simp: services_done_def)
    moreover have "queue_rep q ?s l'" using tr(2) by (simp add: queue_inv_def queue_rep_setCurTick)
    moreover have "\<forall>x \<in> set l'. T < ev_when (sim_heap ?s x)" "eq_curTick (sim_queues ?s q) = T" using tr(3) by simp_all
    ultimately have "\<exists>tr s1' l'. services process q tr s s1' \<and> ?s = EventQueue_setCurTick q T s1' \<and>
        sorted (map fst tr) \<and> (\<forall>t \<in> set (map fst tr). t \<le> T) \<and>
        (\<forall>x \<in> K \<inter> set l. ev_when (sim_heap s x) \<le> T \<longrightarrow> (ev_when (sim_heap s x), x) \<in> set tr) \<and>
        queue_rep q ?s l' \<and> (\<forall>x \<in> set l'. T < ev_when (sim_heap ?s x)) \<and> eq_curTick (sim_queues ?s q) = T"
      by blast
    then show ?thesis using r(1) Inr by (simp add: EventQueue_serviceEvents_def)
  qed
qed

theorem EventQueue_serviceEvents_done_witness:
  "case EventQueue_serviceEvents rearm 0 19 demo_sim of
     Inl err \<Rightarrow> False
   | Inr s' \<Rightarrow> \<exists>tr s1 l'. services rearm 0 tr demo_sim s1 \<and> s' = EventQueue_setCurTick 0 19 s1 \<and> (10, 1) \<in> set tr \<and>
       sorted (map fst tr) \<and> queue_rep 0 s' l' \<and> (\<forall>x \<in> set l'. 19 < ev_when (sim_heap s' x))"
proof -
  note fin = EventQueue_serviceEvents_done[OF demo_inv demo_no_managed_exit rearm_well_behaved, of 19]
  have "case serviceEvents_loop rearm 0 19 demo_sim of Some (Inr _) \<Rightarrow> True | _ \<Rightarrow> False"
    by code_simp
  then obtain s' where "EventQueue_serviceEvents rearm 0 19 demo_sim = Inr s'"
    by (auto simp: EventQueue_serviceEvents_def split: option.splits sum.splits)
  moreover have "ev_when (sim_heap demo_sim 1) = 10" by (simp add: demo_sim_def demo_heap_def)
  ultimately show ?thesis using fin by auto
qed

text \<open>
  C21. \<open>debugVerify\<close> decides exactly whether the events, in queue order and started from tick 0
  and priority 0, are sorted and free of repetitions. A sorted queue whose first event
  has tick 0 and a negative priority is therefore reported as corrupt.
\<close>

theorem EventQueue_debugVerify_exact:
  assumes "bseg (sim_heap s) (eq_head (sim_queues s q)) bs None"
  shows "EventQueue_debugVerify q s =
    Inr (sorted ((0, 0) # map (sim_key s) (concat bs)) \<and> distinct (concat bs))"
  using debugVerify_bins_exact[OF assms, of 0 0 "[]"] by (simp add: EventQueue_debugVerify_def)

theorem EventQueue_debugVerify_exact_witness:
  "EventQueue_debugVerify 0 demo_sim = Inr True \<and>
   EventQueue_debugVerify 0 (demo_sim\<lparr>sim_heap := demo_heap(1 := (demo_heap 1)\<lparr>ev_when := 0, ev_priority := - 1\<rparr>)\<rparr>) = Inr False"
proof -
  have a: "bseg (sim_heap demo_sim) (eq_head (sim_queues demo_sim 0)) [[1], [2]] None"
    by (simp add: demo_sim_def demo_heap_def)
  let ?s = "demo_sim\<lparr>sim_heap := demo_heap(1 := (demo_heap 1)\<lparr>ev_when := 0, ev_priority := - 1\<rparr>)\<rparr>"
  have b: "bseg (sim_heap ?s) (eq_head (sim_queues ?s 0)) [[1], [2]] None"
    by (simp add: demo_sim_def demo_heap_def)
  have "sorted ((0, 0) # map (sim_key demo_sim) (concat [[1], [2]]))"
    by (simp add: demo_sim_def demo_heap_def ev_key_def)
  moreover have "\<not> sorted ((0, 0) # map (sim_key ?s) (concat [[1], [2]]))"
    by (simp add: ev_key_def)
  ultimately show ?thesis
    using EventQueue_debugVerify_exact[OF a] EventQueue_debugVerify_exact[OF b] by simp
qed

text \<open>
  C40. Restoring an event with \<open>UNSERIALIZE_EVENT\<close> that was scheduled and not squashed when it
  was serialized leaves the queue as it was: \<open>unserialize\<close> clears the Scheduled flag that
  \<open>checkpointReschedule\<close> tests, so the pending event is not put back.
\<close>

theorem UNSERIALIZE_EVENT_drops_pending:
  assumes "Event_scheduled old" "\<not> Event_squashed old"
    and "\<not> Event_scheduled (sim_heap s e)" "Event_initialized (sim_heap s e)"
  shows "\<exists>s'. UNSERIALIZE_EVENT q e (Event_serialize old) s = Inr s' \<and>
    sim_queues s' = sim_queues s \<and> \<not> Event_scheduled (sim_heap s' e)"
proof -
  let ?fl = "Flags_set (ev_flags old) Initialized"
  have old: "Flags_isSet ?fl Scheduled" "\<not> Flags_isSet ?fl Squashed"
    using assms(1,2)
    by (auto simp: Event_scheduled_def Event_squashed_def Flags_isSet_def Flags_set_def bit.conj_disj_distrib2)
  have gone: "\<not> Flags_isSet (Flags_clear fl (Squashed OR Scheduled)) Scheduled" for fl
    by (simp add: Flags_isSet_def Flags_clear_def and.assoc)
  show ?thesis
    using assms(3,4) old gone
    by (simp add: UNSERIALIZE_EVENT_def Event_unserialize_def Event_serialize_def Event_initialized_def
        EventQueue_checkpointReschedule_def Event_scheduled_def Let_def)
qed

theorem UNSERIALIZE_EVENT_drops_pending_witness:
  "\<exists>s'. UNSERIALIZE_EVENT 0 3 (Event_serialize (demo_heap 1)) demo_sim = Inr s' \<and>
    sim_queues s' = sim_queues demo_sim \<and> \<not> Event_scheduled (sim_heap s' 3)"
  by (rule UNSERIALIZE_EVENT_drops_pending)
     (simp_all add: demo_sim_def demo_heap_def Event_scheduled_def Event_squashed_def Event_initialized_def Flags_isSet_def)

end
