(* ===== verification/Bitfield.thy ===== *)
theory Bitfield
  imports Gem5_Prelude
begin

text \<open>
  Bit and integer utilities: \<open>base/bitfield.hh\<close>, \<open>base/bitfield.cc\<close> and \<open>base/intmath.hh\<close>, on
  64-bit words. Bit positions and counts are \<open>unsigned\<close> in the source; they are \<^typ>\<open>nat\<close>
  here, with the 32-bit wrap-around written out in \<open>mbits\<close>, where \<open>first + 1\<close> may wrap.
\<close>

section \<open>base/bitfield.hh\<close>

definition bf_mask :: "nat \<Rightarrow> 64 word" where
  "bf_mask nbits = (if nbits \<ge> 64 then - 1 else push_bit nbits 1 - 1)"

text \<open>
  \<open>bf_field\<close> is the value \<open>bits\<close> returns once its assertion holds; the callers below whose
  positions are literals use it directly.
\<close>

definition bf_field :: "64 word \<Rightarrow> nat \<Rightarrow> nat \<Rightarrow> 64 word" where
  "bf_field val first lst = (let nbits = first - lst + 1 in drop_bit lst val AND bf_mask nbits)"

definition bf_bits :: "64 word \<Rightarrow> nat \<Rightarrow> nat \<Rightarrow> 64 word result" where
  "bf_bits val first lst =
     assert_that (first \<ge> lst) ''first >= last'' (Inr (bf_field val first lst))"

definition bf_bit :: "64 word \<Rightarrow> nat \<Rightarrow> 64 word" where
  "bf_bit val b = bf_field val b b"

definition bf_mbits :: "64 word \<Rightarrow> nat \<Rightarrow> nat \<Rightarrow> 64 word" where
  "bf_mbits val first lst = val AND (bf_mask ((first + 1) mod 2 ^ 32) AND NOT (bf_mask lst))"

definition bf_mask2 :: "nat \<Rightarrow> nat \<Rightarrow> 64 word" where
  "bf_mask2 first lst = bf_mbits (- 1) first lst"

definition bf_sext :: "64 word \<Rightarrow> nat \<Rightarrow> 64 word" where
  "bf_sext val N =
     (let sign_bit = bf_bit val (N - 1) in
      if sign_bit \<noteq> 0 then val OR NOT (bf_mask N) else val)"

definition bf_szext :: "64 word \<Rightarrow> nat \<Rightarrow> 64 word" where
  "bf_szext val N =
     (let sign_bit = bf_bit val (N - 1) in
      if sign_bit \<noteq> 0 then val OR NOT (bf_mask N) else val AND bf_mask N)"

definition bf_insert :: "64 word \<Rightarrow> nat \<Rightarrow> nat \<Rightarrow> 64 word \<Rightarrow> 64 word" where
  "bf_insert val first lst bit_val =
     (let bmask = bf_mask2 first lst in (val AND NOT bmask) OR (push_bit lst bit_val AND bmask))"

definition bf_insertBits :: "64 word \<Rightarrow> nat \<Rightarrow> nat \<Rightarrow> 64 word \<Rightarrow> 64 word result" where
  "bf_insertBits val first lst bit_val =
     assert_that (first \<ge> lst) ''first >= last'' (Inr (bf_insert val first lst bit_val))"

text \<open>The single-bit overload, for which the assertion always holds.\<close>

definition bf_insertBit :: "64 word \<Rightarrow> nat \<Rightarrow> 64 word \<Rightarrow> 64 word" where
  "bf_insertBit val b bit_val = bf_insert val b b bit_val"

definition reverseBitsLookUpTable :: "8 word list" where
  "reverseBitsLookUpTable =
    [0x00, 0x80, 0x40, 0xC0, 0x20, 0xA0, 0x60, 0xE0, 0x10, 0x90, 0x50, 0xD0,
     0x30, 0xB0, 0x70, 0xF0, 0x08, 0x88, 0x48, 0xC8, 0x28, 0xA8, 0x68, 0xE8,
     0x18, 0x98, 0x58, 0xD8, 0x38, 0xB8, 0x78, 0xF8, 0x04, 0x84, 0x44, 0xC4,
     0x24, 0xA4, 0x64, 0xE4, 0x14, 0x94, 0x54, 0xD4, 0x34, 0xB4, 0x74, 0xF4,
     0x0C, 0x8C, 0x4C, 0xCC, 0x2C, 0xAC, 0x6C, 0xEC, 0x1C, 0x9C, 0x5C, 0xDC,
     0x3C, 0xBC, 0x7C, 0xFC, 0x02, 0x82, 0x42, 0xC2, 0x22, 0xA2, 0x62, 0xE2,
     0x12, 0x92, 0x52, 0xD2, 0x32, 0xB2, 0x72, 0xF2, 0x0A, 0x8A, 0x4A, 0xCA,
     0x2A, 0xAA, 0x6A, 0xEA, 0x1A, 0x9A, 0x5A, 0xDA, 0x3A, 0xBA, 0x7A, 0xFA,
     0x06, 0x86, 0x46, 0xC6, 0x26, 0xA6, 0x66, 0xE6, 0x16, 0x96, 0x56, 0xD6,
     0x36, 0xB6, 0x76, 0xF6, 0x0E, 0x8E, 0x4E, 0xCE, 0x2E, 0xAE, 0x6E, 0xEE,
     0x1E, 0x9E, 0x5E, 0xDE, 0x3E, 0xBE, 0x7E, 0xFE, 0x01, 0x81, 0x41, 0xC1,
     0x21, 0xA1, 0x61, 0xE1, 0x11, 0x91, 0x51, 0xD1, 0x31, 0xB1, 0x71, 0xF1,
     0x09, 0x89, 0x49, 0xC9, 0x29, 0xA9, 0x69, 0xE9, 0x19, 0x99, 0x59, 0xD9,
     0x39, 0xB9, 0x79, 0xF9, 0x05, 0x85, 0x45, 0xC5, 0x25, 0xA5, 0x65, 0xE5,
     0x15, 0x95, 0x55, 0xD5, 0x35, 0xB5, 0x75, 0xF5, 0x0D, 0x8D, 0x4D, 0xCD,
     0x2D, 0xAD, 0x6D, 0xED, 0x1D, 0x9D, 0x5D, 0xDD, 0x3D, 0xBD, 0x7D, 0xFD,
     0x03, 0x83, 0x43, 0xC3, 0x23, 0xA3, 0x63, 0xE3, 0x13, 0x93, 0x53, 0xD3,
     0x33, 0xB3, 0x73, 0xF3, 0x0B, 0x8B, 0x4B, 0xCB, 0x2B, 0xAB, 0x6B, 0xEB,
     0x1B, 0x9B, 0x5B, 0xDB, 0x3B, 0xBB, 0x7B, 0xFB, 0x07, 0x87, 0x47, 0xC7,
     0x27, 0xA7, 0x67, 0xE7, 0x17, 0x97, 0x57, 0xD7, 0x37, 0xB7, 0x77, 0xF7,
     0x0F, 0x8F, 0x4F, 0xCF, 0x2F, 0xAF, 0x6F, 0xEF, 0x1F, 0x9F, 0x5F, 0xDF,
     0x3F, 0xBF, 0x7F, 0xFF]"

text \<open>\<open>reverseBits\<close> for a type of \<open>sizeof(T) > 1\<close> bytes, here 8, and for one byte.\<close>

primrec reverseBits_loop :: "nat \<Rightarrow> 64 word \<Rightarrow> 64 word \<Rightarrow> 64 word" where
  "reverseBits_loop 0 val output = output"
| "reverseBits_loop (Suc n) val output =
     reverseBits_loop n (drop_bit 8 val)
       (push_bit 8 output OR ucast (reverseBitsLookUpTable ! unat (val AND bf_mask 8)))"

definition reverseBits :: "64 word \<Rightarrow> nat \<Rightarrow> 64 word result" where
  "reverseBits val sz = assert_that (sz \<le> 8) ''size <= sizeof(T)'' (Inr (reverseBits_loop sz val 0))"

definition findMsbSet :: "64 word \<Rightarrow> nat" where
  "findMsbSet val0 =
     (if val0 = 0 then 0
      else
        let (msb, val) = (0, val0);
            (msb, val) = (if bf_field val 63 32 \<noteq> 0 then (msb + 32, drop_bit 32 val) else (msb, val));
            (msb, val) = (if bf_field val 31 16 \<noteq> 0 then (msb + 16, drop_bit 16 val) else (msb, val));
            (msb, val) = (if bf_field val 15 8 \<noteq> 0 then (msb + 8, drop_bit 8 val) else (msb, val));
            (msb, val) = (if bf_field val 7 4 \<noteq> 0 then (msb + 4, drop_bit 4 val) else (msb, val));
            (msb, val) = (if bf_field val 3 2 \<noteq> 0 then (msb + 2, drop_bit 2 val) else (msb, val))
        in if bf_field val 1 1 \<noteq> 0 then msb + 1 else msb)"

definition findLsbSetFallback :: "64 word \<Rightarrow> nat" where
  "findLsbSetFallback val0 =
     (if val0 = 0 then 64
      else
        let (lsb, val) = (0, val0);
            (lsb, val) = (if bf_field val 31 0 = 0 then (lsb + 32, drop_bit 32 val) else (lsb, val));
            (lsb, val) = (if bf_field val 15 0 = 0 then (lsb + 16, drop_bit 16 val) else (lsb, val));
            (lsb, val) = (if bf_field val 7 0 = 0 then (lsb + 8, drop_bit 8 val) else (lsb, val));
            (lsb, val) = (if bf_field val 3 0 = 0 then (lsb + 4, drop_bit 4 val) else (lsb, val));
            (lsb, val) = (if bf_field val 1 0 = 0 then (lsb + 2, drop_bit 2 val) else (lsb, val))
        in if bf_field val 0 0 = 0 then lsb + 1 else lsb)"

text \<open>
  The count functions and \<open>popCount\<close> compile to compiler builtins, whose documented results are
  the number of trailing zeros, of leading zeros and of one bits; \<open>popCountFallback\<close> is the branch
  for compilers without the builtin.
\<close>

definition ctz64 :: "64 word \<Rightarrow> nat" where
  "ctz64 v = (if v \<noteq> 0 then length (takeWhile (\<lambda>i. \<not> bit v i) [0..<64]) else 64)"

definition findLsbSet :: "64 word \<Rightarrow> nat" where
  "findLsbSet v = (if v = 0 then 64 else ctz64 v)"

definition popCount :: "64 word \<Rightarrow> nat" where
  "popCount v = length (filter (bit v) [0..<64])"

definition popCountFallback :: "64 word \<Rightarrow> 64 word" where
  "popCountFallback val0 =
     (let m1 = 0x5555555555555555; m2 = 0x3333333333333333; m4 = 0x0f0f0f0f0f0f0f0f;
          sum = 0x0101010101010101;
          val = val0 - (drop_bit 1 val0 AND m1);
          val = (val AND m2) + (drop_bit 2 val AND m2);
          val = (val + drop_bit 4 val) AND m4
      in drop_bit 56 (val * sum))"

definition alignToPowerOfTwo :: "64 word \<Rightarrow> 64 word" where
  "alignToPowerOfTwo val0 =
     (let val = val0 - 1;
          val = val OR drop_bit 1 val;
          val = val OR drop_bit 2 val;
          val = val OR drop_bit 4 val;
          val = val OR drop_bit 8 val;
          val = val OR drop_bit 16 val;
          val = val OR drop_bit 32 val
      in val + 1)"

section \<open>base/intmath.hh\<close>

text \<open>\<open>ts\<close> is \<open>sizeof(T)\<close>; the argument is the value zero-extended to 64 bits.\<close>

definition floorLog2 :: "nat \<Rightarrow> 64 word \<Rightarrow> nat result" where
  "floorLog2 ts x =
     assert_that (x > 0) ''x > 0''
       (let (y, ux) = (0, x);
            (y, ux) = (if ts \<ge> 8 \<and> ux AND 0xffffffff00000000 \<noteq> 0 then (y + 32, drop_bit 32 ux) else (y, ux));
            (y, ux) = (if ts \<ge> 4 \<and> ux AND 0x00000000ffff0000 \<noteq> 0 then (y + 16, drop_bit 16 ux) else (y, ux));
            (y, ux) = (if ts \<ge> 2 \<and> ux AND 0x000000000000ff00 \<noteq> 0 then (y + 8, drop_bit 8 ux) else (y, ux));
            (y, ux) = (if ux AND 0x00000000000000f0 \<noteq> 0 then (y + 4, drop_bit 4 ux) else (y, ux));
            (y, ux) = (if ux AND 0x000000000000000c \<noteq> 0 then (y + 2, drop_bit 2 ux) else (y, ux))
        in Inr (if ux AND 0x0000000000000002 \<noteq> 0 then y + 1 else y))"

definition ceilLog2 :: "nat \<Rightarrow> 64 word \<Rightarrow> nat result" where
  "ceilLog2 ts n =
     assert_that (n > 0) ''n > 0''
       (if n = 1 then Inr 0 else rbind (floorLog2 ts (n - 1)) (\<lambda>y. Inr (y + 1)))"

definition isPowerOf2 :: "64 word \<Rightarrow> bool" where
  "isPowerOf2 n = (n \<noteq> 0 \<and> n AND (n - 1) = 0)"

definition mulUnsignedManual :: "64 word \<Rightarrow> 64 word \<Rightarrow> 64 word \<times> 64 word" where
  "mulUnsignedManual val_a val_b =
     (let low = val_a * val_b;
          A = drop_bit 32 val_a AND 0xffffffff;
          a = val_a AND 0xffffffff;
          B = drop_bit 32 val_b AND 0xffffffff;
          b = val_b AND 0xffffffff;
          ab = a * b; Ab = A * b; aB = a * B; AB = A * B;
          c1 = drop_bit 32 ab AND 0xffffffff;
          c2 = drop_bit 1 c1 + drop_bit 1 Ab + drop_bit 1 aB;
          c2 = c2 + drop_bit 1 ((c1 AND 1) + (Ab AND 1) + (aB AND 1));
          c2 = drop_bit 31 c2
      in (AB + c2, low))"

definition mulUnsigned64 :: "64 word \<Rightarrow> 64 word \<Rightarrow> 64 word \<times> 64 word" where
  "mulUnsigned64 val_a val_b =
     (let val = (ucast val_a :: 128 word) * ucast val_b
      in (ucast (drop_bit 64 val), ucast val))"

definition mulSignedManual :: "64 word \<Rightarrow> 64 word \<Rightarrow> 64 word \<times> 64 word" where
  "mulSignedManual val_a val_b =
     (let (u_high, u_low) = mulUnsigned64 val_a val_b;
          u_high = (if sint val_a < 0 then u_high - val_b else u_high);
          u_high = (if sint val_b < 0 then u_high - val_a else u_high)
      in (u_high, u_low))"

definition mulSigned64 :: "64 word \<Rightarrow> 64 word \<Rightarrow> 64 word \<times> 64 word" where
  "mulSigned64 val_a val_b =
     (let val = (scast val_a :: 128 word) * scast val_b
      in (ucast (drop_bit 64 val), ucast val))"

definition roundUp :: "64 word \<Rightarrow> 64 word \<Rightarrow> 64 word result" where
  "roundUp val algn =
     assert_that (isPowerOf2 algn) ''isPowerOf2(align)''
       (let msk = algn - 1 in Inr ((val + msk) AND NOT msk))"

definition roundDown :: "64 word \<Rightarrow> 64 word \<Rightarrow> 64 word result" where
  "roundDown val algn =
     assert_that (isPowerOf2 algn) ''isPowerOf2(align)''
       (let msk = algn - 1 in Inr (val AND NOT msk))"

section \<open>Bit-level reading of the masks\<close>

named_theorems bf_bit_simps

lemma bit_bf_mask [bf_bit_simps]: "bit (bf_mask n) i \<longleftrightarrow> i < 64 \<and> i < n"
proof (cases "n \<ge> 64")
  case False
  then have "bf_mask n = mask n"
    by (simp add: bf_mask_def mask_eq_exp_minus_1 push_bit_of_1)
  with False show ?thesis
    by (auto simp: bit_mask_iff)
qed (auto simp: bf_mask_def bit_simps)

lemma bit_bf_field [bf_bit_simps]:
  "bit (bf_field v first lst) i \<longleftrightarrow> i < 64 \<and> i < first - lst + 1 \<and> bit v (lst + i)"
  by (auto simp: bf_field_def bf_bit_simps bit_simps Let_def)

lemma bit_bf_insert [bf_bit_simps]:
  assumes "first + 1 < 2 ^ 32"
  shows "bit (bf_insert v first lst x) i \<longleftrightarrow>
    (if lst \<le> i \<and> i \<le> first \<and> i < 64 then bit x (i - lst) else bit v i)"
  using assms bit_imp_le_length [of v i] bit_imp_le_length [of x "i - lst"]
  by (auto simp: bf_insert_def bf_mask2_def bf_mbits_def bf_bit_simps bit_simps Let_def)

lemma bf_insert_wrap: "bf_insert v (2 ^ 32 - 1) 0 x = v"
  by (rule bit_word_eqI) (simp add: bf_insert_def bf_mask2_def bf_mbits_def bf_bit_simps bit_simps)

lemma bf_field_low: "bf_field v (n - 1) 0 = take_bit n v" if "0 < n" "n \<le> 64"
  using that by (intro bit_word_eqI) (auto simp: bf_bit_simps bit_simps)

lemma unat_drop_bit_div: "unat (drop_bit k (v :: 64 word)) = unat v div 2 ^ k"
  by (metis unat_drop_bit_eq drop_bit_eq_div)

lemma unat_less_64: "unat (v :: 64 word) < 2 ^ 64"
  using unsigned_less [of v] by simp

lemma bf_field_eq_0: "bf_field v (2 * k - 1) k = 0 \<longleftrightarrow> unat v < 2 ^ k"
  if "unat v < 2 ^ (2 * k)" "0 < k" "k \<le> 32"
proof -
  have "bf_field v (2 * k - 1) k = take_bit k (drop_bit k v)"
    using that by (intro bit_word_eqI) (auto simp: bf_bit_simps bit_simps)
  moreover have "unat (take_bit k (drop_bit k v)) = unat v div 2 ^ k"
    using that by (simp add: unsigned_take_bit_eq unat_drop_bit_div take_bit_nat_eq_self
        less_mult_imp_div_less mult_2 power_add)
  ultimately show ?thesis
    by (simp add: div_eq_0_iff unat_eq_0 [symmetric])
qed

section \<open>Position of the most significant bit\<close>

text \<open>
  Both searches for the most significant bit halve the width: after a stage the value \<open>v\<close> is
  \<open>x\<close> shifted right by the position \<open>y\<close> found so far and fits in \<open>k\<close> bits.
\<close>

definition msb_inv :: "64 word \<Rightarrow> nat \<Rightarrow> nat \<Rightarrow> 64 word \<Rightarrow> bool" where
  "msb_inv x k y v \<longleftrightarrow> unat x div 2 ^ y = unat v \<and> 0 < unat v \<and> unat v < 2 ^ k"

lemma msb_inv_shift:
  assumes "msb_inv x (2 * k) y v" "2 ^ k \<le> unat v"
  shows "msb_inv x k (y + k) (drop_bit k v)"
  using assms unfolding msb_inv_def
  by (auto simp: unat_drop_bit_div power_add div_mult2_eq div_greater_zero_iff
      less_mult_imp_div_less mult_2)

lemma msb_inv_stay: "msb_inv x (2 * k) y v \<Longrightarrow> unat v < 2 ^ k \<Longrightarrow> msb_inv x k y v"
  by (simp add: msb_inv_def)

lemma msb_inv_stage:
  assumes "msb_inv x K y v" "K = 2 * k" "h = K - 1" "0 < k" "k \<le> 32"
  shows "case (if bf_field v h k \<noteq> 0 then (y + k, drop_bit k v) else (y, v)) of
    (y', v') \<Rightarrow> msb_inv x k y' v'"
  using assms msb_inv_shift [of x k y v] msb_inv_stay [of x k y v] bf_field_eq_0 [of v k]
  by (auto simp: msb_inv_def)

definition is_msb :: "64 word \<Rightarrow> nat \<Rightarrow> bool" where
  "is_msb x y \<longleftrightarrow> 2 ^ y \<le> unat x \<and> unat x < 2 ^ (y + 1)"

lemma msb_inv_1:
  assumes "msb_inv x (Suc 0) y v"
  shows "is_msb x y"
proof -
  have "unat x div 2 ^ y = 1"
    using assms by (simp add: msb_inv_def)
  then show ?thesis
    unfolding is_msb_def
    using div_greater_zero_iff [of "unat x" "2 ^ y"] dividend_less_div_times [of "2 ^ y" "unat x"] by auto
qed

lemma let_stage:
  assumes "case X of (a, b) \<Rightarrow> P a b" "\<And>a b. P a b \<Longrightarrow> Q (F a b)"
  shows "Q (let (a, b) = X in F a b)"
  using assms by (cases X) simp

lemma findMsbSet_is_msb:
  assumes "x \<noteq> 0"
  shows "is_msb x (findMsbSet x)"
proof -
  have "msb_inv x 64 0 x"
    using assms unat_less_64 [of x] by (simp add: msb_inv_def unat_gt_0)
  then show ?thesis
    unfolding findMsbSet_def if_not_P [OF assms] Let_def [of "(0, x)"] prod.case
    apply -
    apply (rule let_stage [where P = "msb_inv x 32" and Q = "is_msb x"], erule msb_inv_stage, simp, simp, simp, simp)
    apply (rule let_stage [where P = "msb_inv x 16" and Q = "is_msb x"], erule msb_inv_stage, simp, simp, simp, simp)
    apply (rule let_stage [where P = "msb_inv x 8" and Q = "is_msb x"], erule msb_inv_stage, simp, simp, simp, simp)
    apply (rule let_stage [where P = "msb_inv x 4" and Q = "is_msb x"], erule msb_inv_stage, simp, simp, simp, simp)
    apply (rule let_stage [where P = "msb_inv x 2" and Q = "is_msb x"], erule msb_inv_stage, simp, simp, simp, simp)
    apply (drule msb_inv_stage [where k = 1 and h = 1], simp, simp, simp, simp)
    apply (auto dest: msb_inv_1 split: if_splits)
    done
qed

lemma and_high_mask: "v AND push_bit k (mask k) = 0 \<longleftrightarrow> bf_field v (2 * k - 1) k = 0"
  if "0 < k" "k \<le> 32"
proof -
  have "bf_field v (2 * k - 1) k = drop_bit k (v AND push_bit k (mask k))"
    using that by (intro bit_word_eqI) (auto simp: bf_bit_simps bit_simps)
  moreover have "v AND push_bit k (mask k) = push_bit k (drop_bit k (v AND push_bit k (mask k)))"
    using that by (intro bit_word_eqI) (auto simp: bit_simps)
  ultimately show ?thesis
    by (metis push_bit_of_0 drop_bit_of_0)
qed

lemma high_masks:
  "push_bit 32 (mask 32) = (0xffffffff00000000 :: 64 word)"
  "push_bit 16 (mask 16) = (0xffff0000 :: 64 word)"
  "push_bit 8 (mask 8) = (0xff00 :: 64 word)"
  "push_bit 4 (mask 4) = (0xf0 :: 64 word)"
  "push_bit 2 (mask 2) = (0xc :: 64 word)"
  "push_bit 1 (mask 1) = (2 :: 64 word)"
  by (simp_all add: mask_eq_exp_minus_1 push_bit_eq_mult)

lemma msb_inv_masked_stage:
  assumes "msb_inv x K y v" "K = 2 * k" "M = push_bit k (mask k)" "0 < k" "k \<le> 32"
    "\<not> c \<Longrightarrow> unat x < 2 ^ k"
  shows "case (if c \<and> v AND M \<noteq> 0 then (y + k, drop_bit k v) else (y, v)) of
    (y', v') \<Rightarrow> msb_inv x k y' v'"
proof (cases c)
  case True
  then show ?thesis
    using msb_inv_stage [OF assms(1,2) refl assms(4,5)] assms by (simp add: and_high_mask)
next
  case False
  have "unat v \<le> unat x"
    using assms(1) div_le_dividend unfolding msb_inv_def by metis
  then show ?thesis
    using msb_inv_stay [of x k y v] False assms by simp
qed

lemmas msb_inv_masked_stage_always = msb_inv_masked_stage [where c = True, unfolded simp_thms]

lemma floorLog2_is_msb:
  assumes "x \<noteq> 0" "unat x < 2 ^ (8 * ts)" "ts = 1 \<or> ts = 2 \<or> ts = 4 \<or> ts = 8"
  shows "\<exists>y. floorLog2 ts x = Inr y \<and> is_msb x y"
proof -
  let ?Q = "\<lambda>r :: nat result. \<exists>y. r = Inr y \<and> is_msb x y"
  have fits: "\<not> ts \<ge> 8 \<Longrightarrow> unat x < 2 ^ 32" "\<not> ts \<ge> 4 \<Longrightarrow> unat x < 2 ^ 16" "\<not> ts \<ge> 2 \<Longrightarrow> unat x < 2 ^ 8"
    using assms by auto
  have pos: "x > 0"
    using assms by (simp add: word_gt_0)
  have "msb_inv x 64 0 x"
    using assms unat_less_64 [of x] by (simp add: msb_inv_def unat_gt_0)
  then show ?thesis
    unfolding floorLog2_def assert_that_def if_P [OF pos] Let_def [of "(0, x)"] prod.case
    apply -
    apply (rule let_stage [where P = "msb_inv x 32" and Q = ?Q], erule msb_inv_masked_stage,
        simp, simp add: high_masks, simp, simp, erule fits)
    apply (rule let_stage [where P = "msb_inv x 16" and Q = ?Q], erule msb_inv_masked_stage,
        simp, simp add: high_masks, simp, simp, erule fits)
    apply (rule let_stage [where P = "msb_inv x 8" and Q = ?Q], erule msb_inv_masked_stage,
        simp, simp add: high_masks, simp, simp, erule fits)
    apply (rule let_stage [where P = "msb_inv x 4" and Q = ?Q], erule msb_inv_masked_stage_always,
        simp, simp add: high_masks, simp, simp, simp)
    apply (rule let_stage [where P = "msb_inv x 2" and Q = ?Q], erule msb_inv_masked_stage_always,
        simp, simp add: high_masks, simp, simp, simp)
    apply (drule msb_inv_masked_stage_always [where k = 1 and M = 2],
        simp, simp add: high_masks [simplified], simp, simp, simp)
    apply (auto dest: msb_inv_1 split: if_splits)
    done
qed

section \<open>Position of the least significant bit\<close>

definition is_lsb :: "64 word \<Rightarrow> nat \<Rightarrow> bool" where
  "is_lsb x y \<longleftrightarrow> bit x y \<and> (\<forall>i<y. \<not> bit x i)"

lemma is_lsb_unique: "is_lsb x y \<Longrightarrow> is_lsb x z \<Longrightarrow> y = z"
  unfolding is_lsb_def by (meson nat_neq_iff)

definition lsb_inv :: "64 word \<Rightarrow> nat \<Rightarrow> nat \<Rightarrow> 64 word \<Rightarrow> bool" where
  "lsb_inv x k y v \<longleftrightarrow> (\<forall>i<y. \<not> bit x i) \<and> v = drop_bit y x \<and> (\<exists>i<k. bit v i)"

lemma lsb_inv_stage:
  assumes "lsb_inv x K y v" "K = 2 * k" "h = k - 1" "0 < k" "k \<le> 32"
  shows "case (if bf_field v h 0 = 0 then (y + k, drop_bit k v) else (y, v)) of
    (y', v') \<Rightarrow> lsb_inv x k y' v'"
proof (cases "bf_field v h 0 = 0")
  case True
  then have low: "\<not> bit v i" if "i < k" for i
    using that assms bit_bf_field [of v h 0 i] by auto
  obtain j where j: "j < 2 * k" "bit v j" and v: "v = drop_bit y x" and below: "\<forall>i<y. \<not> bit x i"
    using assms by (auto simp: lsb_inv_def)
  then have "k \<le> j"
    using low not_le by blast
  then have "bit (drop_bit k v) (j - k)" "j - k < k"
    using j by (auto simp: bit_simps)
  moreover have "\<not> bit x i" if "i < y + k" for i
    using low [of "i - y"] below v that by (cases "i < y") (auto simp: bit_simps)
  ultimately show ?thesis
    using True v by (auto simp: lsb_inv_def add.commute)
next
  case False
  then have "\<exists>i. bit (bf_field v h 0) i"
    by (metis bit_0_eq bit_word_eqI bot_apply bot_bool_def)
  then show ?thesis
    using False assms by (auto simp: lsb_inv_def bf_bit_simps)
qed

lemma lsb_inv_1: "lsb_inv x (Suc 0) y v \<Longrightarrow> is_lsb x y"
  by (auto simp: lsb_inv_def is_lsb_def bit_drop_bit_eq)

lemma findLsbSetFallback_is_lsb:
  assumes "x \<noteq> 0"
  shows "is_lsb x (findLsbSetFallback x)"
proof -
  obtain i where "bit x i"
    using assms by (metis bit_0_eq bit_word_eqI bot_apply bot_bool_def)
  then have "lsb_inv x 64 0 x"
    using bit_imp_le_length [of x i] by (auto simp: lsb_inv_def)
  then show ?thesis
    unfolding findLsbSetFallback_def if_not_P [OF assms] Let_def [of "(0, x)"] prod.case
    apply -
    apply (rule let_stage [where P = "lsb_inv x 32" and Q = "is_lsb x"], erule lsb_inv_stage, simp, simp, simp, simp)
    apply (rule let_stage [where P = "lsb_inv x 16" and Q = "is_lsb x"], erule lsb_inv_stage, simp, simp, simp, simp)
    apply (rule let_stage [where P = "lsb_inv x 8" and Q = "is_lsb x"], erule lsb_inv_stage, simp, simp, simp, simp)
    apply (rule let_stage [where P = "lsb_inv x 4" and Q = "is_lsb x"], erule lsb_inv_stage, simp, simp, simp, simp)
    apply (rule let_stage [where P = "lsb_inv x 2" and Q = "is_lsb x"], erule lsb_inv_stage, simp, simp, simp, simp)
    apply (drule lsb_inv_stage [where k = 1 and h = 0], simp, simp, simp, simp)
    apply (auto dest: lsb_inv_1 split: if_splits)
    done
qed

lemma ctz64_is_lsb:
  assumes "x \<noteq> 0"
  shows "is_lsb x (ctz64 x)"
proof -
  let ?t = "takeWhile (\<lambda>i. \<not> bit x i) [0..<64]"
  obtain i where i: "bit x i"
    using assms by (metis bit_0_eq bit_word_eqI bot_apply bot_bool_def)
  have below: "\<not> bit x j" if "j < length ?t" for j
  proof -
    have "[0..<64] ! j = j"
      using that length_takeWhile_le [of "\<lambda>i. \<not> bit x i" "[0..<64]"] by simp
    then show ?thesis
      using takeWhile_nth [OF that] nth_mem [OF that] set_takeWhileD by metis
  qed
  then have "length ?t \<le> i"
    using i not_le by blast
  then have "length ?t < 64"
    using bit_imp_le_length [OF i] by simp
  then have "bit x (length ?t)"
    using nth_length_takeWhile [of "\<lambda>i. \<not> bit x i" "[0..<64]"] by simp
  moreover note below
  ultimately show ?thesis
    using assms by (simp add: ctz64_def is_lsb_def)
qed

lemma findLsbSet_fallback: "findLsbSetFallback x = findLsbSet x"
proof (cases "x = 0")
  case False
  then show ?thesis
    using is_lsb_unique [OF findLsbSetFallback_is_lsb ctz64_is_lsb] by (simp add: findLsbSet_def)
qed (simp add: findLsbSetFallback_def findLsbSet_def)

lemma ctz64_less: "x \<noteq> 0 \<Longrightarrow> ctz64 x < 64"
  using ctz64_is_lsb bit_imp_le_length by (fastforce simp: is_lsb_def)

section \<open>Multiplication\<close>

lemma unat_and_low32: "unat ((v :: 64 word) AND 0xffffffff) = unat v mod 2 ^ 32"
proof -
  have "v AND 0xffffffff = take_bit 32 v"
    by (simp add: take_bit_eq_mask mask_eq_exp_minus_1)
  then show ?thesis
    by (metis unsigned_take_bit_eq take_bit_eq_mod)
qed

lemma unat_and_1: "unat ((v :: 64 word) AND 1) = unat v mod 2"
  by (simp add: and_one_eq unat_mod)

lemma unat_add_exact: "unat x + unat y < 2 ^ 64 \<Longrightarrow> unat (x + y :: 64 word) = unat x + unat y"
  by (simp add: unat_word_ariths)

lemma unat_mult_exact: "unat x * unat y < 2 ^ 64 \<Longrightarrow> unat (x * y :: 64 word) = unat x * unat y"
  by (simp add: unat_word_ariths)

lemma long_multiplication:
  fixes A B a b p :: nat
  assumes "0 < p"
  shows "(A * p + a) * (B * p + b) div (p * p) = A * B + (a * b div p + A * b + a * B) div p"
proof -
  have "(A * p + a) * (B * p + b) = (A * B * p + A * b + a * B) * p + a * b"
    by (simp add: algebra_simps)
  then have "(A * p + a) * (B * p + b) div p = A * B * p + A * b + a * B + a * b div p"
    using assms by simp
  then have "(A * p + a) * (B * p + b) div (p * p) = (A * B * p + (a * b div p + A * b + a * B)) div p"
    by (simp add: div_mult2_eq ac_simps)
  then show ?thesis
    using assms by simp
qed

lemma halves_sum_parts:
  "(q1 * 2 + r1 + (q2 * 2 + r2) + (q3 * 2 + r3)) div (2 :: nat) = q1 + q2 + q3 + (r1 + r2 + r3) div 2"
proof -
  have "q1 * 2 + r1 + (q2 * 2 + r2) + (q3 * 2 + r3) = (r1 + r2 + r3) + (q1 + q2 + q3) * 2"
    by simp
  then show ?thesis
    by (metis add.commute div_mult_self1 zero_neq_numeral)
qed

lemma halves_sum: "x div 2 + y div 2 + z div 2 + (x mod 2 + y mod 2 + z mod 2) div 2 = (x + y + z) div (2 :: nat)"
  using halves_sum_parts [of "x div 2" "x mod 2" "y div 2" "y mod 2" "z div 2" "z mod 2"]
  by (simp only: div_mult_mod_eq)

lemma mul32_le:
  assumes "(m :: nat) < 2 ^ 32" "n < 2 ^ 32"
  shows "m * n \<le> (2 ^ 32 - 1) * (2 ^ 32 - 1)"
  using assms by (intro mult_le_mono) auto

lemma unat_mult_half:
  assumes "unat x < 2 ^ 32" "unat y < 2 ^ 32"
  shows "unat (x * y :: 64 word) = unat x * unat y"
  using mul32_le [OF assms] by (intro unat_mult_exact) simp

lemma unat_carry:
  fixes c d e :: "64 word"
  assumes "unat c < 2 ^ 32" "unat d \<le> (2 ^ 32 - 1) * (2 ^ 32 - 1)" "unat e \<le> (2 ^ 32 - 1) * (2 ^ 32 - 1)"
  shows "unat (drop_bit 31 (drop_bit 1 c + drop_bit 1 d + drop_bit 1 e +
      drop_bit 1 ((c AND 1) + (d AND 1) + (e AND 1)))) = (unat c + unat d + unat e) div 2 ^ 32"
proof -
  have r: "unat ((c AND 1) + (d AND 1) + (e AND 1)) = unat c mod 2 + unat d mod 2 + unat e mod 2"
    by (subst unat_add_exact; (subst unat_add_exact)?) (simp_all add: unat_and_1)
  have "unat (drop_bit 1 c + drop_bit 1 d + drop_bit 1 e + drop_bit 1 ((c AND 1) + (d AND 1) + (e AND 1)))
      = unat c div 2 + unat d div 2 + unat e div 2 + (unat c mod 2 + unat d mod 2 + unat e mod 2) div 2"
  proof -
    have b: "unat c div 2 \<le> 2 ^ 31" "unat d div 2 \<le> ((2 ^ 32 - 1) * (2 ^ 32 - 1)) div 2"
      "unat e div 2 \<le> ((2 ^ 32 - 1) * (2 ^ 32 - 1)) div 2"
      "(unat c mod 2 + unat d mod 2 + unat e mod 2) div 2 \<le> 3 div 2"
      using assms by (auto intro: div_le_mono simp: add_le_mono [of _ 2 _ 1, simplified] mod_less_eq_dividend)
    have h: "unat (drop_bit (Suc 0) v) = unat v div 2" for v :: "64 word"
      using unat_drop_bit_div [of "Suc 0" v] by simp
    have 1: "unat (drop_bit 1 c + drop_bit 1 d) = unat c div 2 + unat d div 2"
      using b by (subst unat_add_exact) (simp_all add: h)
    have 2: "unat (drop_bit 1 c + drop_bit 1 d + drop_bit 1 e) = unat c div 2 + unat d div 2 + unat e div 2"
      using b 1 by (subst unat_add_exact) (simp_all add: h)
    show ?thesis
      using b 2 r by (subst unat_add_exact) (simp_all add: h)
  qed
  then show ?thesis
    by (simp only: unat_drop_bit_div halves_sum) (simp add: div_mult2_eq [symmetric])
qed

lemma mulUnsignedManual_high:
  "unat (fst (mulUnsignedManual x y)) = unat x * unat y div 2 ^ 64"
proof -
  let ?A = "drop_bit 32 x AND 0xffffffff" and ?B = "drop_bit 32 y AND 0xffffffff"
  let ?a = "x AND 0xffffffff" and ?b = "y AND 0xffffffff"
  let ?c = "drop_bit 32 (?a * ?b) AND 0xffffffff"
  have lt: "unat ?A < 2 ^ 32" "unat ?a < 2 ^ 32" "unat ?B < 2 ^ 32" "unat ?b < 2 ^ 32" "unat ?c < 2 ^ 32"
    by (simp_all only: unat_and_low32) simp_all
  have split: "unat ?A * 2 ^ 32 + unat ?a = unat x" "unat ?B * 2 ^ 32 + unat ?b = unat y"
    using unat_less_64 [of x] unat_less_64 [of y]
    by (simp_all add: unat_and_low32 unat_drop_bit_div less_mult_imp_div_less)
  have c: "unat ?c = unat ?a * unat ?b div 2 ^ 32"
    using mul32_le [OF lt(2,4)] unat_mult_half [OF lt(2,4)]
    by (simp add: unat_and_low32 unat_drop_bit_div)
  let ?h = "unat ?A * unat ?B + (unat ?a * unat ?b div 2 ^ 32 + unat ?A * unat ?b + unat ?a * unat ?B) div 2 ^ 32"
  have h: "?h = unat x * unat y div 2 ^ 64"
    using long_multiplication [of "2 ^ 32" "unat ?A" "unat ?a" "unat ?B" "unat ?b"] unfolding split by simp
  have "?h < 2 ^ 64"
    unfolding h using mult_strict_mono [OF unat_less_64 [of x] unat_less_64 [of y]]
    by (simp add: less_mult_imp_div_less)
  then have "unat (fst (mulUnsignedManual x y)) = ?h"
    unfolding mulUnsignedManual_def Let_def fst_conv
    using unat_carry [OF lt(5), of "?A * ?b" "?a * ?B"] mul32_le [OF lt(1,4)] mul32_le [OF lt(2,3)]
      unat_mult_half [OF lt(1,4)] unat_mult_half [OF lt(2,3)] unat_mult_half [OF lt(1,3)] c
    by (subst unat_add_exact) simp_all
  with h show ?thesis
    by simp
qed

lemma high_half: "ucast (drop_bit 64 (word_of_int z :: 128 word)) = (word_of_int (z div 2 ^ 64) :: 64 word)"
proof -
  have "ucast (drop_bit 64 (word_of_int z :: 128 word)) = (word_of_int (drop_bit 64 z) :: 64 word)"
    by (rule bit_word_eqI) (auto simp: bit_simps)
  then show ?thesis
    by (simp add: drop_bit_eq_div)
qed

lemma low_half: "ucast (word_of_int z :: 128 word) = (word_of_int z :: 64 word)"
  by (rule bit_word_eqI) (auto simp: bit_simps)

lemma mulUnsigned64_int:
  "mulUnsigned64 x y = (word_of_int (uint x * uint y div 2 ^ 64), word_of_int (uint x * uint y))"
proof -
  have "(ucast x :: 128 word) * ucast y = word_of_int (uint x * uint y)"
    by (simp add: unsigned_ucast_eq wi_hom_mult [symmetric])
  then show ?thesis
    unfolding mulUnsigned64_def Let_def by (simp only: high_half low_half)
qed

lemma mulSigned64_int:
  "mulSigned64 x y = (word_of_int (sint x * sint y div 2 ^ 64), word_of_int (sint x * sint y))"
proof -
  have "(scast x :: 128 word) * scast y = word_of_int (sint x * sint y)"
    by (simp add: wi_hom_mult [symmetric])
  then show ?thesis
    unfolding mulSigned64_def Let_def by (simp only: high_half low_half)
qed

lemma sint_uint_64: "sint (x :: 64 word) = uint x - (if sint x < 0 then 2 ^ 64 else 0)"
proof -
  have "sint x = uint x - 2 ^ 64 * of_bool (bit (uint x) 63)"
    using uint_bounded [of x]
    by (simp add: sint_uint signed_take_bit_eq_take_bit_minus take_bit_int_eq_self)
  moreover have "bit (uint x) 63 \<longleftrightarrow> sint x < 0"
    by (simp add: sint_uint)
  ultimately show ?thesis
    by (cases "sint x < 0") simp_all
qed

lemma mulUnsignedManual_eq: "mulUnsignedManual x y = mulUnsigned64 x y"
proof (rule prod_eqI)
  have "int (unat (fst (mulUnsignedManual x y))) = int (unat x) * int (unat y) div 2 ^ 64"
    unfolding mulUnsignedManual_high by (simp only: zdiv_int of_nat_mult of_nat_power of_nat_numeral)
  then have "uint (fst (mulUnsignedManual x y)) = uint x * uint y div 2 ^ 64"
    by (simp only: uint_nat)
  then show "fst (mulUnsignedManual x y) = fst (mulUnsigned64 x y)"
    by (metis fst_conv mulUnsigned64_int word_of_int_uint)
  show "snd (mulUnsignedManual x y) = snd (mulUnsigned64 x y)"
    by (simp add: mulUnsignedManual_def mulUnsigned64_int Let_def)
qed

lemma mulSignedManual_eq: "mulSignedManual x y = mulSigned64 x y"
proof -
  define nx ny :: int where "nx = (if sint x < 0 then 1 else 0)" and "ny = (if sint y < 0 then 1 else 0)"
  have s: "sint x = uint x - nx * 2 ^ 64" "sint y = uint y - ny * 2 ^ 64"
    using sint_uint_64 [of x] sint_uint_64 [of y] by (auto simp: nx_def ny_def)
  have eq: "sint x * sint y = uint x * uint y + (nx * ny * 2 ^ 64 - nx * uint y - ny * uint x) * 2 ^ 64"
    unfolding s by (simp add: algebra_simps)
  have "sint x * sint y div 2 ^ 64 = uint x * uint y div 2 ^ 64 + (nx * ny * 2 ^ 64 - nx * uint y - ny * uint x)"
    unfolding eq by (subst div_mult_self1) simp_all
  moreover have "(word_of_int (nx * ny * 2 ^ 64 - nx * uint y - ny * uint x) :: 64 word)
      = - (if sint x < 0 then y else 0) - (if sint y < 0 then x else 0)"
    unfolding nx_def ny_def by (simp split: if_splits)
  ultimately have "fst (mulSigned64 x y) = fst (mulUnsigned64 x y)
      - (if sint x < 0 then y else 0) - (if sint y < 0 then x else 0)"
    unfolding mulSigned64_int mulUnsigned64_int fst_conv by (simp only: wi_hom_add [symmetric] diff_conv_add_uminus add.assoc)
  moreover have "snd (mulSigned64 x y) = snd (mulUnsigned64 x y)"
    by (simp add: mulSigned64_int mulUnsigned64_int)
  ultimately show ?thesis
    by (cases "mulUnsigned64 x y"; cases "mulSigned64 x y") (auto simp: mulSignedManual_def)
qed

section \<open>Alignment\<close>

lemma unat_power_lower_64: "k < 64 \<Longrightarrow> unat (2 ^ k :: 64 word) = 2 ^ k"
  using unat_of_nat [where 'a = 64, of "2 ^ k"] power_strict_increasing [of k 64 "2 :: nat"] by simp

lemma isPowerOf2_power: "k < 64 \<Longrightarrow> isPowerOf2 (2 ^ k)"
proof -
  assume k: "k < 64"
  have "(2 ^ k :: 64 word) AND mask k = 0"
    by (rule bit_word_eqI) (auto simp: bit_simps)
  then show ?thesis
    using k unat_power_lower_64 [OF k] by (auto simp: isPowerOf2_def mask_eq_exp_minus_1)
qed

lemma is_msb_bit: "is_msb x y \<Longrightarrow> bit x y"
proof -
  assume "is_msb x y"
  then have "unat x div 2 ^ y = 1"
    by (simp add: is_msb_def div_nat_eqI)
  then have "bit (unat x) y"
    by (simp add: bit_iff_odd)
  then show ?thesis
    by (simp add: bit_unsigned_iff)
qed

lemma isPowerOf2_iff: "isPowerOf2 n \<longleftrightarrow> (\<exists>k<64. n = 2 ^ k)"
proof
  assume "isPowerOf2 n"
  then have n: "n \<noteq> 0" "n AND (n - 1) = 0"
    by (simp_all add: isPowerOf2_def)
  define k where "k = findMsbSet n"
  have k: "is_msb n k"
    using findMsbSet_is_msb [OF n(1)] by (simp add: k_def)
  then have "k < 64"
    using is_msb_bit bit_imp_le_length by fastforce
  have "unat n = 2 ^ k"
  proof (rule ccontr)
    assume "unat n \<noteq> 2 ^ k"
    then have "is_msb (n - 1) k"
      using k n(1) by (auto simp: is_msb_def unat_minus_one)
    then have "bit (n AND (n - 1)) k"
      using k is_msb_bit by (auto simp: bit_simps)
    then show False
      using n(2) by simp
  qed
  then have "n = 2 ^ k"
    using \<open>k < 64\<close> by (intro word_unat_eq_iff [THEN iffD2]) (simp add: unat_power_lower_64)
  then show "\<exists>k<64. n = 2 ^ k"
    using \<open>k < 64\<close> by blast
next
  assume "\<exists>k<64. n = 2 ^ k"
  then show "isPowerOf2 n"
    using isPowerOf2_power by blast
qed

text \<open>\<open>alignToPowerOfTwo\<close> spreads the highest bit of \<open>n - 1\<close> to the right, twice as far in every step.\<close>

definition smeared :: "nat \<Rightarrow> 64 word \<Rightarrow> 64 word \<Rightarrow> bool" where
  "smeared m v w \<longleftrightarrow> (\<forall>i. bit w i \<longleftrightarrow> (\<exists>d<m. bit v (i + d)))"

lemma smeared_step: "smeared m v w \<Longrightarrow> smeared (2 * m) v (w OR drop_bit m w)"
  unfolding smeared_def
proof
  fix i
  assume w: "\<forall>i. bit w i \<longleftrightarrow> (\<exists>d<m. bit v (i + d))"
  have "(\<exists>d<2 * m. bit v (i + d)) \<longleftrightarrow> (\<exists>d<m. bit v (i + d)) \<or> (\<exists>d<m. bit v (m + i + d))"
  proof
    assume "\<exists>d<2 * m. bit v (i + d)"
    then obtain d where d: "d < 2 * m" "bit v (i + d)"
      by blast
    show "(\<exists>d<m. bit v (i + d)) \<or> (\<exists>d<m. bit v (m + i + d))"
    proof (cases "d < m")
      case False
      then have "d - m < m" "m + i + (d - m) = i + d"
        using d(1) by simp_all
      then show ?thesis
        using d(2) by metis
    qed (use d in blast)
  next
    assume "(\<exists>d<m. bit v (i + d)) \<or> (\<exists>d<m. bit v (m + i + d))"
    then show "\<exists>d<2 * m. bit v (i + d)"
    proof
      assume "\<exists>d<m. bit v (m + i + d)"
      then obtain d where "d < m" "bit v (m + i + d)"
        by blast
      then show ?thesis
        by (intro exI [of _ "m + d"]) (simp add: ac_simps)
    qed (metis mult_2 trans_less_add1)
  qed
  then show "bit (w OR drop_bit m w) i \<longleftrightarrow> (\<exists>d<2 * m. bit v (i + d))"
    using w by (simp add: bit_or_iff bit_drop_bit_eq)
qed

lemma alignToPowerOfTwo_smeared: "\<exists>w. alignToPowerOfTwo n = w + 1 \<and> smeared 64 (n - 1) w"
proof -
  have "smeared 1 (n - 1) (n - 1)"
    by (simp add: smeared_def)
  from smeared_step [OF smeared_step [OF smeared_step [OF smeared_step [OF smeared_step [OF smeared_step [OF this]]]]]]
  show ?thesis
    by (auto simp: alignToPowerOfTwo_def Let_def)
qed

lemma smeared_mask:
  assumes "smeared 64 v w" "is_msb v k"
  shows "w = mask (Suc k)"
proof (rule bit_word_eqI)
  fix i assume i: "i < LENGTH(64)"
  have "\<not> bit v j" if "k < j" for j
  proof
    assume j: "bit v j"
    then have "bit (unat v) j"
      by (simp add: bit_unsigned_iff)
    then have "2 ^ j \<le> unat v"
      by (metis bit_iff_odd div_less even_zero not_less)
    moreover have "(2 :: nat) ^ (k + 1) \<le> 2 ^ j"
      using that by (intro power_increasing) auto
    ultimately show False
      using assms(2) by (simp add: is_msb_def)
  qed
  moreover have "bit v k" "k < 64"
    using is_msb_bit [OF assms(2)] bit_imp_le_length [of v k] by auto
  ultimately have "(\<exists>d<64. bit v (i + d)) \<longleftrightarrow> i \<le> k"
    by (metis le_add1 le_add_diff_inverse less_imp_diff_less linorder_not_less order_trans)
  then show "bit w i = bit (mask (Suc k) :: 64 word) i"
    using assms(1) i by (auto simp: smeared_def bit_mask_iff)
qed

text \<open>It is the least power of two that is not smaller.\<close>

lemma alignToPowerOfTwo_least:
  assumes "0 < n" "n \<le> 2 ^ 63"
  shows "\<exists>k \<le> 63. alignToPowerOfTwo (of_nat n) = 2 ^ k \<and> n \<le> 2 ^ k \<and> (\<forall>l. n \<le> 2 ^ l \<longrightarrow> k \<le> l)"
proof -
  obtain w where w: "alignToPowerOfTwo (of_nat n) = w + 1" "smeared 64 (of_nat n - 1) w"
    using alignToPowerOfTwo_smeared by blast
  have un: "unat (of_nat n - 1 :: 64 word) = n - 1"
    using assms by (subst unat_minus_one) (auto simp: unat_of_nat of_nat_eq_0_iff word_of_nat_eq_0_iff)
  show ?thesis
  proof (cases "n = 1")
    case True
    then have "w = 0"
      using w(2) by (intro bit_word_eqI) (simp add: smeared_def)
    then show ?thesis
      using True w(1) by (intro exI [of _ 0]) simp
  next
    case False
    let ?v = "of_nat n - 1 :: 64 word"
    define k where "k = findMsbSet ?v"
    have "?v \<noteq> 0"
      using un False assms(1) by (metis Suc_leI diff_is_0_eq le_antisym unat_0 One_nat_def)
    then have k: "is_msb ?v k"
      using findMsbSet_is_msb by (simp add: k_def)
    then have bounds: "2 ^ k \<le> n - 1" "n - 1 < 2 ^ Suc k"
      unfolding is_msb_def un by simp_all
    have "(2 :: nat) ^ k < 2 ^ 63"
      using bounds(1) assms by linarith
    then have "k < 63"
      by (rule power_less_imp_less_exp [rotated]) simp
    moreover have "alignToPowerOfTwo (of_nat n) = 2 ^ Suc k"
      using w(1) smeared_mask [OF w(2) k] by (simp add: mask_eq_exp_minus_1)
    moreover have "Suc k \<le> l" if "n \<le> 2 ^ l" for l
    proof -
      have "(2 :: nat) ^ k < 2 ^ l"
        using bounds(1) that assms(1) by linarith
      then show ?thesis
        by (simp add: Suc_le_eq power_less_imp_less_exp)
    qed
    ultimately show ?thesis
      using bounds(2) by (intro exI [of _ "Suc k"]) auto
  qed
qed

lemma findMsbSet_power: "k < 64 \<Longrightarrow> findMsbSet (2 ^ k) = k"
proof -
  assume k: "k < 64"
  then have "(2 ^ k :: 64 word) \<noteq> 0"
    by (metis power_eq_0_iff unat_0 unat_power_lower_64 zero_neq_numeral)
  then have "is_msb (2 ^ k) (findMsbSet (2 ^ k))"
    by (rule findMsbSet_is_msb)
  then have "(2 :: nat) ^ findMsbSet (2 ^ k) \<le> 2 ^ k" "(2 :: nat) ^ k < 2 ^ (findMsbSet (2 ^ k) + 1)"
    unfolding is_msb_def unat_power_lower_64 [OF k] by simp_all
  then have "findMsbSet (2 ^ k) \<le> k" "k < findMsbSet (2 ^ k) + 1"
    by (meson one_less_numeral_iff power_increasing_iff power_strict_increasing_iff semiring_norm(76))+
  then show ?thesis
    by simp
qed

lemma and_not_mask: "unat ((v :: 64 word) AND NOT (mask k)) = unat v div 2 ^ k * 2 ^ k" if "k < 64"
proof -
  have "v AND NOT (mask k) = push_bit k (drop_bit k v)"
    by (intro bit_word_eqI) (auto simp: bit_simps)
  moreover have "unat (push_bit k (drop_bit k v)) = unat v div 2 ^ k * 2 ^ k"
    using that unat_less_64 [of v] div_times_less_eq_dividend [of "unat v" "2 ^ k"]
    by (simp add: push_bit_eq_mult del: div_times_less_eq_dividend, subst unat_mult_exact)
      (simp_all add: unat_drop_bit_div unat_power_lower_64 del: div_times_less_eq_dividend)
  ultimately show ?thesis
    by simp
qed

lemma roundDown_eq:
  assumes "k < 64"
  shows "\<exists>r. roundDown v (2 ^ k) = Inr r \<and> unat r = unat v div 2 ^ k * 2 ^ k"
  using and_not_mask [OF assms, of v]
  by (simp add: roundDown_def Let_def isPowerOf2_power [OF assms] mask_eq_exp_minus_1)

lemma roundUp_eq:
  assumes "k < 64" "unat v + 2 ^ k \<le> 2 ^ 64"
  shows "\<exists>r. roundUp v (2 ^ k) = Inr r \<and> unat r = (unat v + (2 ^ k - 1)) div 2 ^ k * 2 ^ k"
proof -
  have "unat (2 ^ k - 1 :: 64 word) = 2 ^ k - 1"
    using assms(1) by (subst unat_minus_one) (auto simp: unat_power_lower_64 power_eq_0_iff)
  then have "unat (v + (2 ^ k - 1)) = unat v + (2 ^ k - 1)"
    using assms(2) by (subst unat_add_exact) auto
  then show ?thesis
    using and_not_mask [OF assms(1), of "v + (2 ^ k - 1)"]
    by (simp add: roundUp_def Let_def isPowerOf2_power [OF assms(1)] mask_eq_exp_minus_1)
qed

section \<open>Bit reversal\<close>

lemma reverseBitsLookUpTable_bits:
  "map uint reverseBitsLookUpTable =
     map (\<lambda>i. horner_sum of_bool 2 (map (\<lambda>j. bit i (7 - j)) [0, 1, 2, 3, 4, 5, 6, 7])) [0..255]"
  by code_simp

lemma bit_horner_map: "j < length js \<Longrightarrow> bit (horner_sum of_bool (2 :: int) (map f js)) j = f (js ! j)"
  by (simp add: bit_horner_sum_bit_iff)

lemma bit_reverseBitsLookUpTable:
  assumes "i < 256" "j < 8"
  shows "bit (reverseBitsLookUpTable ! i) j = bit i (7 - j)"
proof -
  have len: "length reverseBitsLookUpTable = 256"
    using arg_cong [OF reverseBitsLookUpTable_bits, of length] by simp
  have upto: "[0..255] ! i = int i"
    using assms(1) by (simp add: nth_upto)
  have "uint (reverseBitsLookUpTable ! i)
      = horner_sum of_bool 2 (map (\<lambda>j. bit (int i) (7 - j)) [0, 1, 2, 3, 4, 5, 6, 7])"
    using arg_cong [OF reverseBitsLookUpTable_bits, of "\<lambda>xs. xs ! i"] assms(1) len upto by simp
  moreover have "[0, 1, 2, 3, 4, 5, 6, 7 :: nat] ! j = j"
    using assms(2) by (auto simp: less_Suc_eq numeral_eq_Suc)
  ultimately have "bit (uint (reverseBitsLookUpTable ! i)) j = bit (int i) (7 - j)"
    using bit_horner_map [of j "[0, 1, 2, 3, 4, 5, 6, 7]" "\<lambda>j. bit (int i) (7 - j)"] assms(2)
    by (simp del: list.map)
  then show ?thesis
    by (simp add: bit_uint_iff bit_of_nat_iff assms(2))
qed

lemma bit_reverseBits_step:
  fixes out :: "64 word"
  assumes "j < 64"
  shows "bit (push_bit 8 out OR ucast (reverseBitsLookUpTable ! unat (v AND bf_mask 8))) j =
    (if j < 8 then bit v (7 - j) else bit out (j - 8))"
proof -
  have byte: "v AND bf_mask 8 = take_bit 8 v"
    by (rule bit_word_eqI) (auto simp: bf_bit_simps bit_simps)
  have "unat (take_bit 8 v) < 256"
    using take_bit_nat_less_exp [of 8 "unat v"] by (simp add: unsigned_take_bit_eq)
  then have "bit (reverseBitsLookUpTable ! unat (take_bit 8 v)) j = bit v (7 - j)" if "j < 8"
    using that less_imp_diff_less [of 7 8 j]
    by (simp add: bit_reverseBitsLookUpTable bit_unsigned_iff bit_take_bit_iff)
  moreover have "\<not> bit (reverseBitsLookUpTable ! unat (take_bit 8 v)) j" if "\<not> j < 8"
    using that bit_imp_le_length by force
  ultimately show ?thesis
    using assms by (auto simp: byte bit_simps)
qed

lemma bit_reverseBits_loop:
  assumes "j < 64"
  shows "bit (reverseBits_loop n v out) j = (if j < 8 * n then bit v (8 * n - 1 - j) else bit out (j - 8 * n))"
proof (induction n arbitrary: v out)
  case (Suc n)
  have e: "bit (reverseBits_loop (Suc n) v out) j =
      (if j < 8 * n then bit (drop_bit 8 v) (8 * n - 1 - j)
       else if j - 8 * n < 8 then bit v (7 - (j - 8 * n)) else bit out (j - 8 * n - 8))"
    using assms by (subst reverseBits_loop.simps, subst Suc.IH) (simp only: bit_reverseBits_step if_cancel)
  consider "j < 8 * n" | "8 * n \<le> j" "j < 8 * Suc n" | "8 * Suc n \<le> j"
    by linarith
  then show ?case
  proof cases
    case 1
    then have "8 + (8 * n - 1 - j) = 8 * Suc n - 1 - j" "j < 8 * Suc n"
      by simp_all
    with 1 show ?thesis
      unfolding e bit_drop_bit_eq o_apply by presburger
  next
    case 2
    then have "7 - (j - 8 * n) = 8 * Suc n - 1 - j" "j - 8 * n < 8" "\<not> j < 8 * n"
      by simp_all
    with 2 show ?thesis
      unfolding e by presburger
  next
    case 3
    then have "j - 8 * n - 8 = j - 8 * Suc n" "\<not> j - 8 * n < 8" "\<not> j < 8 * n" "\<not> j < 8 * Suc n"
      by simp_all
    then show ?thesis
      unfolding e by presburger
  qed
qed simp

section \<open>Properties\<close>

lemma ceilLog2_bounds:
  assumes "1 < unat x" "unat x < 2 ^ (8 * ts)" "ts = 1 \<or> ts = 2 \<or> ts = 4 \<or> ts = 8"
  shows "\<exists>c. ceilLog2 ts x = Inr c \<and> unat x \<le> 2 ^ c \<and> 0 < c \<and> 2 ^ (c - 1) < unat x"
proof -
  have x: "x > 0" "x \<noteq> 1" "x \<noteq> 0"
    using assms(1) by (auto simp: word_gt_0)
  have u: "unat (x - 1) = unat x - 1"
    by (rule unat_minus_one [OF x(3)])
  then have nz: "x - 1 \<noteq> 0"
    using assms(1) by auto
  obtain y where y: "floorLog2 ts (x - 1) = Inr y" "is_msb (x - 1) y"
    using floorLog2_is_msb [OF nz le_less_trans [OF _ assms(2)] assms(3)] u by auto
  then have "ceilLog2 ts x = Inr (y + 1)"
    using x by (simp add: ceilLog2_def)
  moreover have "2 ^ y \<le> unat x - 1" "unat x - 1 < 2 ^ (y + 1)"
    using y(2) by (simp_all add: is_msb_def u)
  ultimately show ?thesis
    using assms(1) by auto
qed

text \<open>For every unsigned value of 1, 2, 4 or 8 bytes that is not zero, \<open>floorLog2\<close> returns the
  exponent of the largest power of two below or equal to the value and \<open>ceilLog2\<close> the exponent of
  the smallest power of two above or equal to it; the assertions do not fire.\<close>

theorem log2_correct:
  assumes "x \<noteq> 0" "unat x < 2 ^ (8 * ts)" "ts = 1 \<or> ts = 2 \<or> ts = 4 \<or> ts = 8"
  shows "\<exists>f c. floorLog2 ts x = Inr f \<and> ceilLog2 ts x = Inr c \<and>
    2 ^ f \<le> unat x \<and> unat x < 2 ^ (f + 1) \<and> unat x \<le> 2 ^ c \<and> (c = 0 \<or> 2 ^ (c - 1) < unat x)"
proof (cases "x = 1")
  case True
  then show ?thesis
    using floorLog2_is_msb [OF assms] by (auto simp: ceilLog2_def is_msb_def word_gt_0)
next
  case False
  then have "1 < unat x"
    using assms(1) by (metis One_nat_def nat_neq_iff less_one unat_1 unat_eq_0 word_unat_eq_iff)
  then show ?thesis
    using floorLog2_is_msb [OF assms] ceilLog2_bounds [OF _ assms(2,3)] by (auto simp: is_msb_def)
qed

text \<open>The multiplication written with 32-bit halves for compilers without a 128-bit type gives
  the same high and low words as the 128-bit product, for unsigned and for signed operands.\<close>

theorem mul_manual_exact:
  "mulUnsignedManual x y = mulUnsigned64 x y \<and> mulSignedManual x y = mulSigned64 x y"
  by (simp add: mulUnsignedManual_eq mulSignedManual_eq)

text \<open>The binary search \<open>findLsbSetFallback\<close> and the builtin-based \<open>findLsbSet\<close> agree on every
  64-bit value (64 for zero), and both find the lowest set bit.\<close>

theorem findLsbSet_lowest:
  "findLsbSetFallback x = findLsbSet x \<and>
   (if x = 0 then findLsbSet x = 64 else bit x (findLsbSet x) \<and> (\<forall>i. bit x i \<longrightarrow> findLsbSet x \<le> i))"
proof (cases "x = 0")
  case False
  then show ?thesis
    using ctz64_is_lsb [OF False] findLsbSet_fallback [of x]
    by (auto simp: findLsbSet_def is_lsb_def not_less [symmetric])
qed (simp add: findLsbSet_fallback findLsbSet_def)

text \<open>\<open>reverseBits\<close> over the lookup table reverses the low \<open>size\<close> bytes bit by bit and clears the
  rest.\<close>

theorem reverseBits_reverses:
  assumes "sz \<le> 8"
  shows "\<exists>r. reverseBits v sz = Inr r \<and>
    (\<forall>j<64. bit r j = (j < 8 * sz \<and> bit v (8 * sz - 1 - j)))"
  using assms by (auto simp: reverseBits_def bit_reverseBits_loop)

text \<open>For a power of two, \<open>roundDown\<close> gives the largest multiple below or equal to the value and,
  when the sum does not wrap, \<open>roundUp\<close> the smallest multiple above or equal to it.\<close>

theorem round_correct:
  assumes "isPowerOf2 al" "unat v + unat al \<le> 2 ^ 64"
  shows "\<exists>d u. roundDown v al = Inr d \<and> roundUp v al = Inr u \<and>
    unat al dvd unat d \<and> unat d \<le> unat v \<and> unat v < unat d + unat al \<and>
    unat al dvd unat u \<and> unat v \<le> unat u \<and> unat u < unat v + unat al"
proof -
  obtain k where k: "k < 64" "al = 2 ^ k" "unat al = 2 ^ k"
    using assms(1) unat_power_lower_64 by (auto simp: isPowerOf2_iff)
  obtain d where d: "roundDown v al = Inr d" "unat d = unat v div 2 ^ k * 2 ^ k"
    using roundDown_eq [OF k(1)] k(2) by blast
  obtain u where u: "roundUp v al = Inr u" "unat u = (unat v + (2 ^ k - 1)) div 2 ^ k * 2 ^ k"
    using roundUp_eq [OF k(1), of v] k assms(2) by auto
  have "unat v \<le> unat u"
    using u(2) dividend_less_div_times [of "2 ^ k" "unat v + (2 ^ k - 1)"] by simp
  moreover have "unat u \<le> unat v + (2 ^ k - 1)"
    unfolding u(2) by (rule div_times_less_eq_dividend)
  then have "unat u < unat v + 2 ^ k"
    by (rule le_less_trans) simp
  moreover have "unat v < unat d + 2 ^ k"
    using d(2) dividend_less_div_times [of "2 ^ k" "unat v"] by (simp add: add.commute)
  ultimately show ?thesis
    using d u k(3) by auto
qed

end
