(* ===== verification/Addr_Range.thy ===== *)
theory Addr_Range
  imports Bitfield
begin

text \<open>
  Address ranges with interleaving: \<open>base/addr_range.hh\<close>. A range is a half-open interval of
  addresses with a vector of masks; bit \<open>i\<close> of the selector of an address is the parity of the
  address under mask \<open>i\<close>, and the address is in the range if the selector is \<open>intlvMatch\<close>.
\<close>

section \<open>Data and constructors\<close>

record AddrRange =
  ar_start :: Addr
  ar_end :: Addr
  ar_masks :: "Addr list"
  ar_match :: "8 word"

definition AddrRange_default :: AddrRange where
  "AddrRange_default = \<lparr>ar_start = 1, ar_end = 0, ar_masks = [], ar_match = 0\<rparr>"

definition AddrRange_plain :: "Addr \<Rightarrow> Addr \<Rightarrow> AddrRange" where
  "AddrRange_plain s e = \<lparr>ar_start = s, ar_end = e, ar_masks = [], ar_match = 0\<rparr>"

definition AddrRange_masks :: "Addr \<Rightarrow> Addr \<Rightarrow> Addr list \<Rightarrow> 8 word \<Rightarrow> AddrRange result" where
  "AddrRange_masks s e ms match =
     (if length ms \<ge> 64 then Inl (Undefined ''shift count'')
      else fatal_if (ms \<noteq> [] \<and> (ucast match :: 64 word) \<ge> push_bit (length ms) 1)
       ''Match value does not fit in the interleaving bits''
       (Inr \<lparr>ar_start = s, ar_end = e, ar_masks = ms, ar_match = match\<rparr>))"

definition AddrRange_interleaved :: "AddrRange \<Rightarrow> bool" where
  "AddrRange_interleaved r = (length (ar_masks r) > 0)"

definition AddrRange_size :: "AddrRange \<Rightarrow> Addr" where
  "AddrRange_size r = drop_bit (length (ar_masks r)) (ar_end r - ar_start r)"

text \<open>
  \<open>combined_mask\<close> is declared \<open>auto\<close> with the initialiser 0, an \<open>int\<close>: each \<open>|=\<close> truncates to 32
  bits, and the argument of \<open>ctz64\<close> is the sign-extended result. A count of 64 shifts out of range.
\<close>

definition combined_mask :: "AddrRange \<Rightarrow> 32 word" where
  "combined_mask r = fold (\<lambda>m acc. ucast ((scast acc :: 64 word) OR m)) (ar_masks r) 0"

definition AddrRange_granularity :: "AddrRange \<Rightarrow> 64 word result" where
  "AddrRange_granularity r =
     (if AddrRange_interleaved r then
        let lowest_bit = ctz64 (scast (combined_mask r)) in
        if lowest_bit \<ge> 64 then Inl (Undefined ''shift count'') else Inr (push_bit lowest_bit 1)
      else Inr (AddrRange_size r))"

definition AddrRange_valid :: "AddrRange \<Rightarrow> bool" where
  "AddrRange_valid r = (ar_start r \<le> ar_end r)"

definition AddrRange_mergesWith :: "AddrRange \<Rightarrow> AddrRange \<Rightarrow> bool" where
  "AddrRange_mergesWith this r =
     (ar_start r = ar_start this \<and> ar_end r = ar_end this \<and> ar_masks r = ar_masks this)"

section \<open>Membership\<close>

text \<open>The selector is an \<open>int\<close>: mask \<open>i\<close> contributes the parity shifted left by \<open>i\<close>.\<close>

definition AddrRange_sel :: "AddrRange \<Rightarrow> Addr \<Rightarrow> 32 word" where
  "AddrRange_sel r a =
     fold (\<lambda>i sel. let masked = a AND ar_masks r ! i
                   in sel OR push_bit i (of_nat (popCount masked mod 2)))
       [0..<length (ar_masks r)] 0"

definition AddrRange_contains :: "AddrRange \<Rightarrow> Addr \<Rightarrow> bool" where
  "AddrRange_contains r a =
     (let in_range = a \<ge> ar_start r \<and> a < ar_end r
      in if in_range then AddrRange_sel r a = ucast (ar_match r) else False)"

definition AddrRange_intersects :: "AddrRange \<Rightarrow> AddrRange \<Rightarrow> bool result" where
  "AddrRange_intersects this r =
     (if ar_start this \<ge> ar_end r \<or> ar_end this \<le> ar_start r then Inr False
      else if \<not> AddrRange_interleaved this \<and> \<not> AddrRange_interleaved r then Inr True
      else if AddrRange_size r = 1 then Inr (AddrRange_contains this (ar_start r))
      else if AddrRange_mergesWith this r then Inr (ar_match this = ar_match r)
      else Inl (Panic ''Cannot test intersection''))"

definition AddrRange_isSubset :: "AddrRange \<Rightarrow> AddrRange \<Rightarrow> bool result" where
  "AddrRange_isSubset this r =
     panic_if (AddrRange_interleaved this) ''Cannot test subset of interleaved range''
       (if AddrRange_interleaved r then
          if AddrRange_contains r (ar_start this) \<and> AddrRange_contains r (ar_end this - 1)
          then rbind (AddrRange_granularity r) (\<lambda>g. Inr (AddrRange_size this \<le> g))
          else Inr False
        else if ar_end this \<le> ar_start this then
          Inr (ar_start this \<ge> ar_start r \<and> ar_end r = 0)
        else if ar_end r \<le> ar_start r then Inr (ar_start this \<ge> ar_start r)
        else Inr (ar_start this \<ge> ar_start r \<and> ar_end this \<le> ar_end r))"

section \<open>Removing and adding the interleaving bits\<close>

definition masks_lsb :: "AddrRange \<Rightarrow> nat list" where
  "masks_lsb r = sort (map ctz64 (ar_masks r))"

text \<open>
  In step \<open>i\<close> the position \<open>intlv_bit - i - 1\<close> is an \<open>unsigned\<close> value and wraps when the sorted
  positions start at 0.
\<close>

definition remove_step :: "nat \<Rightarrow> nat \<Rightarrow> Addr \<Rightarrow> Addr" where
  "remove_step i intlv_bit a =
     (if intlv_bit > 0
      then bf_insert (drop_bit 1 a) (nat ((int intlv_bit - int i - 1) mod 2 ^ 32)) 0 a
      else drop_bit 1 a)"

definition AddrRange_removeIntlvBits :: "AddrRange \<Rightarrow> Addr \<Rightarrow> Addr" where
  "AddrRange_removeIntlvBits r a =
     (if \<not> AddrRange_interleaved r then a
      else fold (\<lambda>(i, intlv_bit). remove_step i intlv_bit) (enumerate 0 (masks_lsb r)) a)"

definition add_step :: "nat \<Rightarrow> Addr \<Rightarrow> Addr" where
  "add_step intlv_bit a =
     (if intlv_bit > 0 then bf_insert (push_bit 1 a) (intlv_bit - 1) 0 a else push_bit 1 a)"

text \<open>
  \<open>~(1 << lsb)\<close> is computed on \<open>int\<close> and then converted to \<open>Addr\<close>: for \<open>lsb = 31\<close> it is
  \<open>0x7fffffff\<close>, from 32 on the shift has no defined result.
\<close>

definition not_shifted_one :: "nat \<Rightarrow> Addr result" where
  "not_shifted_one lsb =
     (if lsb < 32 then Inr (scast (NOT (push_bit lsb (1 :: 32 word)))) else Inl (Undefined ''shift count''))"

definition set_lsb_step :: "AddrRange \<Rightarrow> nat \<Rightarrow> Addr \<Rightarrow> Addr result" where
  "set_lsb_step r i a =
     (let lsb = ctz64 (ar_masks r ! i); intlv_bit = bf_bit (ucast (ar_match r)) i in
      rbind (not_shifted_one lsb) (\<lambda>clr.
        let masked = a AND ar_masks r ! i AND clr
        in Inr (bf_insertBit a lsb (intlv_bit XOR of_nat (popCount masked)))))"

fun set_lsbs :: "AddrRange \<Rightarrow> nat list \<Rightarrow> Addr \<Rightarrow> Addr result" where
  "set_lsbs r [] a = Inr a"
| "set_lsbs r (i # is) a = rbind (set_lsb_step r i a) (set_lsbs r is)"

definition AddrRange_addIntlvBits :: "AddrRange \<Rightarrow> Addr \<Rightarrow> Addr result" where
  "AddrRange_addIntlvBits r a =
     (if \<not> AddrRange_interleaved r then Inr a
      else set_lsbs r [0..<length (ar_masks r)] (fold add_step (masks_lsb r) a))"

section \<open>Order, merging and exclusion\<close>

definition AddrRange_less :: "AddrRange \<Rightarrow> AddrRange \<Rightarrow> bool" where
  "AddrRange_less this r =
     (if ar_start this \<noteq> ar_start r then ar_start this < ar_start r
      else if AddrRange_interleaved this \<and> AddrRange_interleaved r
        then ar_match this < ar_match r
      else AddrRange_interleaved this)"

fun merge_check :: "AddrRange \<Rightarrow> 8 word \<Rightarrow> AddrRange list \<Rightarrow> unit result" where
  "merge_check this match [] = Inr ()"
| "merge_check this match (r # rs) =
     fatal_if (\<not> AddrRange_mergesWith this r) ''Can only merge ranges with the same start, end and interleaving bits''
       (fatal_if (ar_match r \<noteq> match) ''Expected interleave match differs when merging''
          (merge_check this (match + 1) rs))"

definition AddrRange_merge :: "AddrRange list \<Rightarrow> AddrRange result" where
  "AddrRange_merge rs =
     (let this = (case rs of [] \<Rightarrow> AddrRange_default | r # _ \<Rightarrow> r) in
      if length rs > 1 then
        fatal_if (length rs \<noteq> 2 ^ length (ar_masks this)) ''Number of ranges and interleaving bits differ''
          (rbind (merge_check this 0 rs) (\<lambda>_. Inr (this\<lparr>ar_masks := [], ar_match := 0\<rparr>)))
      else Inr this)"

text \<open>\<open>std::list::sort\<close> is a stable sort by \<open>operator<\<close>.\<close>

fun exclude_loop :: "AddrRange \<Rightarrow> AddrRange list \<Rightarrow> Addr \<Rightarrow> AddrRange list \<Rightarrow> AddrRange list result" where
  "exclude_loop this [] next_start ranges =
     Inr (if next_start < ar_end this then ranges @ [AddrRange_plain next_start (ar_end this)] else ranges)"
| "exclude_loop this (e # es) next_start ranges =
     assert_that (\<not> AddrRange_interleaved e) ''!e.interleaved()''
       (rbind (AddrRange_intersects this e) (\<lambda>b.
          if \<not> b then exclude_loop this es next_start ranges
          else if ar_start e \<le> next_start then
            if ar_end e < ar_end this
            then exclude_loop this es (if next_start < ar_end e then ar_end e else next_start) ranges
            else Inr ranges
          else
            let ranges' = ranges @ [AddrRange_plain next_start (ar_start e)] in
            if ar_end e < ar_end this then exclude_loop this es (ar_end e) ranges'
            else Inr ranges'))"

definition AddrRange_exclude :: "AddrRange \<Rightarrow> AddrRange list \<Rightarrow> AddrRange list result" where
  "AddrRange_exclude this exclude_ranges =
     assert_that (\<not> AddrRange_interleaved this) ''!interleaved()''
       (exclude_loop this (stable_sort AddrRange_less exclude_ranges) (ar_start this) [])"

fun exclude_all :: "AddrRange list \<Rightarrow> AddrRange list \<Rightarrow> AddrRange list result" where
  "exclude_all [] to_exclude = Inr []"
| "exclude_all (r # base) to_exclude =
     rbind (AddrRange_exclude r to_exclude) (\<lambda>xs. rbind (exclude_all base to_exclude) (\<lambda>ys. Inr (xs @ ys)))"

definition AddrRangeList_exclude :: "AddrRange list \<Rightarrow> AddrRange list \<Rightarrow> AddrRange list result" where
  "AddrRangeList_exclude base to_exclude = exclude_all base (stable_sort AddrRange_less to_exclude)"

end
