(* ===== verification/Addr_Range_Correct.thy ===== *)
theory Addr_Range_Correct
  imports Addr_Range
begin

text \<open>
  Correctness of the address ranges: the selector read bit by bit, the interleaving round trip,
  merging of all stripes of a range, and exclusion as set difference.
\<close>

section \<open>The selector\<close>

lemma bit_sel_fold:
  "bit (fold (\<lambda>i sel. sel OR push_bit i (of_nat (f i mod 2))) [0..<n] (0 :: 32 word)) j \<longleftrightarrow>
     j < n \<and> j < 32 \<and> odd (f j)"
proof (induction n)
  case (Suc n)
  have "bit (push_bit n (of_nat (f n mod 2) :: 32 word)) j \<longleftrightarrow> j = n \<and> j < 32 \<and> odd (f n)"
    by (cases "even (f n)") (auto simp: even_iff_mod_2_eq_zero odd_iff_mod_2_eq_one bit_simps)
  then show ?case
    using Suc by (auto simp: bit_or_iff less_Suc_eq)
qed simp

lemma bit_sel:
  "bit (AddrRange_sel r a) i \<longleftrightarrow>
     i < length (ar_masks r) \<and> i < 32 \<and> odd (popCount (a AND ar_masks r ! i))"
  unfolding AddrRange_sel_def Let_def by (rule bit_sel_fold)

lemma sel_cong: "ar_masks r = ar_masks r' \<Longrightarrow> AddrRange_sel r a = AddrRange_sel r' a"
  by (simp add: AddrRange_sel_def)

lemma sel_plain [simp]: "ar_masks r = [] \<Longrightarrow> AddrRange_sel r a = 0"
  by (simp add: AddrRange_sel_def)

text \<open>A range without interleaving as the constructors of plain ranges build it.\<close>

definition plain_range :: "AddrRange \<Rightarrow> bool" where
  "plain_range r \<longleftrightarrow> ar_masks r = [] \<and> ar_match r = 0"

lemma plain_range_plain [simp]: "plain_range (AddrRange_plain s e)"
  by (simp add: plain_range_def AddrRange_plain_def)

lemma plain_fields [simp]:
  "ar_start (AddrRange_plain s e) = s" "ar_end (AddrRange_plain s e) = e"
  by (simp_all add: AddrRange_plain_def)

lemma contains_plain: "plain_range r \<Longrightarrow> AddrRange_contains r a \<longleftrightarrow> ar_start r \<le> a \<and> a < ar_end r"
  by (simp add: plain_range_def AddrRange_contains_def)

lemma plain_not_interleaved [simp]: "plain_range r \<Longrightarrow> \<not> AddrRange_interleaved r"
  by (simp add: plain_range_def AddrRange_interleaved_def)

lemma intersects_plain:
  "plain_range r \<Longrightarrow> plain_range r' \<Longrightarrow>
     AddrRange_intersects r r' = Inr (ar_start r < ar_end r' \<and> ar_start r' < ar_end r)"
  by (auto simp: AddrRange_intersects_def not_le)

section \<open>Exclusion\<close>

definition free_of :: "Addr \<Rightarrow> Addr \<Rightarrow> AddrRange list \<Rightarrow> AddrRange list \<Rightarrow> bool" where
  "free_of lo hi es rs \<longleftrightarrow>
     (\<forall>a. (\<exists>r \<in> set rs. AddrRange_contains r a) \<longleftrightarrow>
          lo \<le> a \<and> a < hi \<and> \<not> (\<exists>e \<in> set es. AddrRange_contains e a)) \<and>
     (\<forall>r \<in> set rs. plain_range r \<and> lo \<le> ar_start r \<and> ar_start r < ar_end r \<and> ar_end r \<le> hi) \<and>
     sorted_wrt (\<lambda>r r'. ar_end r \<le> ar_start r') rs"

lemma free_of_nil: "\<forall>a. lo \<le> a \<and> a < hi \<longrightarrow> (\<exists>e \<in> set es. AddrRange_contains e a) \<Longrightarrow> free_of lo hi es []"
  by (auto simp: free_of_def)

lemma free_of_skip:
  assumes "free_of lo' hi es rs" "lo \<le> lo'" "\<forall>a. lo \<le> a \<and> a < hi \<longrightarrow> AddrRange_contains e a \<longleftrightarrow> a < lo'"
  shows "free_of lo hi (e # es) rs"
  using assms unfolding free_of_def by (auto dest: order.trans)

lemma free_of_cons:
  assumes "free_of lo' hi es rs" "lo < m" "m \<le> lo'" "m \<le> hi"
    "\<forall>a. AddrRange_contains e a \<longleftrightarrow> m \<le> a \<and> a < lo'" "\<forall>x \<in> set es. \<forall>a. AddrRange_contains x a \<longrightarrow> m \<le> a"
  shows "free_of lo hi (e # es) (AddrRange_plain lo m # rs)"
proof -
  have first: "AddrRange_contains (AddrRange_plain lo m) a \<longleftrightarrow> lo \<le> a \<and> a < m" for a
    by (subst contains_plain) simp_all
  have "(\<exists>r \<in> set (AddrRange_plain lo m # rs). AddrRange_contains r a) \<longleftrightarrow>
      lo \<le> a \<and> a < hi \<and> \<not> (\<exists>x \<in> set (e # es). AddrRange_contains x a)" for a
  proof (cases "a < m")
    case True
    then show ?thesis
      using assms first [of a] unfolding free_of_def
      by (metis leD list.set_intros(1) order.strict_trans2 set_ConsD)
  next
    case False
    then have "m \<le> a" "lo \<le> a"
      using assms(2) by auto
    then show ?thesis
      using assms(1,5) first [of a] False unfolding free_of_def by (auto simp: not_less)
  qed
  then show ?thesis
    using assms(1-4) unfolding free_of_def by (auto intro: order.trans less_imp_le)
qed

lemma exclude_loop_correct:
  assumes "plain_range this" "\<forall>e \<in> set es. plain_range e \<and> AddrRange_valid e"
    "sorted (map ar_start es)" "ar_start this \<le> ns"
  shows "\<exists>rs. exclude_loop this es ns ranges = Inr (ranges @ rs) \<and> free_of ns (ar_end this) es rs"
  using assms(2-4)
proof (induction es arbitrary: ns ranges)
  case Nil
  show ?case
    by (auto simp: free_of_def contains_plain)
next
  case (Cons e es)
  let ?lo = "ar_start this" and ?hi = "ar_end this"
  have e: "plain_range e" "ar_start e \<le> ar_end e" and
    IH: "\<And>ns ranges. ?lo \<le> ns \<Longrightarrow>
      \<exists>rs. exclude_loop this es ns ranges = Inr (ranges @ rs) \<and> free_of ns ?hi es rs"
    using Cons.prems Cons.IH by (auto simp: AddrRange_valid_def)
  have later: "\<forall>x \<in> set es. \<forall>a. AddrRange_contains x a \<longrightarrow> ar_start e \<le> a"
    using Cons.prems(1,2) by (auto simp: contains_plain)
  have ce: "AddrRange_contains e a \<longleftrightarrow> ar_start e \<le> a \<and> a < ar_end e" for a
    by (rule contains_plain [OF e(1)])
  have step: "exclude_loop this (e # es) ns ranges =
      (if \<not> (?lo < ar_end e \<and> ar_start e < ?hi) then exclude_loop this es ns ranges
       else if ar_start e \<le> ns then
         if ar_end e < ?hi
         then exclude_loop this es (if ns < ar_end e then ar_end e else ns) ranges else Inr ranges
       else if ar_end e < ?hi
         then exclude_loop this es (ar_end e) (ranges @ [AddrRange_plain ns (ar_start e)])
         else Inr (ranges @ [AddrRange_plain ns (ar_start e)]))"
    using assms(1) e(1) by (simp add: intersects_plain Let_def)
  consider (skip) "ar_end e \<le> ?lo \<or> ?hi \<le> ar_start e"
    | (cut) "ar_start e \<le> ns" "ar_end e < ?hi" "?lo < ar_end e" "ar_start e < ?hi"
    | (last) "ar_start e \<le> ns" "?hi \<le> ar_end e" "?lo < ar_end e" "ar_start e < ?hi"
    | (gap) "ns < ar_start e" "ar_end e < ?hi" "?lo < ar_end e" "ar_start e < ?hi"
    | (gap_last) "ns < ar_start e" "?hi \<le> ar_end e" "?lo < ar_end e" "ar_start e < ?hi"
    by (meson not_less)
  then show ?case
  proof cases
    case skip
    then have "free_of ns ?hi (e # es) rs" if "free_of ns ?hi es rs" for rs
      using that Cons.prems(3) by (intro free_of_skip [OF that]) (auto simp: ce)
    with skip show ?thesis
      unfolding step using IH [OF Cons.prems(3), of ranges] by (auto simp: not_less)
  next
    case cut
    define ns' where "ns' = (if ns < ar_end e then ar_end e else ns)"
    have "free_of ns ?hi (e # es) rs" if "free_of ns' ?hi es rs" for rs
      using cut by (intro free_of_skip [OF that]) (auto simp: ce ns'_def)
    moreover have "?lo \<le> ns'"
      using Cons.prems(3) by (auto simp: ns'_def)
    ultimately show ?thesis
      unfolding step ns'_def [symmetric] using cut IH [of ns' ranges] by auto
  next
    case last
    then show ?thesis
      unfolding step by (auto simp: ce not_less intro!: free_of_nil)
  next
    case gap
    have "free_of ns ?hi (e # es) (AddrRange_plain ns (ar_start e) # rs)" if "free_of (ar_end e) ?hi es rs" for rs
      using gap e later by (intro free_of_cons [OF that]) (auto simp: ce)
    then show ?thesis
      unfolding step using gap IH [of "ar_end e" "ranges @ [AddrRange_plain ns (ar_start e)]"] by fastforce
  next
    case gap_last
    have "free_of (ar_end e) ?hi es []"
      using gap_last by (intro free_of_nil) auto
    then have "free_of ns ?hi (e # es) [AddrRange_plain ns (ar_start e)]"
      using gap_last e later by (intro free_of_cons) (auto simp: ce)
    then show ?thesis
      unfolding step using gap_last by auto
  qed
qed

lemma sorted_by_start:
  assumes "\<forall>e \<in> set es. plain_range e"
  shows "stable_sort AddrRange_less es = sort_key ar_start es"
  using assms by (intro stable_sort_sort_key) (auto simp: AddrRange_less_def)

section \<open>Merging\<close>

lemma merge_check_ok:
  "merge_check this m rs = Inr () \<longleftrightarrow>
     (\<forall>j < length rs. AddrRange_mergesWith this (rs ! j) \<and> ar_match (rs ! j) = m + of_nat j)"
  by (induction rs arbitrary: m) (auto simp: result_eq_Inr nth_Cons' less_Suc_eq_0_disj ac_simps)

lemma contains_stripe:
  assumes "AddrRange_mergesWith this r" "ar_match r = of_nat j" "j < 2 ^ length (ar_masks this)"
    "length (ar_masks this) \<le> 8"
  shows "AddrRange_contains r a \<longleftrightarrow>
    ar_start this \<le> a \<and> a < ar_end this \<and> unat (AddrRange_sel this a) = j"
proof -
  have "j < 256"
    using assms(3,4) power_increasing [of "length (ar_masks this)" 8 "2 :: nat"] by simp
  then have "AddrRange_sel this a = ucast (of_nat j :: 8 word) \<longleftrightarrow> unat (AddrRange_sel this a) = j"
    by (simp add: word_unat_eq_iff unsigned_ucast_eq take_bit_nat_eq_self unat_of_nat)
  then show ?thesis
    using assms(1,2) sel_cong [of r this a] by (auto simp: AddrRange_contains_def AddrRange_mergesWith_def)
qed

lemma unat_sel_less:
  assumes "length (ar_masks r) \<le> 8"
  shows "unat (AddrRange_sel r a) < 2 ^ length (ar_masks r)"
proof -
  have "take_bit (length (ar_masks r)) (AddrRange_sel r a) = AddrRange_sel r a"
    by (rule bit_word_eqI) (auto simp: bit_take_bit_iff bit_sel)
  then show ?thesis
    by (metis take_bit_nat_less_exp unsigned_take_bit_eq)
qed

section \<open>Removing and adding bits of a bit sequence\<close>

definition del_bit :: "nat \<Rightarrow> (nat \<Rightarrow> bool) \<Rightarrow> nat \<Rightarrow> bool" where
  "del_bit p f = (\<lambda>j. if j < p then f j else f (j + 1))"

definition add_bit :: "nat \<Rightarrow> (nat \<Rightarrow> bool) \<Rightarrow> nat \<Rightarrow> bool" where
  "add_bit p f = (\<lambda>j. if j < p then f j else 0 < j \<and> f (j - 1))"

fun del_bits :: "nat list \<Rightarrow> (nat \<Rightarrow> bool) \<Rightarrow> nat \<Rightarrow> bool" where
  "del_bits [] f = f"
| "del_bits (l # ls) f = del_bits (map (\<lambda>x. x - 1) ls) (del_bit l f)"

lemma add_bit_commute: "l < x \<Longrightarrow> add_bit x (add_bit l g) = add_bit l (add_bit (x - 1) g)"
  by (auto simp: add_bit_def fun_eq_iff)

lemma fold_add_bit_commute:
  "\<forall>x \<in> set ls. l < x \<Longrightarrow>
     fold add_bit ls (add_bit l g) = add_bit l (fold add_bit (map (\<lambda>x. x - 1) ls) g)"
  by (induction ls arbitrary: g) (simp_all add: add_bit_commute)

lemma add_del_bits:
  assumes "sorted_wrt (<) ls" "j \<notin> set ls"
  shows "fold add_bit ls (del_bits ls f) j = f j"
  using assms
proof (induction ls f arbitrary: j rule: del_bits.induct)
  case (2 l ls f)
  let ?ls = "map (\<lambda>x. x - 1) ls"
  let ?F = "fold add_bit ?ls (del_bits ?ls (del_bit l f))"
  have gt: "\<forall>x \<in> set ls. l < x" and "sorted_wrt (<) ls"
    using 2(2) by auto
  then have "sorted_wrt (<) ?ls"
    by (auto simp: sorted_wrt_map elim!: sorted_wrt_mono_rel [rotated])
  then have IH: "?F i = del_bit l f i" if "i \<notin> set ?ls" for i
    using 2(1) that by blast
  have "fold add_bit (l # ls) (del_bits (l # ls) f) j = add_bit l ?F j"
    using fold_add_bit_commute [OF gt] by simp
  also have "\<dots> = f j"
  proof (cases "j < l")
    case True
    then have "j \<notin> set ?ls"
      using gt by auto
    with True show ?thesis
      using IH by (simp add: add_bit_def del_bit_def)
  next
    case False
    then have "l < j"
      using 2(3) by simp
    then have "j - 1 \<notin> set ?ls"
      using 2(3) gt by (auto simp: image_iff) (metis Suc_pred diff_Suc_1 gr_implies_not0 not_gr_zero)
    with \<open>l < j\<close> show ?thesis
      using IH by (auto simp: add_bit_def del_bit_def)
  qed
  finally show ?case .
qed simp

lemma bit_beyond: "64 \<le> j \<Longrightarrow> \<not> bit (a :: 64 word) j"
  using bit_imp_le_length [of a j] by auto

lemma bit_remove_step:
  assumes "i \<le> l" "l < 64"
  shows "bit (remove_step i l a) = del_bit (l - i) (bit a)"
proof -
  consider "i < l" | "l = i" "0 < l" | "l = 0"
    using assms(1) by linarith
  then show ?thesis
  proof cases
    case 1
    then have "nat ((int l - int i - 1) mod 2 ^ 32) = l - i - 1"
      using assms(2) by (simp add: nat_mod_distrib nat_diff_distrib)
    then show ?thesis
      using 1 assms(2) bit_beyond [of _ a]
      by (auto simp: remove_step_def del_bit_def fun_eq_iff bf_bit_simps bit_drop_bit_eq)
  next
    case 2
    then have "nat ((int l - int i - 1) mod 2 ^ 32) = 2 ^ 32 - 1"
      by simp
    then show ?thesis
      using 2 bf_insert_wrap [of "drop_bit 1 a" a]
      by (simp add: remove_step_def del_bit_def fun_eq_iff bit_drop_bit_eq)
  next
    case 3
    then show ?thesis
      using assms(1) by (simp add: remove_step_def del_bit_def fun_eq_iff bit_drop_bit_eq)
  qed
qed

lemma bit_add_step:
  assumes "l < 64" "j < 64"
  shows "bit (add_step l a) j = add_bit l (bit a) j"
  using assms by (auto simp: add_step_def add_bit_def bf_bit_simps bit_push_bit_iff simp del: push_bit_Suc)

lemma add_bit_cong: "(\<And>i. i \<le> j \<Longrightarrow> f i = g i) \<Longrightarrow> add_bit l f j = add_bit l g j"
  by (simp add: add_bit_def)

lemma fold_add_bit_cong:
  "(\<And>i. i \<le> j \<Longrightarrow> f i = g i) \<Longrightarrow> fold add_bit ls f j = fold add_bit ls g j"
proof (induction ls arbitrary: f g)
  case (Cons l ls)
  have "add_bit l f i = add_bit l g i" if "i \<le> j" for i
    using Cons.prems that by (intro add_bit_cong) simp
  then show ?case
    using Cons.IH [of "add_bit l f" "add_bit l g"] by simp
qed simp

lemma bit_fold_add_step:
  assumes "\<forall>l \<in> set ls. l < 64" "j < 64"
  shows "bit (fold add_step ls a) j = fold add_bit ls (bit a) j"
  using assms
proof (induction ls arbitrary: a)
  case (Cons l ls)
  then have "bit (fold add_step (l # ls) a) j = fold add_bit ls (bit (add_step l a)) j"
    by simp
  also have "\<dots> = fold add_bit ls (add_bit l (bit a)) j"
    using Cons.prems by (intro fold_add_bit_cong bit_add_step) simp_all
  finally show ?case
    by simp
qed simp

lemma bit_fold_remove_step:
  assumes "sorted_wrt (<) ls" "\<forall>l \<in> set ls. n \<le> l \<and> l < 64"
  shows "bit (fold (\<lambda>(i, l). remove_step i l) (enumerate n ls) a) = del_bits (map (\<lambda>x. x - n) ls) (bit a)"
  using assms
proof (induction ls arbitrary: n a)
  case (Cons l ls)
  have "\<forall>x \<in> set ls. Suc n \<le> x \<and> x < 64"
    using Cons.prems by fastforce
  then have "bit (fold (\<lambda>(i, l). remove_step i l) (enumerate (Suc n) ls) (remove_step n l a))
      = del_bits (map (\<lambda>x. x - Suc n) ls) (del_bit (l - n) (bit a))"
    using Cons by (simp add: bit_remove_step)
  then show ?case
    by (simp add: comp_def)
qed simp

section \<open>The interleaving round trip\<close>

text \<open>
  What the round trip needs of the masks: none is zero, their lowest bits are pairwise distinct and
  below bit 31, and no mask selects the lowest bit of a later mask.
\<close>

definition separable_masks :: "Addr list \<Rightarrow> bool" where
  "separable_masks ms \<longleftrightarrow>
     (\<forall>m \<in> set ms. m \<noteq> 0 \<and> ctz64 m < 31) \<and> distinct (map ctz64 ms) \<and>
     sorted_wrt (\<lambda>m m'. \<not> bit m (ctz64 m')) ms"

definition differ_only :: "nat set \<Rightarrow> Addr \<Rightarrow> Addr \<Rightarrow> bool" where
  "differ_only S a b \<longleftrightarrow> (\<forall>j. j \<notin> S \<longrightarrow> bit a j = bit b j)"

lemma masks_lsb_props:
  assumes "separable_masks (ar_masks r)"
  shows "sorted_wrt (<) (masks_lsb r)" "\<forall>l \<in> set (masks_lsb r). l < 64"
    "set (masks_lsb r) = ctz64 ` set (ar_masks r)"
  using assms by (auto simp: masks_lsb_def separable_masks_def strict_sorted_iff)

lemma add_remove_differ_only:
  assumes "separable_masks (ar_masks r)" "AddrRange_interleaved r"
  shows "differ_only (ctz64 ` set (ar_masks r)) (fold add_step (masks_lsb r) (AddrRange_removeIntlvBits r a)) a"
  unfolding differ_only_def
proof (intro allI impI)
  fix j
  assume j: "j \<notin> ctz64 ` set (ar_masks r)"
  note L = masks_lsb_props [OF assms(1)]
  show "bit (fold add_step (masks_lsb r) (AddrRange_removeIntlvBits r a)) j = bit a j"
  proof (cases "j < 64")
    case True
    then show ?thesis
      using j L assms(2) bit_fold_remove_step [of "masks_lsb r" 0 a] add_del_bits [of "masks_lsb r" j "bit a"]
      by (simp add: bit_fold_add_step AddrRange_removeIntlvBits_def)
  next
    case False
    then show ?thesis
      using bit_beyond by simp
  qed
qed

lemma popCount_card: "popCount v = card {i. bit v i}"
proof -
  have "i < 64" if "bit v i" for i
    using bit_imp_le_length [OF that] by simp
  then have "{i. bit v i} = set (filter (bit v) [0..<64])"
    unfolding set_filter set_upt by force
  then show ?thesis
    by (simp only: popCount_def distinct_card distinct_filter distinct_upt)
qed

lemma finite_bits: "finite {i. bit (v :: 64 word) i}"
proof -
  have "{i. bit v i} \<subseteq> {..<64}"
    using bit_imp_le_length [of v] by fastforce
  then show ?thesis
    by (rule finite_subset) simp
qed

lemma popCount_clear_bit:
  assumes "bit v l"
    "\<forall>j. bit v' j \<longleftrightarrow> bit v j \<and> j \<noteq> l"
  shows "popCount v = popCount v' + 1"
proof -
  have "{j. bit v' j} = {j. bit v j} - {l}"
    using assms(2) by auto
  then show ?thesis
    using assms(1) card_Suc_Diff1 [OF finite_bits, of l v] by (simp add: popCount_card)
qed

lemma bit_not_shifted_one:
  assumes "l < 31"
  obtains clr where "not_shifted_one l = Inr clr" "\<And>j. bit clr j \<longleftrightarrow> j < 64 \<and> j \<noteq> l"
proof
  show "not_shifted_one l = Inr (scast (NOT (push_bit l (1 :: 32 word))))"
    using assms by (simp add: not_shifted_one_def)
  show "bit (scast (NOT (push_bit l (1 :: 32 word))) :: 64 word) j \<longleftrightarrow> j < 64 \<and> j \<noteq> l" for j
    using assms by (cases "j < 31") (auto simp: bit_signed_iff bit_not_iff_eq bit_exp_iff)
qed

lemma set_lsb_step_restores:
  assumes sep: "separable_masks (ar_masks r)" and sel: "AddrRange_sel r a = ucast (ar_match r)"
    and i: "i < length (ar_masks r)" "i < 32"
    and diff: "differ_only (ctz64 ` set (drop i (ar_masks r))) w a"
  shows "\<exists>w'. set_lsb_step r i w = Inr w' \<and> differ_only (ctz64 ` set (drop (Suc i) (ar_masks r))) w' a"
proof -
  let ?m = "ar_masks r ! i"
  define l where "l = ctz64 ?m"
  have m: "?m \<noteq> 0" "l < 31" "bit ?m l"
    using sep i(1) ctz64_is_lsb [of ?m] by (auto simp: separable_masks_def l_def is_lsb_def)
  obtain clr where clr: "not_shifted_one l = Inr clr" "\<And>j. bit clr j \<longleftrightarrow> j < 64 \<and> j \<noteq> l"
    using bit_not_shifted_one [OF m(2)] by blast
  have drop: "drop i (ar_masks r) = ?m # drop (Suc i) (ar_masks r)"
    using i(1) by (simp add: Cons_nth_drop_Suc)
  have later: "\<not> bit ?m (ctz64 m')" if "m' \<in> set (drop (Suc i) (ar_masks r))" for m'
    using sep that drop sorted_wrt_drop [of _ "ar_masks r" i] unfolding separable_masks_def by fastforce
  let ?masked = "w AND ?m AND clr"
  have masked: "bit ?masked j \<longleftrightarrow> bit a j \<and> bit ?m j \<and> j \<noteq> l" for j
    using diff later bit_imp_le_length [of a j] unfolding differ_only_def drop
    by (auto simp: bit_and_iff clr(2) l_def not_le)
  have "odd (popCount (a AND ?m)) \<longleftrightarrow> (odd (popCount ?masked) \<noteq> bit a l)"
  proof (cases "bit a l")
    case True
    then show ?thesis
      using popCount_clear_bit [of "a AND ?m" l ?masked] masked m(3) by (auto simp: bit_and_iff)
  next
    case False
    then have "a AND ?m = ?masked"
      using masked by (intro bit_word_eqI) (auto simp: bit_and_iff)
    with False show ?thesis
      by simp
  qed
  moreover have "odd (popCount (a AND ?m)) \<longleftrightarrow> bit (ar_match r) i"
    using sel i bit_sel [of r a i] by (simp add: bit_ucast_iff)
  moreover define x where "x = bf_bit (ucast (ar_match r)) i XOR of_nat (popCount ?masked)"
  moreover have "bit (bf_bit (ucast (ar_match r)) i) 0 \<longleftrightarrow> bit (ar_match r) i"
    unfolding bf_bit_def bit_bf_field using i(2) by (simp add: bit_ucast_iff)
  then have "bit x 0 \<longleftrightarrow> (bit (ar_match r) i \<noteq> odd (popCount ?masked))"
    unfolding x_def bit_xor_iff by (simp add: bit_0)
  ultimately have "bit x 0 = bit a l"
    by blast
  then have "bit (bf_insertBit w l x) j = (if j = l then bit a l else bit w j)" for j
    using m(2) by (auto simp: bf_insertBit_def bf_bit_simps)
  then have "differ_only (ctz64 ` set (drop (Suc i) (ar_masks r))) (bf_insertBit w l x) a"
    using diff unfolding differ_only_def drop by (auto simp: l_def)
  moreover have "set_lsb_step r i w = Inr (bf_insertBit w l x)"
    using clr(1) by (simp add: set_lsb_step_def x_def l_def)
  ultimately show ?thesis
    by blast
qed

lemma set_lsbs_restores:
  assumes sep: "separable_masks (ar_masks r)" and sel: "AddrRange_sel r a = ucast (ar_match r)"
    and len: "length (ar_masks r) \<le> 32"
    and diff: "differ_only (ctz64 ` set (drop i (ar_masks r))) w a" and i: "i \<le> length (ar_masks r)"
  shows "set_lsbs r [i..<length (ar_masks r)] w = Inr a"
  using i diff
proof (induction arbitrary: w rule: inc_induct)
  case base
  then have "w = a"
    by (intro bit_word_eqI) (simp add: differ_only_def)
  then show ?case
    by simp
next
  case (step n)
  then obtain w' where "set_lsb_step r n w = Inr w'" "differ_only (ctz64 ` set (drop (Suc n) (ar_masks r))) w' a"
    using set_lsb_step_restores [OF sep sel, of n w] len by auto
  then show ?case
    using step by (simp add: upt_conv_Cons)
qed

lemma separable_masks_length:
  assumes "separable_masks ms"
  shows "length ms \<le> 31"
proof -
  have "length ms = card (ctz64 ` set ms)"
    using assms distinct_card [of "map ctz64 ms"] by (simp add: separable_masks_def)
  also have "\<dots> \<le> card {..<31 :: nat}"
    using assms by (intro card_mono) (auto simp: separable_masks_def)
  finally show ?thesis
    by simp
qed

section \<open>Properties\<close>

text \<open>C23: for non-zero masks whose lowest bits are distinct, below bit 31 and not selected by earlier masks,
  \<open>addIntlvBits\<close> restores every address of the range from the interleaving-free address that
  \<open>removeIntlvBits\<close> makes of it.\<close>

theorem add_remove_intlv_bits:
  assumes "AddrRange_contains r a" "separable_masks (ar_masks r)"
  shows "AddrRange_addIntlvBits r (AddrRange_removeIntlvBits r a) = Inr a"
proof (cases "AddrRange_interleaved r")
  case True
  have "AddrRange_sel r a = ucast (ar_match r)"
    using assms(1) by (simp add: AddrRange_contains_def Let_def split: if_splits)
  then show ?thesis
    using set_lsbs_restores [OF assms(2), of a 0] separable_masks_length [OF assms(2)]
      add_remove_differ_only [OF assms(2) True, of a] True
    by (simp add: AddrRange_addIntlvBits_def)
qed (simp add: AddrRange_addIntlvBits_def AddrRange_removeIntlvBits_def)

theorem add_remove_intlv_bits_witness:
  "AddrRange_addIntlvBits \<lparr>ar_start = 0, ar_end = 0x10000, ar_masks = [0x140, 0x880], ar_match = 2\<rparr>
     (AddrRange_removeIntlvBits \<lparr>ar_start = 0, ar_end = 0x10000, ar_masks = [0x140, 0x880], ar_match = 2\<rparr> 0x82a)
   = Inr 0x82a"
  by (rule add_remove_intlv_bits) code_simp+

text \<open>C24: subtracting a list of plain, valid ranges from a plain range yields disjoint non-empty
  ranges in ascending order whose union is exactly the set difference.\<close>

theorem exclude_set_difference:
  assumes "plain_range this" "\<forall>e \<in> set es. plain_range e \<and> AddrRange_valid e"
  shows "\<exists>rs. AddrRange_exclude this es = Inr rs \<and>
    (\<forall>a. (\<exists>r \<in> set rs. AddrRange_contains r a) \<longleftrightarrow>
       AddrRange_contains this a \<and> \<not> (\<exists>e \<in> set es. AddrRange_contains e a)) \<and>
    (\<forall>r \<in> set rs. ar_start r < ar_end r) \<and> sorted_wrt (\<lambda>r r'. ar_end r \<le> ar_start r') rs"
proof -
  have "stable_sort AddrRange_less es = sort_key ar_start es"
    using assms(2) by (intro sorted_by_start) blast
  then obtain rs where "AddrRange_exclude this es = Inr rs"
    "free_of (ar_start this) (ar_end this) (sort_key ar_start es) rs"
    using exclude_loop_correct [OF assms(1), of "sort_key ar_start es" "ar_start this" "[]"] assms
    by (auto simp: AddrRange_exclude_def)
  then show ?thesis
    using assms(1) by (auto simp: free_of_def contains_plain)
qed

theorem exclude_set_difference_witness:
  "\<exists>rs. AddrRange_exclude (AddrRange_plain 0 100) [AddrRange_plain 20 30, AddrRange_plain 10 25] = Inr rs \<and>
    (\<forall>a. (\<exists>r \<in> set rs. AddrRange_contains r a) \<longleftrightarrow>
       AddrRange_contains (AddrRange_plain 0 100) a \<and>
       \<not> (\<exists>e \<in> set [AddrRange_plain 20 30, AddrRange_plain 10 25]. AddrRange_contains e a)) \<and>
    (\<forall>r \<in> set rs. ar_start r < ar_end r) \<and> sorted_wrt (\<lambda>r r'. ar_end r \<le> ar_start r') rs"
  by (rule exclude_set_difference) (simp_all add: AddrRange_valid_def)

text \<open>C26: when a list of at least two interleaved ranges with at most eight masks merges, the merged
  range contains exactly the addresses of the parts, and each address is in exactly one part.\<close>

theorem merge_is_partition:
  assumes "AddrRange_merge rs = Inr m" "1 < length rs" "length (ar_masks (hd rs)) \<le> 8"
  shows "AddrRange_contains m a = (\<exists>r \<in> set rs. AddrRange_contains r a) \<and>
    (AddrRange_contains m a \<longrightarrow> (\<exists>!j. j < length rs \<and> AddrRange_contains (rs ! j) a))"
proof -
  obtain this rest where rs: "rs = this # rest"
    using assms(2) by (cases rs) auto
  have len: "length rs = 2 ^ length (ar_masks this)" and m: "m = this\<lparr>ar_masks := [], ar_match := 0\<rparr>"
    and chk: "merge_check this 0 rs = Inr ()"
    using assms(1,2) by (auto simp: AddrRange_merge_def rs Let_def result_eq_Inr)
  have part: "AddrRange_contains (rs ! j) a \<longleftrightarrow>
      ar_start this \<le> a \<and> a < ar_end this \<and> unat (AddrRange_sel this a) = j" if "j < length rs" for j
    using chk [unfolded merge_check_ok] that len assms(3) by (intro contains_stripe) (auto simp: rs)
  have whole: "AddrRange_contains m a \<longleftrightarrow> ar_start this \<le> a \<and> a < ar_end this"
    by (simp add: m AddrRange_contains_def)
  have "unat (AddrRange_sel this a) < length rs"
    unfolding len using assms(3) rs by (intro unat_sel_less) simp
  moreover have "(\<exists>r \<in> set rs. AddrRange_contains r a) \<longleftrightarrow> (\<exists>j < length rs. AddrRange_contains (rs ! j) a)"
    by (metis in_set_conv_nth)
  ultimately show ?thesis
    using part whole by auto
qed

theorem merge_is_partition_witness:
  "let r = \<lparr>ar_start = 0, ar_end = 0x1000, ar_masks = [0x40], ar_match = 0\<rparr>;
       rs = [r, r\<lparr>ar_match := 1\<rparr>]; m = r\<lparr>ar_masks := []\<rparr> in
   AddrRange_contains m 0x80 = (\<exists>r \<in> set rs. AddrRange_contains r 0x80) \<and>
    (AddrRange_contains m 0x80 \<longrightarrow> (\<exists>!j. j < length rs \<and> AddrRange_contains (rs ! j) 0x80))"
  unfolding Let_def
  by (rule merge_is_partition) (simp_all add: AddrRange_merge_def AddrRange_mergesWith_def)

end
