(* ===== verification/Circular_Queue.thy ===== *)
theory Circular_Queue
  imports Gem5_Prelude
begin

text \<open>
  The circular queue of \<open>base/circular_queue.hh\<close>: a vector addressed by monotonically growing
  64-bit indices taken modulo the capacity, with its iterators. It is shown to be a queue of
  bounded length that drops its oldest element when a full queue is pushed to.
\<close>

section \<open>The queue\<close>

record 'a circular_queue =
  cq_data :: "'a list"
  cq_capacity :: "64 word"
  cq_size :: "64 word"
  cq_head :: "64 word"

text \<open>\<open>d\<close> is the value \<open>std::vector<T>(size)\<close> gives its elements.\<close>

definition CircularQueue_new :: "'a \<Rightarrow> 64 word \<Rightarrow> 'a circular_queue" where
  "CircularQueue_new d n =
     \<lparr>cq_data = replicate (unat n) d, cq_capacity = n, cq_size = 0, cq_head = 1\<rparr>"

text \<open>\<open>operator[]\<close>, as a read and as the target of an assignment.\<close>

definition CircularQueue_slot :: "'a circular_queue \<Rightarrow> int \<Rightarrow> nat result" where
  "CircularQueue_slot q index =
     assert_that (index \<ge> 0) ''index >= 0''
       (if cq_capacity q = 0 then Inl (Undefined ''division by zero'')
        else Inr (nat index mod unat (cq_capacity q)))"

definition CircularQueue_at :: "'a circular_queue \<Rightarrow> int \<Rightarrow> 'a result" where
  "CircularQueue_at q index = rbind (CircularQueue_slot q index) (\<lambda>i. Inr (cq_data q ! i))"

definition CircularQueue_assign :: "'a circular_queue \<Rightarrow> int \<Rightarrow> 'a \<Rightarrow> 'a circular_queue result" where
  "CircularQueue_assign q index v =
     rbind (CircularQueue_slot q index) (\<lambda>i. Inr (q\<lparr>cq_data := (cq_data q)[i := v]\<rparr>))"

definition CircularQueue_flush :: "'a circular_queue \<Rightarrow> 'a circular_queue" where
  "CircularQueue_flush q = q\<lparr>cq_head := 1, cq_size := 0\<rparr>"

definition CircularQueue_tail :: "'a circular_queue \<Rightarrow> 64 word" where
  "CircularQueue_tail q = cq_head q + cq_size q - 1"

definition CircularQueue_empty :: "'a circular_queue \<Rightarrow> bool" where
  "CircularQueue_empty q = (cq_size q = 0)"

definition CircularQueue_full :: "'a circular_queue \<Rightarrow> bool" where
  "CircularQueue_full q = (cq_size q = cq_capacity q)"

definition CircularQueue_pop_front :: "64 word \<Rightarrow> 'a circular_queue \<Rightarrow> 'a circular_queue result" where
  "CircularQueue_pop_front num_elem q =
     assert_that (num_elem \<le> cq_size q) ''num_elem <= size()''
       (Inr (q\<lparr>cq_head := cq_head q + num_elem, cq_size := cq_size q - num_elem\<rparr>))"

definition CircularQueue_pop_back :: "'a circular_queue \<Rightarrow> 'a circular_queue result" where
  "CircularQueue_pop_back q =
     assert_that (\<not> CircularQueue_empty q) ''!empty()'' (Inr (q\<lparr>cq_size := cq_size q - 1\<rparr>))"

definition CircularQueue_advance_tail :: "'a circular_queue \<Rightarrow> 'a circular_queue" where
  "CircularQueue_advance_tail q =
     (if CircularQueue_full q then q\<lparr>cq_head := cq_head q + 1\<rparr>
      else q\<lparr>cq_size := cq_size q + 1\<rparr>)"

definition CircularQueue_advance_tail_by :: "64 word \<Rightarrow> 'a circular_queue \<Rightarrow> 'a circular_queue" where
  "CircularQueue_advance_tail_by len q =
     (let remaining = cq_capacity q - cq_size q in
      if len > remaining then
        (let overflow = len - remaining in
         q\<lparr>cq_head := cq_head q + overflow, cq_size := cq_size q + (len - overflow)\<rparr>)
      else q\<lparr>cq_size := cq_size q + len\<rparr>)"

definition CircularQueue_push_back :: "'a \<Rightarrow> 'a circular_queue \<Rightarrow> 'a circular_queue result" where
  "CircularQueue_push_back v q =
     (let q1 = CircularQueue_advance_tail q in
      CircularQueue_assign q1 (uint (CircularQueue_tail q1)) v)"

section \<open>Iterators\<close>

text \<open>
  An iterator is an index and the address of its queue, \<open>None\<close> for the null pointer; \<open>qs\<close>
  gives the queue at an address.
\<close>

record cq_iterator =
  it_cq :: "nat option"
  it_idx :: "64 word"

definition CircularQueue_begin :: "nat \<Rightarrow> 'a circular_queue \<Rightarrow> cq_iterator" where
  "CircularQueue_begin p q = \<lparr>it_cq = Some p, it_idx = cq_head q\<rparr>"

definition CircularQueue_end :: "nat \<Rightarrow> 'a circular_queue \<Rightarrow> cq_iterator" where
  "CircularQueue_end p q = \<lparr>it_cq = Some p, it_idx = CircularQueue_tail q + 1\<rparr>"

definition iterator_deref :: "(nat \<Rightarrow> 'a circular_queue) \<Rightarrow> cq_iterator \<Rightarrow> 'a result" where
  "iterator_deref qs it =
     (case it_cq it of
        None \<Rightarrow> Inl (Undefined ''null dereference'')
      | Some p \<Rightarrow> CircularQueue_at (qs p) (uint (it_idx it)))"

definition iterator_inc :: "cq_iterator \<Rightarrow> cq_iterator" where
  "iterator_inc it = it\<lparr>it_idx := it_idx it + 1\<rparr>"

text \<open>The loop \<open>for (it = begin(); it != end(); ++it)\<close>, which may not end when the indices wrap.\<close>

partial_function (option) iterate ::
    "(nat \<Rightarrow> 'a circular_queue) \<Rightarrow> cq_iterator \<Rightarrow> cq_iterator \<Rightarrow> 'a list \<Rightarrow> 'a list result option" where
  "iterate qs it stop acc =
     (if it = stop then Some (Inr acc)
      else case iterator_deref qs it of
             Inl e \<Rightarrow> Some (Inl e)
           | Inr v \<Rightarrow> iterate qs (iterator_inc it) stop (acc @ [v]))"

declare iterate.simps [code]

section \<open>The contents\<close>

definition window :: "'a circular_queue \<Rightarrow> nat \<Rightarrow> nat \<Rightarrow> 'a list" where
  "window q i n = map (\<lambda>k. cq_data q ! (k mod unat (cq_capacity q))) [i..<i + n]"

definition contents :: "'a circular_queue \<Rightarrow> 'a list" where
  "contents q = window q (unat (cq_head q)) (unat (cq_size q))"

text \<open>The index one past the last element; it may grow until it reaches \<open>2 ^ 64 - 1\<close>.\<close>

definition last_idx :: "'a circular_queue \<Rightarrow> nat" where
  "last_idx q = unat (cq_head q) + unat (cq_size q)"

definition cq_ok :: "'a circular_queue \<Rightarrow> bool" where
  "cq_ok q \<longleftrightarrow> 0 < cq_capacity q \<and> length (cq_data q) = unat (cq_capacity q) \<and>
     cq_size q \<le> cq_capacity q \<and> last_idx q < 2 ^ 64"

lemma length_contents [simp]: "length (contents q) = unat (cq_size q)"
  by (simp add: contents_def window_def)

lemma nth_contents:
  "i < unat (cq_size q) \<Longrightarrow>
   contents q ! i = cq_data q ! ((unat (cq_head q) + i) mod unat (cq_capacity q))"
  by (simp add: contents_def window_def)

lemma unat_plus_ok: "unat a + unat b < 2 ^ 64 \<Longrightarrow> unat (a + b :: 64 word) = unat a + unat b"
  by (simp add: unat_word_ariths)

lemma unat_minus_ok: "b \<le> a \<Longrightarrow> unat (a - b :: 64 word) = unat a - unat b"
  by (simp add: unat_sub word_le_nat_alt)

lemma unat_Suc_ok: "unat a + 1 < 2 ^ 64 \<Longrightarrow> unat (a + 1 :: 64 word) = unat a + 1"
  using unat_plus_ok [of a 1] by simp

text \<open>Within the window of valid indices no two share a slot.\<close>

lemma mod_window_inj:
  fixes c :: nat
  assumes "a \<le> i" "i < a + c" "a \<le> j" "j < a + c" "i mod c = j mod c"
  shows "i = j"
proof -
  have "m = n" if "m \<le> n" "n < m + c" "m mod c = n mod c" for m n :: nat
    using that mod_eq_dvd_iff_nat [of m n c] by (auto dest: dvd_imp_le)
  from this [of i j] this [of j i] assms show ?thesis by (cases "i \<le> j") auto
qed

lemma nth_window: "k < n \<Longrightarrow> window q i n ! k = cq_data q ! ((i + k) mod unat (cq_capacity q))"
  by (simp add: window_def)

lemma length_window [simp]: "length (window q i n) = n"
  by (simp add: window_def)

text \<open>Writing the slot at the end of a window that fits keeps the rest of the window.\<close>

lemma window_write:
  assumes "Suc n \<le> unat (cq_capacity q)" "length (cq_data q) = unat (cq_capacity q)"
  shows "window (q\<lparr>cq_data := (cq_data q)[(i + n) mod unat (cq_capacity q) := v]\<rparr>) i (Suc n) = window q i n @ [v]"
proof (rule nth_equalityI)
  fix k
  assume k: "k < length (window (q\<lparr>cq_data := (cq_data q)[(i + n) mod unat (cq_capacity q) := v]\<rparr>) i (Suc n))"
  let ?c = "unat (cq_capacity q)"
  have "(i + k) mod ?c \<noteq> (i + n) mod ?c" if "k < n"
    using mod_window_inj [of i "i + k" ?c "i + n"] that assms(1) by auto
  then show "window (q\<lparr>cq_data := (cq_data q)[(i + n) mod ?c := v]\<rparr>) i (Suc n) ! k = (window q i n @ [v]) ! k"
    using k assms by (cases "k = n") (auto simp: nth_window nth_append)
qed simp

section \<open>The operations on the contents\<close>

definition push_bounded :: "nat \<Rightarrow> 'a \<Rightarrow> 'a list \<Rightarrow> 'a list" where
  "push_bounded c v xs = (if length xs = c then tl xs @ [v] else xs @ [v])"

lemma push_back_ok:
  assumes ok: "cq_ok q" and room: "Suc (last_idx q) < 2 ^ 64"
  shows "\<exists>q'. CircularQueue_push_back v q = Inr q' \<and> cq_ok q' \<and> cq_capacity q' = cq_capacity q \<and>
     last_idx q' = Suc (last_idx q) \<and> contents q' = push_bounded (unat (cq_capacity q)) v (contents q)"
proof -
  let ?c = "unat (cq_capacity q)" and ?h = "unat (cq_head q)" and ?s = "unat (cq_size q)"
  have c: "0 < ?c" "length (cq_data q) = ?c" "?s \<le> ?c" "?h + ?s + 1 < 2 ^ 64" "cq_capacity q \<noteq> 0"
    using ok room by (auto simp: cq_ok_def last_idx_def word_le_nat_alt unat_gt_0)
  define q1 where "q1 = CircularQueue_advance_tail q"
  have size: "unat (cq_size q1) = min (Suc ?s) ?c" and head: "unat (cq_head q1) = (if ?s = ?c then Suc ?h else ?h)"
    using c unat_Suc_ok [of "cq_size q"] unat_Suc_ok [of "cq_head q"]
    by (auto simp: q1_def CircularQueue_advance_tail_def CircularQueue_full_def word_unat_eq_iff)
  have same: "cq_data q1 = cq_data q" "cq_capacity q1 = cq_capacity q"
    by (simp_all add: q1_def CircularQueue_advance_tail_def)
  have ends: "unat (cq_head q1) + unat (cq_size q1) = Suc (?h + ?s)" using c size head by auto
  then have tail: "unat (CircularQueue_tail q1) = ?h + ?s"
    using c unat_plus_ok [of "cq_head q1" "cq_size q1"] unat_minus_ok [of 1 "cq_head q1 + cq_size q1"]
    by (simp add: CircularQueue_tail_def word_le_nat_alt)
  let ?q' = "q1\<lparr>cq_data := (cq_data q)[(?h + ?s) mod ?c := v]\<rparr>"
  have push: "CircularQueue_push_back v q = Inr ?q'"
    using c by (simp add: CircularQueue_push_back_def Let_def CircularQueue_assign_def CircularQueue_slot_def
        flip: q1_def) (simp add: same tail nat_uint_eq)
  have "contents ?q' = window q1 (unat (cq_head q1)) (min ?s (?c - 1)) @ [v]"
  proof (cases "?s = ?c")
    case True
    then have "Suc ?h + (?c - 1) = ?h + ?s" "Suc (?c - 1) = ?c" using c by auto
    then show ?thesis
      using window_write [of "?c - 1" q1 "Suc ?h" v] c size head same True by (simp add: contents_def window_def)
  next
    case False
    then show ?thesis
      using window_write [of ?s q1 ?h v] c size head same by (simp add: contents_def window_def)
  qed
  also have "window q1 (unat (cq_head q1)) (min ?s (?c - 1)) =
      (if ?s = ?c then tl (contents q) else contents q)"
    using c head by (auto simp: contents_def window_def same map_tl [symmetric])
  finally have "contents ?q' = push_bounded ?c v (contents q)" by (simp add: push_bounded_def)
  moreover have "cq_ok ?q'" "last_idx ?q' = Suc (last_idx q)"
    using c size ends same by (auto simp: cq_ok_def last_idx_def word_le_nat_alt word_less_nat_alt)
  ultimately show ?thesis using push same by auto
qed

lemma pop_front_ok:
  assumes ok: "cq_ok q"
  shows "(case CircularQueue_pop_front n q of
       Inl e \<Rightarrow> e = AssertFail ''num_elem <= size()'' \<and> length (contents q) < unat n
     | Inr q' \<Rightarrow> unat n \<le> length (contents q) \<and> cq_ok q' \<and> cq_capacity q' = cq_capacity q \<and>
         last_idx q' = last_idx q \<and> contents q' = drop (unat n) (contents q))"
proof (cases "n \<le> cq_size q")
  case True
  let ?q' = "q\<lparr>cq_head := cq_head q + n, cq_size := cq_size q - n\<rparr>"
  have n: "unat n \<le> unat (cq_size q)" using True by (simp add: word_le_nat_alt)
  have b: "unat (cq_head q) + unat (cq_size q) < 2 ^ 64" "unat (cq_size q) \<le> unat (cq_capacity q)"
    using ok by (auto simp: cq_ok_def last_idx_def word_le_nat_alt)
  have h: "unat (cq_head q + n) = unat (cq_head q) + unat n" "unat (cq_size q - n) = unat (cq_size q) - unat n"
    using n b True by (simp_all add: unat_plus_ok unat_minus_ok)
  have "contents ?q' = drop (unat n) (contents q)"
    using n h by (auto simp: contents_def window_def drop_map intro!: map_cong)
  moreover have "cq_ok ?q'" "last_idx ?q' = last_idx q"
    using ok n h b by (auto simp: cq_ok_def last_idx_def word_le_nat_alt)
  ultimately show ?thesis using True n by (simp add: CircularQueue_pop_front_def)
next
  case False
  then show ?thesis by (simp add: CircularQueue_pop_front_def word_le_nat_alt)
qed

lemma pop_back_ok:
  assumes ok: "cq_ok q"
  shows "(case CircularQueue_pop_back q of
       Inl e \<Rightarrow> e = AssertFail ''!empty()'' \<and> contents q = []
     | Inr q' \<Rightarrow> contents q \<noteq> [] \<and> cq_ok q' \<and> cq_capacity q' = cq_capacity q \<and>
         last_idx q' \<le> last_idx q \<and> contents q' = butlast (contents q))"
proof (cases "cq_size q = 0")
  case True
  then show ?thesis
    by (simp add: CircularQueue_pop_back_def CircularQueue_empty_def contents_def window_def)
next
  case False
  then have s: "unat (cq_size q - 1) = unat (cq_size q) - 1" "0 < unat (cq_size q)"
    by (simp_all add: unat_minus_one unat_gt_0)
  then have "contents (q\<lparr>cq_size := cq_size q - 1\<rparr>) = butlast (contents q)"
    by (simp add: contents_def window_def butlast_conv_take take_map)
  moreover have "cq_ok (q\<lparr>cq_size := cq_size q - 1\<rparr>)"
    using ok s by (auto simp: cq_ok_def last_idx_def word_le_nat_alt)
  moreover have "contents q \<noteq> []" using s(2) by (metis length_contents list.size(3) less_irrefl)
  ultimately show ?thesis
    using False s by (simp add: CircularQueue_pop_back_def CircularQueue_empty_def last_idx_def)
qed

lemma unat_of_nat_Suc_64: "Suc n < 2 ^ 64 \<Longrightarrow> unat (1 + of_nat n :: 64 word) = Suc n"
  using unat_of_nat_64 [of "Suc n"] by (simp only: of_nat_Suc)

text \<open>\<open>advance_tail(len)\<close> is \<open>advance_tail()\<close> repeated.\<close>

lemma advance_tail_by_Suc:
  assumes "cq_size q \<le> cq_capacity q" "Suc n < 2 ^ 64"
  shows "CircularQueue_advance_tail_by (of_nat (Suc n)) q =
         CircularQueue_advance_tail (CircularQueue_advance_tail_by (of_nat n) q)"
proof -
  let ?r = "cq_capacity q - cq_size q"
  have n: "unat (of_nat n :: 64 word) = n" "unat (1 + of_nat n :: 64 word) = Suc n"
    using assms(2) by (simp_all add: unat_of_nat_64 unat_of_nat_Suc_64)
  have full: "cq_size q + of_nat n = cq_capacity q \<longleftrightarrow> of_nat n = ?r" by (auto simp: algebra_simps)
  consider "n < unat ?r" | "n = unat ?r" | "unat ?r < n" by linarith
  then show ?thesis
  proof cases
    case 1
    then show ?thesis
      using n full
      by (auto simp: CircularQueue_advance_tail_by_def CircularQueue_advance_tail_def CircularQueue_full_def
          Let_def word_less_nat_alt word_unat_eq_iff algebra_simps)
  next
    case 2
    then have "of_nat n = ?r" by simp
    then show ?thesis
      using n 2 full
      by (auto simp: CircularQueue_advance_tail_by_def CircularQueue_advance_tail_def CircularQueue_full_def
          Let_def word_less_nat_alt algebra_simps)
  next
    case 3
    then show ?thesis
      using n
      by (auto simp: CircularQueue_advance_tail_by_def CircularQueue_advance_tail_def CircularQueue_full_def
          Let_def word_less_nat_alt algebra_simps)
  qed
qed

lemma advance_tail_by_repeats:
  assumes "cq_size q \<le> cq_capacity q"
  shows "CircularQueue_advance_tail_by len q = (CircularQueue_advance_tail ^^ unat len) q"
proof -
  have "n < 2 ^ 64 \<Longrightarrow> CircularQueue_advance_tail_by (of_nat n) q = (CircularQueue_advance_tail ^^ n) q" for n
  proof (induction n)
    case 0
    then show ?case by (simp add: CircularQueue_advance_tail_by_def Let_def)
  next
    case (Suc n)
    then show ?case using advance_tail_by_Suc [OF assms, of n] by simp
  qed
  from this [of "unat len"] show ?thesis using unsigned_less [of len, where 'a = nat] by simp
qed

section \<open>The bounded queue\<close>

datatype 'a cq_op = PushBack 'a | PopFront "64 word" | PopBack | Flush

fun cq_do :: "'a cq_op \<Rightarrow> 'a circular_queue \<Rightarrow> 'a circular_queue result" where
  "cq_do (PushBack v) q = CircularQueue_push_back v q"
| "cq_do (PopFront n) q = CircularQueue_pop_front n q"
| "cq_do PopBack q = CircularQueue_pop_back q"
| "cq_do Flush q = Inr (CircularQueue_flush q)"

text \<open>The abstract queue: a list of at most \<open>c\<close> elements, oldest first.\<close>

fun bounded_do :: "nat \<Rightarrow> 'a cq_op \<Rightarrow> 'a list \<Rightarrow> 'a list result" where
  "bounded_do c (PushBack v) xs = Inr (push_bounded c v xs)"
| "bounded_do c (PopFront n) xs =
     assert_that (unat n \<le> length xs) ''num_elem <= size()'' (Inr (drop (unat n) xs))"
| "bounded_do c PopBack xs = assert_that (xs \<noteq> []) ''!empty()'' (Inr (butlast xs))"
| "bounded_do c Flush xs = Inr []"

fun run_ops :: "('o \<Rightarrow> 'q \<Rightarrow> 'q result) \<Rightarrow> 'o list \<Rightarrow> 'q \<Rightarrow> 'q result" where
  "run_ops f [] q = Inr q"
| "run_ops f (x # xs) q = rbind (f x q) (run_ops f xs)"

locale bounded_queue =
  fixes exec :: "'o \<Rightarrow> 'q \<Rightarrow> 'q result"
    and spec :: "nat \<Rightarrow> 'o \<Rightarrow> 'a list \<Rightarrow> 'a list result"
    and abs :: "'q \<Rightarrow> 'a list"
    and cap :: "'q \<Rightarrow> nat"
    and used :: "'q \<Rightarrow> nat"
    and ok :: "'q \<Rightarrow> bool"
  assumes step: "ok q \<Longrightarrow> Suc (used q) < 2 ^ 64 \<Longrightarrow>
     (case exec x q of
        Inl e \<Rightarrow> spec (cap q) x (abs q) = Inl e
      | Inr q' \<Rightarrow> spec (cap q) x (abs q) = Inr (abs q') \<and> ok q' \<and> cap q' = cap q \<and> used q' \<le> Suc (used q))"
begin

lemma run_refines:
  assumes "ok q" "used q + length xs < 2 ^ 64"
  shows "(case run_ops exec xs q of
        Inl e \<Rightarrow> run_ops (spec (cap q)) xs (abs q) = Inl e
      | Inr q' \<Rightarrow> run_ops (spec (cap q)) xs (abs q) = Inr (abs q') \<and> ok q')"
  using assms
proof (induction xs arbitrary: q)
  case (Cons x xs)
  show ?case
  proof (cases "exec x q")
    case (Inl e)
    then show ?thesis using step [of q x] Cons.prems by simp
  next
    case (Inr q')
    then have "spec (cap q) x (abs q) = Inr (abs q')" "ok q'" "cap q' = cap q" "used q' \<le> Suc (used q)"
      using step [of q x] Cons.prems by auto
    then show ?thesis using Inr Cons.IH [of q'] Cons.prems by (auto split: sum.splits)
  qed
qed simp

end

interpretation cq: bounded_queue cq_do bounded_do contents "\<lambda>q. unat (cq_capacity q)" last_idx cq_ok
proof
  fix q :: "'a circular_queue" and x :: "'a cq_op"
  assume q: "cq_ok q" "Suc (last_idx q) < 2 ^ 64"
  show "case cq_do x q of
        Inl e \<Rightarrow> bounded_do (unat (cq_capacity q)) x (contents q) = Inl e
      | Inr q' \<Rightarrow> bounded_do (unat (cq_capacity q)) x (contents q) = Inr (contents q') \<and> cq_ok q' \<and>
          unat (cq_capacity q') = unat (cq_capacity q) \<and> last_idx q' \<le> Suc (last_idx q)"
  proof (cases x)
    case (PushBack v)
    then show ?thesis using push_back_ok [OF q, of v] by auto
  next
    case (PopFront n)
    then show ?thesis using pop_front_ok [OF q(1), of n] by (auto split: sum.splits)
  next
    case PopBack
    then show ?thesis using pop_back_ok [OF q(1)] by (auto split: sum.splits)
  next
    case Flush
    then show ?thesis
      using q(1) by (auto simp: CircularQueue_flush_def contents_def window_def cq_ok_def last_idx_def)
  qed
qed

lemma new_ok:
  assumes "0 < n"
  shows "cq_ok (CircularQueue_new d n)" "contents (CircularQueue_new d n) = []"
    "last_idx (CircularQueue_new d n) = 1" "cq_capacity (CircularQueue_new d n) = n"
  using assms by (auto simp: cq_ok_def CircularQueue_new_def contents_def window_def last_idx_def)

text \<open>The loop from \<open>begin()\<close> to \<open>end()\<close> visits the contents in order and ends.\<close>

lemma iterate_window:
  assumes "cq_ok q" "unat i + n < 2 ^ 64"
  shows "iterate (\<lambda>_. q) \<lparr>it_cq = Some p, it_idx = i\<rparr> \<lparr>it_cq = Some p, it_idx = i + of_nat n\<rparr> acc =
    Some (Inr (acc @ window q (unat i) n))"
  using assms(2)
proof (induction n arbitrary: i acc)
  case 0
  then show ?case by (subst iterate.simps) (simp add: window_def)
next
  case (Suc n)
  have i: "unat (i + 1) = Suc (unat i)" using Suc.prems unat_Suc_ok [of i] by simp
  have ne: "(1 + of_nat n :: 64 word) \<noteq> 0"
    using Suc.prems unat_of_nat_Suc_64 [of n] by auto
  have "window q (unat i) (Suc n) = cq_data q ! (unat i mod unat (cq_capacity q)) # window q (Suc (unat i)) n"
    by (simp add: window_def upt_conv_Cons del: upt_Suc)
  moreover have "iterate (\<lambda>_. q) \<lparr>it_cq = Some p, it_idx = i\<rparr> \<lparr>it_cq = Some p, it_idx = i + of_nat (Suc n)\<rparr> acc =
      iterate (\<lambda>_. q) \<lparr>it_cq = Some p, it_idx = i + 1\<rparr> \<lparr>it_cq = Some p, it_idx = i + 1 + of_nat n\<rparr>
        (acc @ [cq_data q ! (unat i mod unat (cq_capacity q))])"
    using ne assms(1)
    by (subst iterate.simps)
       (auto simp: iterator_deref_def CircularQueue_at_def CircularQueue_slot_def iterator_inc_def cq_ok_def
         nat_uint_eq add.assoc)
  ultimately show ?case
    using Suc.IH [of "i + 1"] Suc.prems i by simp
qed

lemma iterate_contents:
  assumes "cq_ok q"
  shows "iterate (\<lambda>_. q) (CircularQueue_begin p q) (CircularQueue_end p q) [] = Some (Inr (contents q))"
  using iterate_window [OF assms, of "cq_head q" "unat (cq_size q)" p "[]"] assms
  by (simp add: CircularQueue_begin_def CircularQueue_end_def CircularQueue_tail_def contents_def cq_ok_def last_idx_def)

section \<open>Properties\<close>

text \<open>C25: a circular queue is a bounded list. From a new queue of non-zero capacity, any sequence
  of pushes at the back, pops at either end and flushes, fewer than \<open>2 ^ 64 - 1\<close> in number, fails on
  the same assertion as the bounded list does, or leaves exactly its elements, oldest first, where a
  push to a full queue has dropped the oldest; and the loop from \<open>begin()\<close> to \<open>end()\<close> ends and visits
  just these elements in order.\<close>

theorem circular_queue_refines:
  assumes "0 < n" "Suc (length ops) < 2 ^ 64"
  shows "(case run_ops cq_do ops (CircularQueue_new d n) of
       Inl e \<Rightarrow> run_ops (bounded_do (unat n)) ops [] = Inl e
     | Inr q \<Rightarrow> run_ops (bounded_do (unat n)) ops [] = Inr (contents q) \<and>
         iterate (\<lambda>_. q) (CircularQueue_begin p q) (CircularQueue_end p q) [] = Some (Inr (contents q)))"
  using cq.run_refines [OF new_ok(1) [OF assms(1)], of d ops] assms new_ok [OF assms(1), of d]
  by (auto simp: iterate_contents split: sum.splits)

lemma circular_queue_refines_witness:
  "case run_ops cq_do [PushBack 1, PushBack 2, PushBack 3, PopFront 1] (CircularQueue_new (0 :: nat) 2) of
     Inl e \<Rightarrow> False
   | Inr q \<Rightarrow> contents q = [3] \<and>
       iterate (\<lambda>_. q) (CircularQueue_begin 0 q) (CircularQueue_end 0 q) [] = Some (Inr [3])"
  using circular_queue_refines [of 2 "[PushBack (1 :: nat), PushBack 2, PushBack 3, PopFront 1]" 0 0]
  by (auto simp: push_bounded_def split: sum.splits)

end
