(* ===== verification/Sat_Counter.thy ===== *)
theory Sat_Counter
  imports Gem5_Prelude
begin

text \<open>
  Saturating counters, \<open>base/sat_counter.hh\<close>. The storage type \<open>T\<close> of the template is a word type,
  so that the truncating shift and the additions act at the width of the counter's storage.
\<close>

record (overloaded) 'w sat_counter =
  initialVal :: "'w::len word"
  maxVal :: "'w::len word"
  counter :: "'w::len word"

type_synonym SatCounter8 = "8 sat_counter"
type_synonym SatCounter64 = "64 sat_counter"

definition SatCounter_new :: "nat \<Rightarrow> 'w::len word \<Rightarrow> 'w sat_counter result" where
  "SatCounter_new bits initial_val =
     (if bits \<ge> 64 then Inl (Undefined ''shift count'')
      else
        let mx = ucast (push_bit bits (1 :: 64 word) - 1) in
        fatal_if (bits > LENGTH('w)) ''Number of bits exceeds counter size''
          (fatal_if (initial_val > mx) ''Saturating counter's initial value exceeds max value.''
             (Inr \<lparr>initialVal = initial_val, maxVal = mx, counter = initial_val\<rparr>)))"

definition SatCounter_inc :: "'w::len sat_counter \<Rightarrow> 'w sat_counter" where
  "SatCounter_inc c = (if counter c < maxVal c then c\<lparr>counter := counter c + 1\<rparr> else c)"

definition SatCounter_dec :: "'w::len sat_counter \<Rightarrow> 'w sat_counter" where
  "SatCounter_dec c = (if counter c > 0 then c\<lparr>counter := counter c - 1\<rparr> else c)"

definition SatCounter_shr :: "'w::len sat_counter \<Rightarrow> int \<Rightarrow> 'w sat_counter result" where
  "SatCounter_shr c shift =
     assert_that (shift \<ge> 0) ''shift >= 0'' (Inr (c\<lparr>counter := drop_bit (nat shift) (counter c)\<rparr>))"

text \<open>The shifted value is stored back in \<open>T\<close> before it is compared with the maximum.\<close>

definition SatCounter_shl :: "'w::len sat_counter \<Rightarrow> int \<Rightarrow> 'w sat_counter result" where
  "SatCounter_shl c shift =
     assert_that (shift \<ge> 0) ''shift >= 0''
       (let v = push_bit (nat shift) (counter c)
        in Inr (c\<lparr>counter := (if v > maxVal c then maxVal c else v)\<rparr>))"

definition SatCounter_add_nonneg :: "'w::len sat_counter \<Rightarrow> int \<Rightarrow> 'w sat_counter" where
  "SatCounter_add_nonneg c value =
     c\<lparr>counter := (if uint (maxVal c - counter c) \<ge> value then counter c + word_of_int value else maxVal c)\<rparr>"

definition SatCounter_sub_nonneg :: "'w::len sat_counter \<Rightarrow> int \<Rightarrow> 'w sat_counter" where
  "SatCounter_sub_nonneg c value =
     c\<lparr>counter := (if uint (counter c) > value then counter c - word_of_int value else 0)\<rparr>"

text \<open>
  \<open>value\<close> is a \<open>long long\<close>; each operator hands negative arguments to the other one. The negation
  of the smallest \<open>long long\<close> overflows.
\<close>

definition SatCounter_add :: "'w::len sat_counter \<Rightarrow> int \<Rightarrow> 'w sat_counter result" where
  "SatCounter_add c value =
     (if value \<ge> 0 then Inr (SatCounter_add_nonneg c value)
      else if value = - (2 ^ 63) then Inl (Undefined ''signed overflow'')
      else Inr (SatCounter_sub_nonneg c (- value)))"

definition SatCounter_sub :: "'w::len sat_counter \<Rightarrow> int \<Rightarrow> 'w sat_counter result" where
  "SatCounter_sub c value =
     (if value \<ge> 0 then Inr (SatCounter_sub_nonneg c value)
      else if value = - (2 ^ 63) then Inl (Undefined ''signed overflow'')
      else Inr (SatCounter_add_nonneg c (- value)))"

definition SatCounter_reset :: "'w::len sat_counter \<Rightarrow> 'w sat_counter" where
  "SatCounter_reset c = c\<lparr>counter := initialVal c\<rparr>"

definition SatCounter_saturate :: "'w::len sat_counter \<Rightarrow> 'w sat_counter \<times> 'w word" where
  "SatCounter_saturate c = (let diff = maxVal c - counter c in (c\<lparr>counter := maxVal c\<rparr>, diff))"

section \<open>Invariant and abstract view\<close>

definition sat_ok :: "'w::len sat_counter \<Rightarrow> bool" where
  "sat_ok c \<longleftrightarrow> initialVal c \<le> maxVal c \<and> counter c \<le> maxVal c"

definition clamp :: "'w::len sat_counter \<Rightarrow> int \<Rightarrow> int" where
  "clamp c v = max 0 (min (uint (maxVal c)) v)"

text \<open>Every field but \<open>counter\<close> is fixed for the life of a counter.\<close>

definition same_limits :: "'w::len sat_counter \<Rightarrow> 'w sat_counter \<Rightarrow> bool" where
  "same_limits c d \<longleftrightarrow> initialVal d = initialVal c \<and> maxVal d = maxVal c"

lemma uint_diff_le: "x \<le> y \<Longrightarrow> uint (y - x) = uint y - uint (x :: 'w::len word)"
  by (simp add: uint_minus_simple_alt word_le_def)

lemma sat_ok_uint: "sat_ok c \<Longrightarrow> uint (counter c) \<le> uint (maxVal c)"
  by (simp add: sat_ok_def word_le_def)

lemma mod_width: "0 \<le> v \<Longrightarrow> v \<le> uint (m :: 'w::len word) \<Longrightarrow> v mod 2 ^ LENGTH('w) = v"
  by (rule mod_pos_pos_trivial) (auto intro: le_less_trans [OF _ uint_lt2p])

lemma uint_word_add_small:
  "0 \<le> v \<Longrightarrow> uint x + v \<le> uint (m :: 'w::len word) \<Longrightarrow> uint (x + word_of_int v :: 'w word) = uint x + v"
  using mod_width [of "uint x + v" m] uint_ge_0 [of x]
  by (simp add: uint_word_ariths uint_word_of_int mod_add_right_eq)

lemma add_nonneg_clamp:
  assumes "sat_ok c" "0 \<le> v"
  shows "uint (counter (SatCounter_add_nonneg c v)) = clamp c (uint (counter c) + v)"
  using assms uint_word_add_small [of v "counter c" "maxVal c"] uint_ge_0 [of "counter c"] uint_ge_0 [of "maxVal c"]
  by (auto simp: SatCounter_add_nonneg_def clamp_def sat_ok_def uint_diff_le word_le_def)

lemma sub_nonneg_clamp:
  assumes "sat_ok c" "0 \<le> v"
  shows "uint (counter (SatCounter_sub_nonneg c v)) = clamp c (uint (counter c) - v)"
proof (cases "v < uint (counter c)")
  case True
  then have "word_of_int v \<le> counter c" "uint (word_of_int v :: 'a word) = v"
    using assms(2) mod_width [of v "counter c"] by (auto simp: word_le_def uint_word_of_int)
  then show ?thesis
    using True assms sat_ok_uint [OF assms(1)] by (simp add: SatCounter_sub_nonneg_def clamp_def uint_diff_le)
next
  case False
  then show ?thesis
    by (simp add: SatCounter_sub_nonneg_def clamp_def)
qed

lemma clamp_sat_ok:
  assumes "sat_ok c" "same_limits c d" "uint (counter d) = clamp c v"
  shows "sat_ok d"
  using assms uint_ge_0 [of "maxVal c"] by (auto simp: sat_ok_def same_limits_def clamp_def word_le_def)

lemma same_limits_ops [simp]:
  "same_limits c (SatCounter_inc c)" "same_limits c (SatCounter_dec c)"
  "same_limits c (SatCounter_add_nonneg c v)" "same_limits c (SatCounter_sub_nonneg c v)"
  "same_limits c (SatCounter_reset c)" "same_limits c (fst (SatCounter_saturate c))"
  by (simp_all add: same_limits_def SatCounter_inc_def SatCounter_dec_def SatCounter_add_nonneg_def
      SatCounter_sub_nonneg_def SatCounter_reset_def SatCounter_saturate_def Let_def)

lemma inc_clamp: "sat_ok c \<Longrightarrow> uint (counter (SatCounter_inc c)) = clamp c (uint (counter c) + 1)"
  using uint_word_add_small [of 1 "counter c" "maxVal c"] uint_ge_0 [of "counter c"]
  by (auto simp: SatCounter_inc_def clamp_def sat_ok_def word_less_def word_le_def)

lemma dec_clamp: "sat_ok c \<Longrightarrow> uint (counter (SatCounter_dec c)) = clamp c (uint (counter c) - 1)"
proof (cases "counter c = 0")
  case False
  assume "sat_ok c"
  have "1 \<le> uint (counter c)"
    using False by (metis uint_0_iff uint_ge_0 zero_less_imp_eq_int int_one_le_iff_zero_less order_le_less)
  then show ?thesis
    using False \<open>sat_ok c\<close> uint_diff_le [of 1 "counter c"] sat_ok_uint [of c]
    by (auto simp: SatCounter_dec_def clamp_def word_gt_0 word_le_def)
qed (simp add: SatCounter_dec_def clamp_def)

lemma new_sat_ok: "SatCounter_new bits v = Inr c \<Longrightarrow> sat_ok c \<and> counter c = v"
  by (auto simp: SatCounter_new_def sat_ok_def Let_def result_eq_Inr not_less split: if_splits)

lemma saturate_sat_ok: "sat_ok c \<Longrightarrow> sat_ok (fst (SatCounter_saturate c))"
  by (simp add: sat_ok_def SatCounter_saturate_def Let_def)

text \<open>C33: additions and subtractions of any \<open>long long\<close> but the smallest act as the integer operation
  clamped to the range from 0 to the maximum, and the counter stays in that range.\<close>

theorem sat_counter_clamps:
  assumes "sat_ok c" "- (2 ^ 63) < v" "v < 2 ^ 63"
  shows "\<exists>d e. SatCounter_add c v = Inr d \<and> SatCounter_sub c v = Inr e \<and>
    uint (counter d) = clamp c (uint (counter c) + v) \<and>
    uint (counter e) = clamp c (uint (counter c) - v) \<and> sat_ok d \<and> sat_ok e"
proof (cases "0 \<le> v")
  case True
  then show ?thesis
    using assms(1) add_nonneg_clamp [of c v] sub_nonneg_clamp [of c v]
    by (auto simp: SatCounter_add_def SatCounter_sub_def intro: clamp_sat_ok)
next
  case False
  then show ?thesis
    using assms add_nonneg_clamp [of c "- v"] sub_nonneg_clamp [of c "- v"]
    by (auto simp: SatCounter_add_def SatCounter_sub_def intro: clamp_sat_ok)
qed

theorem sat_counter_clamps_witness:
  "let c = \<lparr>initialVal = 0, maxVal = 7, counter = 5 :: 8 word\<rparr> in
   \<exists>d e. SatCounter_add c (- 6) = Inr d \<and> SatCounter_sub c (- 6) = Inr e \<and>
    uint (counter d) = clamp c (uint (counter c) + - 6) \<and>
    uint (counter e) = clamp c (uint (counter c) - - 6) \<and> sat_ok d \<and> sat_ok e"
  unfolding Let_def by (rule sat_counter_clamps) (simp_all add: sat_ok_def)

text \<open>\<open>operator<<=\<close> keeps the counter within its maximum, but the shift truncates to the storage
  type before the comparison: the result is the clamped product only while the product fits the
  storage type, and a saturated 8-bit counter shifted by 8 becomes 0.\<close>

theorem sat_counter_shl_truncates:
  fixes c :: "'w::len sat_counter"
  assumes "sat_ok c" "0 \<le> n"
  shows "(\<exists>d. SatCounter_shl c n = Inr d \<and> sat_ok d \<and>
      (uint (counter c) * 2 ^ nat n < 2 ^ LENGTH('w) \<longrightarrow>
         uint (counter d) = clamp c (uint (counter c) * 2 ^ nat n))) \<and>
    SatCounter_shl \<lparr>initialVal = 0, maxVal = 255, counter = 255 :: 8 word\<rparr> 8
      = Inr \<lparr>initialVal = 0, maxVal = 255, counter = 0\<rparr>"
proof -
  define v where "v = push_bit (nat n) (counter c)"
  have "uint v = uint (counter c) * 2 ^ nat n" if "uint (counter c) * 2 ^ nat n < 2 ^ LENGTH('w)"
  proof -
    have "uint v = take_bit LENGTH('w) (push_bit (nat n) (uint (counter c)))"
      unfolding v_def by (rule unsigned_push_bit_eq)
    then show ?thesis
      using that by (simp add: push_bit_eq_mult take_bit_int_eq_self)
  qed
  then show ?thesis
    using assms uint_ge_0 [of v]
    by (auto simp: SatCounter_shl_def Let_def sat_ok_def clamp_def word_less_def word_le_def v_def [symmetric])
qed

end
