(* ===== verification/Bloom_Filter_Correct.thy ===== *)
theory Bloom_Filter_Correct
  imports Bloom_Filter
begin

text \<open>
  A Bloom filter has no false negatives: every address that was set, in this filter or in one
  merged into it, is reported as set. The argument is made once for any family of hash functions,
  in a locale interpreted on each of the filter classes.
\<close>

section \<open>Counters\<close>

abbreviation cnt :: "SatCounter8 \<Rightarrow> int" where
  "cnt c \<equiv> uint (counter c)"

definition good :: "SatCounter8 \<Rightarrow> bool" where
  "good c \<longleftrightarrow> sat_ok c \<and> initialVal c = 0 \<and> 1 \<le> maxVal c"

lemma good_max: "good c \<Longrightarrow> 1 \<le> uint (maxVal c)"
  by (simp add: good_def word_le_def)

lemma good_limits: "good c \<Longrightarrow> same_limits c d \<Longrightarrow> sat_ok d \<Longrightarrow> good d"
  by (simp add: good_def same_limits_def)

lemma good_inc: "good c \<Longrightarrow> good (SatCounter_inc c) \<and> maxVal (SatCounter_inc c) = maxVal c \<and>
    cnt c \<le> cnt (SatCounter_inc c) \<and> 1 \<le> cnt (SatCounter_inc c)"
  using good_max [of c] sat_ok_uint [of c] inc_clamp [of c]
    clamp_sat_ok [of c "SatCounter_inc c" "cnt c + 1"] good_limits [of c "SatCounter_inc c"]
  by (auto simp: good_def clamp_def same_limits_def SatCounter_inc_def)

lemma good_add: "good c \<Longrightarrow> good (SatCounter_add_nonneg c (cnt d)) \<and>
    maxVal (SatCounter_add_nonneg c (cnt d)) = maxVal c \<and> cnt c \<le> cnt (SatCounter_add_nonneg c (cnt d)) \<and>
    (maxVal d = maxVal c \<longrightarrow> sat_ok d \<longrightarrow> cnt d \<le> cnt (SatCounter_add_nonneg c (cnt d)))"
  using good_max [of c] sat_ok_uint [of c] sat_ok_uint [of d] add_nonneg_clamp [of c "cnt d"]
    clamp_sat_ok [of c "SatCounter_add_nonneg c (cnt d)" "cnt c + cnt d"]
    good_limits [of c "SatCounter_add_nonneg c (cnt d)"]
  by (auto simp: good_def clamp_def same_limits_def SatCounter_add_nonneg_def)

section \<open>Filters as vectors of counters\<close>

text \<open>Filters that hash alike: everything but the counters agrees.\<close>

definition same_shape :: "bloom_base \<Rightarrow> bloom_base \<Rightarrow> bool" where
  "same_shape b b' \<longleftrightarrow> bl_offsetBits b' = bl_offsetBits b \<and> bl_sizeBits b' = bl_sizeBits b \<and>
     bl_setThreshold b' = bl_setThreshold b \<and> length (bl_filter b') = length (bl_filter b)"

definition base_ok :: "bloom_base \<Rightarrow> bool" where
  "base_ok b \<longleftrightarrow> bl_filter b \<noteq> [] \<and> list_all good (bl_filter b)"

text \<open>Later states of a filter: no counter has gone down.\<close>

definition grows :: "bloom_base \<Rightarrow> bloom_base \<Rightarrow> bool" where
  "grows b b' \<longleftrightarrow> same_shape b b' \<and> base_ok b' \<and>
     (\<forall>j < length (bl_filter b). cnt (bl_filter b ! j) \<le> cnt (bl_filter b' ! j) \<and>
        maxVal (bl_filter b' ! j) = maxVal (bl_filter b ! j))"

lemma same_shape_trans: "same_shape b c \<Longrightarrow> same_shape c d \<Longrightarrow> same_shape b d"
  by (simp add: same_shape_def)

lemma grows_refl: "base_ok b \<Longrightarrow> grows b b"
  by (simp add: grows_def same_shape_def)

lemma grows_trans:
  assumes "grows b c" "grows c d"
  shows "grows b d"
proof -
  have "cnt (bl_filter b ! j) \<le> cnt (bl_filter d ! j) \<and> maxVal (bl_filter d ! j) = maxVal (bl_filter b ! j)"
    if "j < length (bl_filter b)" for j
    using assms that order_trans [of "cnt (bl_filter b ! j)" "cnt (bl_filter c ! j)" "cnt (bl_filter d ! j)"]
    by (simp add: grows_def same_shape_def)
  then show ?thesis using assms by (simp add: grows_def same_shape_def)
qed

lemma base_ok_nth: "base_ok b \<Longrightarrow> j < length (bl_filter b) \<Longrightarrow> good (bl_filter b ! j)"
  by (simp add: base_ok_def list_all_length)

lemma bump_grows:
  assumes "base_ok b" "k < length (bl_filter b)"
  shows "\<exists>b'. bump SatCounter_inc k b = Inr b' \<and> grows b b' \<and> 1 \<le> cnt (bl_filter b' ! k)"
  using assms good_inc [OF base_ok_nth [OF assms]]
  by (auto simp: bump_def grows_def same_shape_def base_ok_def list_all_length nth_list_update)

locale hashed_filter =
  fixes hash :: "Addr \<Rightarrow> bloom_base \<Rightarrow> nat \<Rightarrow> nat result"
    and num :: nat
    and fits :: "bloom_base \<Rightarrow> bool"
  assumes fits_shape: "fits b \<Longrightarrow> same_shape b b' \<Longrightarrow> fits b'"
    and hash_defined: "fits b \<Longrightarrow> i < num \<Longrightarrow> \<exists>k < length (bl_filter b). hash a b i = Inr k"
    and hash_shape: "same_shape b b' \<Longrightarrow> hash a b' i = hash a b i"
begin

lemma set_hashes_grows:
  assumes "fits b" "base_ok b" "set is \<subseteq> {..<num}"
  shows "\<exists>b'. set_hashes (hash a) is b = Inr b' \<and> grows b b' \<and> fits b' \<and>
     (\<forall>i \<in> set is. \<exists>k < length (bl_filter b). hash a b i = Inr k \<and> 1 \<le> cnt (bl_filter b' ! k))"
  using assms
proof (induction "is" arbitrary: b)
  case Nil
  then show ?case by (simp add: grows_refl)
next
  case (Cons i "is")
  obtain k where k: "k < length (bl_filter b)" "hash a b i = Inr k"
    using hash_defined [of b i a] Cons.prems by auto
  obtain b1 where b1: "bump SatCounter_inc k b = Inr b1" "grows b b1" "1 \<le> cnt (bl_filter b1 ! k)"
    using bump_grows [OF Cons.prems(2) k(1)] by auto
  have shape: "same_shape b b1" "base_ok b1" using b1(2) by (auto simp: grows_def)
  obtain b2 where b2: "set_hashes (hash a) is b1 = Inr b2" "grows b1 b2" "fits b2"
     "\<forall>i \<in> set is. \<exists>k < length (bl_filter b1). hash a b1 i = Inr k \<and> 1 \<le> cnt (bl_filter b2 ! k)"
    using Cons.IH [of b1] fits_shape [OF Cons.prems(1) shape(1)] shape(2) Cons.prems(3) by auto
  have "1 \<le> cnt (bl_filter b2 ! k)"
    using b1(3) b2(2) k(1) shape(1) by (force simp: grows_def same_shape_def)
  moreover have "length (bl_filter b1) = length (bl_filter b)" using shape(1) by (simp add: same_shape_def)
  ultimately show ?case
    using k b1 b2 hash_shape [OF shape(1)] grows_trans [OF b1(2) b2(2)] by auto
qed

lemma count_hashes_eq:
  assumes "fits b" "set is \<subseteq> {..<num}"
  shows "count_hashes (hash a) is b c =
     Inr (c + (\<Sum>i\<leftarrow>is. cnt (bl_filter b ! projr (hash a b i))))"
  using assms(2)
proof (induction "is" arbitrary: c)
  case (Cons i "is")
  obtain k where "k < length (bl_filter b)" "hash a b i = Inr k"
    using hash_defined [OF assms(1), of i a] Cons.prems by auto
  then show ?case using Cons by (simp add: entry_at_def)
qed simp

lemma count_mono:
  assumes "fits b" "grows b b'"
  shows "\<exists>m n. count_hashes (hash a) [0..<num] b 0 = Inr m \<and> count_hashes (hash a) [0..<num] b' 0 = Inr n \<and> m \<le> n"
proof -
  have shape: "same_shape b b'" using assms(2) by (simp add: grows_def)
  have "cnt (bl_filter b ! projr (hash a b i)) \<le> cnt (bl_filter b' ! projr (hash a b' i))" if "i < num" for i
    using hash_defined [OF assms(1) that, of a] hash_shape [OF shape, of a i] assms(2) by (auto simp: grows_def)
  then have "(\<Sum>i\<leftarrow>[0..<num]. cnt (bl_filter b ! projr (hash a b i))) \<le>
      (\<Sum>i\<leftarrow>[0..<num]. cnt (bl_filter b' ! projr (hash a b' i)))"
    by (intro sum_list_mono) simp
  then show ?thesis
    using count_hashes_eq [OF assms(1), of "[0..<num]" a 0]
      count_hashes_eq [OF fits_shape [OF assms(1) shape], of "[0..<num]" a 0] by (simp add: subset_eq)
qed

lemma count_after_set:
  assumes "fits b" "base_ok b"
  shows "\<exists>b' n. set_hashes (hash a) [0..<num] b = Inr b' \<and> grows b b' \<and> fits b' \<and>
     count_hashes (hash a) [0..<num] b' 0 = Inr n \<and> int num \<le> n"
proof -
  obtain b' where b': "set_hashes (hash a) [0..<num] b = Inr b'" "grows b b'" "fits b'"
     "\<forall>i \<in> {..<num}. \<exists>k < length (bl_filter b). hash a b i = Inr k \<and> 1 \<le> cnt (bl_filter b' ! k)"
    using set_hashes_grows [OF assms, of "[0..<num]" a] by (auto simp: atLeast0LessThan)
  have "1 \<le> cnt (bl_filter b' ! projr (hash a b' i))" if "i < num" for i
    using b'(2) bspec [OF b'(4), of i] hash_shape [of b b' a i] that by (auto simp: grows_def)
  then have "(\<Sum>i\<leftarrow>[0..<num]. 1) \<le> (\<Sum>i\<leftarrow>[0..<num]. cnt (bl_filter b' ! projr (hash a b' i)))"
    by (intro sum_list_mono) simp
  then show ?thesis
    using b' count_hashes_eq [OF b'(3), of "[0..<num]" a 0] by (auto simp: sum_list_triv subset_eq)
qed

end

section \<open>The hash functions\<close>

definition Block_fits :: "nat list \<Rightarrow> nat list \<Rightarrow> bloom_base \<Rightarrow> bool" where
  "Block_fits lsbs szs b \<longleftrightarrow> 2 ^ bl_sizeBits b \<le> length (bl_filter b) \<and> bl_sizeBits b < 64 \<and>
     list_all (\<lambda>(lsb, sz). 0 < sz \<and> sz \<le> bl_sizeBits b \<and> bl_offsetBits b + lsb + sz \<le> 64) (zip lsbs szs)"

definition MultiBitSel_fits :: "multi_sel \<Rightarrow> bloom_base \<Rightarrow> bool" where
  "MultiBitSel_fits ms b \<longleftrightarrow> bl_offsetBits b \<le> 63 \<and> bl_filter b \<noteq> [] \<and> ms_skipBits ms < 64 \<and>
     ms_numHashes ms * ms_parFilterSize ms = length (bl_filter b) \<and>
     list_all (\<lambda>h. list_all (\<lambda>i. (h + ms_numHashes ms * i) mod (64 - bl_offsetBits b) < 32) [0..<bl_sizeBits b])
       [0..<ms_numHashes ms]"

definition Bulk_fits :: "multi_sel \<Rightarrow> nat \<Rightarrow> bloom_base \<Rightarrow> bool" where
  "Bulk_fits ms sectorBits b \<longleftrightarrow> bl_offsetBits b \<le> 42 \<and> bl_filter b \<noteq> [] \<and>
     ms_numHashes ms * ms_parFilterSize ms = length (bl_filter b) \<and>
     0 < sectorBits \<and> 2 ^ sectorBits \<le> ms_parFilterSize ms \<and>
     bl_offsetBits b + ms_numHashes ms * sectorBits \<le> 64"

definition H3_fits :: "multi_sel \<Rightarrow> bloom_base \<Rightarrow> bool" where
  "H3_fits ms b \<longleftrightarrow> bl_offsetBits b \<le> 63 \<and> bl_filter b \<noteq> [] \<and> ms_numHashes ms \<le> 16 \<and>
     ms_numHashes ms * ms_parFilterSize ms = length (bl_filter b)"

lemma unat_less_bits:
  assumes "\<And>i. bit v i \<Longrightarrow> i < n"
  shows "unat (v :: 64 word) < 2 ^ n"
proof -
  have "take_bit n v = v" using assms by (auto simp: bit_eq_iff bit_take_bit_iff)
  then have "take_bit n (unat v) = unat v" by (metis unsigned_take_bit_eq)
  then show ?thesis by (metis take_bit_nat_less_exp)
qed

lemma Block_hash_loop_ok:
  assumes "list_all (\<lambda>(lsb, sz). 0 < sz \<and> sz \<le> n \<and> ofs + lsb + sz \<le> 64) ms" "\<And>i. bit acc i \<Longrightarrow> i < n"
  shows "\<exists>v. Block_hash_loop ofs addr ms acc = Inr v \<and> (\<forall>i. bit v i \<longrightarrow> i < n)"
  using assms
proof (induction ms arbitrary: acc)
  case (Cons m ms)
  obtain lsb sz where m: "m = (lsb, sz)" by (cases m)
  have *: "0 < sz" "sz \<le> n" "ofs + lsb + sz \<le> 64" using Cons.prems(1) by (auto simp: m)
  let ?v = "bf_field addr (ofs + lsb + sz - 1) (ofs + lsb)"
  have "\<And>i. bit (acc XOR ?v) i \<Longrightarrow> i < n"
    using Cons.prems(2) * by (auto simp: bit_xor_iff bit_bf_field)
  then obtain v where "Block_hash_loop ofs addr ms (acc XOR ?v) = Inr v" "\<forall>i. bit v i \<longrightarrow> i < n"
    using Cons.IH [of "acc XOR ?v"] Cons.prems(1) by auto
  moreover have "ofs + lsb \<le> ofs + lsb + sz - 1" using * by simp
  ultimately show ?case using * by (simp add: m bf_bits_def del: One_nat_def)
qed simp

interpretation block: hashed_filter "\<lambda>a b i. Block_hash b lsbs szs a" 1 "Block_fits lsbs szs" for lsbs szs
proof
  fix b :: bloom_base and a :: Addr and i :: nat
  assume f: "Block_fits lsbs szs b"
  then obtain v where v: "Block_hash_loop (bl_offsetBits b) a (zip lsbs szs) 0 = Inr v" "\<forall>i. bit v i \<longrightarrow> i < bl_sizeBits b"
    using Block_hash_loop_ok [of "bl_sizeBits b" "bl_offsetBits b" "zip lsbs szs" 0 a] by (auto simp: Block_fits_def)
  then have "unat v < 2 ^ bl_sizeBits b" using unat_less_bits [of v] by blast
  then show "\<exists>k < length (bl_filter b). Block_hash b lsbs szs a = Inr k"
    using v(1) f by (simp add: Block_hash_def Block_fits_def)
qed (auto simp: Block_fits_def same_shape_def Block_hash_def)

lemma hash_index_less:
  assumes "ms_numHashes ms * ms_parFilterSize ms = length (bl_filter b)" "bl_filter b \<noteq> []" "h < ms_numHashes ms"
  shows "\<exists>k < length (bl_filter b). hash_index b ms h res = Inr k"
proof -
  let ?p = "ms_parFilterSize ms" and ?n = "ms_numHashes ms"
  have p: "0 < ?p" using assms(1,2) by (metis bot_nat_0.not_eq_extremum length_0_conv mult_0_right)
  have "res mod ?p + h * ?p < Suc h * ?p" using p by simp
  also have "\<dots> \<le> ?n * ?p" using assms(3) by (intro mult_le_mono1) simp
  finally show ?thesis using assms p by (auto simp: hash_index_def)
qed

lemma MultiBitSel_hash_loop_ok:
  "list_all (\<lambda>i. (h + n * i) mod m < 32) is \<Longrightarrow> \<exists>r. MultiBitSel_hash_loop val m n h is res = Inr r"
  by (induction "is" arbitrary: res) (auto simp: int_one_shl_def)

interpretation multi_bit_sel: hashed_filter "\<lambda>a b i. MultiBitSel_hash b ms a i" "ms_numHashes ms" "MultiBitSel_fits ms" for ms
proof
  fix b :: bloom_base and a :: Addr and i :: nat
  assume f: "MultiBitSel_fits ms b" and i: "i < ms_numHashes ms"
  then obtain r where r: "MultiBitSel_hash_loop (drop_bit (ms_skipBits ms) (bf_field a 63 (bl_offsetBits b)))
      (64 - bl_offsetBits b) (ms_numHashes ms) i [0..<bl_sizeBits b] 0 = Inr r"
    using MultiBitSel_hash_loop_ok [of i "ms_numHashes ms" "64 - bl_offsetBits b" "[0..<bl_sizeBits b]"]
    by (fastforce simp: MultiBitSel_fits_def list_all_iff)
  then show "\<exists>k < length (bl_filter b). MultiBitSel_hash b ms a i = Inr k"
    using f i hash_index_less [of ms b i r] by (simp add: MultiBitSel_hash_def bf_bits_def MultiBitSel_fits_def)
next
  show "same_shape b b' \<Longrightarrow> MultiBitSel_hash b' ms a i = MultiBitSel_hash b ms a i" for b b' a i
    by (auto simp: MultiBitSel_hash_def same_shape_def hash_index_def rbind_def fun_eq_iff split: sum.splits)
qed (auto simp: MultiBitSel_fits_def same_shape_def)

interpretation h3: hashed_filter "\<lambda>a b i. H3_hash b ms a i" "ms_numHashes ms" "H3_fits ms" for ms
proof
  fix b :: bloom_base and a :: Addr and i :: nat
  assume f: "H3_fits ms b" and i: "i < ms_numHashes ms"
  then show "\<exists>k < length (bl_filter b). H3_hash b ms a i = Inr k"
    using hash_index_less [of ms b i] by (simp add: H3_hash_def bf_bits_def H3_fits_def)
next
  show "same_shape b b' \<Longrightarrow> H3_hash b' ms a i = H3_hash b ms a i" for b b' a i
    by (auto simp: H3_hash_def same_shape_def hash_index_def rbind_def split: sum.splits)
qed (auto simp: H3_fits_def same_shape_def)

interpretation bulk: hashed_filter "\<lambda>a b i. Bulk_hash b ms sb a i" "ms_numHashes ms" "Bulk_fits ms sb" for ms sb
proof
  fix b :: bloom_base and a :: Addr and i :: nat
  assume f: "Bulk_fits ms sb b" and i: "i < ms_numHashes ms"
  let ?n = "ms_numHashes ms" and ?p = "ms_parFilterSize ms" and ?o = "bl_offsetBits b"
  let ?c = "bf_field (Bulk_permute_bits ?o a) (?o + (i + 1) * sb - 1) (?o + i * sb)"
  have "length (bl_filter b) = ?n * ?p" using f by (simp add: Bulk_fits_def)
  then have par: "length (bl_filter b) div ?n = ?p" using i by simp
  have "(i + 1) * sb \<le> ?n * sb" using i by (intro mult_le_mono1) simp
  then have pos: "?o + i * sb < 64" using f by (simp add: Bulk_fits_def)
  have le: "?o + i * sb \<le> ?o + (sb + i * sb) - Suc 0" using f by (auto simp: Bulk_fits_def)
  have "unat ?c < 2 ^ sb"
    by (rule unat_less_bits) (use f in \<open>auto simp: bit_bf_field Bulk_fits_def\<close>)
  then have c: "unat ?c < ?p" using f by (simp add: Bulk_fits_def)
  have "unat ?c + (?n - 1 - i) * ?p < ?p + (?n - 1) * ?p"
    using c by (intro add_less_le_mono mult_le_mono1) auto
  also have "\<dots> = length (bl_filter b)" using f i by (cases ?n) (auto simp: Bulk_fits_def)
  finally show "\<exists>k < length (bl_filter b). Bulk_hash b ms sb a i = Inr k"
    using f c pos le by (auto simp: Bulk_hash_def Bulk_permute_def Let_def bf_bits_def par Bulk_fits_def)
next
  show "same_shape b b' \<Longrightarrow> Bulk_hash b' ms sb a i = Bulk_hash b ms sb a i" for b b' a i
    by (simp add: Bulk_hash_def same_shape_def Let_def cong: if_cong)
qed (auto simp: Bulk_fits_def same_shape_def)

section \<open>Filters\<close>

fun bloom_ok :: "bloom \<Rightarrow> bool" where
  "bloom_ok (Block b lsbs szs) = (base_ok b \<and> Block_fits lsbs szs b \<and> bl_setThreshold b \<le> 1)"
| "bloom_ok (MultiBitSel b ms) =
     (base_ok b \<and> MultiBitSel_fits ms b \<and> bl_setThreshold b \<le> int (ms_numHashes ms))"
| "bloom_ok (Bulk b ms sb) = (base_ok b \<and> Bulk_fits ms sb b \<and> bl_setThreshold b \<le> int (ms_numHashes ms))"
| "bloom_ok (H3 b ms) = (base_ok b \<and> H3_fits ms b \<and> bl_setThreshold b \<le> int (ms_numHashes ms))"
| "bloom_ok (Perfect b entries) = (bl_setThreshold b \<le> 1)"
| "bloom_ok (Multi b fs) = (bl_setThreshold b \<le> int (length fs) \<and> list_all bloom_ok fs)"

text \<open>\<open>later f f'\<close>: \<open>f'\<close> is the same filter with nothing removed.\<close>

fun later :: "bloom \<Rightarrow> bloom \<Rightarrow> bool" where
  "later (Block b lsbs szs) (Block b' lsbs' szs') = (grows b b' \<and> lsbs' = lsbs \<and> szs' = szs)"
| "later (MultiBitSel b ms) (MultiBitSel b' ms') = (grows b b' \<and> ms' = ms)"
| "later (Bulk b ms sb) (Bulk b' ms' sb') = (grows b b' \<and> ms' = ms \<and> sb' = sb)"
| "later (H3 b ms) (H3 b' ms') = (grows b b' \<and> ms' = ms)"
| "later (Perfect b entries) (Perfect b' entries') =
     (bl_setThreshold b' = bl_setThreshold b \<and> entries \<subseteq> entries')"
| "later (Multi b fs) (Multi b' fs') = (bl_setThreshold b' = bl_setThreshold b \<and> list_all2 later fs fs')"
| "later _ _ = False"

text \<open>Filters configured alike, which may be merged.\<close>

definition base_alike :: "bloom_base \<Rightarrow> bloom_base \<Rightarrow> bool" where
  "base_alike b b' \<longleftrightarrow> same_shape b b' \<and>
     list_all2 (\<lambda>c d. maxVal d = maxVal c) (bl_filter b) (bl_filter b')"

fun alike :: "bloom \<Rightarrow> bloom \<Rightarrow> bool" where
  "alike (Block b lsbs szs) (Block b' lsbs' szs') = (base_alike b b' \<and> lsbs' = lsbs \<and> szs' = szs)"
| "alike (MultiBitSel b ms) (MultiBitSel b' ms') = (base_alike b b' \<and> ms' = ms)"
| "alike (Bulk b ms sb) (Bulk b' ms' sb') = (base_alike b b' \<and> ms' = ms \<and> sb' = sb)"
| "alike (H3 b ms) (H3 b' ms') = (base_alike b b' \<and> ms' = ms)"
| "alike (Perfect b entries) (Perfect b' entries') = (bl_setThreshold b' = bl_setThreshold b)"
| "alike (Multi b fs) (Multi b' fs') = (bl_setThreshold b' = bl_setThreshold b \<and> list_all2 alike fs fs')"
| "alike _ _ = False"

lemma set_hashes_one: "set_hashes hash [0..<Suc 0] b = rbind (hash b 0) (\<lambda>k. bump SatCounter_inc k b)"
  by (simp add: rbind_def split: sum.splits)

lemma count_hashes_one: "count_hashes hash [0..<Suc 0] b 0 = rbind (hash b 0) (entry_at b)"
  by (simp add: rbind_def entry_at_def split: sum.splits)

lemma grows_threshold: "grows b b' \<Longrightarrow> bl_setThreshold b' = bl_setThreshold b"
  by (simp add: grows_def same_shape_def)

text \<open>The consequences of the locale for the virtual functions.\<close>

lemma leaf_set:
  assumes "bloom_ok f" "\<not> (\<exists>b fs. f = Multi b fs)"
  shows "\<exists>f'. bloom_set a f = Inr f' \<and> later f f' \<and> bloom_ok f' \<and> bloom_isSet a f' = Inr True"
proof (cases f)
  case (Block b lsbs szs)
  then obtain b' n where "set_hashes (\<lambda>b i. Block_hash b lsbs szs a) [0..<1] b = Inr b'" "grows b b'"
      "Block_fits lsbs szs b'" "count_hashes (\<lambda>b i. Block_hash b lsbs szs a) [0..<1] b' 0 = Inr n" "1 \<le> n"
    using block.count_after_set [of lsbs szs b a] assms(1) by auto
  then show ?thesis
    using assms(1) grows_threshold [of b b'] unfolding Block One_nat_def set_hashes_one count_hashes_one
    by (auto simp: rbind_eq_Inr grows_def)
next
  case (MultiBitSel b ms)
  then show ?thesis
    using assms(1) multi_bit_sel.count_after_set [of ms b a] by (fastforce simp: grows_def grows_threshold)
next
  case (Bulk b ms sb)
  then show ?thesis
    using assms(1) bulk.count_after_set [of ms sb b a] by (fastforce simp: grows_def grows_threshold)
next
  case (H3 b ms)
  then show ?thesis
    using assms(1) h3.count_after_set [of ms b a] by (fastforce simp: grows_def grows_threshold)
next
  case (Perfect b entries)
  then show ?thesis using assms(1) by auto
next
  case (Multi b fs)
  then show ?thesis using assms(2) by simp
qed

lemma sets_ok:
  assumes "\<And>f. f \<in> set fs \<Longrightarrow> \<exists>f'. bloom_set a f = Inr f' \<and> later f f' \<and> bloom_ok f' \<and> bloom_isSet a f' = Inr True"
  shows "\<exists>fs'. bloom_sets a fs = Inr fs' \<and> list_all2 later fs fs' \<and> list_all bloom_ok fs' \<and>
     (\<forall>c. bloom_isSets a fs' c = Inr (c + int (length fs)))"
  using assms
proof (induction fs)
  case (Cons f fs)
  obtain f' where f': "bloom_set a f = Inr f'" "later f f'" "bloom_ok f'" "bloom_isSet a f' = Inr True"
    using Cons.prems [of f] by auto
  obtain fs' where "bloom_sets a fs = Inr fs'" "list_all2 later fs fs'" "list_all bloom_ok fs'"
     "\<forall>c. bloom_isSets a fs' c = Inr (c + int (length fs))"
    using Cons.IH Cons.prems by auto
  with f' show ?case by simp
qed simp

lemma bloom_set_ok:
  "bloom_ok f \<Longrightarrow> \<exists>f'. bloom_set a f = Inr f' \<and> later f f' \<and> bloom_ok f' \<and> bloom_isSet a f' = Inr True"
proof (induction f)
  case (Multi b fs)
  then obtain fs' where fs': "bloom_sets a fs = Inr fs'" "list_all2 later fs fs'" "list_all bloom_ok fs'"
     "\<forall>c. bloom_isSets a fs' c = Inr (c + int (length fs))"
    using sets_ok [of fs a] by (auto simp: list_all_iff)
  moreover have "length fs' = length fs" using fs'(2) by (simp add: list_all2_lengthD)
  ultimately show ?case using Multi.prems by simp
qed (use leaf_set in blast)+

text \<open>What was reported as set stays so.\<close>

lemma isSets_mono:
  assumes "list_all2 (\<lambda>f f'. \<exists>x y. bloom_isSet a f = Inr x \<and> bloom_isSet a f' = Inr y \<and> (x \<longrightarrow> y)) fs fs'" "c \<le> d"
  shows "\<exists>m n. bloom_isSets a fs c = Inr m \<and> bloom_isSets a fs' d = Inr n \<and> m \<le> n"
  using assms
proof (induction fs fs' arbitrary: c d rule: list_all2_induct)
  case (Cons f fs f' fs')
  then obtain x y where "bloom_isSet a f = Inr x" "bloom_isSet a f' = Inr y" "x \<longrightarrow> y" by auto
  then show ?case
    using Cons.IH [of "if x then c + 1 else c" "if y then d + 1 else d"] Cons.prems by auto
qed simp

lemma isSet_mono:
  "bloom_ok f \<Longrightarrow> later f f' \<Longrightarrow> \<exists>x y. bloom_isSet a f = Inr x \<and> bloom_isSet a f' = Inr y \<and> (x \<longrightarrow> y)"
proof (induction f f' rule: later.induct)
  case (1 b lsbs szs b' lsbs' szs')
  then show ?case
    using block.count_mono [of lsbs szs b b' a] unfolding One_nat_def count_hashes_one
    by (auto simp: grows_threshold)
next
  case (2 b ms b' ms')
  then show ?case using multi_bit_sel.count_mono [of ms b b' a] by (auto simp: grows_threshold)
next
  case (3 b ms sb b' ms' sb')
  then show ?case using bulk.count_mono [of ms sb b b' a] by (auto simp: grows_threshold)
next
  case (4 b ms b' ms')
  then show ?case using h3.count_mono [of ms b b' a] by (auto simp: grows_threshold)
next
  case (6 b fs b' fs')
  have "list_all2 (\<lambda>f f'. \<exists>x y. bloom_isSet a f = Inr x \<and> bloom_isSet a f' = Inr y \<and> (x \<longrightarrow> y)) fs fs'"
    using 6 by (auto simp: list_all2_conv_all_nth list_all_length)
  from isSets_mono [OF this, of 0 0] show ?case using 6 by auto
qed auto

lemma later_ok: "bloom_ok f \<Longrightarrow> later f f' \<Longrightarrow> bloom_ok f'"
proof (induction f f' rule: later.induct)
  case (6 b fs b' fs')
  then show ?case by (auto simp: list_all2_conv_all_nth list_all_length) (metis nth_mem)
qed (auto simp: grows_def same_shape_def intro: block.fits_shape multi_bit_sel.fits_shape bulk.fits_shape h3.fits_shape)

section \<open>Merging and clearing\<close>

lemma Base_merge_ok:
  assumes "base_ok b" "base_ok b'" "base_alike b b'"
  shows "\<exists>m. Base_merge b b' = Inr m \<and> grows b m \<and> grows b' m"
proof -
  let ?m = "b\<lparr>bl_filter := map (\<lambda>(c, d). SatCounter_add_nonneg c (cnt d)) (zip (bl_filter b) (bl_filter b'))\<rparr>"
  have len: "length (bl_filter b') = length (bl_filter b)" using assms(3) by (simp add: base_alike_def same_shape_def)
  have mx: "maxVal (bl_filter b' ! j) = maxVal (bl_filter b ! j)" if "j < length (bl_filter b)" for j
    using assms(3) that by (simp add: base_alike_def list_all2_conv_all_nth)
  have g: "good (bl_filter b ! j)" "good (bl_filter b' ! j)" if "j < length (bl_filter b)" for j
    using assms(1,2) that len by (auto intro: base_ok_nth)
  have "base_ok ?m" using assms(1) g len good_add by (auto simp: base_ok_def list_all_length)
  moreover have "grows b ?m" "grows b' ?m"
    using calculation g len mx good_add assms(3)
    by (auto simp: grows_def base_alike_def same_shape_def good_def)
  ultimately show ?thesis using len by (simp add: Base_merge_def)
qed

lemma merges_ok:
  assumes "list_all2 (\<lambda>f g. \<exists>h. bloom_merge f g = Inr h \<and> later f h \<and> later g h) fs gs"
  shows "\<exists>hs. bloom_merges fs gs = Inr hs \<and> list_all2 later fs hs \<and> list_all2 later gs hs"
  using assms by (induction fs gs rule: list_all2_induct) force+

lemma bloom_merge_ok:
  "bloom_ok f \<Longrightarrow> bloom_ok g \<Longrightarrow> alike f g \<Longrightarrow> \<exists>h. bloom_merge f g = Inr h \<and> later f h \<and> later g h"
proof (induction f g rule: alike.induct)
  case (6 b fs b' fs')
  then have "list_all2 (\<lambda>f g. \<exists>h. bloom_merge f g = Inr h \<and> later f h \<and> later g h) fs fs'"
    by (auto simp: list_all2_conv_all_nth list_all_length)
  moreover have "length fs = length fs'" using 6 by (auto dest: list_all2_lengthD)
  ultimately show ?case using merges_ok [of fs fs'] 6 by auto
qed (auto dest: Base_merge_ok)

lemma good_reset: "good c \<Longrightarrow> good (SatCounter_reset c)"
  by (simp add: good_def sat_ok_def SatCounter_reset_def)

lemma Base_clear_ok: "base_ok b \<Longrightarrow> base_ok (Base_clear b) \<and> same_shape b (Base_clear b)"
  by (simp add: base_ok_def Base_clear_def same_shape_def list_all_length good_reset)

lemma bloom_clear_ok: "bloom_ok f \<Longrightarrow> bloom_ok (bloom_clear f)"
proof (induction f)
  case (Multi b fs)
  then show ?case by (auto simp: list_all_iff)
next
  case (Block b lsbs szs)
  then show ?case using Base_clear_ok [of b] block.fits_shape [of lsbs szs b "Base_clear b"] by (auto simp: same_shape_def)
next
  case (MultiBitSel b ms)
  then show ?case using Base_clear_ok [of b] multi_bit_sel.fits_shape [of ms b "Base_clear b"] by (auto simp: same_shape_def)
next
  case (Bulk b ms sb)
  then show ?case using Base_clear_ok [of b] bulk.fits_shape [of ms sb b "Base_clear b"] by (auto simp: same_shape_def)
next
  case (H3 b ms)
  then show ?case using Base_clear_ok [of b] h3.fits_shape [of ms b "Base_clear b"] by (auto simp: same_shape_def)
qed simp

section \<open>Constructors\<close>

lemma SatCounter_new_good:
  assumes "SatCounter_new nb (0 :: 8 word) = Inr c" "1 \<le> nb"
  shows "good c"
proof -
  have c: "c = \<lparr>initialVal = 0, maxVal = ucast (push_bit nb (1 :: 64 word) - 1), counter = 0\<rparr>" "nb \<le> 8"
    using assms(1) by (auto simp: SatCounter_new_def Let_def result_eq_Inr split: if_splits)
  have "nb \<in> {1, 2, 3, 4, 5, 6, 7, 8}" using assms(2) c(2) by auto
  then have "1 \<le> (ucast (push_bit nb (1 :: 64 word) - 1) :: 8 word)" by auto
  then show ?thesis using c(1) by (simp add: good_def sat_ok_def)
qed

lemma floorLog2_le:
  assumes "floorLog2 4 (of_nat n) = Inr l" "n < 2 ^ 31"
  shows "2 ^ l \<le> n" "n < 2 ^ (l + 1)"
proof -
  have n: "unat (of_nat n :: 64 word) = n" using assms(2) by (simp add: unsigned_of_nat take_bit_nat_eq_self)
  have "(of_nat n :: 64 word) \<noteq> 0" using assms(1) by (auto simp: floorLog2_def)
  from floorLog2_is_msb [OF this, of 4] assms n show "2 ^ l \<le> n" "n < 2 ^ (l + 1)" by (auto simp: is_msb_def)
qed

lemma Base_new_ok:
  assumes "Base_new sz ofs nb th = Inr b" "1 \<le> nb" "sz < 2 ^ 31"
  shows "base_ok b \<and> length (bl_filter b) = sz \<and> 2 ^ bl_sizeBits b \<le> sz \<and> bl_sizeBits b < 64 \<and>
     bl_offsetBits b = ofs \<and> bl_setThreshold b = th"
proof -
  obtain c l where c: "SatCounter_new nb 0 = Inr c" "floorLog2 4 (of_nat sz) = Inr l"
      "b = Base_clear \<lparr>bl_offsetBits = ofs, bl_filter = replicate sz c, bl_sizeBits = l, bl_setThreshold = th\<rparr>"
    using assms(1) by (auto simp: Base_new_def rbind_eq_Inr)
  have l: "2 ^ l \<le> sz" using floorLog2_le [OF c(2) assms(3)] by simp
  then have "sz \<noteq> 0" by (metis le_zero_eq power_not_zero zero_neq_numeral)
  moreover have "l < 64"
    using l assms(3) power_increasing [of 64 l "2 :: nat"] by (cases "l < 64") auto
  ultimately show ?thesis
    using c(3) l good_reset [OF SatCounter_new_good [OF c(1) assms(2)]] by (simp add: Base_clear_def base_ok_def list_all_iff)
qed

lemma Block_check_eq:
  "Block_check n ms r = Inr f \<Longrightarrow> r = Inr f \<and> list_all (\<lambda>(lsb, sz). 0 < sz \<and> sz \<le> n \<and> lsb + sz \<le> 64) ms"
  by (induction n ms r rule: Block_check.induct) (auto simp: fatal_if_eq_Inr)

text \<open>The constructor does not count the offset in the extent of a bit field; here it is a hypothesis.\<close>

lemma Block_new_ok:
  assumes "Block_new sz ofs nb th lsbs szs = Inr f" "1 \<le> nb" "sz < 2 ^ 31" "th \<le> 1"
    and "list_all (\<lambda>(lsb, sz). ofs + lsb + sz \<le> 64) (zip lsbs szs)"
  shows "bloom_ok f"
proof -
  obtain b where b: "Base_new sz ofs nb th = Inr b" "Block_check (bl_sizeBits b) (zip lsbs szs) (Inr (Block b lsbs szs)) = Inr f"
    using assms(1) by (auto simp: Block_new_def rbind_eq_Inr fatal_if_eq_Inr)
  then show ?thesis
    using Block_check_eq [OF b(2)] Base_new_ok [OF b(1) assms(2,3)] assms(4,5) by (auto simp: Block_fits_def list_all_iff)
qed

lemma multi_sel_new_ok:
  "multi_sel_new sz n par skip = Inr ms \<Longrightarrow>
   ms_numHashes ms = n \<and> n * ms_parFilterSize ms = sz \<and> ms_skipBits ms = skip \<and> ms_isParallel ms = par"
  by (auto simp: multi_sel_new_def fatal_if_eq_Inr split: if_splits)

lemma H3_new_ok:
  assumes "H3_new sz ofs nb th n par skip = Inr f" "1 \<le> nb" "sz < 2 ^ 31" "ofs \<le> 63" "th \<le> int n"
  shows "bloom_ok f"
proof -
  obtain b ms where "Base_new sz ofs nb th = Inr b" "multi_sel_new sz n par skip = Inr ms" "f = H3 b ms" "n \<le> 16"
    using assms(1) by (auto simp: H3_new_def rbind_eq_Inr fatal_if_eq_Inr)
  then show ?thesis
    using Base_new_ok [of sz ofs nb th b] multi_sel_new_ok [of sz n par skip ms] assms(2-)
    by (auto simp: H3_fits_def base_ok_def)
qed

lemma Bulk_new_ok:
  assumes "Bulk_new sz ofs nb th n par skip = Inr f" "1 \<le> nb" "sz < 2 ^ 31" "ofs \<le> 42" "th \<le> int n"
    and "2 * n \<le> sz"
  shows "bloom_ok f"
proof -
  obtain b ms l where new: "Base_new sz ofs nb th = Inr b" "multi_sel_new sz n par skip = Inr ms"
      "floorLog2 4 (of_nat (ms_parFilterSize ms)) = Inr l" "f = Bulk b ms l"
      "\<not> (of_nat (n * l) :: 32 word) > 64 - of_nat ofs"
    using assms(1) by (auto simp: Bulk_new_def rbind_eq_Inr fatal_if_eq_Inr)
  let ?p = "ms_parFilterSize ms"
  note ms = multi_sel_new_ok [OF new(2)] and base = Base_new_ok [OF new(1) assms(2,3)]
  have n: "0 < n" using ms base by (cases n) (auto simp: base_ok_def)
  then have "?p \<le> sz" using ms by (cases n) auto
  then have l: "2 ^ l \<le> ?p" "?p < 2 ^ (l + 1)" using floorLog2_le [OF new(3)] assms(3) by auto
  have "0 < l"
  proof (rule ccontr)
    assume "\<not> 0 < l"
    then have "?p \<le> 1" using l by simp
    then have "n * ?p \<le> n * 1" by (rule mult_le_mono2)
    then show False using ms assms(6) n by simp
  qed
  moreover have "n * l \<le> sz"
    using l(1) mult_le_mono2 [of l ?p n] ms by (meson le_trans less_exp less_imp_le)
  then have "unat (of_nat (n * l) :: 32 word) = n * l"
    using assms(3) unsigned_of_nat [of "n * l", where 'a = nat and 'b = 32] by (simp add: take_bit_nat_eq_self)
  moreover have "unat (64 - of_nat ofs :: 32 word) = 64 - ofs"
    using assms(4) by (subst unat_sub) (auto simp: word_le_nat_alt unsigned_of_nat take_bit_nat_eq_self)
  ultimately have "ofs + n * l \<le> 64" "0 < l"
    using new(5) assms(4) by (auto simp: word_less_nat_alt)
  then show ?thesis
    using base ms l assms(4,5) new(4) by (auto simp: Bulk_fits_def base_ok_def)
qed

lemma MultiBitSel_new_ok:
  assumes "MultiBitSel_new sz ofs nb th n par skip = Inr f" "1 \<le> nb" "sz < 2 ^ 31" "ofs \<le> 32" "th \<le> int n" "skip < 64"
    and "\<forall>l. 2 ^ l \<le> sz \<longrightarrow> n * l \<le> 32"
  shows "bloom_ok f"
proof -
  obtain b ms where new: "Base_new sz ofs nb th = Inr b" "multi_sel_new sz n par skip = Inr ms" "f = MultiBitSel b ms"
    using assms(1) by (auto simp: MultiBitSel_new_def rbind_eq_Inr)
  note ms = multi_sel_new_ok [OF new(2)] and base = Base_new_ok [OF new(1) assms(2,3)]
  have "(h + n * i) mod (64 - ofs) < 32" if "h < n" "i < bl_sizeBits b" for h i
  proof -
    have "h + n * i < n * Suc i" using that(1) by simp
    also have "\<dots> \<le> n * bl_sizeBits b" using that(2) by (intro mult_le_mono2) simp
    finally have "h + n * i < 32" using assms(7) base by force
    then show ?thesis by (rule le_less_trans [OF mod_less_eq_dividend])
  qed
  then show ?thesis
    using base ms assms(4-6) new(3) by (auto simp: MultiBitSel_fits_def base_ok_def list_all_iff)
qed

section \<open>Properties\<close>

text \<open>\<open>recorded f S\<close>: the filter \<open>f\<close> was reached by operations that recorded the addresses \<open>S\<close>.\<close>

inductive recorded :: "bloom \<Rightarrow> Addr set \<Rightarrow> bool" where
  recorded_new: "bloom_ok f \<Longrightarrow> recorded f {}"
| recorded_set: "recorded f S \<Longrightarrow> bloom_set a f = Inr f' \<Longrightarrow> recorded f' (insert a S)"
| recorded_merge: "recorded f S \<Longrightarrow> recorded g T \<Longrightarrow> alike f g \<Longrightarrow> bloom_merge f g = Inr h \<Longrightarrow>
    recorded h (S \<union> T)"
| recorded_clear: "recorded f S \<Longrightarrow> recorded (bloom_clear f) {}"

lemma recorded_isSet: "recorded f S \<Longrightarrow> bloom_ok f \<and> (\<forall>a \<in> S. bloom_isSet a f = Inr True)"
proof (induction rule: recorded.induct)
  case (recorded_set f S a f')
  then have f': "later f f'" "bloom_ok f'" "bloom_isSet a f' = Inr True" using bloom_set_ok [of f a] by auto
  have "bloom_isSet b f' = Inr True" if "b \<in> S" for b
    using isSet_mono [OF _ f'(1), of b] recorded_set.IH that by force
  with f' show ?case by auto
next
  case (recorded_merge f S g T h)
  then have later: "later f h" "later g h" using bloom_merge_ok [of f g] by auto
  have "bloom_isSet b h = Inr True" if "b \<in> S" for b
    using isSet_mono [OF _ later(1), of b] recorded_merge.IH(1) that by force
  moreover have "bloom_isSet b h = Inr True" if "b \<in> T" for b
    using isSet_mono [OF _ later(2), of b] recorded_merge.IH(2) that by force
  ultimately show ?case using later_ok [OF _ later(1)] recorded_merge.IH(1) by auto
qed (auto intro: bloom_clear_ok)

text \<open>C28: a Bloom filter has no false negatives. Starting from a filter of any class (block, bit
  selection, bulk, H3, perfect, or a combination of filters) whose hash functions stay inside its
  vector and whose threshold is at most its number of hashes, after any operations that set
  addresses, merge in filters configured alike or clear the filter, every address recorded since the
  last clear is reported as set, and setting a further address returns.\<close>

theorem bloom_no_false_negatives:
  assumes "recorded f S"
  shows "(\<forall>a \<in> S. bloom_isSet a f = Inr True) \<and> (\<forall>a. \<exists>f'. bloom_set a f = Inr f' \<and> bloom_isSet a f' = Inr True)"
  using recorded_isSet [OF assms] bloom_set_ok by blast

definition ex_block :: bloom where
  "ex_block = Block
     \<lparr>bl_offsetBits = 1, bl_filter = replicate 4 \<lparr>initialVal = 0, maxVal = 1, counter = 0\<rparr>, bl_sizeBits = 2,
      bl_setThreshold = 1\<rparr> [0, 2] [2, 2]"

lemma ex_block_new: "Block_new 4 1 1 1 [0, 2] [2, 2] = Inr ex_block"
  by (simp add: ex_block_def Block_new_def Base_new_def SatCounter_new_def floorLog2_def Let_def
      Base_clear_def SatCounter_reset_def)

lemma bloom_no_false_negatives_witness:
  "\<exists>f. bloom_set 9 ex_block = Inr f \<and> recorded f {9} \<and> bloom_isSet 9 f = Inr True"
proof -
  have "bloom_ok ex_block" using Block_new_ok [OF ex_block_new] by simp
  then obtain f where f: "bloom_set 9 ex_block = Inr f" "recorded f {9}"
    using bloom_set_ok [of ex_block 9] recorded_set [OF recorded_new] by auto
  with bloom_no_false_negatives [OF f(2)] show ?thesis by auto
qed

text \<open>C34: the bit-selection filter with its default parameters (4096 entries, four hashes, an offset
  of six bits, two skipped bits) is constructed without complaint, but setting any address shifts
  the \<open>int\<close> literal 1 by 32 bits or more, which has no meaning.\<close>

theorem MultiBitSel_default_undefined:
  "\<exists>f. MultiBitSel_new 4096 6 1 4 4 False 2 = Inr f \<and> bloom_set addr f = Inl (Undefined ''shift count'')"
proof -
  have sb: "floorLog2 4 4096 = Inr 12" by (simp add: floorLog2_def Let_def)
  have idx: "[0..<12] = [0, 1, 2, 3, 4, 5, 6, 7, 8, 9, 10, 11]" "[0..<4] = [0, 1, 2, 3]"
    by (simp_all add: upt_rec)
  show ?thesis
    by (simp add: MultiBitSel_new_def Base_new_def SatCounter_new_def sb multi_sel_new_def Base_clear_def Let_def
        MultiBitSel_hash_def bf_bits_def idx int_one_shl_def)
qed

end
