(* ===== verification/Replacement.thy ===== *)
theory Replacement
  imports Sat_Counter Bitfield
begin

text \<open>
  Cache replacement policies, \<open>mem/cache/replacement_policies\<close>, and the dueling monitor of
  \<open>mem/cache/tags/dueling.cc\<close>. A candidate is the name of a cache entry; the replacement data of the
  entries, one shared object per entry, is a store from names to data. Values drawn from the random
  number generator are arguments.
\<close>

type_synonym entry = nat

section \<open>LRU and MRU\<close>

record lru_data =
  lastTouchTick :: Tick

definition LRU_instantiateEntry :: lru_data where
  "LRU_instantiateEntry = \<lparr>lastTouchTick = 0\<rparr>"

definition LRU_invalidate :: "entry \<Rightarrow> (entry \<Rightarrow> lru_data) \<Rightarrow> entry \<Rightarrow> lru_data" where
  "LRU_invalidate e d = d(e := (d e)\<lparr>lastTouchTick := 0\<rparr>)"

definition LRU_touch :: "Tick \<Rightarrow> entry \<Rightarrow> (entry \<Rightarrow> lru_data) \<Rightarrow> entry \<Rightarrow> lru_data" where
  "LRU_touch curTick e d = d(e := (d e)\<lparr>lastTouchTick := curTick\<rparr>)"

definition LRU_reset :: "Tick \<Rightarrow> entry \<Rightarrow> (entry \<Rightarrow> lru_data) \<Rightarrow> entry \<Rightarrow> lru_data" where
  "LRU_reset curTick e d = d(e := (d e)\<lparr>lastTouchTick := curTick\<rparr>)"

definition LRU_getVictim :: "(entry \<Rightarrow> lru_data) \<Rightarrow> entry list \<Rightarrow> entry result" where
  "LRU_getVictim d candidates =
     assert_that (length candidates > 0) ''candidates.size() > 0''
       (Inr (fold (\<lambda>candidate victim.
               if lastTouchTick (d candidate) < lastTouchTick (d victim) then candidate else victim)
             candidates (candidates ! 0)))"

fun MRU_scan :: "(entry \<Rightarrow> lru_data) \<Rightarrow> entry list \<Rightarrow> entry \<Rightarrow> entry" where
  "MRU_scan d [] victim = victim"
| "MRU_scan d (candidate # cs) victim =
     (if lastTouchTick (d candidate) = 0 then candidate
      else if lastTouchTick (d candidate) > lastTouchTick (d victim) then MRU_scan d cs candidate
      else MRU_scan d cs victim)"

definition MRU_getVictim :: "(entry \<Rightarrow> lru_data) \<Rightarrow> entry list \<Rightarrow> entry result" where
  "MRU_getVictim d candidates =
     assert_that (length candidates > 0) ''candidates.size() > 0''
       (Inr (MRU_scan d candidates (candidates ! 0)))"

text \<open>\<open>BIP\<close> is \<open>LRU\<close> with another reset: \<open>draw\<close> is the value of \<open>random(1, 100)\<close>.\<close>

definition BIP_reset ::
  "nat \<Rightarrow> nat \<Rightarrow> Tick \<Rightarrow> entry \<Rightarrow> (entry \<Rightarrow> lru_data) \<Rightarrow> entry \<Rightarrow> lru_data" where
  "BIP_reset btp draw curTick e d =
     (if draw \<le> btp then d(e := (d e)\<lparr>lastTouchTick := curTick\<rparr>)
      else d(e := (d e)\<lparr>lastTouchTick := 1\<rparr>))"

record weighted_lru_data = lru_data +
  last_occ_ptr :: "32 word"

definition WeightedLRU_touch ::
  "Tick \<Rightarrow> 32 word \<Rightarrow> entry \<Rightarrow> (entry \<Rightarrow> weighted_lru_data) \<Rightarrow> entry \<Rightarrow> weighted_lru_data" where
  "WeightedLRU_touch curTick occupancy e d =
     d(e := (d e)\<lparr>lastTouchTick := curTick, last_occ_ptr := occupancy\<rparr>)"

definition WeightedLRU_getVictim :: "(entry \<Rightarrow> weighted_lru_data) \<Rightarrow> entry list \<Rightarrow> entry result" where
  "WeightedLRU_getVictim d candidates =
     assert_that (length candidates > 0) ''candidates.size() > 0''
       (Inr (fold (\<lambda>candidate victim.
               if sint (last_occ_ptr (d candidate)) < sint (last_occ_ptr (d victim)) then candidate
               else if last_occ_ptr (d candidate) = last_occ_ptr (d victim) then
                 if lastTouchTick (d candidate) < lastTouchTick (d victim) then candidate else victim
               else victim)
             candidates (candidates ! 0)))"

section \<open>LFU and Random\<close>

definition LFU_instantiateEntry :: "32 word" where
  "LFU_instantiateEntry = 0"

definition LFU_invalidate :: "entry \<Rightarrow> (entry \<Rightarrow> 32 word) \<Rightarrow> entry \<Rightarrow> 32 word" where
  "LFU_invalidate e refCount = refCount(e := 0)"

definition LFU_touch :: "entry \<Rightarrow> (entry \<Rightarrow> 32 word) \<Rightarrow> entry \<Rightarrow> 32 word" where
  "LFU_touch e refCount = refCount(e := refCount e + 1)"

definition LFU_reset :: "entry \<Rightarrow> (entry \<Rightarrow> 32 word) \<Rightarrow> entry \<Rightarrow> 32 word" where
  "LFU_reset e refCount = refCount(e := 1)"

definition LFU_getVictim :: "(entry \<Rightarrow> 32 word) \<Rightarrow> entry list \<Rightarrow> entry result" where
  "LFU_getVictim refCount candidates =
     assert_that (length candidates > 0) ''candidates.size() > 0''
       (Inr (fold (\<lambda>candidate victim. if refCount candidate < refCount victim then candidate else victim)
             candidates (candidates ! 0)))"

definition Random_invalidate :: "entry \<Rightarrow> (entry \<Rightarrow> bool) \<Rightarrow> entry \<Rightarrow> bool" where
  "Random_invalidate e valid = valid(e := False)"

definition Random_reset :: "entry \<Rightarrow> (entry \<Rightarrow> bool) \<Rightarrow> entry \<Rightarrow> bool" where
  "Random_reset e valid = valid(e := True)"

text \<open>\<open>draw\<close> is the value of \<open>random(0, candidates.size() - 1)\<close>.\<close>

definition Random_getVictim :: "nat \<Rightarrow> (entry \<Rightarrow> bool) \<Rightarrow> entry list \<Rightarrow> entry result" where
  "Random_getVictim draw valid candidates =
     assert_that (length candidates > 0) ''candidates.size() > 0''
       (if draw \<ge> length candidates then Inl (Undefined ''vector index'')
        else Inr (case find (\<lambda>candidate. \<not> valid candidate) candidates of
                    Some candidate \<Rightarrow> candidate | None \<Rightarrow> candidates ! draw))"

section \<open>FIFO and second chance\<close>

record second_chance_data =
  tickInserted :: Tick
  hasSecondChance :: bool

record fifo_state =
  timeTicks :: Tick
  repl_data :: "entry \<Rightarrow> second_chance_data"

definition SecondChance_instantiateEntry :: second_chance_data where
  "SecondChance_instantiateEntry = \<lparr>tickInserted = 0, hasSecondChance = False\<rparr>"

definition FIFO_stamp :: "entry \<Rightarrow> fifo_state \<Rightarrow> fifo_state" where
  "FIFO_stamp e s =
     (let t = timeTicks s + 1
      in s\<lparr>timeTicks := t, repl_data := (repl_data s)(e := (repl_data s e)\<lparr>tickInserted := t\<rparr>)\<rparr>)"

definition FIFO_invalidate :: "entry \<Rightarrow> fifo_state \<Rightarrow> fifo_state" where
  "FIFO_invalidate e s = FIFO_stamp e s"

definition FIFO_touch :: "entry \<Rightarrow> fifo_state \<Rightarrow> fifo_state" where
  "FIFO_touch e s = s"

definition FIFO_reset :: "entry \<Rightarrow> fifo_state \<Rightarrow> fifo_state" where
  "FIFO_reset e s = FIFO_stamp e s"

definition FIFO_getVictim :: "fifo_state \<Rightarrow> entry list \<Rightarrow> entry result" where
  "FIFO_getVictim s candidates =
     assert_that (length candidates > 0) ''candidates.size() > 0''
       (Inr (fold (\<lambda>candidate victim.
               if tickInserted (repl_data s candidate) < tickInserted (repl_data s victim)
               then candidate else victim)
             candidates (candidates ! 0)))"

definition set_second_chance :: "entry \<Rightarrow> bool \<Rightarrow> fifo_state \<Rightarrow> fifo_state" where
  "set_second_chance e b s =
     s\<lparr>repl_data := (repl_data s)(e := (repl_data s e)\<lparr>hasSecondChance := b\<rparr>)\<rparr>"

definition SecondChance_useSecondChance :: "entry \<Rightarrow> fifo_state \<Rightarrow> fifo_state" where
  "SecondChance_useSecondChance e s = set_second_chance e False (FIFO_reset e s)"

definition SecondChance_invalidate :: "entry \<Rightarrow> fifo_state \<Rightarrow> fifo_state" where
  "SecondChance_invalidate e s = set_second_chance e False (FIFO_invalidate e s)"

definition SecondChance_touch :: "entry \<Rightarrow> fifo_state \<Rightarrow> fifo_state" where
  "SecondChance_touch e s = set_second_chance e True (FIFO_touch e s)"

definition SecondChance_reset :: "entry \<Rightarrow> fifo_state \<Rightarrow> fifo_state" where
  "SecondChance_reset e s = set_second_chance e False (FIFO_reset e s)"

partial_function (option) SecondChance_search ::
  "entry list \<Rightarrow> fifo_state \<Rightarrow> (fifo_state \<times> entry) result option" where
  "SecondChance_search candidates s =
     (case FIFO_getVictim s candidates of
        Inl err \<Rightarrow> Some (Inl err)
      | Inr victim \<Rightarrow>
          if hasSecondChance (repl_data s victim)
          then SecondChance_search candidates (SecondChance_useSecondChance victim s)
          else Some (Inr (s, victim)))"

declare SecondChance_search.simps [code]

definition SecondChance_getVictim :: "fifo_state \<Rightarrow> entry list \<Rightarrow> (fifo_state \<times> entry) result" where
  "SecondChance_getVictim s candidates =
     assert_that (length candidates > 0) ''candidates.size() > 0''
       (case find (\<lambda>c. tickInserted (repl_data s c) = 0 \<and> \<not> hasSecondChance (repl_data s c)) candidates of
          Some candidate \<Rightarrow> Inr (s, candidate)
        | None \<Rightarrow> rbind (returned ''second chance search'' (SecondChance_search candidates s)) (\<lambda>r. r))"

section \<open>Tree-PLRU\<close>

definition leftSubtreeIndex :: "nat \<Rightarrow> nat" where
  "leftSubtreeIndex index = 2 * index + 1"

definition rightSubtreeIndex :: "nat \<Rightarrow> nat" where
  "rightSubtreeIndex index = 2 * index + 2"

definition isRightSubtree :: "nat \<Rightarrow> bool" where
  "isRightSubtree index = (index mod 2 = 0)"

text \<open>The index is unsigned: index 0 wraps around, to a position no vector has.\<close>

definition parentIndex :: "nat \<Rightarrow> nat" where
  "parentIndex index = (if index = 0 then 2 ^ 63 else (index - 1) div 2)"

text \<open>
  The loops of \<open>invalidate\<close> and \<open>touch\<close>: at each ancestor, \<open>f\<close> of whether the walk comes from the
  right. \<open>at\<close> throws when the index is out of range, in particular when the walk starts at the root.
\<close>

function TreePLRU_walk :: "(bool \<Rightarrow> bool) \<Rightarrow> nat \<Rightarrow> bool list \<Rightarrow> bool list result" where
  "TreePLRU_walk f tree_index tree =
     (let right = isRightSubtree tree_index; p = parentIndex tree_index in
      if tree_index = 0 \<or> p \<ge> length tree then Inl (Throws ''out_of_range'')
      else let tree' = tree[p := f right] in
        if p \<noteq> 0 then TreePLRU_walk f p tree' else Inr tree')"
  by auto

termination
  by (relation "measure (\<lambda>(f, i, tree). i)") (auto simp: parentIndex_def)

declare TreePLRU_walk.simps [simp del]

record plru_entry =
  plru_index :: nat
  plru_tree :: nat

record tree_plru =
  numLeaves :: nat
  plru_count :: nat
  trees :: "bool list list"

definition TreePLRU_new :: "nat \<Rightarrow> tree_plru result" where
  "TreePLRU_new n = fatal_if (n < 1) ''numLeaves should never be 0''
     (Inr \<lparr>numLeaves = n, plru_count = 0, trees = []\<rparr>)"

definition TreePLRU_invalidate :: "plru_entry \<Rightarrow> tree_plru \<Rightarrow> tree_plru result" where
  "TreePLRU_invalidate e s =
     rbind (TreePLRU_walk (\<lambda>right. right) (plru_index e) (trees s ! plru_tree e))
       (\<lambda>t. Inr (s\<lparr>trees := (trees s)[plru_tree e := t]\<rparr>))"

definition TreePLRU_touch :: "plru_entry \<Rightarrow> tree_plru \<Rightarrow> tree_plru result" where
  "TreePLRU_touch e s =
     rbind (TreePLRU_walk (\<lambda>right. \<not> right) (plru_index e) (trees s ! plru_tree e))
       (\<lambda>t. Inr (s\<lparr>trees := (trees s)[plru_tree e := t]\<rparr>))"

definition TreePLRU_reset :: "plru_entry \<Rightarrow> tree_plru \<Rightarrow> tree_plru result" where
  "TreePLRU_reset e s = TreePLRU_touch e s"

function TreePLRU_descend :: "bool list \<Rightarrow> nat \<Rightarrow> nat" where
  "TreePLRU_descend tree tree_index =
     (if tree_index < length tree then
        TreePLRU_descend tree
          (if tree ! tree_index then rightSubtreeIndex tree_index else leftSubtreeIndex tree_index)
      else tree_index)"
  by auto

termination
  by (relation "measure (\<lambda>(tree, i). length tree - i)")
    (auto simp: rightSubtreeIndex_def leftSubtreeIndex_def)

declare TreePLRU_descend.simps [simp del]

text \<open>The candidates are given by their replacement data, in the order of the ways.\<close>

definition TreePLRU_getVictim :: "tree_plru \<Rightarrow> plru_entry list \<Rightarrow> plru_entry result" where
  "TreePLRU_getVictim s candidates =
     assert_that (length candidates > 0) ''candidates.size() > 0''
       (let tree = trees s ! plru_tree (candidates ! 0);
            i = TreePLRU_descend tree 0;
            w = i - (numLeaves s - 1)
        in if i < numLeaves s - 1 \<or> w \<ge> length candidates then Inl (Throws ''out_of_range'')
           else Inr (candidates ! w))"

definition TreePLRU_instantiateEntry :: "tree_plru \<Rightarrow> tree_plru \<times> plru_entry" where
  "TreePLRU_instantiateEntry s =
     (let n = numLeaves s;
          s1 = (if plru_count s mod n = 0 then s\<lparr>trees := trees s @ [replicate (n - 1) False]\<rparr> else s)
      in (s1\<lparr>plru_count := plru_count s + 1\<rparr>,
          \<lparr>plru_index = plru_count s mod n + n - 1, plru_tree = length (trees s1) - 1\<rparr>))"

section \<open>BRRIP and SHiP\<close>

record brrip_data =
  rrpv :: SatCounter8
  valid :: bool

record brrip_params =
  numRRPVBits :: nat
  hitPriority :: bool
  btp :: nat

definition BRRIP_instantiateEntry :: "brrip_params \<Rightarrow> brrip_data result" where
  "BRRIP_instantiateEntry p =
     rbind (SatCounter_new (numRRPVBits p) 0) (\<lambda>c. Inr \<lparr>rrpv = c, valid = False\<rparr>)"

definition BRRIP_invalidate :: "'a brrip_data_scheme \<Rightarrow> 'a brrip_data_scheme" where
  "BRRIP_invalidate d = d\<lparr>valid := False\<rparr>"

definition BRRIP_touch :: "brrip_params \<Rightarrow> 'a brrip_data_scheme \<Rightarrow> 'a brrip_data_scheme" where
  "BRRIP_touch p d =
     (if hitPriority p then d\<lparr>rrpv := SatCounter_reset (rrpv d)\<rparr>
      else d\<lparr>rrpv := SatCounter_dec (rrpv d)\<rparr>)"

definition BRRIP_reset :: "brrip_params \<Rightarrow> nat \<Rightarrow> 'a brrip_data_scheme \<Rightarrow> 'a brrip_data_scheme" where
  "BRRIP_reset p draw d =
     (let r = fst (SatCounter_saturate (rrpv d));
          r = (if draw \<le> btp p then SatCounter_dec r else r)
      in d\<lparr>rrpv := r, valid := True\<rparr>)"

text \<open>The scan returns the first invalid candidate (\<open>Inl\<close>) or the candidate of highest RRPV.\<close>

fun BRRIP_scan ::
  "(entry \<Rightarrow> 'a brrip_data_scheme) \<Rightarrow> entry list \<Rightarrow> entry \<Rightarrow> nat \<Rightarrow> entry + entry" where
  "BRRIP_scan d [] victim victim_RRPV = Inr victim"
| "BRRIP_scan d (candidate # cs) victim victim_RRPV =
     (if \<not> valid (d candidate) then Inl candidate
      else
        let candidate_RRPV = unat (counter (rrpv (d candidate))) in
        if candidate_RRPV > victim_RRPV then BRRIP_scan d cs candidate candidate_RRPV
        else BRRIP_scan d cs victim victim_RRPV)"

definition upd_rrpv ::
  "entry \<Rightarrow> (SatCounter8 \<Rightarrow> SatCounter8) \<Rightarrow> (entry \<Rightarrow> 'a brrip_data_scheme) \<Rightarrow> entry \<Rightarrow> 'a brrip_data_scheme" where
  "upd_rrpv e f d = d(e := (d e)\<lparr>rrpv := f (rrpv (d e))\<rparr>)"

definition BRRIP_getVictim ::
  "(entry \<Rightarrow> 'a brrip_data_scheme) \<Rightarrow> entry list \<Rightarrow> ((entry \<Rightarrow> 'a brrip_data_scheme) \<times> entry) result" where
  "BRRIP_getVictim d candidates =
     assert_that (length candidates > 0) ''candidates.size() > 0''
       (let victim0 = candidates ! 0 in
        case BRRIP_scan d candidates victim0 (unat (counter (rrpv (d victim0)))) of
          Inl candidate \<Rightarrow> Inr (d, candidate)
        | Inr victim \<Rightarrow>
            let diff = uint (snd (SatCounter_saturate (rrpv (d victim))));
                d1 = upd_rrpv victim (\<lambda>c. fst (SatCounter_saturate c)) d
            in Inr (if diff > 0
                    then fold (\<lambda>candidate. upd_rrpv candidate (\<lambda>c. SatCounter_add_nonneg c diff)) candidates d1
                    else d1,
                    victim))"

record ship_data = brrip_data +
  signature :: nat
  outcome :: bool

record ship_state =
  SHCT :: "SatCounter8 list"
  ship_repl :: "entry \<Rightarrow> ship_data"

definition SHiP_setSignature :: "nat \<Rightarrow> ship_data \<Rightarrow> ship_data" where
  "SHiP_setSignature sig d = d\<lparr>signature := sig, outcome := False\<rparr>"

definition SHiP_setReReferenced :: "ship_data \<Rightarrow> ship_data" where
  "SHiP_setReReferenced d = d\<lparr>outcome := True\<rparr>"

definition upd_SHCT :: "nat \<Rightarrow> (SatCounter8 \<Rightarrow> SatCounter8) \<Rightarrow> ship_state \<Rightarrow> ship_state result" where
  "upd_SHCT sig f s =
     (if sig < length (SHCT s) then Inr (s\<lparr>SHCT := (SHCT s)[sig := f (SHCT s ! sig)]\<rparr>)
      else Inl (Undefined ''vector index''))"

definition upd_ship :: "entry \<Rightarrow> (ship_data \<Rightarrow> ship_data) \<Rightarrow> ship_state \<Rightarrow> ship_state" where
  "upd_ship e f s = s\<lparr>ship_repl := (ship_repl s)(e := f (ship_repl s e))\<rparr>"

definition SHiP_invalidate :: "entry \<Rightarrow> ship_state \<Rightarrow> ship_state result" where
  "SHiP_invalidate e s =
     rbind (if outcome (ship_repl s e) then upd_SHCT (signature (ship_repl s e)) SatCounter_dec s else Inr s)
       (\<lambda>s1. Inr (upd_ship e BRRIP_invalidate s1))"

text \<open>\<open>sig\<close> is \<open>getSignature(pkt)\<close> of the derived class.\<close>

definition SHiP_touch :: "brrip_params \<Rightarrow> nat \<Rightarrow> entry \<Rightarrow> ship_state \<Rightarrow> ship_state result" where
  "SHiP_touch p sig e s =
     rbind (upd_SHCT sig SatCounter_inc s)
       (\<lambda>s1. Inr (upd_ship e (BRRIP_touch p) (upd_ship e SHiP_setReReferenced s1)))"

text \<open>
  \<open>reached\<close> is the floating-point test \<open>calcSaturation() >= insertionThreshold\<close>.
\<close>

definition SHiP_reset ::
  "brrip_params \<Rightarrow> (SatCounter8 \<Rightarrow> bool) \<Rightarrow> nat \<Rightarrow> nat \<Rightarrow> entry \<Rightarrow> ship_state \<Rightarrow> ship_state result" where
  "SHiP_reset p reached draw sig e s =
     (let s1 = upd_ship e (BRRIP_reset p draw) (upd_ship e (SHiP_setSignature sig) s) in
      if sig \<ge> length (SHCT s1) then Inl (Undefined ''vector index'')
      else Inr (if reached (SHCT s1 ! sig)
                then upd_ship e (\<lambda>d. d\<lparr>rrpv := SatCounter_dec (rrpv d)\<rparr>) s1 else s1))"

definition SHiPMem_getSignature :: "Addr \<Rightarrow> ship_state \<Rightarrow> nat" where
  "SHiPMem_getSignature addr s = unat addr mod length (SHCT s)"

text \<open>\<open>NO_PC_SIGNATURE\<close> is 0.\<close>

definition SHiPPC_getSignature :: "Addr option \<Rightarrow> ship_state \<Rightarrow> nat" where
  "SHiPPC_getSignature pc s =
     (case pc of Some a \<Rightarrow> unat a | None \<Rightarrow> 0) mod length (SHCT s)"

section \<open>Set dueling\<close>

record dueler =
  dueler_isSample :: "64 word"
  dueler_team :: "64 word"

definition Dueler_new :: dueler where
  "Dueler_new = \<lparr>dueler_isSample = 0, dueler_team = 0\<rparr>"

definition Dueler_setSample :: "64 word \<Rightarrow> bool \<Rightarrow> dueler \<Rightarrow> dueler result" where
  "Dueler_setSample ident team d =
     panic_if (popCount ident \<noteq> 1) ''The id must have a single bit set.''
       (panic_if (dueler_isSample d AND ident \<noteq> 0) ''This dueler is already a sample''
          (Inr (d\<lparr>dueler_isSample := dueler_isSample d OR ident,
                   dueler_team := (if team then dueler_team d OR ident else dueler_team d)\<rparr>)))"

definition Dueler_isSample :: "64 word \<Rightarrow> dueler \<Rightarrow> bool \<times> bool" where
  "Dueler_isSample ident d = (dueler_isSample d AND ident \<noteq> 0, dueler_team d AND ident \<noteq> 0)"

record dueling_monitor =
  dm_id :: "64 word"
  constituencySize :: nat
  teamSize :: nat
  selector :: "32 sat_counter"
  regionCounter :: nat
  winner :: bool

text \<open>
  \<open>low\<close> is the floating-point test \<open>calcSaturation() < lowThreshold\<close> and \<open>high\<close> the test
  \<open>calcSaturation() >= highThreshold\<close>; the range checks of the thresholds are on doubles and not
  modelled. \<open>1 << numInstances\<close> is computed on \<open>int\<close>.
\<close>

definition DuelingMonitor_new ::
  "(32 sat_counter \<Rightarrow> bool) \<Rightarrow> nat \<Rightarrow> nat \<Rightarrow> nat \<Rightarrow> nat \<Rightarrow> dueling_monitor result" where
  "DuelingMonitor_new low numInstances constituency_size team_size num_bits =
     (if numInstances \<ge> 32 then Inl (Undefined ''shift count'')
      else rbind (SatCounter_new num_bits 0) (\<lambda>c.
        fatal_if (constituency_size < 2 * team_size)
          ''There must be at least team size entries per team in a constituency''
          (rbind (SatCounter_shr (fst (SatCounter_saturate c)) 1) (\<lambda>sel.
            Inr \<lparr>dm_id = scast (push_bit numInstances (1 :: 32 word)),
                 constituencySize = constituency_size, teamSize = team_size,
                 selector = sel, regionCounter = 0, winner = \<not> low sel\<rparr>))))"

definition DuelingMonitor_sample ::
  "(32 sat_counter \<Rightarrow> bool) \<Rightarrow> (32 sat_counter \<Rightarrow> bool) \<Rightarrow> dueler \<Rightarrow> dueling_monitor \<Rightarrow> dueling_monitor" where
  "DuelingMonitor_sample low high d m =
     (let (is_sample, team) = Dueler_isSample (dm_id m) d in
      if is_sample then
        if team then
          let m1 = m\<lparr>selector := SatCounter_inc (selector m)\<rparr>
          in if high (selector m1) then m1\<lparr>winner := True\<rparr> else m1
        else
          let m1 = m\<lparr>selector := SatCounter_dec (selector m)\<rparr>
          in if low (selector m1) then m1\<lparr>winner := False\<rparr> else m1
      else m)"

definition DuelingMonitor_initEntry :: "dueler \<Rightarrow> dueling_monitor \<Rightarrow> (dueling_monitor \<times> dueler) result" where
  "DuelingMonitor_initEntry d m =
     rbind (if regionCounter m < teamSize m then Dueler_setSample (dm_id m) False d
            else if regionCounter m \<ge> constituencySize m - teamSize m then Dueler_setSample (dm_id m) True d
            else Inr d)
       (\<lambda>d'. let rc = regionCounter m + 1
             in Inr (m\<lparr>regionCounter := (if rc \<ge> constituencySize m then 0 else rc)\<rparr>, d'))"

text \<open>
  The dueling policy, over two policies given by their operations; the replacement data of both
  policies and the dueler of each entry are stored by entry.
\<close>

record ('a, 'b) dueling =
  stateA :: 'a
  stateB :: 'b
  monitor :: dueling_monitor
  duelers :: "entry \<Rightarrow> dueler"

definition Dueling_invalidate ::
  "(entry \<Rightarrow> 'a \<Rightarrow> 'a) \<Rightarrow> (entry \<Rightarrow> 'b \<Rightarrow> 'b) \<Rightarrow> entry \<Rightarrow> ('a, 'b) dueling \<Rightarrow> ('a, 'b) dueling" where
  "Dueling_invalidate invalidateA invalidateB e s =
     s\<lparr>stateA := invalidateA e (stateA s), stateB := invalidateB e (stateB s)\<rparr>"

definition Dueling_touch ::
  "(entry \<Rightarrow> 'a \<Rightarrow> 'a) \<Rightarrow> (entry \<Rightarrow> 'b \<Rightarrow> 'b) \<Rightarrow> entry \<Rightarrow> ('a, 'b) dueling \<Rightarrow> ('a, 'b) dueling" where
  "Dueling_touch touchA touchB e s =
     s\<lparr>stateA := touchA e (stateA s), stateB := touchB e (stateB s)\<rparr>"

definition Dueling_reset ::
  "(entry \<Rightarrow> 'a \<Rightarrow> 'a) \<Rightarrow> (entry \<Rightarrow> 'b \<Rightarrow> 'b) \<Rightarrow> (32 sat_counter \<Rightarrow> bool) \<Rightarrow> (32 sat_counter \<Rightarrow> bool) \<Rightarrow>
     entry \<Rightarrow> ('a, 'b) dueling \<Rightarrow> ('a, 'b) dueling" where
  "Dueling_reset resetA resetB low high e s =
     s\<lparr>stateA := resetA e (stateA s), stateB := resetB e (stateB s),
       monitor := DuelingMonitor_sample low high (duelers s e) (monitor s)\<rparr>"

definition Dueling_getVictim ::
  "('a \<Rightarrow> entry list \<Rightarrow> ('a \<times> entry) result) \<Rightarrow> ('b \<Rightarrow> entry list \<Rightarrow> ('b \<times> entry) result) \<Rightarrow>
     ('a, 'b) dueling \<Rightarrow> entry list \<Rightarrow> (('a, 'b) dueling \<times> entry) result" where
  "Dueling_getVictim victimA victimB s candidates =
     panic_if (length candidates \<noteq> teamSize (monitor s))
       ''We currently only support team sizes that match the number of replacement candidates''
       (if candidates = [] then Inl (Undefined ''vector index'')
        else
          let win = \<not> winner (monitor s);
              sample_of = (\<lambda>c. Dueler_isSample (dm_id (monitor s)) (duelers s c));
              (is_sample, team) = sample_of (candidates ! 0);
              team_a = (is_sample \<and> \<not> team) \<or> (\<not> is_sample \<and> \<not> win)
          in panic_if (\<exists>c \<in> set candidates. fst (sample_of c) \<and> team \<noteq> snd (sample_of c))
               ''Not all sampled candidates belong to the same team''
               (if team_a
                then rbind (victimA (stateA s) candidates) (\<lambda>(a, v). Inr (s\<lparr>stateA := a\<rparr>, v))
                else rbind (victimB (stateB s) candidates) (\<lambda>(b, v). Inr (s\<lparr>stateB := b\<rparr>, v))))"

end
