(* ===== verification/Replacement_Correct.thy ===== *)
theory Replacement_Correct
  imports Replacement
begin

text \<open>
  Correctness of the replacement policies. The contract every client of a policy relies on is the
  locale \<open>replacement_policy\<close>; policies that scan for a smallest key share \<open>min_key_policy\<close>, which
  gives the contract; set dueling is proved over two policies with the contract.
\<close>

section \<open>The contract\<close>

locale replacement_policy =
  fixes getVictim :: "'s \<Rightarrow> entry list \<Rightarrow> ('s \<times> entry) result"
    and ok :: "'s \<Rightarrow> bool"
  assumes victim_candidate:
      "ok s \<Longrightarrow> cs \<noteq> [] \<Longrightarrow> \<exists>s' v. getVictim s cs = Inr (s', v) \<and> v \<in> set cs \<and> ok s'"
    and no_candidate: "getVictim s [] = Inl (AssertFail ''candidates.size() > 0'')"
begin

lemma victim_in: "ok s \<Longrightarrow> getVictim s cs = Inr (s', v) \<Longrightarrow> v \<in> set cs \<and> ok s'"
  using victim_candidate [of s cs] no_candidate [of s] by (cases "cs = []") auto

text \<open>A client that keeps evicting from the remaining candidates empties them all.\<close>

fun evict_all :: "nat \<Rightarrow> 's \<Rightarrow> entry list \<Rightarrow> entry list result" where
  "evict_all 0 s cs = Inr []"
| "evict_all (Suc n) s cs =
     rbind (getVictim s cs) (\<lambda>(s', v). rbind (evict_all n s' (removeAll v cs)) (\<lambda>vs. Inr (v # vs)))"

lemma evict_all_permutes:
  assumes "ok s" "distinct cs"
  shows "\<exists>vs. evict_all (length cs) s cs = Inr vs \<and> distinct vs \<and> set vs = set cs"
  using assms
proof (induction "length cs" arbitrary: s cs)
  case (Suc n)
  then have "cs \<noteq> []"
    by auto
  then obtain s' v where v: "getVictim s cs = Inr (s', v)" "v \<in> set cs" "ok s'"
    using victim_candidate [OF Suc.prems(1)] by blast
  let ?cs = "removeAll v cs"
  have n: "n = length ?cs"
    using Suc.hyps(2) Suc.prems(2) v(2) by (simp add: distinct_remove1_removeAll [symmetric] length_remove1)
  then obtain vs where "evict_all n s' ?cs = Inr vs" "distinct vs" "set vs = set ?cs"
    using Suc.hyps(1) [OF n v(3) distinct_removeAll [OF Suc.prems(2)]] n by auto
  then show ?case
    using v Suc.hyps(2) [symmetric] by auto
qed simp

end

section \<open>Scans for a smallest key\<close>

definition scan_min :: "('e \<Rightarrow> 'k::linorder) \<Rightarrow> 'e list \<Rightarrow> 'e \<Rightarrow> 'e" where
  "scan_min key = fold (\<lambda>c v. if key c < key v then c else v)"

lemma scan_min_props:
  "scan_min key cs v \<in> insert v (set cs) \<and> key (scan_min key cs v) \<le> key v \<and>
     (\<forall>c \<in> set cs. key (scan_min key cs v) \<le> key c)"
proof (induction cs arbitrary: v)
  case (Cons c cs)
  show ?case
    using Cons [of "if key c < key v then c else v"]
    by (auto simp: scan_min_def split: if_splits)
qed (simp add: scan_min_def)

lemma scan_min_unique:
  assumes "v \<in> set cs" "\<forall>c \<in> set cs. c \<noteq> v \<longrightarrow> key v < key c" "v0 \<in> set cs"
  shows "scan_min key cs v0 = v"
  using scan_min_props [of key cs v0] assms by (metis insert_iff leD)

locale min_key_policy =
  fixes victim :: "'s \<Rightarrow> entry list \<Rightarrow> entry result" and key :: "'s \<Rightarrow> entry \<Rightarrow> 'k::linorder"
  assumes scan: "cs \<noteq> [] \<Longrightarrow> victim s cs = Inr (scan_min (key s) cs (cs ! 0))"
    and no_candidates: "victim s [] = Inl (AssertFail ''candidates.size() > 0'')"
begin

lemma victim_min:
  assumes "cs \<noteq> []"
  shows "\<exists>v. victim s cs = Inr v \<and> v \<in> set cs \<and> (\<forall>c \<in> set cs. key s v \<le> key s c)"
  using scan [OF assms] scan_min_props [of "key s" cs "cs ! 0"] assms by auto

lemma victim_strict:
  assumes "v \<in> set cs" "\<forall>c \<in> set cs. c \<noteq> v \<longrightarrow> key s v < key s c"
  shows "victim s cs = Inr v"
  using scan [of cs s] scan_min_unique [OF assms, of "cs ! 0"] assms(1) by (cases cs) auto

text \<open>The policy as seen by a client: the state is unchanged by the search.\<close>

definition search :: "'s \<Rightarrow> entry list \<Rightarrow> ('s \<times> entry) result" where
  "search s cs = rbind (victim s cs) (\<lambda>v. Inr (s, v))"

end

sublocale min_key_policy \<subseteq> pol: replacement_policy search "\<lambda>_. True"
proof unfold_locales
  show "\<exists>s' v. search s cs = Inr (s', v) \<and> v \<in> set cs \<and> True" if "True" "cs \<noteq> []" for s cs
    using victim_min [OF that(2), of s] by (auto simp: search_def)
  show "search s [] = Inl (AssertFail ''candidates.size() > 0'')" for s
    by (simp add: search_def no_candidates)
qed

interpretation lru: min_key_policy LRU_getVictim "\<lambda>d e. lastTouchTick (d e)"
  by unfold_locales (simp_all add: LRU_getVictim_def scan_min_def)

interpretation lfu: min_key_policy LFU_getVictim "\<lambda>refCount e. refCount e"
  by unfold_locales (simp_all add: LFU_getVictim_def scan_min_def)

interpretation fifo: min_key_policy FIFO_getVictim "\<lambda>s e. tickInserted (repl_data s e)"
  by unfold_locales (simp_all add: FIFO_getVictim_def scan_min_def)

lemma weighted_scan_step:
  "(\<lambda>v. if sint (last_occ_ptr (d c)) < sint (last_occ_ptr (d v)) then c
       else if last_occ_ptr (d c) = last_occ_ptr (d v) then
         if lastTouchTick (d c) < lastTouchTick (d v) then c else v
       else v) =
   (\<lambda>v. if (sint (last_occ_ptr (d c)), lastTouchTick (d c)) < (sint (last_occ_ptr (d v)), lastTouchTick (d v))
       then c else v)"
  by (auto simp: fun_eq_iff dest: word_eq_iff_signed [THEN iffD2])

interpretation wlru: min_key_policy WeightedLRU_getVictim
  "\<lambda>d e. (sint (last_occ_ptr (d e)), lastTouchTick (d e))"
  by unfold_locales (simp_all only: WeightedLRU_getVictim_def scan_min_def weighted_scan_step, simp_all)

section \<open>MRU\<close>

lemma MRU_scan_props:
  "MRU_scan d cs v \<in> insert v (set cs) \<and>
   (if \<exists>c \<in> set cs. lastTouchTick (d c) = 0 then lastTouchTick (d (MRU_scan d cs v)) = 0
    else lastTouchTick (d v) \<le> lastTouchTick (d (MRU_scan d cs v)) \<and>
      (\<forall>c \<in> set cs. lastTouchTick (d c) \<le> lastTouchTick (d (MRU_scan d cs v))))"
proof (induction cs arbitrary: v)
  case (Cons c cs)
  show ?case
    using Cons [of c] Cons [of v] by (auto split: if_splits)
qed simp

section \<open>Second chance\<close>

lemma useSecondChance_fields:
  "repl_data (SecondChance_useSecondChance v s) e =
     (if e = v then \<lparr>tickInserted = timeTicks s + 1, hasSecondChance = False\<rparr> else repl_data s e)"
  by (simp add: SecondChance_useSecondChance_def FIFO_reset_def FIFO_stamp_def set_second_chance_def Let_def)

definition chances :: "fifo_state \<Rightarrow> entry list \<Rightarrow> entry set" where
  "chances s cs = {c \<in> set cs. hasSecondChance (repl_data s c)}"

lemma SecondChance_search_done:
  assumes "cs \<noteq> []"
  shows "\<exists>s' v. SecondChance_search cs s = Some (Inr (s', v)) \<and> v \<in> set cs \<and>
    \<not> hasSecondChance (repl_data s' v) \<and> chances s' cs \<subseteq> chances s cs \<and>
    (\<forall>e. e \<notin> set cs \<longrightarrow> repl_data s' e = repl_data s e)"
proof (induction "card (chances s cs)" arbitrary: s rule: less_induct)
  case less
  obtain v where v: "FIFO_getVictim s cs = Inr v" "v \<in> set cs"
    using fifo.victim_min [OF assms, of s] by auto
  show ?case
  proof (cases "hasSecondChance (repl_data s v)")
    case True
    let ?s = "SecondChance_useSecondChance v s"
    have sub: "chances ?s cs = chances s cs - {v}"
      by (auto simp: chances_def useSecondChance_fields split: if_splits)
    have "card (chances ?s cs) < card (chances s cs)"
      using True v(2) unfolding sub by (intro psubset_card_mono) (auto simp: chances_def)
    from less [OF this] obtain s' w where "SecondChance_search cs ?s = Some (Inr (s', w))" "w \<in> set cs"
      "\<not> hasSecondChance (repl_data s' w)" "chances s' cs \<subseteq> chances ?s cs"
      "\<forall>e. e \<notin> set cs \<longrightarrow> repl_data s' e = repl_data ?s e"
      by blast
    moreover have "SecondChance_search cs s = SecondChance_search cs ?s"
      by (subst SecondChance_search.simps) (simp add: v True)
    ultimately show ?thesis
      using sub v(2) by (auto simp: useSecondChance_fields)
  next
    case False
    then have "SecondChance_search cs s = Some (Inr (s, v))"
      by (subst SecondChance_search.simps) (simp add: v)
    with False v show ?thesis
      by auto
  qed
qed

interpretation second_chance: replacement_policy SecondChance_getVictim "\<lambda>_. True"
proof unfold_locales
  show "\<exists>s' v. SecondChance_getVictim s cs = Inr (s', v) \<and> v \<in> set cs \<and> True" if "True" "cs \<noteq> []" for s cs
    using SecondChance_search_done [OF that(2), of s] that(2)
    by (auto simp: SecondChance_getVictim_def find_Some_iff split: option.splits)
qed (simp add: SecondChance_getVictim_def)

section \<open>BRRIP\<close>

abbreviation rrpv_of :: "(entry \<Rightarrow> 'a brrip_data_scheme) \<Rightarrow> entry \<Rightarrow> nat" where
  "rrpv_of d c \<equiv> unat (counter (rrpv (d c)))"

lemma BRRIP_scan_invalid:
  "BRRIP_scan d cs v r = Inl c \<Longrightarrow> find (\<lambda>c. \<not> valid (d c)) cs = Some c"
  by (induction d cs v r rule: BRRIP_scan.induct) (auto simp: Let_def split: if_splits)

lemma BRRIP_scan_valid:
  "BRRIP_scan d cs v r = Inr w \<Longrightarrow> r = rrpv_of d v \<Longrightarrow>
     (\<forall>c \<in> set cs. valid (d c)) \<and> w \<in> insert v (set cs) \<and> rrpv_of d v \<le> rrpv_of d w \<and>
     (\<forall>c \<in> set cs. rrpv_of d c \<le> rrpv_of d w)"
proof (induction cs arbitrary: v r)
  case (Cons c cs)
  have c: "valid (d c)"
    using Cons.prems(1) by (auto split: if_splits)
  show ?case
  proof (cases "rrpv_of d c > r")
    case True
    then show ?thesis
      using Cons.IH [of c "rrpv_of d c"] Cons.prems c by auto
  next
    case False
    then show ?thesis
      using Cons.IH [of v r] Cons.prems c by auto
  qed
qed simp

lemma fold_upd_rrpv:
  "distinct cs \<Longrightarrow> fold (\<lambda>c. upd_rrpv c g) cs d e =
     (if e \<in> set cs then (d e)\<lparr>rrpv := g (rrpv (d e))\<rparr> else d e)"
  by (induction cs arbitrary: d) (auto simp: upd_rrpv_def)

text \<open>All counters of the candidates are in range and share the maximum.\<close>

definition rrpv_ok :: "8 word \<Rightarrow> (entry \<Rightarrow> 'a brrip_data_scheme) \<Rightarrow> bool" where
  "rrpv_ok M d \<longleftrightarrow> (\<forall>c. sat_ok (rrpv (d c)) \<and> maxVal (rrpv (d c)) = M)"

lemma saturate_diff:
  assumes "sat_ok c"
  shows "uint (snd (SatCounter_saturate c)) = uint (maxVal c) - uint (counter c)"
  using assms by (simp add: SatCounter_saturate_def Let_def sat_ok_def uint_diff_le)

text \<open>What the ageing step makes of the counter of one candidate.\<close>

lemma age_counter:
  assumes "sat_ok c" "sat_ok w" "maxVal c = maxVal w" "counter c \<le> counter w"
    "diff = uint (maxVal w) - uint (counter w)"
  shows "uint (counter (SatCounter_add_nonneg c diff)) = uint (counter c) + diff"
    and "uint (counter (SatCounter_add_nonneg (fst (SatCounter_saturate w)) diff)) = uint (counter w) + diff"
  using assms add_nonneg_clamp [OF assms(1), of diff] sat_ok_uint [OF assms(2)] uint_ge_0 [of "counter c"]
    add_nonneg_clamp [OF saturate_sat_ok [OF assms(2)], of diff]
  by (simp_all add: clamp_def word_le_def SatCounter_saturate_def Let_def)

lemma BRRIP_getVictim_valid:
  assumes ok: "rrpv_ok M d" and cs: "cs \<noteq> []" "distinct cs" and val: "\<forall>c \<in> set cs. valid (d c)"
  shows "\<exists>d' v. BRRIP_getVictim d cs = Inr (d', v) \<and> v \<in> set cs \<and>
    (\<forall>c \<in> set cs. rrpv_of d c \<le> rrpv_of d v) \<and>
    (\<forall>c \<in> set cs. rrpv_of d' c = rrpv_of d c + (unat M - rrpv_of d v)) \<and>
    (\<forall>e. valid (d' e) = valid (d e)) \<and> (\<forall>e. e \<notin> set cs \<longrightarrow> d' e = d e) \<and> rrpv_ok M d'"
proof -
  have "\<not> (\<exists>c. find (\<lambda>c. \<not> valid (d c)) cs = Some c)"
    using val by (auto simp: find_Some_iff)
  then obtain v where scan: "BRRIP_scan d cs (cs ! 0) (rrpv_of d (cs ! 0)) = Inr v"
    using BRRIP_scan_invalid by (cases "BRRIP_scan d cs (cs ! 0) (rrpv_of d (cs ! 0))") blast+
  have v: "v \<in> set cs" "\<forall>c \<in> set cs. rrpv_of d c \<le> rrpv_of d v"
    using BRRIP_scan_valid [OF scan refl] cs(1) by auto
  define diff where "diff = uint M - uint (counter (rrpv (d v)))"
  have D: "uint (snd (SatCounter_saturate (rrpv (d v)))) = diff"
    using saturate_diff [of "rrpv (d v)"] ok by (simp add: rrpv_ok_def diff_def)
  define d1 where "d1 = upd_rrpv v (\<lambda>c. fst (SatCounter_saturate c)) d"
  define d' where "d' = (if diff > 0 then fold (\<lambda>c. upd_rrpv c (\<lambda>c. SatCounter_add_nonneg c diff)) cs d1 else d1)"
  have res: "BRRIP_getVictim d cs = Inr (d', v)"
    using cs(1) by (simp add: BRRIP_getVictim_def scan Let_def D d1_def d'_def)
  have okc: "sat_ok (rrpv (d c))" "maxVal (rrpv (d c)) = M" for c
    using ok by (simp_all add: rrpv_ok_def)
  have "0 \<le> diff"
    using sat_ok_uint [OF okc(1), of v] by (simp add: diff_def okc)
  have le: "counter (rrpv (d c)) \<le> counter (rrpv (d v))" if "c \<in> set cs" for c
    using v(2) that by (simp add: word_le_nat_alt)
  have aged: "uint (counter (rrpv (d' c))) = uint (counter (rrpv (d c))) + diff \<and>
      same_limits (rrpv (d c)) (rrpv (d' c)) \<and> valid (d' c) = valid (d c)" if "c \<in> set cs" for c
    using that cs(2) \<open>0 \<le> diff\<close> okc [of c] okc [of v] le [OF that]
      age_counter [of "rrpv (d c)" "rrpv (d v)" diff]
    by (auto simp: d'_def d1_def fold_upd_rrpv upd_rrpv_def diff_def same_limits_def
        SatCounter_add_nonneg_def SatCounter_saturate_def Let_def)
  have frame: "d' e = d e" if "e \<notin> set cs" for e
    using that v(1) cs(2) by (auto simp: d'_def d1_def fold_upd_rrpv) (auto simp: upd_rrpv_def)
  have "rrpv_of d' c = rrpv_of d c + (unat M - rrpv_of d v)" if "c \<in> set cs" for c
  proof -
    have "int (rrpv_of d' c) = int (rrpv_of d c) + (int (unat M) - int (rrpv_of d v))"
      using aged [OF that] by (simp add: diff_def)
    moreover have "rrpv_of d v \<le> unat M"
      using okc [of v] by (simp add: sat_ok_def word_le_nat_alt)
    ultimately show ?thesis
      by linarith
  qed
  moreover have "sat_ok (rrpv (d' c)) \<and> maxVal (rrpv (d' c)) = M" for c
  proof (cases "c \<in> set cs")
    case True
    have "uint (counter (rrpv (d' c))) \<le> uint M"
      using aged [OF True] le [OF True] by (simp add: diff_def word_le_def)
    then show ?thesis
      using aged [OF True] okc [of c] by (simp add: sat_ok_def same_limits_def word_le_def)
  qed (simp add: frame okc)
  moreover have "valid (d' e) = valid (d e)" for e
    using aged [of e] frame [of e] by (cases "e \<in> set cs") auto
  ultimately show ?thesis
    using res v frame by (intro exI [of _ d'] exI [of _ v]) (auto simp: rrpv_ok_def)
qed

lemma rrpv_ok_upd:
  assumes "rrpv_ok M d" "\<And>c. sat_ok c \<Longrightarrow> sat_ok (f c) \<and> same_limits c (f c)"
  shows "rrpv_ok M (upd_rrpv e f d)"
  using assms(1) assms(2) [of "rrpv (d e)"] by (auto simp: rrpv_ok_def upd_rrpv_def same_limits_def)

lemma rrpv_ok_fold:
  assumes "rrpv_ok M d" "0 \<le> diff"
  shows "rrpv_ok M (fold (\<lambda>c. upd_rrpv c (\<lambda>c. SatCounter_add_nonneg c diff)) cs d)"
proof -
  have "sat_ok (SatCounter_add_nonneg c diff)" if "sat_ok c" for c :: SatCounter8
    using clamp_sat_ok [OF that _ add_nonneg_clamp [OF that assms(2)]] by simp
  then show ?thesis
    using assms(1) by (induction cs arbitrary: d) (simp_all add: rrpv_ok_upd)
qed

interpretation brrip: replacement_policy BRRIP_getVictim "rrpv_ok M" for M
proof unfold_locales
  fix d :: "entry \<Rightarrow> 'a brrip_data_scheme" and cs :: "entry list"
  assume d: "rrpv_ok M d" and cs: "cs \<noteq> []"
  show "\<exists>s' v. BRRIP_getVictim d cs = Inr (s', v) \<and> v \<in> set cs \<and> rrpv_ok M s'"
  proof (cases "BRRIP_scan d cs (cs ! 0) (rrpv_of d (cs ! 0))")
    case (Inl c)
    then have "c \<in> set cs"
      using BRRIP_scan_invalid by (metis find_Some_iff nth_mem)
    with Inl d cs show ?thesis
      by (simp add: BRRIP_getVictim_def Let_def)
  next
    case (Inr v)
    then have "v \<in> set cs"
      using BRRIP_scan_valid [OF Inr] cs by auto
    moreover have "rrpv_ok M (upd_rrpv v (\<lambda>c. fst (SatCounter_saturate c)) d)"
      using d by (intro rrpv_ok_upd) (simp_all add: saturate_sat_ok)
    ultimately show ?thesis
      using Inr cs by (simp add: BRRIP_getVictim_def Let_def rrpv_ok_fold)
  qed
qed (simp add: BRRIP_getVictim_def)

section \<open>Set dueling\<close>

locale dueling_policies =
  A: replacement_policy victimA okA + B: replacement_policy victimB okB
  for victimA :: "'a \<Rightarrow> entry list \<Rightarrow> ('a \<times> entry) result" and okA
    and victimB :: "'b \<Rightarrow> entry list \<Rightarrow> ('b \<times> entry) result" and okB
begin

definition team_of :: "('a, 'b) dueling \<Rightarrow> entry \<Rightarrow> bool option" where
  "team_of s c =
     (let (is_sample, team) = Dueler_isSample (dm_id (monitor s)) (duelers s c)
      in if is_sample then Some team else None)"

text \<open>
  Candidates of one sampled set use the policy of their team, and followers use the policy that
  is not losing: team \<open>True\<close> is counted up by the misses of \<open>B\<close>.
\<close>

lemma dueling_victim:
  assumes "okA (stateA s)" "okB (stateB s)" "cs \<noteq> []" "length cs = teamSize (monitor s)"
    "\<forall>c \<in> set cs. team_of s c = team"
  shows "\<exists>s' v. Dueling_getVictim victimA victimB s cs = Inr (s', v) \<and> v \<in> set cs \<and>
    okA (stateA s') \<and> okB (stateB s') \<and>
    (if team = Some False \<or> team = None \<and> winner (monitor s)
     then victimA (stateA s) cs = Inr (stateA s', v) \<and> stateB s' = stateB s
     else victimB (stateB s) cs = Inr (stateB s', v) \<and> stateA s' = stateA s)"
proof -
  obtain a v where A: "victimA (stateA s) cs = Inr (a, v)" "v \<in> set cs" "okA a"
    using A.victim_candidate [OF assms(1,3)] by blast
  obtain b w where B: "victimB (stateB s) cs = Inr (b, w)" "w \<in> set cs" "okB b"
    using B.victim_candidate [OF assms(2,3)] by blast
  let ?smp = "\<lambda>c. Dueler_isSample (dm_id (monitor s)) (duelers s c)"
  have team: "(if fst (?smp c) then Some (snd (?smp c)) else None) = team" if "c \<in> set cs" for c
    using assms(5) that by (simp add: team_of_def Let_def case_prod_beta)
  obtain i t where it: "?smp (cs ! 0) = (i, t)"
    by force
  have first: "team = (if i then Some t else None)"
    using team [of "cs ! 0"] it assms(3) by (cases i) auto
  have no_panic: "\<not> (\<exists>c \<in> set cs. fst (?smp c) \<and> t \<noteq> snd (?smp c))"
  proof
    assume "\<exists>c \<in> set cs. fst (?smp c) \<and> t \<noteq> snd (?smp c)"
    then obtain c where "c \<in> set cs" "fst (?smp c)" "t \<noteq> snd (?smp c)"
      by blast
    then show False
      using team [of c] first by (cases i) auto
  qed
  have "Dueling_getVictim victimA victimB s cs =
      (if i \<and> \<not> t \<or> \<not> i \<and> winner (monitor s) then Inr (s\<lparr>stateA := a\<rparr>, v) else Inr (s\<lparr>stateB := b\<rparr>, w))"
    unfolding Dueling_getVictim_def Let_def it prod.case panic_if_def if_not_P [OF no_panic]
    using assms(3,4) A(1) B(1) by simp
  then show ?thesis
    using assms(1,2) A B first by (cases i; cases t; cases "winner (monitor s)") simp_all
qed

end

interpretation drrip: dueling_policies BRRIP_getVictim "rrpv_ok M" BRRIP_getVictim "rrpv_ok N" for M N
  ..

section \<open>Tree-PLRU\<close>

lemma parent_less: "0 < i \<Longrightarrow> parentIndex i < i"
  by (simp add: parentIndex_def)

lemma parent_in_tree: "0 < i \<Longrightarrow> i \<le> 2 * m \<Longrightarrow> parentIndex i < m"
  by (auto simp: parentIndex_def)

lemma child_of_parent:
  assumes "0 < i"
  shows "(if isRightSubtree i then rightSubtreeIndex (parentIndex i) else leftSubtreeIndex (parentIndex i)) = i"
proof (cases "even i")
  case True
  then obtain k where "i = 2 * k"
    by (elim evenE)
  with assms have "i = 2 * (k - 1) + 2"
    by simp
  then show ?thesis
    by (simp add: isRightSubtree_def rightSubtreeIndex_def parentIndex_def)
next
  case False
  then obtain k where "i = 2 * k + 1"
    by (elim oddE)
  then show ?thesis
    by (simp add: isRightSubtree_def leftSubtreeIndex_def parentIndex_def)
qed

lemma TreePLRU_walk_ok:
  assumes "0 < i" "i \<le> 2 * length tree"
  shows "\<exists>t. TreePLRU_walk f i tree = Inr t \<and> length t = length tree \<and> (\<forall>j \<ge> i. t ! j = tree ! j)"
  using assms
proof (induction f i tree rule: TreePLRU_walk.induct)
  case (1 f i tree)
  let ?p = "parentIndex i" and ?t = "tree[parentIndex i := f (isRightSubtree i)]"
  have p: "?p < length tree" "?p < i"
    using 1(2,3) parent_in_tree parent_less by auto
  show ?case
  proof (cases "?p = 0")
    case True
    then have "TreePLRU_walk f i tree = Inr ?t"
      using 1(2) p by (subst TreePLRU_walk.simps) (simp add: Let_def)
    then show ?thesis
      using p by auto
  next
    case False
    then obtain t where "TreePLRU_walk f ?p ?t = Inr t" "length t = length tree" "\<forall>j \<ge> ?p. t ! j = ?t ! j"
      using 1(1) [OF refl refl _ refl] 1(2) p by auto
    moreover have "TreePLRU_walk f i tree = TreePLRU_walk f ?p ?t"
      using False 1(2) p by (subst TreePLRU_walk.simps) (simp add: Let_def)
    ultimately show ?thesis
      using p by auto
  qed
qed

lemma TreePLRU_descend_step:
  "i < length t \<Longrightarrow> TreePLRU_descend t i =
     TreePLRU_descend t (if t ! i then rightSubtreeIndex i else leftSubtreeIndex i)"
  by (subst TreePLRU_descend.simps) simp

lemma TreePLRU_descend_range:
  "i \<le> 2 * length t \<Longrightarrow> length t \<le> TreePLRU_descend t i \<and> TreePLRU_descend t i \<le> 2 * length t"
proof (induction t i rule: TreePLRU_descend.induct)
  case (1 t i)
  show ?case
  proof (cases "i < length t")
    case True
    then show ?thesis
      using 1(1) TreePLRU_descend_step [OF True] by (auto simp: rightSubtreeIndex_def leftSubtreeIndex_def)
  next
    case False
    then show ?thesis
      using 1(2) by (subst (1 2) TreePLRU_descend.simps) simp
  qed
qed

text \<open>After \<open>invalidate\<close> the walk from the root follows the path up that was just written.\<close>

lemma walk_towards:
  assumes "0 < i" "i \<le> 2 * length tree" "TreePLRU_walk (\<lambda>right. right) i tree = Inr t"
  shows "TreePLRU_descend t 0 = TreePLRU_descend t i"
  using assms
proof (induction i arbitrary: tree rule: less_induct)
  case (less i)
  let ?p = "parentIndex i" and ?t = "tree[parentIndex i := isRightSubtree i]"
  have p: "?p < length tree" "?p < i"
    using less(2,3) parent_in_tree parent_less by auto
  have walk: "TreePLRU_walk (\<lambda>right. right) i tree =
      (if ?p \<noteq> 0 then TreePLRU_walk (\<lambda>right. right) ?p ?t else Inr ?t)"
    using less(2) p by (subst TreePLRU_walk.simps) (simp add: Let_def)
  have t: "length t = length tree" "t ! ?p = isRightSubtree i"
    using TreePLRU_walk_ok [of ?p ?t "\<lambda>right. right"] walk less(4) p by (auto split: if_splits)
  have "TreePLRU_descend t ?p = TreePLRU_descend t i"
    using TreePLRU_descend_step [of ?p t] t p child_of_parent [OF less(2)] by simp
  moreover have "TreePLRU_descend t 0 = TreePLRU_descend t ?p"
    using less(1) [OF p(2), of ?t] walk less(4) p by (cases "?p = 0") auto
  ultimately show ?case
    by simp
qed

function root_child :: "nat \<Rightarrow> nat" where
  "root_child i = (if i \<le> 2 then i else root_child (parentIndex i))"
  by auto

termination
  by (relation "measure id") (auto simp: parentIndex_def)

declare root_child.simps [simp del]

lemma root_child_small: "root_child (Suc 0) = Suc 0" "root_child (Suc (Suc 0)) = Suc (Suc 0)"
  by (subst root_child.simps, simp)+

lemma root_child_of_child:
  assumes "0 < i"
  shows "root_child (rightSubtreeIndex i) = root_child i" "root_child (leftSubtreeIndex i) = root_child i"
  using assms by (subst root_child.simps; simp add: rightSubtreeIndex_def leftSubtreeIndex_def parentIndex_def)+

lemma root_child_descend: "0 < i \<Longrightarrow> root_child (TreePLRU_descend t i) = root_child i"
proof (induction t i rule: TreePLRU_descend.induct)
  case (1 t i)
  show ?case
  proof (cases "i < length t")
    case True
    then show ?thesis
      using 1 root_child_of_child [OF 1(2)] TreePLRU_descend_step [OF True]
      by (auto simp: rightSubtreeIndex_def leftSubtreeIndex_def)
  next
    case False
    then show ?thesis
      by (subst TreePLRU_descend.simps) simp
  qed
qed

lemma walk_root_bit:
  assumes "0 < i" "i \<le> 2 * length tree" "TreePLRU_walk f i tree = Inr t"
  shows "t ! 0 = f (isRightSubtree (root_child i)) \<and> root_child i \<in> {1, 2}"
  using assms
proof (induction i arbitrary: tree rule: less_induct)
  case (less i)
  let ?p = "parentIndex i" and ?t = "tree[parentIndex i := f (isRightSubtree i)]"
  have p: "?p < length tree" "?p < i"
    using less(2,3) parent_in_tree parent_less by auto
  have walk: "TreePLRU_walk f i tree = (if ?p \<noteq> 0 then TreePLRU_walk f ?p ?t else Inr ?t)"
    using less(2) p by (subst TreePLRU_walk.simps) (simp add: Let_def)
  show ?case
  proof (cases "?p = 0")
    case True
    then have "i \<le> 2"
      using less(2) by (auto simp: parentIndex_def)
    then show ?thesis
      using True walk less(2,4) p by (auto simp: root_child.simps)
  next
    case False
    then have "root_child i = root_child ?p"
      using less(2) by (subst root_child.simps) (auto simp: parentIndex_def)
    then show ?thesis
      using less(1) [OF p(2), of ?t] False walk less(4) p by auto
  qed
qed

lemma walk_away:
  assumes "0 < i" "i \<le> 2 * length tree" "TreePLRU_walk (\<lambda>right. \<not> right) i tree = Inr t"
  shows "TreePLRU_descend t 0 \<noteq> i"
proof -
  have bit0: "t ! 0 = (\<not> isRightSubtree (root_child i))" "root_child i \<in> {1, 2}"
    using walk_root_bit [OF assms] by auto
  have len: "0 < length t"
    using TreePLRU_walk_ok [OF assms(1,2), of "\<lambda>right. \<not> right"] assms by auto
  let ?c = "if t ! 0 then rightSubtreeIndex 0 else leftSubtreeIndex 0"
  have "root_child (TreePLRU_descend t 0) = root_child ?c"
    using TreePLRU_descend_step [OF len] root_child_descend [of ?c t]
    by (auto simp: rightSubtreeIndex_def leftSubtreeIndex_def)
  moreover have "root_child ?c \<noteq> root_child i"
    using bit0 by (cases "root_child i = 1")
      (auto simp: isRightSubtree_def rightSubtreeIndex_def leftSubtreeIndex_def root_child_small)
  ultimately show ?thesis
    by auto
qed

text \<open>The replacement data of the ways of one set, as \<open>instantiateEntry\<close> creates them.\<close>

definition plru_ways :: "nat \<Rightarrow> nat \<Rightarrow> plru_entry list" where
  "plru_ways n k = map (\<lambda>w. \<lparr>plru_index = w + n - 1, plru_tree = k\<rparr>) [0..<n]"

definition plru_ok :: "tree_plru \<Rightarrow> bool" where
  "plru_ok s \<longleftrightarrow> 1 < numLeaves s \<and> (\<forall>t \<in> set (trees s). length t = numLeaves s - 1)"

lemma plru_victim:
  assumes "plru_ok s" "k < length (trees s)"
  shows "\<exists>w < numLeaves s. TreePLRU_getVictim s (plru_ways (numLeaves s) k) = Inr (plru_ways (numLeaves s) k ! w) \<and>
    w + numLeaves s - 1 = TreePLRU_descend (trees s ! k) 0"
proof -
  have len: "length (trees s ! k) = numLeaves s - 1"
    using assms by (simp add: plru_ok_def)
  have "numLeaves s - 1 \<le> TreePLRU_descend (trees s ! k) 0" "TreePLRU_descend (trees s ! k) 0 \<le> 2 * (numLeaves s - 1)"
    using TreePLRU_descend_range [of 0 "trees s ! k"] len by simp_all
  then show ?thesis
    using assms(1)
    by (intro exI [of _ "TreePLRU_descend (trees s ! k) 0 - (numLeaves s - 1)"])
      (auto simp: TreePLRU_getVictim_def plru_ways_def plru_ok_def Let_def)
qed

lemma plru_walk_at:
  assumes "plru_ok s" "k < length (trees s)" "w < numLeaves s"
  shows "\<exists>t. TreePLRU_walk f (w + numLeaves s - 1) (trees s ! k) = Inr t \<and>
    plru_ok (s\<lparr>trees := (trees s)[k := t]\<rparr>)"
proof -
  have len: "length (trees s ! k) = numLeaves s - 1" "1 < numLeaves s"
    using assms by (simp_all add: plru_ok_def)
  have "0 < w + numLeaves s - 1" "w + numLeaves s - 1 \<le> 2 * length (trees s ! k)"
    using len assms(3) by auto
  then obtain t where "TreePLRU_walk f (w + numLeaves s - 1) (trees s ! k) = Inr t" "length t = numLeaves s - 1"
    using TreePLRU_walk_ok [of "w + numLeaves s - 1" "trees s ! k" f] len by auto
  then show ?thesis
    using assms(1) set_update_subset_insert [of "trees s" k t] by (auto simp: plru_ok_def)
qed

section \<open>Histories of LRU\<close>

fun LRU_run :: "(Tick \<times> entry) list \<Rightarrow> (entry \<Rightarrow> lru_data) \<Rightarrow> entry \<Rightarrow> lru_data" where
  "LRU_run [] d = d"
| "LRU_run ((t, e) # acc) d = LRU_run acc (LRU_touch t e d)"

text \<open>The position of the last access to an entry.\<close>

definition last_access :: "(Tick \<times> entry) list \<Rightarrow> entry \<Rightarrow> nat" where
  "last_access acc e = Max {i. i < length acc \<and> snd (acc ! i) = e}"

lemma LRU_run_snoc: "LRU_run (acc @ [(t, e)]) d = LRU_touch t e (LRU_run acc d)"
  by (induction acc d rule: LRU_run.induct) auto

lemma last_access_snoc:
  "last_access (acc @ [(t, e)]) e' = (if e' = e then length acc else last_access acc e')"
proof -
  have "{i. i < length (acc @ [(t, e)]) \<and> snd ((acc @ [(t, e)]) ! i) = e'} =
      {i. i < length acc \<and> snd (acc ! i) = e'} \<union> (if e' = e then {length acc} else {})"
    by (auto simp: nth_append less_Suc_eq)
  moreover have "Max ({i. i < length acc \<and> snd (acc ! i) = e'} \<union> {length acc}) = length acc"
    by (intro Max_eqI) auto
  ultimately show ?thesis
    by (auto simp: last_access_def)
qed

lemma LRU_run_tick:
  "e \<in> snd ` set acc \<Longrightarrow> last_access acc e < length acc \<and>
     lastTouchTick (LRU_run acc d e) = fst (acc ! last_access acc e)"
proof (induction acc rule: rev_induct)
  case (snoc x acc)
  then show ?case
    by (cases x) (auto simp: LRU_run_snoc LRU_touch_def last_access_snoc nth_append)
qed simp

section \<open>Dueling samples\<close>

lemma or_and_absorb: "(x OR y) AND y = (y :: 64 word)"
  by (rule bit_word_eqI) (auto simp: bit_simps)

lemma setSample_new:
  assumes "popCount i = 1"
  shows "\<exists>d. Dueler_setSample i team Dueler_new = Inr d \<and> Dueler_isSample i d = (True, team)"
proof -
  have "i \<noteq> 0"
    using assms by (auto simp: popCount_def)
  then show ?thesis
    using assms by (auto simp: Dueler_setSample_def Dueler_new_def Dueler_isSample_def)
qed

fun init_entries :: "nat \<Rightarrow> dueling_monitor \<Rightarrow> (dueling_monitor \<times> dueler list) result" where
  "init_entries 0 m = Inr (m, [])"
| "init_entries (Suc n) m =
     rbind (DuelingMonitor_initEntry Dueler_new m) (\<lambda>(m1, d).
       rbind (init_entries n m1) (\<lambda>(m2, ds). Inr (m2, d # ds)))"

definition sample_plan :: "dueling_monitor \<Rightarrow> nat \<Rightarrow> bool \<times> bool" where
  "sample_plan m j = (j < teamSize m \<or> constituencySize m - teamSize m \<le> j, constituencySize m - teamSize m \<le> j)"

lemma initEntry_plan:
  assumes "popCount (dm_id m) = 1" "2 * teamSize m \<le> constituencySize m" "regionCounter m < constituencySize m"
  shows "\<exists>d. DuelingMonitor_initEntry Dueler_new m =
      Inr (m\<lparr>regionCounter := Suc (regionCounter m) mod constituencySize m\<rparr>, d) \<and>
    Dueler_isSample (dm_id m) d = sample_plan m (regionCounter m)"
proof -
  obtain a b where ab: "Dueler_setSample (dm_id m) False Dueler_new = Inr a" "Dueler_isSample (dm_id m) a = (True, False)"
    "Dueler_setSample (dm_id m) True Dueler_new = Inr b" "Dueler_isSample (dm_id m) b = (True, True)"
    using setSample_new [OF assms(1)] by blast
  have "Dueler_isSample (dm_id m) Dueler_new = (False, False)"
    by (simp add: Dueler_isSample_def Dueler_new_def)
  moreover have "(if constituencySize m \<le> regionCounter m + 1 then 0 else regionCounter m + 1)
      = Suc (regionCounter m) mod constituencySize m"
    using assms(3) by (auto simp: mod_Suc less_eq_Suc_le le_antisym)
  ultimately show ?thesis
    using ab assms by (auto simp: DuelingMonitor_initEntry_def sample_plan_def Let_def)
qed

lemma init_entries_plan:
  assumes "popCount (dm_id m) = 1" "2 * teamSize m \<le> constituencySize m"
    "regionCounter m + n \<le> constituencySize m" "0 < constituencySize m" "regionCounter m < constituencySize m"
  shows "\<exists>ds. init_entries n m = Inr (m\<lparr>regionCounter := (regionCounter m + n) mod constituencySize m\<rparr>, ds) \<and>
    map (Dueler_isSample (dm_id m)) ds = map (sample_plan m) [regionCounter m..<regionCounter m + n]"
  using assms
proof (induction n arbitrary: m)
  case (Suc n)
  let ?m = "m\<lparr>regionCounter := Suc (regionCounter m) mod constituencySize m\<rparr>"
  obtain d where d: "DuelingMonitor_initEntry Dueler_new m = Inr (?m, d)"
    "Dueler_isSample (dm_id m) d = sample_plan m (regionCounter m)"
    using initEntry_plan [of m] Suc.prems by auto
  show ?case
  proof (cases n)
    case 0
    then show ?thesis
      using d by simp
  next
    case (Suc k)
    then have lt: "Suc (regionCounter m) < constituencySize m"
      using Suc.prems(3) by simp
    then obtain ds where ds: "init_entries n ?m = Inr (?m\<lparr>regionCounter := (Suc (regionCounter m) + n) mod constituencySize m\<rparr>, ds)"
      "map (Dueler_isSample (dm_id m)) ds = map (sample_plan ?m) [Suc (regionCounter m)..<Suc (regionCounter m) + n]"
      using Suc.IH [of ?m] Suc.prems by auto
    have "sample_plan ?m = sample_plan m"
      by (simp add: sample_plan_def fun_eq_iff)
    moreover have "[regionCounter m..<regionCounter m + Suc n] = regionCounter m # [Suc (regionCounter m)..<Suc (regionCounter m) + n]"
      by (simp add: upt_conv_Cons del: upt_Suc)
    ultimately show ?thesis
      using d ds lt by (simp del: upt_Suc)
  qed
qed simp

section \<open>Properties\<close>

text \<open>After any sequence of touches at increasing ticks, among candidates that have all been
  touched \<open>LRU\<close> evicts the one whose last access is the earliest.\<close>

theorem LRU_evicts_least_recent:
  assumes "sorted_wrt (<) (map fst acc)" "cs \<noteq> []" "set cs \<subseteq> snd ` set acc"
  shows "\<exists>v. LRU_getVictim (LRU_run acc d) cs = Inr v \<and> v \<in> set cs \<and>
    (\<forall>c \<in> set cs. last_access acc v \<le> last_access acc c)"
proof -
  obtain v where v: "LRU_getVictim (LRU_run acc d) cs = Inr v" "v \<in> set cs"
    "\<forall>c \<in> set cs. lastTouchTick (LRU_run acc d v) \<le> lastTouchTick (LRU_run acc d c)"
    using lru.victim_min [OF assms(2), of "LRU_run acc d"] by blast
  have "last_access acc v \<le> last_access acc c" if "c \<in> set cs" for c
  proof (rule ccontr)
    assume "\<not> ?thesis"
    then have "fst (acc ! last_access acc c) < fst (acc ! last_access acc v)"
      using sorted_wrt_nth_less [OF assms(1)] LRU_run_tick [of v acc d] v(2) assms(3) by force
    then show False
      using v(3) that LRU_run_tick [of c acc d] LRU_run_tick [of v acc d] assms(3) v(2) by force
  qed
  with v show ?thesis
    by blast
qed

text \<open>The search of \<open>SecondChance\<close> ends for every non-empty list of candidates; the victim is a
  candidate without a second chance, no candidate gains one, and other entries are untouched.\<close>

theorem SecondChance_terminates:
  assumes "cs \<noteq> []"
  shows "\<exists>s' v. SecondChance_getVictim s cs = Inr (s', v) \<and> v \<in> set cs \<and>
    \<not> hasSecondChance (repl_data s' v) \<and>
    (\<forall>c \<in> set cs. hasSecondChance (repl_data s' c) \<longrightarrow> hasSecondChance (repl_data s c)) \<and>
    (\<forall>e. e \<notin> set cs \<longrightarrow> repl_data s' e = repl_data s e)"
proof (cases "find (\<lambda>c. tickInserted (repl_data s c) = 0 \<and> \<not> hasSecondChance (repl_data s c)) cs")
  case None
  then show ?thesis
    using SecondChance_search_done [OF assms, of s] assms
    by (auto simp: SecondChance_getVictim_def chances_def)
next
  case (Some c)
  then have "c \<in> set cs" "\<not> hasSecondChance (repl_data s c)"
    by (auto simp: find_Some_iff)
  with Some assms show ?thesis
    by (auto simp: SecondChance_getVictim_def)
qed

text \<open>C29: with at least two leaves, \<open>TreePLRU\<close> never evicts the way just touched, and evicts
  exactly the way just invalidated, whatever the tree held before.\<close>

theorem TreePLRU_touch_invalidate:
  assumes "plru_ok s" "k < length (trees s)" "w < numLeaves s"
  shows "\<exists>s1 s2 v. TreePLRU_touch (plru_ways (numLeaves s) k ! w) s = Inr s1 \<and>
    TreePLRU_getVictim s1 (plru_ways (numLeaves s) k) = Inr v \<and>
    v \<in> set (plru_ways (numLeaves s) k) \<and> v \<noteq> plru_ways (numLeaves s) k ! w \<and>
    TreePLRU_invalidate (plru_ways (numLeaves s) k ! w) s = Inr s2 \<and>
    TreePLRU_getVictim s2 (plru_ways (numLeaves s) k) = Inr (plru_ways (numLeaves s) k ! w)"
proof -
  let ?n = "numLeaves s" and ?i = "w + numLeaves s - 1" and ?ways = "plru_ways (numLeaves s) k"
  have way: "?ways ! w' = \<lparr>plru_index = w' + ?n - 1, plru_tree = k\<rparr>" if "w' < ?n" for w'
    using that by (simp add: plru_ways_def)
  have i: "0 < ?i" "?i \<le> 2 * length (trees s ! k)"
    using assms by (auto simp: plru_ok_def)
  obtain t1 where t1: "TreePLRU_walk (\<lambda>right. \<not> right) ?i (trees s ! k) = Inr t1"
    "plru_ok (s\<lparr>trees := (trees s)[k := t1]\<rparr>)"
    using plru_walk_at [OF assms] by blast
  obtain t2 where t2: "TreePLRU_walk (\<lambda>right. right) ?i (trees s ! k) = Inr t2"
    "plru_ok (s\<lparr>trees := (trees s)[k := t2]\<rparr>)"
    using plru_walk_at [OF assms] by blast
  have "length t2 = ?n - 1"
    using t2(2) assms(2) by (simp add: plru_ok_def set_update_memI)
  then have "\<not> ?i < length t2"
    using assms by (auto simp: plru_ok_def)
  then have "TreePLRU_descend t2 ?i = ?i"
    by (subst TreePLRU_descend.simps) (simp only: if_False)
  then have dir: "TreePLRU_descend t2 0 = ?i" "TreePLRU_descend t1 0 \<noteq> ?i"
    using walk_towards [OF i t2(1)] walk_away [OF i t1(1)] by simp_all
  let ?s1 = "s\<lparr>trees := (trees s)[k := t1]\<rparr>" and ?s2 = "s\<lparr>trees := (trees s)[k := t2]\<rparr>"
  obtain w1 where w1: "w1 < ?n" "TreePLRU_getVictim ?s1 ?ways = Inr (?ways ! w1)" "w1 \<noteq> w"
    using plru_victim [OF t1(2), of k] assms(2) dir(2) by auto
  obtain w2 where "TreePLRU_getVictim ?s2 ?ways = Inr (?ways ! w2)" "w2 + ?n - 1 = ?i"
    using plru_victim [OF t2(2), of k] assms(2) dir(1) by auto
  moreover from this(2) have "w2 = w"
    using assms(3) by linarith
  ultimately have w2: "TreePLRU_getVictim ?s2 ?ways = Inr (?ways ! w)"
    by simp
  have "?ways ! w1 \<noteq> ?ways ! w" "?ways ! w1 \<in> set ?ways"
    using w1 way assms by (auto simp: plru_ways_def plru_ok_def)
  then show ?thesis
    using w1 w2 t1(1) t2(1) way [OF assms(3)]
    by (intro exI [of _ ?s1] exI [of _ ?s2] exI [of _ "?ways ! w1"])
      (simp add: TreePLRU_touch_def TreePLRU_invalidate_def)
qed

theorem TreePLRU_touch_invalidate_witness:
  "let s = \<lparr>numLeaves = 4, plru_count = 4, trees = [[False, True, False]]\<rparr> in
   \<exists>s1 s2 v. TreePLRU_touch (plru_ways (numLeaves s) 0 ! 1) s = Inr s1 \<and>
    TreePLRU_getVictim s1 (plru_ways (numLeaves s) 0) = Inr v \<and>
    v \<in> set (plru_ways (numLeaves s) 0) \<and> v \<noteq> plru_ways (numLeaves s) 0 ! 1 \<and>
    TreePLRU_invalidate (plru_ways (numLeaves s) 0 ! 1) s = Inr s2 \<and>
    TreePLRU_getVictim s2 (plru_ways (numLeaves s) 0) = Inr (plru_ways (numLeaves s) 0 ! 1)"
  unfolding Let_def by (rule TreePLRU_touch_invalidate) (simp_all add: plru_ok_def)

text \<open>C30: on valid candidates with counters in range, \<open>BRRIP\<close> evicts a candidate of highest RRPV and
  ages all candidates by the same amount, so that the victim saturates and the differences between
  the candidates are kept; an invalid candidate is taken first, with nothing changed.\<close>

theorem BRRIP_victim_ages:
  assumes "rrpv_ok M d" "cs \<noteq> []" "distinct cs"
  shows "case find (\<lambda>c. \<not> valid (d c)) cs of
      Some c \<Rightarrow> BRRIP_getVictim d cs = Inr (d, c)
    | None \<Rightarrow> \<exists>d' v. BRRIP_getVictim d cs = Inr (d', v) \<and> v \<in> set cs \<and>
        (\<forall>c \<in> set cs. unat (counter (rrpv (d c))) \<le> unat (counter (rrpv (d v)))) \<and>
        (\<forall>c \<in> set cs. unat (counter (rrpv (d' c))) =
           unat (counter (rrpv (d c))) + (unat M - unat (counter (rrpv (d v))))) \<and>
        (\<forall>e. valid (d' e) = valid (d e)) \<and> (\<forall>e. e \<notin> set cs \<longrightarrow> d' e = d e) \<and> rrpv_ok M d'"
proof (cases "find (\<lambda>c. \<not> valid (d c)) cs")
  case None
  then have "\<forall>c \<in> set cs. valid (d c)"
    by (simp add: find_None_iff)
  from BRRIP_getVictim_valid [OF assms this] show ?thesis
    unfolding None by simp
next
  case (Some c)
  then have c: "c \<in> set cs" "\<not> valid (d c)"
    by (auto simp: find_Some_iff)
  have "BRRIP_scan d cs (cs ! 0) (unat (counter (rrpv (d (cs ! 0))))) = Inl c"
  proof (cases "BRRIP_scan d cs (cs ! 0) (unat (counter (rrpv (d (cs ! 0)))))")
    case (Inl e)
    then show ?thesis
      using BRRIP_scan_invalid [OF Inl] Some by simp
  next
    case (Inr v)
    then show ?thesis
      using BRRIP_scan_valid [OF Inr] c by blast
  qed
  with Some assms(2) show ?thesis
    by (simp add: BRRIP_getVictim_def Let_def)
qed

theorem BRRIP_victim_ages_witness:
  "let d = (\<lambda>e. \<lparr>rrpv = \<lparr>initialVal = 0, maxVal = 3, counter = (if e = 0 then 1 else 2)\<rparr>, valid = True\<rparr>) :: entry \<Rightarrow> brrip_data in
   \<exists>d' v. BRRIP_getVictim d [0, 1] = Inr (d', v) \<and> v \<in> set [0, 1]"
proof -
  define d :: "entry \<Rightarrow> brrip_data" where
    "d = (\<lambda>e. \<lparr>rrpv = \<lparr>initialVal = 0, maxVal = 3, counter = (if e = 0 then 1 else 2)\<rparr>, valid = True\<rparr>)"
  have "rrpv_ok 3 d" "find (\<lambda>c. \<not> valid (d c)) [0, 1] = None"
    by (auto simp: d_def rrpv_ok_def sat_ok_def)
  then show ?thesis
    using BRRIP_victim_ages [of 3 d "[0, 1]"] by (auto simp: d_def [symmetric])
qed

text \<open>C31: dueling of two \<open>BRRIP\<close> policies (the DRRIP configuration) returns a candidate and keeps both
  policies' counters in range; sampled sets use the policy of their team, other sets the policy the
  monitor favours, and only the policy used changes its replacement data.\<close>

theorem DRRIP_uses_selected_policy:
  assumes "rrpv_ok M (stateA s)" "rrpv_ok N (stateB s)" "cs \<noteq> []" "length cs = teamSize (monitor s)"
    "\<forall>c \<in> set cs. Dueler_isSample (dm_id (monitor s)) (duelers s c) = (sampled, sampled \<and> team)"
  shows "\<exists>s' v. Dueling_getVictim BRRIP_getVictim BRRIP_getVictim s cs = Inr (s', v) \<and> v \<in> set cs \<and>
    rrpv_ok M (stateA s') \<and> rrpv_ok N (stateB s') \<and>
    (if (if sampled then \<not> team else winner (monitor s))
     then BRRIP_getVictim (stateA s) cs = Inr (stateA s', v) \<and> stateB s' = stateB s
     else BRRIP_getVictim (stateB s) cs = Inr (stateB s', v) \<and> stateA s' = stateA s)"
proof -
  have "\<forall>c \<in> set cs. drrip.team_of s c = (if sampled then Some team else None)"
    using assms(5) by (simp add: drrip.team_of_def)
  from drrip.dueling_victim [OF assms(1-4) this] show ?thesis
    by (cases sampled; cases team) auto
qed

theorem DRRIP_uses_selected_policy_witness:
  "let d = (\<lambda>e. \<lparr>rrpv = \<lparr>initialVal = 0, maxVal = 3, counter = 1\<rparr>, valid = True\<rparr>) :: entry \<Rightarrow> brrip_data;
       m = \<lparr>dm_id = 1, constituencySize = 8, teamSize = 2,
            selector = \<lparr>initialVal = 0, maxVal = 1023, counter = 511\<rparr>, regionCounter = 0, winner = True\<rparr>;
       s = \<lparr>stateA = d, stateB = d, monitor = m, duelers = (\<lambda>_. Dueler_new)\<rparr> in
   \<exists>s' v. Dueling_getVictim BRRIP_getVictim BRRIP_getVictim s [4, 5] = Inr (s', v) \<and> v \<in> set [4, 5] \<and>
    rrpv_ok 3 (stateA s') \<and> rrpv_ok 3 (stateB s') \<and>
    (if (if False then \<not> False else winner (monitor s))
     then BRRIP_getVictim (stateA s) [4, 5] = Inr (stateA s', v) \<and> stateB s' = stateB s
     else BRRIP_getVictim (stateB s) [4, 5] = Inr (stateB s', v) \<and> stateA s' = stateA s)"
  unfolding Let_def
  by (rule DRRIP_uses_selected_policy)
    (simp_all add: rrpv_ok_def sat_ok_def Dueler_isSample_def Dueler_new_def)

text \<open>Initialising one constituency of fresh entries succeeds and makes exactly the first team-size
  entries samples of team \<open>False\<close> and the last team-size entries samples of team \<open>True\<close>; the region
  counter is back at 0.\<close>

theorem DuelingMonitor_samples:
  assumes "popCount (dm_id m) = 1" "2 * teamSize m \<le> constituencySize m" "0 < constituencySize m"
    "regionCounter m = 0"
  shows "\<exists>ds. init_entries (constituencySize m) m = Inr (m, ds) \<and> length ds = constituencySize m \<and>
    (\<forall>j < constituencySize m. Dueler_isSample (dm_id m) (ds ! j) =
       (j < teamSize m \<or> constituencySize m - teamSize m \<le> j, constituencySize m - teamSize m \<le> j))"
proof -
  obtain ds where "init_entries (constituencySize m) m = Inr (m\<lparr>regionCounter := 0\<rparr>, ds)"
    and ds: "map (Dueler_isSample (dm_id m)) ds = map (sample_plan m) [0..<constituencySize m]"
    using init_entries_plan [of m "constituencySize m"] assms by auto
  moreover have "m\<lparr>regionCounter := 0\<rparr> = m"
    using assms(4) by simp
  moreover have len: "length ds = constituencySize m"
    using arg_cong [OF ds, of length] by simp
  moreover have "Dueler_isSample (dm_id m) (ds ! j) = sample_plan m j" if "j < constituencySize m" for j
    using arg_cong [OF ds, of "\<lambda>xs. xs ! j"] that len by simp
  ultimately show ?thesis
    by (auto simp: sample_plan_def)
qed

text \<open>\<open>FIFO::invalidate\<close> stamps the entry like an insertion: while the time stamps have not
  wrapped, an invalidated entry is not the next victim when another candidate is present.\<close>

theorem FIFO_invalidate_not_next:
  assumes "\<forall>c \<in> set cs. tickInserted (repl_data s c) \<le> timeTicks s" "timeTicks s < - 1"
    "other \<in> set cs" "other \<noteq> e"
  shows "\<exists>v. FIFO_getVictim (FIFO_invalidate e s) cs = Inr v \<and> v \<in> set cs \<and> v \<noteq> e"
proof -
  let ?s = "FIFO_invalidate e s"
  have "cs \<noteq> []"
    using assms(3) by auto
  then obtain v where v: "FIFO_getVictim ?s cs = Inr v" "v \<in> set cs"
    "\<forall>c \<in> set cs. tickInserted (repl_data ?s v) \<le> tickInserted (repl_data ?s c)"
    using fifo.victim_min [of cs ?s] by blast
  have "timeTicks s < timeTicks s + 1"
  proof -
    have "unat (timeTicks s) + unat (1 :: Tick) < 2 ^ 64"
      using assms(2) by (simp add: word_less_nat_alt unsigned_minus_1_eq_mask mask_eq_exp_minus_1)
    then show ?thesis
      using unat_add_exact [of "timeTicks s" 1] by (simp add: word_less_nat_alt)
  qed
  moreover have "tickInserted (repl_data ?s e) = timeTicks s + 1" "repl_data ?s other = repl_data s other"
    using assms(4) by (simp_all add: FIFO_invalidate_def FIFO_stamp_def Let_def)
  ultimately have "tickInserted (repl_data ?s other) < tickInserted (repl_data ?s e)"
    using assms(1,3) by (metis order.strict_trans1)
  then have "v \<noteq> e"
    using v(3) assms(3) by (metis leD)
  with v show ?thesis
    by blast
qed

end
