(* ===== verification/Indexing.thy ===== *)
theory Indexing
  imports Bitfield
begin

text \<open>
  Cache indexing policies, \<open>mem/cache/tags/indexing_policies\<close>: the table of entries, the
  set-associative policy and the skewed-associative policy with its hash functions and their
  inverses.
\<close>

section \<open>The table\<close>

record indexing =
  assoc :: nat
  numSets :: "32 word"
  setShift :: nat
  setMask :: "32 word"
  tagShift :: nat
  sets :: "nat option list list"

definition IndexingPolicy_new :: "nat \<Rightarrow> 32 word \<Rightarrow> nat \<Rightarrow> indexing result" where
  "IndexingPolicy_new assc num_entries set_shift =
     (if assc = 0 then Inl (Undefined ''division by zero'')
      else
        let n = num_entries div of_nat assc in
        rbind (floorLog2 4 (ucast n)) (\<lambda>l.
          fatal_if (\<not> isPowerOf2 (ucast n)) ''# of sets must be non-zero and a power of 2''
            (Inr \<lparr>assoc = assc, numSets = n, setShift = set_shift, setMask = n - 1,
                  tagShift = set_shift + l,
                  sets = replicate (unat n) (replicate assc None)\<rparr>)))"

definition IndexingPolicy_setEntry :: "nat \<Rightarrow> nat \<Rightarrow> indexing \<Rightarrow> (indexing \<times> nat \<times> nat) result" where
  "IndexingPolicy_setEntry entry index ip =
     (let set' = index div assoc ip; way = index mod assoc ip in
      assert_that (set' < unat (numSets ip)) ''set < numSets''
        (Inr (ip\<lparr>sets := (sets ip)[set' := (sets ip ! set')[way := Some entry]]\<rparr>, set', way)))"

definition IndexingPolicy_extractTag :: "indexing \<Rightarrow> Addr \<Rightarrow> Addr" where
  "IndexingPolicy_extractTag ip addr = drop_bit (tagShift ip) addr"

section \<open>Set associative\<close>

definition SetAssociative_extractSet :: "indexing \<Rightarrow> Addr \<Rightarrow> 32 word" where
  "SetAssociative_extractSet ip addr = ucast (drop_bit (setShift ip) addr AND ucast (setMask ip))"

text \<open>\<open>getSet()\<close> is a \<open>uint32_t\<close>, so its shift is a 32-bit shift.\<close>

definition SetAssociative_regenerateAddr :: "indexing \<Rightarrow> Addr \<Rightarrow> 32 word \<Rightarrow> Addr" where
  "SetAssociative_regenerateAddr ip tag set' =
     push_bit (tagShift ip) tag OR ucast (push_bit (setShift ip) set')"

definition SetAssociative_getPossibleEntries :: "indexing \<Rightarrow> Addr \<Rightarrow> nat option list" where
  "SetAssociative_getPossibleEntries ip addr = sets ip ! unat (SetAssociative_extractSet ip addr)"

section \<open>Skewed associative\<close>

definition msbShift_of :: "indexing \<Rightarrow> nat result" where
  "msbShift_of ip = rbind (floorLog2 4 (ucast (numSets ip))) (\<lambda>l. Inr (l - 1))"

definition SkewedAssociative_new :: "nat \<Rightarrow> 32 word \<Rightarrow> nat \<Rightarrow> (indexing \<times> nat) result" where
  "SkewedAssociative_new assc num_entries set_shift =
     rbind (IndexingPolicy_new assc num_entries set_shift) (\<lambda>ip.
       rbind (msbShift_of ip) (\<lambda>msbShift.
         panic_if (setShift ip + 2 * (msbShift + 1) > 64)
           ''Unsuported number of bits for the skewing functions.''
           (fatal_if (numSets ip \<le> 2) ''The number of sets must be greater than 2''
              (Inr (ip, msbShift)))))"

definition SkewedAssociative_hash :: "nat \<Rightarrow> Addr \<Rightarrow> Addr" where
  "SkewedAssociative_hash msbShift addr =
     (let lsb = ucast (bf_bit addr 0) :: 8 word;
          msb = ucast (bf_bit addr msbShift) :: 8 word;
          xor_bit = msb XOR lsb
      in bf_insertBit (drop_bit 1 addr) msbShift (ucast xor_bit))"

definition SkewedAssociative_dehash :: "nat \<Rightarrow> Addr \<Rightarrow> Addr" where
  "SkewedAssociative_dehash msbShift addr =
     (let msb = ucast (bf_bit addr (msbShift - 1)) :: 8 word;
          xor_bit = ucast (bf_bit addr msbShift) :: 8 word;
          lsb = msb XOR xor_bit;
          addr_no_msb = bf_mbits addr (msbShift - 1) 0
      in bf_insertBit (push_bit 1 addr_no_msb) 0 (ucast lsb))"

definition SkewedAssociative_skew :: "nat \<Rightarrow> Addr \<Rightarrow> nat \<Rightarrow> Addr" where
  "SkewedAssociative_skew msbShift addr way =
     (let hash = SkewedAssociative_hash msbShift; dehash = SkewedAssociative_dehash msbShift;
          addr1 = bf_field addr msbShift 0;
          addr2 = bf_field addr (2 * (msbShift + 1) - 1) (msbShift + 1);
          r = (if way mod 8 = 0 then hash addr1 XOR hash addr2 XOR addr2
               else if way mod 8 = 1 then hash addr1 XOR hash addr2 XOR addr1
               else if way mod 8 = 2 then hash addr1 XOR dehash addr2 XOR addr2
               else if way mod 8 = 3 then hash addr1 XOR dehash addr2 XOR addr1
               else if way mod 8 = 4 then dehash addr1 XOR hash addr2 XOR addr2
               else if way mod 8 = 5 then dehash addr1 XOR hash addr2 XOR addr1
               else if way mod 8 = 6 then dehash addr1 XOR dehash addr2 XOR addr2
               else dehash addr1 XOR dehash addr2 XOR addr1)
      in (hash ^^ (way div 8)) r)"

definition SkewedAssociative_deskew :: "nat \<Rightarrow> Addr \<Rightarrow> nat \<Rightarrow> Addr" where
  "SkewedAssociative_deskew msbShift addr way =
     (let hash = SkewedAssociative_hash msbShift; dehash = SkewedAssociative_dehash msbShift;
          addr2 = bf_field addr (2 * (msbShift + 1) - 1) (msbShift + 1);
          addr1 = (if way \<ge> 8 then (dehash ^^ (way div 8)) (bf_field addr msbShift 0)
                   else bf_field addr msbShift 0)
      in if way mod 8 = 0 then dehash (addr1 XOR hash addr2 XOR addr2)
         else if way mod 8 = 1 then (hash ^^ msbShift) (addr1 XOR hash addr2)
         else if way mod 8 = 2 then dehash (addr1 XOR dehash addr2 XOR addr2)
         else if way mod 8 = 3 then (hash ^^ msbShift) (addr1 XOR dehash addr2)
         else if way mod 8 = 4 then hash (addr1 XOR hash addr2 XOR addr2)
         else if way mod 8 = 5 then (hash ^^ (msbShift + 1)) (addr1 XOR hash addr2)
         else if way mod 8 = 6 then hash (addr1 XOR dehash addr2 XOR addr2)
         else (hash ^^ (msbShift + 1)) (addr1 XOR dehash addr2))"

definition SkewedAssociative_extractSet :: "indexing \<Rightarrow> nat \<Rightarrow> Addr \<Rightarrow> nat \<Rightarrow> 32 word" where
  "SkewedAssociative_extractSet ip msbShift addr way =
     ucast (SkewedAssociative_skew msbShift (drop_bit (setShift ip) addr) way AND ucast (setMask ip))"

definition SkewedAssociative_regenerateAddr :: "indexing \<Rightarrow> nat \<Rightarrow> Addr \<Rightarrow> 32 word \<Rightarrow> nat \<Rightarrow> Addr" where
  "SkewedAssociative_regenerateAddr ip msbShift tag set' way =
     (let addr_set = push_bit (msbShift + 1) tag OR ucast set'
      in push_bit (tagShift ip) tag OR
         push_bit (setShift ip) (SkewedAssociative_deskew msbShift addr_set way AND ucast (setMask ip)))"

definition SkewedAssociative_getPossibleEntries :: "indexing \<Rightarrow> nat \<Rightarrow> Addr \<Rightarrow> nat option list" where
  "SkewedAssociative_getPossibleEntries ip msbShift addr =
     map (\<lambda>way. sets ip ! unat (SkewedAssociative_extractSet ip msbShift addr way) ! way) [0..<assoc ip]"

end
