(* ===== verification/Indexing_Correct.thy ===== *)
theory Indexing_Correct
  imports Indexing
begin

text \<open>
  Correctness of the indexing policies. An indexing policy promises that the address of a block can
  be regenerated from the tag and the position of its entry (locale \<open>indexing_policy\<close>). For the
  skewed policy this needs the inverses of its hash functions: the hash is a linear feedback shift
  register step on the set bits, and \<open>hash x XOR x\<close> is undone by \<open>msbShift\<close> further steps.
\<close>

section \<open>Bits of the hash functions\<close>

declare push_bit_Suc [simp del]

definition fits :: "nat \<Rightarrow> Addr \<Rightarrow> bool" where
  "fits k a \<longleftrightarrow> (\<forall>j. bit a j \<longrightarrow> j \<le> k)"

lemma bit_bf_bit: "bit (bf_bit a n) j \<longleftrightarrow> j = 0 \<and> bit a n"
  by (auto simp: bf_bit_def bf_bit_simps)

lemma bit_bf_insertBit:
  "b < 64 \<Longrightarrow> bit (bf_insertBit v b x) j \<longleftrightarrow> (if j = b then bit x 0 else bit v j)"
  by (auto simp: bf_insertBit_def bf_bit_simps)

lemma bit_hash:
  assumes "k < 64" "fits k a"
  shows "bit (SkewedAssociative_hash k a) j \<longleftrightarrow>
    (if j < k then bit a (j + 1) else j = k \<and> (bit a k \<noteq> bit a 0))"
  using assms
  by (auto simp: SkewedAssociative_hash_def Let_def bit_bf_insertBit bit_bf_bit bit_xor_iff bit_ucast_iff
      bit_drop_bit_eq fits_def)

lemma bit_dehash:
  assumes "0 < k" "k < 64"
  shows "bit (SkewedAssociative_dehash k a) j \<longleftrightarrow>
    (if j = 0 then bit a (k - 1) \<noteq> bit a k else j \<le> k \<and> bit a (j - 1))"
proof -
  have "(k - 1 + 1) mod 2 ^ 32 = k"
    using assms by simp
  then show ?thesis
    using assms
    by (auto simp: SkewedAssociative_dehash_def Let_def bit_bf_insertBit bit_bf_bit bit_xor_iff bit_ucast_iff
        bf_mbits_def bf_bit_simps bit_and_iff bit_not_iff bit_push_bit_iff)
qed

lemma fits_hash: "k < 64 \<Longrightarrow> fits k a \<Longrightarrow> fits k (SkewedAssociative_hash k a)"
  unfolding fits_def [of k "SkewedAssociative_hash k a"] by (simp add: bit_hash)

lemma fits_dehash: "0 < k \<Longrightarrow> k < 64 \<Longrightarrow> fits k (SkewedAssociative_dehash k a)"
  by (simp add: fits_def bit_dehash)

lemma fits_xor: "fits k a \<Longrightarrow> fits k b \<Longrightarrow> fits k (a XOR b)"
  by (auto simp: fits_def bit_xor_iff)

lemma dehash_hash: "0 < k \<Longrightarrow> k < 64 \<Longrightarrow> fits k a \<Longrightarrow> SkewedAssociative_dehash k (SkewedAssociative_hash k a) = a"
  by (rule bit_word_eqI) (auto simp: bit_dehash bit_hash fits_def)

lemma hash_dehash: "0 < k \<Longrightarrow> k < 64 \<Longrightarrow> fits k a \<Longrightarrow> SkewedAssociative_hash k (SkewedAssociative_dehash k a) = a"
  by (rule bit_word_eqI) (auto simp: bit_dehash bit_hash fits_dehash fits_def)

lemma hash_xor:
  "k < 64 \<Longrightarrow> fits k a \<Longrightarrow> fits k b \<Longrightarrow>
     SkewedAssociative_hash k (a XOR b) = SkewedAssociative_hash k a XOR SkewedAssociative_hash k b"
  by (rule bit_word_eqI) (auto simp: bit_hash fits_xor bit_xor_iff)

section \<open>The hash as a shift register\<close>

fun lfsr :: "nat \<Rightarrow> Addr \<Rightarrow> nat \<Rightarrow> bool" where
  "lfsr k x j = (if j \<le> k then bit x j else lfsr k x (j - 1) \<noteq> lfsr k x (j - 1 - k))"

declare lfsr.simps [simp del]

lemma lfsr_low: "j \<le> k \<Longrightarrow> lfsr k x j = bit x j"
  by (subst lfsr.simps) simp

lemma lfsr_step: "lfsr k x (j + k + 1) = (lfsr k x (j + k) \<noteq> lfsr k x j)"
  by (subst lfsr.simps) simp

lemma fits_hash_pow: "k < 64 \<Longrightarrow> fits k x \<Longrightarrow> fits k ((SkewedAssociative_hash k ^^ m) x)"
  by (induction m) (simp_all add: fits_hash)

lemma bit_hash_pow:
  assumes "k < 64" "fits k x" "j \<le> k"
  shows "bit ((SkewedAssociative_hash k ^^ m) x) j = lfsr k x (j + m)"
  using assms(3)
proof (induction m arbitrary: j)
  case (Suc m)
  show ?case
  proof (cases "j < k")
    case True
    then show ?thesis
      using Suc assms by (simp add: bit_hash fits_hash_pow)
  next
    case False
    with Suc.prems have "j = k"
      by simp
    then show ?thesis
      using Suc assms lfsr_step [of k x m] by (simp add: bit_hash fits_hash_pow add.commute)
  qed
qed (simp add: lfsr_low)

lemma hash_pow_xor:
  "k < 64 \<Longrightarrow> fits k a \<Longrightarrow> fits k b \<Longrightarrow>
     (SkewedAssociative_hash k ^^ m) (a XOR b) = (SkewedAssociative_hash k ^^ m) a XOR (SkewedAssociative_hash k ^^ m) b"
  by (induction m) (simp_all add: hash_xor fits_hash_pow)

lemma hash_pow_undoes:
  assumes "k < 64" "fits k x"
  shows "(SkewedAssociative_hash k ^^ k) (SkewedAssociative_hash k x XOR x) = x"
proof (rule bit_word_eqI)
  fix j
  let ?H = "SkewedAssociative_hash k"
  have eq: "(?H ^^ k) (?H x XOR x) = (?H ^^ Suc k) x XOR (?H ^^ k) x"
    using assms by (simp add: hash_pow_xor fits_hash funpow_swap1)
  show "bit ((?H ^^ k) (?H x XOR x)) j = bit x j"
  proof (cases "j \<le> k")
    case True
    then show ?thesis
      unfolding eq bit_xor_iff using assms lfsr_step [of k x j] lfsr_low [of j k x]
      by (simp only: bit_hash_pow) (auto simp: add.commute)
  next
    case False
    have "fits k ((?H ^^ k) (?H x XOR x))"
      using assms by (intro fits_hash_pow fits_xor fits_hash)
    with False show ?thesis
      using assms(2) by (auto simp: fits_def)
  qed
qed

lemma hash_pow_undoes_dehash:
  assumes "0 < k" "k < 64" "fits k x"
  shows "(SkewedAssociative_hash k ^^ Suc k) (SkewedAssociative_dehash k x XOR x) = x"
proof -
  let ?H = "SkewedAssociative_hash k"
  have "?H (SkewedAssociative_dehash k x XOR x) = ?H x XOR x"
    using assms by (simp add: hash_xor fits_dehash hash_dehash xor.commute)
  then show ?thesis
    using hash_pow_undoes [OF assms(2,3)] by (simp add: funpow_swap1)
qed

lemma dehash_pow_hash_pow:
  assumes "0 < k" "k < 64" "fits k y"
  shows "(SkewedAssociative_dehash k ^^ n) ((SkewedAssociative_hash k ^^ n) y) = y"
  using assms(3)
proof (induction n arbitrary: y)
  case (Suc n)
  then have "(SkewedAssociative_dehash k ^^ n) ((SkewedAssociative_hash k ^^ n) (SkewedAssociative_hash k y)) = SkewedAssociative_hash k y"
    using assms fits_hash by blast
  then show ?case
    using assms Suc.prems by (simp add: funpow_swap1 dehash_hash)
qed simp

lemma xor_cancel: "(x XOR u XOR v) XOR u XOR v = (x :: Addr)" "(x XOR u XOR y) XOR u = x XOR (y :: Addr)"
  by (rule bit_word_eqI; auto simp: bit_xor_iff)+

lemma fits_field: "fits k (bf_field a k 0)" "fits k (bf_field a (2 * (k + 1) - 1) (k + 1))"
  by (auto simp: fits_def bf_bit_simps)

lemma fits_skew:
  assumes "0 < k" "k < 64"
  shows "fits k (SkewedAssociative_skew k a way)"
  unfolding SkewedAssociative_skew_def Let_def
  using assms fits_field by (auto intro!: fits_hash_pow fits_xor fits_hash fits_dehash split: if_split)

lemma deskew_skew:
  assumes "0 < k" "k < 64" "bf_field b k 0 = SkewedAssociative_skew k a way"
    "bf_field b (2 * (k + 1) - 1) (k + 1) = bf_field a (2 * (k + 1) - 1) (k + 1)"
  shows "SkewedAssociative_deskew k b way = bf_field a k 0"
proof -
  let ?H = "SkewedAssociative_hash k" and ?D = "SkewedAssociative_dehash k"
  define x u where "x = bf_field a k 0" and "u = bf_field a (2 * (k + 1) - 1) (k + 1)"
  have f: "fits k x" "fits k u" "fits k (?H x)" "fits k (?H u)" "fits k (?D x)" "fits k (?D u)"
    unfolding x_def u_def using assms(1,2) fits_field by (auto intro!: fits_hash fits_dehash)
  define y where "y = (if way mod 8 = 0 then ?H x XOR ?H u XOR u
    else if way mod 8 = 1 then ?H x XOR ?H u XOR x
    else if way mod 8 = 2 then ?H x XOR ?D u XOR u
    else if way mod 8 = 3 then ?H x XOR ?D u XOR x
    else if way mod 8 = 4 then ?D x XOR ?H u XOR u
    else if way mod 8 = 5 then ?D x XOR ?H u XOR x
    else if way mod 8 = 6 then ?D x XOR ?D u XOR u
    else ?D x XOR ?D u XOR x)"
  have skew: "SkewedAssociative_skew k a way = (?H ^^ (way div 8)) y"
    by (simp only: SkewedAssociative_skew_def Let_def x_def u_def y_def)
  have "fits k y"
    unfolding y_def using f by (auto intro!: fits_xor)
  then have first: "(if way \<ge> 8 then (?D ^^ (way div 8)) (bf_field b k 0) else bf_field b k 0) = y"
    unfolding assms(3) skew using dehash_pow_hash_pow [OF assms(1,2)] by (auto simp: not_le)
  have "SkewedAssociative_deskew k b way =
     (if way mod 8 = 0 then ?D (y XOR ?H u XOR u)
      else if way mod 8 = 1 then (?H ^^ k) (y XOR ?H u)
      else if way mod 8 = 2 then ?D (y XOR ?D u XOR u)
      else if way mod 8 = 3 then (?H ^^ k) (y XOR ?D u)
      else if way mod 8 = 4 then ?H (y XOR ?H u XOR u)
      else if way mod 8 = 5 then (?H ^^ (k + 1)) (y XOR ?H u)
      else if way mod 8 = 6 then ?H (y XOR ?D u XOR u)
      else (?H ^^ (k + 1)) (y XOR ?D u))"
    unfolding SkewedAssociative_deskew_def Let_def first assms(4) u_def ..
  also have "\<dots> = x"
    unfolding y_def
    using assms(1,2) f hash_pow_undoes [of k x] hash_pow_undoes_dehash [of k x]
    by (simp add: xor_cancel dehash_hash hash_dehash)
  finally show ?thesis
    by (simp add: x_def)
qed

section \<open>The contract of an indexing policy\<close>

definition block_align :: "nat \<Rightarrow> Addr \<Rightarrow> Addr" where
  "block_align n a = a AND NOT (mask n)"

lemma bit_block_align: "bit (block_align n a) j \<longleftrightarrow> n \<le> j \<and> bit a j"
  using bit_imp_le_length [of a j] by (auto simp: block_align_def bit_simps)

locale indexing_policy =
  fixes ok :: "'c \<Rightarrow> bool" and shift :: "'c \<Rightarrow> nat"
    and tag :: "'c \<Rightarrow> Addr \<Rightarrow> Addr" and idx :: "'c \<Rightarrow> nat \<Rightarrow> Addr \<Rightarrow> 32 word"
    and regen :: "'c \<Rightarrow> Addr \<Rightarrow> 32 word \<Rightarrow> nat \<Rightarrow> Addr"
  assumes regenerate: "ok c \<Longrightarrow> regen c (tag c a) (idx c way a) way = block_align (shift c) a"
    and per_block: "ok c \<Longrightarrow> tag c (block_align (shift c) a) = tag c a \<and> idx c way (block_align (shift c) a) = idx c way a"
begin

text \<open>A hit in a way (same set, same tag) means the same block, and conversely.\<close>

lemma hit_iff_same_block:
  assumes "ok c"
  shows "tag c a = tag c b \<and> idx c way a = idx c way b \<longleftrightarrow> block_align (shift c) a = block_align (shift c) b"
  using regenerate [OF assms] per_block [OF assms] by metis

end

section \<open>Configurations\<close>

definition indexing_ok :: "nat \<Rightarrow> indexing \<Rightarrow> bool" where
  "indexing_ok l ip \<longleftrightarrow> l < 32 \<and> numSets ip = 2 ^ l \<and> setMask ip = 2 ^ l - 1 \<and> tagShift ip = setShift ip + l"

lemma unat_ucast_32_64: "unat (ucast (x :: 32 word) :: 64 word) = unat x"
proof -
  have "unat x < 2 ^ 32"
    using unsigned_less [of x, where 'a = nat] by simp
  then have "unat x < 2 ^ 64"
    by simp
  then show ?thesis
    by (simp add: unsigned_ucast_eq take_bit_nat_eq_self)
qed

lemma unat_power_32: "l < 32 \<Longrightarrow> unat (2 ^ l :: 32 word) = 2 ^ l"
  using unat_of_nat [where 'a = 32, of "2 ^ l"] power_strict_increasing [of l 32 "2 :: nat"] by simp

lemma power_of_two_sets:
  assumes "isPowerOf2 (ucast (n :: 32 word))"
  shows "\<exists>l < 32. n = 2 ^ l \<and> floorLog2 4 (ucast n) = Inr l"
proof -
  obtain l where l: "l < 64" "(ucast n :: 64 word) = 2 ^ l"
    using assms by (auto simp: isPowerOf2_iff)
  then have n: "unat n = 2 ^ l"
    using unat_ucast_32_64 [of n] unat_power_lower_64 by simp
  have "unat n < 2 ^ 32"
    using unsigned_less [of n, where 'a = nat] by simp
  then have "l < 32"
    unfolding n by (rule power_less_imp_less_exp [rotated]) simp
  then have "n = 2 ^ l"
    using n unat_power_32 by (simp add: word_unat_eq_iff)
  have nz: "(ucast n :: 64 word) \<noteq> 0" "unat (ucast n :: 64 word) < 2 ^ (8 * 4)"
    using n \<open>unat n < 2 ^ 32\<close> unat_ucast_32_64 [of n] by (auto simp flip: unat_eq_0)
  then obtain y where y: "floorLog2 4 (ucast n) = Inr y" "is_msb (ucast n) y"
    using floorLog2_is_msb [of "ucast n" 4] by blast
  then have "2 ^ y \<le> (2 ^ l :: nat)" "2 ^ l < (2 ^ (y + 1) :: nat)"
    using n by (simp_all add: is_msb_def unat_ucast_32_64)
  then have "y \<le> l" "l < y + 1"
    by (simp_all only: power_increasing_iff power_strict_increasing_iff one_less_numeral_iff semiring_norm)
  then have "y = l"
    by simp
  then show ?thesis
    using y(1) \<open>l < 32\<close> \<open>n = 2 ^ l\<close> by auto
qed

lemma IndexingPolicy_new_ok:
  assumes "IndexingPolicy_new assc n s = Inr ip"
  shows "\<exists>l. floorLog2 4 (ucast (numSets ip)) = Inr l \<and> indexing_ok l ip \<and> setShift ip = s"
proof -
  let ?n = "n div of_nat assc"
  obtain l where l: "floorLog2 4 (ucast ?n) = Inr l" "isPowerOf2 (ucast ?n)"
    and ip: "numSets ip = ?n" "setMask ip = ?n - 1" "tagShift ip = s + l" "setShift ip = s"
    using assms by (auto simp: IndexingPolicy_new_def Let_def result_eq_Inr split: if_splits)
  then show ?thesis
    using power_of_two_sets [OF l(2)] by (auto simp: indexing_ok_def)
qed

section \<open>Set associative\<close>

lemma bit_setMask:
  assumes "indexing_ok l ip"
  shows "bit (setMask ip) j \<longleftrightarrow> j < l"
proof -
  have "setMask ip = mask l"
    using assms by (simp add: indexing_ok_def mask_eq_exp_minus_1)
  moreover have "l < 32"
    using assms by (simp add: indexing_ok_def)
  ultimately show ?thesis
    by (auto simp: bit_mask_iff)
qed

lemma bit_setassoc_set:
  assumes "indexing_ok l ip"
  shows "bit (SetAssociative_extractSet ip a) j \<longleftrightarrow> j < l \<and> bit a (setShift ip + j)"
proof -
  have "l < 32"
    using assms by (simp add: indexing_ok_def)
  then show ?thesis
    by (auto simp: SetAssociative_extractSet_def bit_ucast_iff bit_and_iff bit_drop_bit_eq bit_setMask [OF assms])
qed

text \<open>The 32-bit shift of the set number is exact when the tag starts at bit 32 or below.\<close>

definition set_assoc_ok :: "indexing \<Rightarrow> bool" where
  "set_assoc_ok ip \<longleftrightarrow> (\<exists>l. indexing_ok l ip) \<and> tagShift ip \<le> 32"

interpretation set_assoc: indexing_policy set_assoc_ok setShift IndexingPolicy_extractTag
  "\<lambda>ip way a. SetAssociative_extractSet ip a" "\<lambda>ip tag s way. SetAssociative_regenerateAddr ip tag s"
proof unfold_locales
  fix ip a
  assume "set_assoc_ok ip"
  then obtain l where l: "indexing_ok l ip" "tagShift ip = setShift ip + l" "setShift ip + l \<le> 32"
    by (auto simp: set_assoc_ok_def indexing_ok_def)
  show "SetAssociative_regenerateAddr ip (IndexingPolicy_extractTag ip a) (SetAssociative_extractSet ip a) = block_align (setShift ip) a"
  proof (rule bit_word_eqI)
    fix j assume "j < LENGTH(64)"
    then show "bit (SetAssociative_regenerateAddr ip (IndexingPolicy_extractTag ip a) (SetAssociative_extractSet ip a)) j =
        bit (block_align (setShift ip) a) j"
      using l bit_setassoc_set [OF l(1), of a "j - setShift ip"]
      by (auto simp: SetAssociative_regenerateAddr_def IndexingPolicy_extractTag_def bit_block_align
          bit_or_iff bit_push_bit_iff bit_drop_bit_eq bit_ucast_iff)
  qed
  show "IndexingPolicy_extractTag ip (block_align (setShift ip) a) = IndexingPolicy_extractTag ip a \<and>
      SetAssociative_extractSet ip (block_align (setShift ip) a) = SetAssociative_extractSet ip a"
    using l by (auto intro!: bit_word_eqI simp: IndexingPolicy_extractTag_def bit_drop_bit_eq bit_block_align bit_setassoc_set)
qed

section \<open>Skewed associative\<close>

definition skewed_ok :: "indexing \<times> nat \<Rightarrow> bool" where
  "skewed_ok c \<longleftrightarrow> (case c of (ip, k) \<Rightarrow> 0 < k \<and> indexing_ok (k + 1) ip \<and> setShift ip + 2 * (k + 1) \<le> 64)"

lemma SkewedAssociative_new_ok:
  assumes "SkewedAssociative_new assc n s = Inr c"
  shows "skewed_ok c"
proof -
  obtain ip k where c: "c = (ip, k)" and ip: "IndexingPolicy_new assc n s = Inr ip" "msbShift_of ip = Inr k"
    and chk: "setShift ip + 2 * (k + 1) \<le> 64" "numSets ip > 2"
    using assms by (auto simp: SkewedAssociative_new_def result_eq_Inr not_less not_le)
  obtain l where l: "floorLog2 4 (ucast (numSets ip)) = Inr l" "indexing_ok l ip"
    using IndexingPolicy_new_ok [OF ip(1)] by blast
  have "k = l - 1"
    using ip(2) l(1) by (simp add: msbShift_of_def)
  moreover have "2 ^ 1 < (2 ^ l :: nat)"
    using chk(2) l(2) unat_power_32 [of l] by (simp add: indexing_ok_def word_less_nat_alt)
  then have "1 < l"
    by (rule power_less_imp_less_exp [rotated]) simp
  ultimately show ?thesis
    using l(2) chk(1) by (simp add: skewed_ok_def c)
qed

lemma bit_skewed_set:
  assumes "skewed_ok (ip, k)"
  shows "bit (SkewedAssociative_extractSet ip k a way) j \<longleftrightarrow>
    bit (SkewedAssociative_skew k (drop_bit (setShift ip) a) way) j"
proof -
  have k: "0 < k" "k < 31" "indexing_ok (k + 1) ip"
    using assms by (auto simp: skewed_ok_def indexing_ok_def)
  have "fits k (SkewedAssociative_skew k (drop_bit (setShift ip) a) way)"
    using k by (intro fits_skew) auto
  then show ?thesis
    using k by (auto simp: SkewedAssociative_extractSet_def bit_ucast_iff bit_and_iff bit_setMask [OF k(3)] fits_def)
qed

lemma deskew_regenerates:
  assumes "skewed_ok (ip, k)"
  shows "SkewedAssociative_deskew k
      (push_bit (k + 1) (IndexingPolicy_extractTag ip a) OR ucast (SkewedAssociative_extractSet ip k a way)) way =
    bf_field (drop_bit (setShift ip) a) k 0"
proof -
  define b :: Addr where
    "b = push_bit (k + 1) (IndexingPolicy_extractTag ip a) OR ucast (SkewedAssociative_extractSet ip k a way)"
  have k: "0 < k" "k < 31" "tagShift ip = setShift ip + (k + 1)"
    using assms by (auto simp: skewed_ok_def indexing_ok_def)
  have fits: "fits k (SkewedAssociative_skew k (drop_bit (setShift ip) a) way)"
    using k by (intro fits_skew) auto
  have low: "bit b j \<longleftrightarrow> (if j \<le> k then bit (SkewedAssociative_skew k (drop_bit (setShift ip) a) way) j
      else j < 64 \<and> bit a (setShift ip + j))" for j
    using k fits bit_imp_le_length [of "SkewedAssociative_skew k (drop_bit (setShift ip) a) way" j]
    by (auto simp: b_def bit_or_iff bit_push_bit_iff bit_ucast_iff bit_skewed_set [OF assms] IndexingPolicy_extractTag_def
        bit_drop_bit_eq fits_def)
  have "bf_field b k 0 = SkewedAssociative_skew k (drop_bit (setShift ip) a) way"
    using k fits by (intro bit_word_eqI) (auto simp: bf_bit_simps low fits_def)
  moreover have "bf_field b (2 * (k + 1) - 1) (k + 1) = bf_field (drop_bit (setShift ip) a) (2 * (k + 1) - 1) (k + 1)"
    using k by (intro bit_word_eqI) (auto simp: bf_bit_simps low bit_drop_bit_eq)
  ultimately show ?thesis
    unfolding b_def [symmetric] using k by (intro deskew_skew) auto
qed

interpretation skewed: indexing_policy skewed_ok "\<lambda>c. setShift (fst c)"
  "\<lambda>c. IndexingPolicy_extractTag (fst c)" "\<lambda>c way a. SkewedAssociative_extractSet (fst c) (snd c) a way"
  "\<lambda>c. SkewedAssociative_regenerateAddr (fst c) (snd c)"
proof unfold_locales
  fix c a way
  assume "skewed_ok c"
  then obtain ip k where c: "c = (ip, k)" and ok: "skewed_ok (ip, k)"
    by (cases c) auto
  then have k: "k < 31" "indexing_ok (k + 1) ip" "tagShift ip = setShift ip + (k + 1)"
    by (auto simp: skewed_ok_def indexing_ok_def)
  show "SkewedAssociative_regenerateAddr (fst c) (snd c) (IndexingPolicy_extractTag (fst c) a)
      (SkewedAssociative_extractSet (fst c) (snd c) a way) way = block_align (setShift (fst c)) a"
    unfolding c fst_conv snd_conv SkewedAssociative_regenerateAddr_def Let_def deskew_regenerates [OF ok]
  proof (rule bit_word_eqI)
    fix j
    show "bit (push_bit (tagShift ip) (IndexingPolicy_extractTag ip a) OR
        push_bit (setShift ip) (bf_field (drop_bit (setShift ip) a) k 0 AND ucast (setMask ip))) j =
      bit (block_align (setShift ip) a) j"
      using k bit_imp_le_length [of a j]
      by (cases "setShift ip + Suc k \<le> j")
        (auto simp: bit_or_iff bit_push_bit_iff bit_and_iff bit_ucast_iff bit_setMask [OF k(2)] bf_bit_simps
          bit_drop_bit_eq bit_block_align IndexingPolicy_extractTag_def)
  qed
  have "drop_bit (setShift ip) (block_align (setShift ip) a) = drop_bit (setShift ip) a"
    by (intro bit_word_eqI) (simp add: bit_drop_bit_eq bit_block_align)
  then show "IndexingPolicy_extractTag (fst c) (block_align (setShift (fst c)) a) = IndexingPolicy_extractTag (fst c) a \<and>
      SkewedAssociative_extractSet (fst c) (snd c) (block_align (setShift (fst c)) a) way =
      SkewedAssociative_extractSet (fst c) (snd c) a way"
    unfolding c using k(3)
    by (auto intro!: bit_word_eqI simp: IndexingPolicy_extractTag_def bit_drop_bit_eq bit_block_align SkewedAssociative_extractSet_def)
qed

section \<open>Properties\<close>

text \<open>C20: for a skewed-associative table built by its constructor, the address of a block is
  regenerated exactly from the tag and the set the skewing functions choose, for every way.\<close>

theorem skewed_regenerates:
  assumes "SkewedAssociative_new assc n s = Inr (ip, k)"
  shows "SkewedAssociative_regenerateAddr ip k (IndexingPolicy_extractTag ip a)
    (SkewedAssociative_extractSet ip k a way) way = a AND NOT (mask (setShift ip))"
  using skewed.regenerate [OF SkewedAssociative_new_ok [OF assms]] by (simp add: block_align_def)

theorem skewed_regenerates_witness:
  "\<exists>ip k. SkewedAssociative_new 2 16 6 = Inr (ip, k) \<and>
    SkewedAssociative_regenerateAddr ip k (IndexingPolicy_extractTag ip 0x12345)
      (SkewedAssociative_extractSet ip k 0x12345 5) 5 = 0x12345 AND NOT (mask (setShift ip))"
proof -
  have "\<not> isl (SkewedAssociative_new 2 16 6)"
    by code_simp
  then have "\<exists>ip k. SkewedAssociative_new 2 16 6 = Inr (ip, k)"
    by (cases "SkewedAssociative_new 2 16 6") auto
  then show ?thesis
    using skewed_regenerates [of 2 16 6] by blast
qed

text \<open>In a skewed-associative table, two addresses have the same tag and the same set in some way
  exactly when they are in the same block, so a tag match is a hit on the right block.\<close>

theorem skewed_hit_same_block:
  assumes "SkewedAssociative_new assc n s = Inr (ip, k)"
  shows "IndexingPolicy_extractTag ip a = IndexingPolicy_extractTag ip b \<and>
      SkewedAssociative_extractSet ip k a way = SkewedAssociative_extractSet ip k b way \<longleftrightarrow>
    a AND NOT (mask (setShift ip)) = b AND NOT (mask (setShift ip))"
  using skewed.hit_iff_same_block [OF SkewedAssociative_new_ok [OF assms]] by (simp add: block_align_def)

text \<open>For a set-associative table built by its constructor whose tag starts at bit 32 or below, the
  address of a block is regenerated exactly from its tag and set. (The set number is shifted as a
  32-bit value, so larger tables lose its high bits.)\<close>

theorem set_assoc_regenerates:
  assumes "IndexingPolicy_new assc n s = Inr ip" "tagShift ip \<le> 32"
  shows "SetAssociative_regenerateAddr ip (IndexingPolicy_extractTag ip a) (SetAssociative_extractSet ip a)
    = a AND NOT (mask (setShift ip))"
  using set_assoc.regenerate [of ip a] IndexingPolicy_new_ok [OF assms(1)] assms(2)
  by (auto simp: set_assoc_ok_def block_align_def)

end
