(* ===== verification/O3_Rename.thy ===== *)
theory O3_Rename
  imports Gem5_Prelude
begin

text \<open>
  Register renaming of the out-of-order CPU, \<open>cpu/o3\<close>: register identifiers
  (\<open>cpu/reg_class.hh\<close>), the physical register file's identifiers, the free lists, the rename
  maps, the scoreboard and the operations of the rename stage that move physical registers
  between them. A \<open>PhysRegIdPtr\<close> is a position in one of the vectors of the register file, or
  the address of the static \<open>invalidPhysRegId\<close>; a null entry of a rename map is \<open>None\<close>.
\<close>

section \<open>Register identifiers\<close>

datatype RegClassType =
    IntRegClass | FloatRegClass | VecRegClass | VecElemClass | VecPredRegClass
  | MatRegClass | CCRegClass | MiscRegClass | InvalidRegClass

type_synonym RegIndex = "16 word"
type_synonym InstSeqNum = "64 word"
type_synonym ThreadID = nat

record RegId =
  ri_class :: RegClassType
  ri_index :: RegIndex
  ri_pinnedWrites :: int

record PhysRegId =
  pr_class :: RegClassType
  pr_index :: RegIndex
  pr_flatIdx :: RegIndex
  pr_pinnedWrites :: int
  pr_toComplete :: int
  pr_pinned :: bool

datatype PhysRegIdPtr = RegAt RegClassType nat | InvalidReg

text \<open>The classes with a rename map and a free list: the indices \<open>0\<close> to \<open>CCRegClass\<close>.\<close>

definition mapped_classes :: "RegClassType list" where
  "mapped_classes =
     [IntRegClass, FloatRegClass, VecRegClass, VecElemClass, VecPredRegClass, MatRegClass, CCRegClass]"

fun isRenameable :: "RegClassType \<Rightarrow> bool" where
  "isRenameable c = (c \<noteq> MiscRegClass \<and> c \<noteq> InvalidRegClass)"

definition PhysRegId_new :: "RegClassType \<Rightarrow> RegIndex \<Rightarrow> RegIndex \<Rightarrow> PhysRegId" where
  "PhysRegId_new c idx flat =
     \<lparr>pr_class = c, pr_index = idx, pr_flatIdx = flat, pr_pinnedWrites = 0, pr_toComplete = 0,
      pr_pinned = False\<rparr>"

definition invalidPhysRegId :: PhysRegId where
  "invalidPhysRegId = PhysRegId_new InvalidRegClass (- 1) (- 1)"

definition PhysRegId_setNumPinnedWrites :: "int \<Rightarrow> PhysRegId \<Rightarrow> PhysRegId" where
  "PhysRegId_setNumPinnedWrites n r = r\<lparr>pr_pinned := (n \<noteq> 0), pr_pinnedWrites := n\<rparr>"

definition PhysRegId_decrNumPinnedWrites :: "PhysRegId \<Rightarrow> PhysRegId" where
  "PhysRegId_decrNumPinnedWrites r = r\<lparr>pr_pinnedWrites := pr_pinnedWrites r - 1\<rparr>"

definition PhysRegId_setNumPinnedWritesToComplete :: "int \<Rightarrow> PhysRegId \<Rightarrow> PhysRegId" where
  "PhysRegId_setNumPinnedWritesToComplete n r = r\<lparr>pr_toComplete := n\<rparr>"

section \<open>The register file\<close>

text \<open>
  The vectors \<open>intRegIds\<close>, \<open>floatRegIds\<close>, \<dots>, \<open>ccRegIds\<close> and \<open>miscRegIds\<close>, by class; they are
  the store the pointers point into.
\<close>

type_synonym PhysRegFile = "RegClassType \<Rightarrow> PhysRegId list"

fun deref :: "PhysRegFile \<Rightarrow> PhysRegIdPtr \<Rightarrow> PhysRegId" where
  "deref rf (RegAt c i) = rf c ! i"
| "deref rf InvalidReg = invalidPhysRegId"

fun update_reg :: "PhysRegIdPtr \<Rightarrow> (PhysRegId \<Rightarrow> PhysRegId) \<Rightarrow> PhysRegFile \<Rightarrow> PhysRegFile" where
  "update_reg (RegAt c i) f rf = rf(c := (rf c)[i := f (rf c ! i)])"
| "update_reg InvalidReg f rf = rf"

text \<open>
  The constructor. \<open>n\<close> are the physical register counts it is given, \<open>num_regs\<close> the sizes of
  the architectural classes. A loop over a \<open>RegIndex\<close> ends only for counts below \<open>2 ^ 16\<close>.
\<close>

definition numPhysicalVecElemRegs :: "(RegClassType \<Rightarrow> 32 word) \<Rightarrow> (RegClassType \<Rightarrow> nat) \<Rightarrow> nat" where
  "numPhysicalVecElemRegs n num_regs =
     unat (of_nat (unat (n VecRegClass) * (num_regs VecElemClass div num_regs VecRegClass)) :: 32 word)"

definition numPhysical :: "(RegClassType \<Rightarrow> 32 word) \<Rightarrow> (RegClassType \<Rightarrow> nat) \<Rightarrow> RegClassType \<Rightarrow> nat" where
  "numPhysical n num_regs c =
     (if c = VecElemClass then numPhysicalVecElemRegs n num_regs
      else if c = MiscRegClass then num_regs MiscRegClass
      else if c = InvalidRegClass then 0
      else unat (n c))"

definition emplace_ids ::
    "RegClassType \<Rightarrow> nat \<Rightarrow> PhysRegFile \<times> nat \<Rightarrow> (PhysRegFile \<times> nat) result" where
  "emplace_ids c k = (\<lambda>(rf, flat).
     if k < 2 ^ 16 then
       Inr (rf(c := map (\<lambda>i. PhysRegId_new c (of_nat i) (of_nat (flat + i))) [0..<k]), flat + k)
     else Inl (Diverges ''phys_reg < numPhysicalRegs''))"

fun emplace_classes ::
    "RegClassType list \<Rightarrow> (RegClassType \<Rightarrow> nat) \<Rightarrow> PhysRegFile \<times> nat \<Rightarrow> (PhysRegFile \<times> nat) result" where
  "emplace_classes [] k s = Inr s"
| "emplace_classes (c # cs) k s = rbind (emplace_ids c (k c) s) (emplace_classes cs k)"

definition PhysRegFile_new ::
    "(RegClassType \<Rightarrow> 32 word) \<Rightarrow> (RegClassType \<Rightarrow> nat) \<Rightarrow> (PhysRegFile \<times> nat) result" where
  "PhysRegFile_new n num_regs =
     (if num_regs VecRegClass = 0 then Inl (Undefined ''division by zero'')
      else
        rbind (emplace_classes mapped_classes (numPhysical n num_regs) (\<lambda>c. [], 0)) (\<lambda>(rf, flat).
          if num_regs MiscRegClass < 2 ^ 16 then
            Inr (rf(MiscRegClass := map (\<lambda>i. PhysRegId_new MiscRegClass (of_nat i) 0)
                                       [0..<num_regs MiscRegClass]), flat)
          else Inl (Diverges ''phys_reg < numRegs'')))"

definition PhysRegFile_getMiscRegId :: "PhysRegFile \<Rightarrow> RegIndex \<Rightarrow> PhysRegIdPtr result" where
  "PhysRegFile_getMiscRegId rf idx =
     (if unat idx < length (rf MiscRegClass) then Inr (RegAt MiscRegClass (unat idx))
      else Inl (Undefined ''miscRegIds index''))"

section \<open>Free lists\<close>

definition SimpleFreeList_addReg :: "PhysRegIdPtr \<Rightarrow> PhysRegIdPtr list \<Rightarrow> PhysRegIdPtr list" where
  "SimpleFreeList_addReg r freeRegs = freeRegs @ [r]"

definition SimpleFreeList_getReg ::
    "PhysRegIdPtr list \<Rightarrow> (PhysRegIdPtr \<times> PhysRegIdPtr list) result" where
  "SimpleFreeList_getReg freeRegs =
     assert_that (freeRegs \<noteq> []) ''!freeRegs.empty()'' (Inr (hd freeRegs, tl freeRegs))"

definition SimpleFreeList_numFreeRegs :: "PhysRegIdPtr list \<Rightarrow> nat" where
  "SimpleFreeList_numFreeRegs freeRegs = unat (of_nat (length freeRegs) :: 32 word)"

type_synonym UnifiedFreeList = "RegClassType \<Rightarrow> PhysRegIdPtr list"

text \<open>The array of free lists has no element for the other classes.\<close>

definition UnifiedFreeList_getReg ::
    "RegClassType \<Rightarrow> UnifiedFreeList \<Rightarrow> (PhysRegIdPtr \<times> UnifiedFreeList) result" where
  "UnifiedFreeList_getReg c fl =
     (if c \<in> set mapped_classes then
        rbind (SimpleFreeList_getReg (fl c)) (\<lambda>(r, regs'). Inr (r, fl(c := regs')))
      else Inl (Undefined ''freeLists index''))"

definition UnifiedFreeList_addReg ::
    "PhysRegFile \<Rightarrow> PhysRegIdPtr \<Rightarrow> UnifiedFreeList \<Rightarrow> UnifiedFreeList result" where
  "UnifiedFreeList_addReg rf freed_reg fl =
     (let c = pr_class (deref rf freed_reg) in
      if c \<in> set mapped_classes then Inr (fl(c := SimpleFreeList_addReg freed_reg (fl c)))
      else Inl (Undefined ''freeLists index''))"

fun UnifiedFreeList_addRegs ::
    "PhysRegFile \<Rightarrow> PhysRegIdPtr list \<Rightarrow> UnifiedFreeList \<Rightarrow> UnifiedFreeList result" where
  "UnifiedFreeList_addRegs rf [] fl = Inr fl"
| "UnifiedFreeList_addRegs rf (r # rs) fl =
     rbind (UnifiedFreeList_addReg rf r fl) (UnifiedFreeList_addRegs rf rs)"

fun initFreeList_classes ::
    "RegClassType list \<Rightarrow> PhysRegFile \<Rightarrow> UnifiedFreeList \<Rightarrow> UnifiedFreeList result" where
  "initFreeList_classes [] rf fl = Inr fl"
| "initFreeList_classes (c # cs) rf fl =
     assert_that (list_all (\<lambda>i. unat (pr_index (rf c ! i)) = i) [0..<length (rf c)])
       ''index() == reg_idx''
       (rbind (UnifiedFreeList_addRegs rf (map (RegAt c) [0..<length (rf c)]) fl)
          (initFreeList_classes cs rf))"

definition PhysRegFile_initFreeList :: "PhysRegFile \<Rightarrow> UnifiedFreeList \<Rightarrow> UnifiedFreeList result" where
  "PhysRegFile_initFreeList = initFreeList_classes mapped_classes"

section \<open>Scoreboard\<close>

definition Scoreboard_new :: "nat \<Rightarrow> bool list" where
  "Scoreboard_new n = replicate n True"

definition Scoreboard_getReg :: "PhysRegId \<Rightarrow> bool list \<Rightarrow> bool result" where
  "Scoreboard_getReg r sb =
     (if \<not> isRenameable (pr_class r) then Inr True
      else assert_that (unat (pr_flatIdx r) < length sb) ''flatIndex() < numPhysRegs''
             (Inr (sb ! unat (pr_flatIdx r))))"

definition Scoreboard_setReg :: "PhysRegId \<Rightarrow> bool list \<Rightarrow> bool list result" where
  "Scoreboard_setReg r sb =
     (if \<not> isRenameable (pr_class r) then Inr sb
      else assert_that (unat (pr_flatIdx r) < length sb) ''flatIndex() < numPhysRegs''
             (Inr (sb[unat (pr_flatIdx r) := True])))"

definition Scoreboard_unsetReg :: "PhysRegId \<Rightarrow> bool list \<Rightarrow> bool list result" where
  "Scoreboard_unsetReg r sb =
     (if \<not> isRenameable (pr_class r) then Inr sb
      else assert_that (unat (pr_flatIdx r) < length sb) ''flatIndex() < numPhysRegs''
             (Inr (sb[unat (pr_flatIdx r) := False])))"

section \<open>Rename maps\<close>

type_synonym SimpleRenameMap = "PhysRegIdPtr option list"

text \<open>The assertions admit \<open>index() = map.size()\<close>, one past the end of the vector.\<close>

definition SimpleRenameMap_lookup :: "SimpleRenameMap \<Rightarrow> RegId \<Rightarrow> PhysRegIdPtr option result" where
  "SimpleRenameMap_lookup m arch_reg =
     assert_that (unat (ri_index arch_reg) \<le> length m) ''arch_reg.index() <= map.size()''
       (if unat (ri_index arch_reg) < length m then Inr (m ! unat (ri_index arch_reg))
        else Inl (Undefined ''map index''))"

definition SimpleRenameMap_setEntry ::
    "RegId \<Rightarrow> PhysRegIdPtr \<Rightarrow> SimpleRenameMap \<Rightarrow> SimpleRenameMap result" where
  "SimpleRenameMap_setEntry arch_reg phys_reg m =
     assert_that (unat (ri_index arch_reg) \<le> length m) ''arch_reg.index() <= map.size()''
       (if unat (ri_index arch_reg) < length m then Inr (m[unat (ri_index arch_reg) := Some phys_reg])
        else Inl (Undefined ''map index''))"

definition SimpleRenameMap_init :: "nat \<Rightarrow> SimpleRenameMap" where
  "SimpleRenameMap_init num_regs = replicate num_regs None"

text \<open>\<open>rename\<close> returns the new and the previous register with the changed register file, free list and map.\<close>

definition SimpleRenameMap_rename ::
    "RegId \<Rightarrow> PhysRegFile \<Rightarrow> PhysRegIdPtr list \<Rightarrow> SimpleRenameMap \<Rightarrow>
     ((PhysRegIdPtr \<times> PhysRegIdPtr) \<times> PhysRegFile \<times> PhysRegIdPtr list \<times> SimpleRenameMap) result" where
  "SimpleRenameMap_rename arch_reg rf freeRegs m =
     (if \<not> unat (ri_index arch_reg) < length m then Inl (Undefined ''map index'')
      else (case m ! unat (ri_index arch_reg) of
          None \<Rightarrow> Inl (Undefined ''null dereference'')
        | Some prev_reg \<Rightarrow>
            if ri_class arch_reg = InvalidRegClass then
              assert_that (pr_class (deref rf prev_reg) = InvalidRegClass)
                ''prev_reg->is(InvalidRegClass)'' (Inr ((prev_reg, prev_reg), rf, freeRegs, m))
            else if pr_pinnedWrites (deref rf prev_reg) > 0 then
              assert_that (ri_pinnedWrites arch_reg = 0) ''arch_reg.getNumPinnedWrites() == 0''
                (Inr ((prev_reg, prev_reg), update_reg prev_reg PhysRegId_decrNumPinnedWrites rf,
                      freeRegs, m))
            else
              rbind (SimpleFreeList_getReg freeRegs) (\<lambda>(renamed_reg, freeRegs').
                Inr ((renamed_reg, prev_reg),
                     update_reg renamed_reg
                       (PhysRegId_setNumPinnedWritesToComplete (ri_pinnedWrites arch_reg + 1)
                          \<circ> PhysRegId_setNumPinnedWrites (ri_pinnedWrites arch_reg)) rf,
                     freeRegs', m[unat (ri_index arch_reg) := Some renamed_reg]))))"

type_synonym UnifiedRenameMap = "RegClassType \<Rightarrow> SimpleRenameMap"

definition UnifiedRenameMap_init :: "(RegClassType \<Rightarrow> nat) \<Rightarrow> UnifiedRenameMap" where
  "UnifiedRenameMap_init num_regs = (\<lambda>c. SimpleRenameMap_init (num_regs c))"

definition UnifiedRenameMap_lookup ::
    "PhysRegFile \<Rightarrow> UnifiedRenameMap \<Rightarrow> RegId \<Rightarrow> PhysRegIdPtr option result" where
  "UnifiedRenameMap_lookup rf rm arch_reg =
     (if ri_class arch_reg = InvalidRegClass then Inr (Some InvalidReg)
      else if ri_class arch_reg = MiscRegClass then
        rbind (PhysRegFile_getMiscRegId rf (ri_index arch_reg)) (\<lambda>r. Inr (Some r))
      else SimpleRenameMap_lookup (rm (ri_class arch_reg)) arch_reg)"

definition UnifiedRenameMap_rename ::
    "RegId \<Rightarrow> PhysRegFile \<Rightarrow> UnifiedFreeList \<Rightarrow> UnifiedRenameMap \<Rightarrow>
     ((PhysRegIdPtr \<times> PhysRegIdPtr) \<times> PhysRegFile \<times> UnifiedFreeList \<times> UnifiedRenameMap) result" where
  "UnifiedRenameMap_rename arch_reg rf fl rm =
     (let c = ri_class arch_reg in
      if \<not> isRenameable c then
        rbind (UnifiedRenameMap_lookup rf rm arch_reg) (\<lambda>r.
          case r of
            None \<Rightarrow> Inl (Undefined ''null dereference'')
          | Some phys_reg \<Rightarrow> Inr ((phys_reg, phys_reg), rf, fl, rm))
      else
        rbind (SimpleRenameMap_rename arch_reg rf (fl c) (rm c)) (\<lambda>(info, rf', regs', m').
          Inr (info, rf', fl(c := regs'), rm(c := m'))))"

definition UnifiedRenameMap_setEntry ::
    "RegId \<Rightarrow> PhysRegIdPtr \<Rightarrow> PhysRegFile \<Rightarrow> UnifiedRenameMap \<Rightarrow> UnifiedRenameMap result" where
  "UnifiedRenameMap_setEntry arch_reg phys_reg rf rm =
     (let c = ri_class arch_reg in
      assert_that (pr_class (deref rf phys_reg) = c) ''phys_reg->is(arch_reg.classValue())''
        (if \<not> isRenameable c then
           rbind (UnifiedRenameMap_lookup rf rm arch_reg) (\<lambda>r.
             assert_that (r = Some phys_reg) ''phys_reg == lookup(arch_reg)'' (Inr rm))
         else
           rbind (SimpleRenameMap_setEntry arch_reg phys_reg (rm c)) (\<lambda>m'. Inr (rm(c := m')))))"

section \<open>Instructions\<close>

text \<open>
  The part of a \<open>DynInst\<close> the rename stage uses. \<open>di_numTypedDests\<close> is the static
  instruction's count of destination registers by class; \<open>_readySrcIdx\<close>, a bit per source,
  is a list of booleans.
\<close>

record DynInst =
  di_seqNum :: InstSeqNum
  di_thread :: ThreadID
  di_srcRegs :: "RegId list"
  di_destRegs :: "RegId list"
  di_numTypedDests :: "RegClassType \<Rightarrow> nat"
  di_flatDest :: "RegId option list"
  di_dest :: "PhysRegIdPtr option list"
  di_prevDest :: "PhysRegIdPtr option list"
  di_src :: "PhysRegIdPtr option list"
  di_readySrc :: "bool list"
  di_readyRegs :: "8 word"
  di_canIssue :: bool
  di_pinnedRegsRenamed :: bool

definition DynInst_renameDestReg :: "PhysRegFile \<Rightarrow> nat \<Rightarrow> PhysRegIdPtr \<Rightarrow> PhysRegIdPtr \<Rightarrow> DynInst \<Rightarrow> DynInst" where
  "DynInst_renameDestReg rf idx renamed_dest previous_rename inst =
     inst\<lparr>di_dest := (di_dest inst)[idx := Some renamed_dest],
          di_prevDest := (di_prevDest inst)[idx := Some previous_rename],
          di_pinnedRegsRenamed :=
            (di_pinnedRegsRenamed inst \<or> pr_pinned (deref rf renamed_dest))\<rparr>"

definition DynInst_renameSrcReg :: "nat \<Rightarrow> PhysRegIdPtr option \<Rightarrow> DynInst \<Rightarrow> DynInst" where
  "DynInst_renameSrcReg idx renamed_src inst = inst\<lparr>di_src := (di_src inst)[idx := renamed_src]\<rparr>"

definition DynInst_markSrcRegReady :: "nat \<Rightarrow> DynInst \<Rightarrow> DynInst" where
  "DynInst_markSrcRegReady src_idx inst =
     (let n = di_readyRegs inst + 1 in
      inst\<lparr>di_readySrc := (di_readySrc inst)[src_idx := True], di_readyRegs := n,
           di_canIssue := (di_canIssue inst \<or> unat n = length (di_srcRegs inst))\<rparr>)"

definition UnifiedRenameMap_canRename :: "UnifiedFreeList \<Rightarrow> DynInst \<Rightarrow> bool" where
  "UnifiedRenameMap_canRename fl inst =
     list_all (\<lambda>c. di_numTypedDests inst c \<le> SimpleFreeList_numFreeRegs (fl c)) mapped_classes"

section \<open>The rename stage\<close>

record RenameHistory =
  instSeqNum :: InstSeqNum
  archReg :: RegId
  newPhysReg :: PhysRegIdPtr
  prevPhysReg :: PhysRegIdPtr

text \<open>
  The registers of the CPU: the register file, the free lists and the scoreboard are shared,
  the rename maps, the history buffer (most recent rename first) and the registers of squashed
  instructions waiting to be freed are per thread.
\<close>

record rename_state =
  regFile :: PhysRegFile
  freeLists :: UnifiedFreeList
  scoreboard :: "bool list"
  renameMap :: "ThreadID \<Rightarrow> UnifiedRenameMap"
  commitRenameMap :: "ThreadID \<Rightarrow> UnifiedRenameMap"
  historyBuffer :: "ThreadID \<Rightarrow> RenameHistory list"
  freeingInProgress :: "ThreadID \<Rightarrow> PhysRegIdPtr list"

definition src_class_ok :: "RegClassType \<Rightarrow> bool" where
  "src_class_ok c =
     (c \<in> {InvalidRegClass, IntRegClass, FloatRegClass, VecRegClass, VecElemClass, VecPredRegClass,
           MatRegClass, CCRegClass, MiscRegClass})"

text \<open>\<open>flatten\<close> stands for \<open>RegId::flatten\<close> of the instruction set, \<open>k\<close> counts \<open>src_idx\<close>.\<close>

fun renameSrcRegs_loop ::
    "(RegId \<Rightarrow> RegId) \<Rightarrow> rename_state \<Rightarrow> ThreadID \<Rightarrow> RegId list \<Rightarrow> nat \<Rightarrow> DynInst \<Rightarrow> DynInst result" where
  "renameSrcRegs_loop flatten st tid [] k inst = Inr inst"
| "renameSrcRegs_loop flatten st tid (src_reg # rest) k inst =
     (let flat_reg = flatten src_reg in
      rbind (UnifiedRenameMap_lookup (regFile st) (renameMap st tid) flat_reg) (\<lambda>renamed_reg.
        panic_if (\<not> src_class_ok (ri_class flat_reg)) ''Invalid register class''
          (case renamed_reg of
             None \<Rightarrow> Inl (Undefined ''null dereference'')
           | Some r \<Rightarrow>
               (let inst1 = DynInst_renameSrcReg k renamed_reg inst in
                rbind (Scoreboard_getReg (deref (regFile st) r) (scoreboard st)) (\<lambda>ready.
                  renameSrcRegs_loop flatten st tid rest (Suc k)
                    (if ready then DynInst_markSrcRegReady k inst1 else inst1))))))"

definition Rename_renameSrcRegs ::
    "(RegId \<Rightarrow> RegId) \<Rightarrow> rename_state \<Rightarrow> ThreadID \<Rightarrow> DynInst \<Rightarrow> DynInst result" where
  "Rename_renameSrcRegs flatten st tid inst =
     renameSrcRegs_loop flatten st tid (di_srcRegs inst) 0 inst"

definition flat_dest :: "(RegId \<Rightarrow> RegId) \<Rightarrow> RegId \<Rightarrow> RegId" where
  "flat_dest flatten dest_reg = (flatten dest_reg)\<lparr>ri_pinnedWrites := ri_pinnedWrites dest_reg\<rparr>"

definition renameDestReg_step ::
    "RegId \<Rightarrow> ThreadID \<Rightarrow> nat \<Rightarrow> DynInst \<times> rename_state \<Rightarrow> (DynInst \<times> rename_state) result" where
  "renameDestReg_step flat tid k = (\<lambda>(inst, st).
     rbind (UnifiedRenameMap_rename flat (regFile st) (freeLists st) (renameMap st tid))
       (\<lambda>((new, prev), rf, fl, rm).
          rbind (Scoreboard_unsetReg (deref rf new) (scoreboard st)) (\<lambda>sb.
            Inr (DynInst_renameDestReg rf k new prev (inst\<lparr>di_flatDest := (di_flatDest inst)[k := Some flat]\<rparr>),
                 st\<lparr>regFile := rf, freeLists := fl, scoreboard := sb,
                    renameMap := (renameMap st)(tid := rm),
                    historyBuffer := (historyBuffer st)(tid :=
                      \<lparr>instSeqNum = di_seqNum inst, archReg = flat, newPhysReg = new,
                       prevPhysReg = prev\<rparr> # historyBuffer st tid)\<rparr>))))"

fun renameDestRegs_loop ::
    "(RegId \<Rightarrow> RegId) \<Rightarrow> ThreadID \<Rightarrow> RegId list \<Rightarrow> nat \<Rightarrow> DynInst \<times> rename_state \<Rightarrow>
     (DynInst \<times> rename_state) result" where
  "renameDestRegs_loop flatten tid [] k s = Inr s"
| "renameDestRegs_loop flatten tid (dest_reg # rest) k s =
     rbind (renameDestReg_step (flat_dest flatten dest_reg) tid k s)
       (renameDestRegs_loop flatten tid rest (Suc k))"

definition Rename_renameDestRegs ::
    "(RegId \<Rightarrow> RegId) \<Rightarrow> ThreadID \<Rightarrow> DynInst \<Rightarrow> rename_state \<Rightarrow> (DynInst \<times> rename_state) result" where
  "Rename_renameDestRegs flatten tid inst st =
     renameDestRegs_loop flatten tid (di_destRegs inst) 0 (inst, st)"

text \<open>What \<open>renameInsts\<close> does with the registers of one instruction that passed \<open>canRename\<close>.\<close>

definition Rename_renameInst ::
    "(RegId \<Rightarrow> RegId) \<Rightarrow> DynInst \<Rightarrow> rename_state \<Rightarrow> (DynInst \<times> rename_state) result" where
  "Rename_renameInst flatten inst st =
     rbind (Rename_renameSrcRegs flatten st (di_thread inst) inst) (\<lambda>inst1.
       Rename_renameDestRegs flatten (di_thread inst) inst1 st)"

fun doSquash_loop ::
    "InstSeqNum \<Rightarrow> ThreadID \<Rightarrow> RenameHistory list \<Rightarrow> rename_state \<Rightarrow> rename_state result" where
  "doSquash_loop sn tid [] st = Inr (st\<lparr>historyBuffer := (historyBuffer st)(tid := [])\<rparr>)"
| "doSquash_loop sn tid (h # hs) st =
     (if instSeqNum h > sn then
        (if newPhysReg h \<noteq> prevPhysReg h then
           rbind (UnifiedRenameMap_setEntry (archReg h) (prevPhysReg h) (regFile st) (renameMap st tid))
             (\<lambda>rm. doSquash_loop sn tid hs
                (st\<lparr>renameMap := (renameMap st)(tid := rm),
                    freeingInProgress := (freeingInProgress st)(tid :=
                      freeingInProgress st tid @ [newPhysReg h])\<rparr>))
         else doSquash_loop sn tid hs st)
      else Inr (st\<lparr>historyBuffer := (historyBuffer st)(tid := h # hs)\<rparr>))"

definition Rename_doSquash :: "InstSeqNum \<Rightarrow> ThreadID \<Rightarrow> rename_state \<Rightarrow> rename_state result" where
  "Rename_doSquash sn tid st = doSquash_loop sn tid (historyBuffer st tid) st"

text \<open>
  The loop of \<open>removeFromHistory\<close> starts at the oldest entry, the last of the list: its
  argument is the history in reverse. Decrementing the iterator at the first entry of a
  \<open>std::list\<close> gives \<open>end()\<close> in the GNU library, where the loop ends with the list empty.
\<close>

fun removeFromHistory_loop ::
    "InstSeqNum \<Rightarrow> ThreadID \<Rightarrow> RenameHistory list \<Rightarrow> rename_state \<Rightarrow> rename_state result" where
  "removeFromHistory_loop sn tid [] st = Inr (st\<lparr>historyBuffer := (historyBuffer st)(tid := [])\<rparr>)"
| "removeFromHistory_loop sn tid (h # hs) st =
     (if instSeqNum h \<le> sn then
        (if newPhysReg h \<noteq> prevPhysReg h then
           rbind (UnifiedFreeList_addReg (regFile st) (prevPhysReg h) (freeLists st)) (\<lambda>fl.
             removeFromHistory_loop sn tid hs (st\<lparr>freeLists := fl\<rparr>))
         else removeFromHistory_loop sn tid hs st)
      else Inr (st\<lparr>historyBuffer := (historyBuffer st)(tid := rev (h # hs))\<rparr>))"

definition Rename_removeFromHistory :: "InstSeqNum \<Rightarrow> ThreadID \<Rightarrow> rename_state \<Rightarrow> rename_state result" where
  "Rename_removeFromHistory sn tid st =
     (if historyBuffer st tid = [] then Inr st
      else if instSeqNum (last (historyBuffer st tid)) > sn then Inr st
      else removeFromHistory_loop sn tid (rev (historyBuffer st tid)) st)"

text \<open>
  The registers of squashed instructions go back to the free list in
  \<open>checkSignalsAndUpdate\<close>, once the reorder buffer has finished squashing.
\<close>

definition Rename_freeSquashed :: "ThreadID \<Rightarrow> rename_state \<Rightarrow> rename_state result" where
  "Rename_freeSquashed tid st =
     rbind (UnifiedFreeList_addRegs (regFile st) (freeingInProgress st tid) (freeLists st)) (\<lambda>fl.
       Inr (st\<lparr>freeLists := fl, freeingInProgress := (freeingInProgress st)(tid := [])\<rparr>))"

text \<open>\<open>Commit::commitHead\<close> enters the destinations of the committed instruction into its own map.\<close>

fun commit_entries ::
    "PhysRegFile \<Rightarrow> (RegId option \<times> PhysRegIdPtr option) list \<Rightarrow> UnifiedRenameMap \<Rightarrow> UnifiedRenameMap result" where
  "commit_entries rf [] rm = Inr rm"
| "commit_entries rf ((Some flat, Some r) # rest) rm =
     rbind (UnifiedRenameMap_setEntry flat r rf rm) (commit_entries rf rest)"
| "commit_entries rf (_ # rest) rm = Inl (Undefined ''destination not renamed'')"

definition Commit_updateRenameMap :: "DynInst \<Rightarrow> rename_state \<Rightarrow> rename_state result" where
  "Commit_updateRenameMap inst st =
     rbind (commit_entries (regFile st) (zip (di_flatDest inst) (di_dest inst))
              (commitRenameMap st (di_thread inst)))
       (\<lambda>rm. Inr (st\<lparr>commitRenameMap := (commitRenameMap st)(di_thread inst := rm)\<rparr>))"

section \<open>Initial mappings\<close>

text \<open>The constructor of the CPU: the checks on the register counts and the first mappings.\<close>

fun init_entries ::
    "ThreadID \<Rightarrow> RegClassType \<Rightarrow> nat list \<Rightarrow> rename_state \<Rightarrow> rename_state result" where
  "init_entries tid c [] st = Inr st"
| "init_entries tid c (i # is) st =
     (let ident = \<lparr>ri_class = c, ri_index = of_nat i, ri_pinnedWrites = 0\<rparr> in
      rbind (UnifiedFreeList_getReg c (freeLists st)) (\<lambda>(phys_reg, fl).
      rbind (UnifiedRenameMap_setEntry ident phys_reg (regFile st) (renameMap st tid)) (\<lambda>rm.
      rbind (UnifiedRenameMap_setEntry ident phys_reg (regFile st) (commitRenameMap st tid)) (\<lambda>cm.
        init_entries tid c is
          (st\<lparr>freeLists := fl, renameMap := (renameMap st)(tid := rm),
              commitRenameMap := (commitRenameMap st)(tid := cm)\<rparr>)))))"

fun init_classes ::
    "ThreadID \<Rightarrow> (RegClassType \<Rightarrow> nat) \<Rightarrow> RegClassType list \<Rightarrow> rename_state \<Rightarrow> rename_state result" where
  "init_classes tid num_regs [] st = Inr st"
| "init_classes tid num_regs (c # cs) st =
     rbind (init_entries tid c [0..<unat (of_nat (num_regs c) :: RegIndex)] st) (init_classes tid num_regs cs)"

fun init_threads ::
    "ThreadID list \<Rightarrow> (RegClassType \<Rightarrow> nat) \<Rightarrow> rename_state \<Rightarrow> rename_state result" where
  "init_threads [] num_regs st = Inr st"
| "init_threads (tid # tids) num_regs st =
     rbind (init_classes tid num_regs mapped_classes st) (init_threads tids num_regs)"

definition enough_regs :: "(RegClassType \<Rightarrow> 32 word) \<Rightarrow> (RegClassType \<Rightarrow> nat) \<Rightarrow> nat \<Rightarrow> bool" where
  "enough_regs n num_regs numThreads =
     list_all (\<lambda>c. \<not> (unat (n c) \<le> numThreads * num_regs c \<and> num_regs c \<noteq> 0))
       [IntRegClass, FloatRegClass, VecRegClass, VecPredRegClass, MatRegClass, CCRegClass]"

definition CPU_initRegs ::
    "(RegClassType \<Rightarrow> 32 word) \<Rightarrow> (RegClassType \<Rightarrow> nat) \<Rightarrow> nat \<Rightarrow> nat \<Rightarrow> rename_state result" where
  "CPU_initRegs n num_regs numThreads active_threads =
     rbind (PhysRegFile_new n num_regs) (\<lambda>(rf, totalNumRegs).
     rbind (PhysRegFile_initFreeList rf (\<lambda>c. [])) (\<lambda>fl.
     panic_if (\<not> enough_regs n num_regs numThreads) ''Not enough physical registers''
       (init_threads [0..<active_threads] num_regs
          \<lparr>regFile = rf, freeLists = fl, scoreboard = Scoreboard_new totalNumRegs,
           renameMap = (\<lambda>tid. UnifiedRenameMap_init num_regs),
           commitRenameMap = (\<lambda>tid. UnifiedRenameMap_init num_regs),
           historyBuffer = (\<lambda>tid. []), freeingInProgress = (\<lambda>tid. [])\<rparr>)))"

section \<open>Runs\<close>

text \<open>
  The operations that act on the registers, in any order: renaming an instruction, squashing,
  committing, freeing, and what the other stages do to a register: mark it ready and change its
  pin counters.
\<close>

datatype rename_event =
    EvRename DynInst
  | EvSquash InstSeqNum ThreadID
  | EvCommit InstSeqNum ThreadID
  | EvFree ThreadID
  | EvCommitMap DynInst
  | EvReady PhysRegIdPtr
  | EvPins PhysRegIdPtr int int

fun rename_do :: "(RegId \<Rightarrow> RegId) \<Rightarrow> rename_event \<Rightarrow> rename_state \<Rightarrow> rename_state result" where
  "rename_do flatten (EvRename inst) st =
     rbind (Rename_renameInst flatten inst st) (\<lambda>(inst', st'). Inr st')"
| "rename_do flatten (EvSquash sn tid) st = Rename_doSquash sn tid st"
| "rename_do flatten (EvCommit sn tid) st = Rename_removeFromHistory sn tid st"
| "rename_do flatten (EvFree tid) st = Rename_freeSquashed tid st"
| "rename_do flatten (EvCommitMap inst) st = Commit_updateRenameMap inst st"
| "rename_do flatten (EvReady r) st =
     rbind (Scoreboard_setReg (deref (regFile st) r) (scoreboard st)) (\<lambda>sb. Inr (st\<lparr>scoreboard := sb\<rparr>))"
| "rename_do flatten (EvPins r n m) st =
     Inr (st\<lparr>regFile := update_reg r (\<lambda>x. x\<lparr>pr_pinnedWrites := n, pr_toComplete := m\<rparr>) (regFile st)\<rparr>)"

fun rename_run :: "(RegId \<Rightarrow> RegId) \<Rightarrow> rename_event list \<Rightarrow> rename_state \<Rightarrow> rename_state result" where
  "rename_run flatten [] st = Inr st"
| "rename_run flatten (e # es) st = rbind (rename_do flatten e st) (rename_run flatten es)"

end
