(* ===== verification/O3_Rename_Correct.thy ===== *)
theory O3_Rename_Correct
  imports O3_Rename "HOL-Library.Multiset"
begin

text \<open>
  Correctness of register renaming: every physical register is at all times in exactly one
  place, squashing restores the rename map exactly, and \<open>canRename\<close> makes renaming succeed.
\<close>

section \<open>Where the physical registers are\<close>

fun ptr_class :: "PhysRegIdPtr \<Rightarrow> RegClassType" where
  "ptr_class (RegAt c i) = c"
| "ptr_class InvalidReg = InvalidRegClass"

definition somes :: "'a option list \<Rightarrow> 'a multiset" where
  "somes xs = image_mset the (filter_mset (\<lambda>x. x \<noteq> None) (mset xs))"

definition prevs :: "RenameHistory list \<Rightarrow> PhysRegIdPtr list" where
  "prevs hist = map prevPhysReg (filter (\<lambda>h. newPhysReg h \<noteq> prevPhysReg h) hist)"

text \<open>The registers of class \<open>c\<close> a thread holds: mapped, superseded but not committed, or being freed.\<close>

definition thread_regs ::
    "RegClassType \<Rightarrow> UnifiedRenameMap \<Rightarrow> RenameHistory list \<Rightarrow> PhysRegIdPtr list \<Rightarrow> PhysRegIdPtr multiset" where
  "thread_regs c rm hist fr =
     somes (rm c) + mset (filter (\<lambda>r. ptr_class r = c) (prevs hist)) +
     mset (filter (\<lambda>r. ptr_class r = c) fr)"

definition held_of ::
    "nat \<Rightarrow> RegClassType \<Rightarrow> UnifiedFreeList \<Rightarrow> (ThreadID \<Rightarrow> UnifiedRenameMap) \<Rightarrow>
     (ThreadID \<Rightarrow> RenameHistory list) \<Rightarrow> (ThreadID \<Rightarrow> PhysRegIdPtr list) \<Rightarrow> PhysRegIdPtr multiset" where
  "held_of N c fl rms hss frs = mset (fl c) + (\<Sum>t<N. thread_regs c (rms t) (hss t) (frs t))"

abbreviation held :: "nat \<Rightarrow> RegClassType \<Rightarrow> rename_state \<Rightarrow> PhysRegIdPtr multiset" where
  "held N c st \<equiv>
     held_of N c (freeLists st) (renameMap st) (historyBuffer st) (freeingInProgress st)"

definition regs_ok :: "(RegClassType \<Rightarrow> nat) \<Rightarrow> PhysRegFile \<Rightarrow> bool list \<Rightarrow> bool" where
  "regs_ok phys rf sb \<longleftrightarrow>
     (\<forall>c. length (rf c) = phys c) \<and>
     (\<forall>c. \<forall>i<phys c. pr_class (rf c ! i) = c) \<and>
     (\<forall>c \<in> set mapped_classes. \<forall>i<phys c. unat (pr_flatIdx (rf c ! i)) < length sb)"

text \<open>
  The history is a chain: its most recent entry for a register records what the map holds now,
  and undoing the entries one by one meets the same condition.
\<close>

definition set_map :: "RegId \<Rightarrow> PhysRegIdPtr \<Rightarrow> UnifiedRenameMap \<Rightarrow> UnifiedRenameMap" where
  "set_map r p rm = rm(ri_class r := (rm (ri_class r))[unat (ri_index r) := Some p])"

primrec hist_ok :: "RenameHistory list \<Rightarrow> UnifiedRenameMap \<Rightarrow> bool" where
  "hist_ok [] rm = True"
| "hist_ok (h # hs) rm =
     (if newPhysReg h = prevPhysReg h then hist_ok hs rm
      else
        (let r = archReg h in
         ri_class r \<in> set mapped_classes \<and>
         ptr_class (newPhysReg h) = ri_class r \<and> ptr_class (prevPhysReg h) = ri_class r \<and>
         unat (ri_index r) < length (rm (ri_class r)) \<and>
         rm (ri_class r) ! unat (ri_index r) = Some (newPhysReg h) \<and>
         hist_ok hs (set_map r (prevPhysReg h) rm)))"

definition rename_inv :: "nat \<Rightarrow> (RegClassType \<Rightarrow> nat) \<Rightarrow> rename_state \<Rightarrow> bool" where
  "rename_inv N phys st \<longleftrightarrow>
     regs_ok phys (regFile st) (scoreboard st) \<and>
     (\<forall>c \<in> set mapped_classes. held N c st = mset (map (RegAt c) [0..<phys c])) \<and>
     (\<forall>t<N. hist_ok (historyBuffer st t) (renameMap st t)) \<and>
     (\<forall>t<N. \<forall>r \<in> set (freeingInProgress st t). ptr_class r \<in> set mapped_classes)"

section \<open>Multisets of registers\<close>

lemma held_upd:
  assumes "t < N"
    and "mset (fl' c) + thread_regs c rm hs fr = mset (fl c) + thread_regs c (rms t) (hss t) (frs t)"
  shows "held_of N c fl' (rms(t := rm)) (hss(t := hs)) (frs(t := fr)) = held_of N c fl rms hss frs"
proof -
  have eq: "(\<Sum>s<N. thread_regs c (f s) (g s) (h s)) =
     thread_regs c (f t) (g t) (h t) + (\<Sum>s\<in>{..<N} - {t}. thread_regs c (f s) (g s) (h s))" for f g h
    using assms(1) by (simp add: sum.remove)
  show ?thesis
    unfolding held_of_def eq using assms(2) by (simp add: add.assoc [symmetric])
qed

lemma held_of_thread:
  "t < N \<Longrightarrow> thread_regs c (rms t) (hss t) (frs t) + mset (fl c) \<subseteq># held_of N c fl rms hss frs"
  by (simp add: held_of_def sum.remove [of "{..<N}" t] ac_simps)

lemma somes_upd_Some:
  assumes "i < length m" "m ! i = Some p"
  shows "add_mset p (somes (m[i := Some r])) = add_mset r (somes m)"
proof -
  obtain M where M: "mset m = add_mset (Some p) M"
    using assms by (metis insert_DiffM nth_mem_mset)
  then have "mset (m[i := Some r]) = add_mset (Some r) M"
    using assms by (simp add: mset_update)
  with M show ?thesis by (simp add: somes_def)
qed

lemma somes_upd_None:
  "i < length m \<Longrightarrow> m ! i = None \<Longrightarrow> somes (m[i := Some r]) = add_mset r (somes m)"
  by (simp add: somes_def mset_update)

lemma somes_mem: "i < length m \<Longrightarrow> m ! i = Some p \<Longrightarrow> p \<in># somes m"
  by (force simp: somes_def in_set_conv_nth)

lemma somes_replicate [simp]: "somes (replicate n None) = {#}"
  by (induction n) (simp_all add: somes_def)

lemma prevs_Cons [simp]:
  "prevs (h # hs) = (if newPhysReg h = prevPhysReg h then prevs hs else prevPhysReg h # prevs hs)"
  by (simp add: prevs_def)

lemma prevs_append [simp]: "prevs (xs @ ys) = prevs xs @ prevs ys"
  by (simp add: prevs_def)

lemma prevs_Nil [simp]: "prevs [] = []"
  by (simp add: prevs_def)

section \<open>The store\<close>

lemma mapped_iff: "c \<in> set mapped_classes \<longleftrightarrow> isRenameable c"
  by (cases c) (simp_all add: mapped_classes_def)

lemma regs_ok_class: "regs_ok phys rf sb \<Longrightarrow> i < phys c \<Longrightarrow> pr_class (deref rf (RegAt c i)) = c"
  by (simp add: regs_ok_def)

lemma regs_ok_flat:
  "regs_ok phys rf sb \<Longrightarrow> i < phys c \<Longrightarrow> isRenameable c \<Longrightarrow>
   unat (pr_flatIdx (deref rf (RegAt c i))) < length sb"
  by (simp add: regs_ok_def mapped_iff)

lemma nth_update_inv:
  assumes "\<And>x. g (f x) = g x"
  shows "g (xs[j := f (xs ! j)] ! i) = g (xs ! i)"
  using assms by (cases "j < length xs"; cases "i = j") (simp_all add: list_update_beyond)

lemma regs_ok_update:
  assumes "regs_ok phys rf sb" "\<And>x. pr_class (f x) = pr_class x" "\<And>x. pr_flatIdx (f x) = pr_flatIdx x"
    and "length sb' = length sb"
  shows "regs_ok phys (update_reg r f rf) sb'"
  using assms(1,4)
  by (cases r) (auto simp: regs_ok_def nth_update_inv [of pr_class f, OF assms(2)]
                           nth_update_inv [of pr_flatIdx f, OF assms(3)])

lemma length_unsetReg: "Scoreboard_unsetReg r sb = Inr sb' \<Longrightarrow> length sb' = length sb"
  by (auto simp: Scoreboard_unsetReg_def assert_that_eq_Inr split: if_splits)

lemma length_setReg: "Scoreboard_setReg r sb = Inr sb' \<Longrightarrow> length sb' = length sb"
  by (auto simp: Scoreboard_setReg_def assert_that_eq_Inr split: if_splits)

lemma regs_ok_length: "regs_ok phys rf sb \<Longrightarrow> length sb' = length sb \<Longrightarrow> regs_ok phys rf sb'"
  by (simp add: regs_ok_def)

text \<open>Everything a thread holds points to a register of its class.\<close>

lemma held_is_reg:
  assumes "rename_inv N phys st" "c \<in> set mapped_classes" "r \<in># held N c st"
  shows "\<exists>i<phys c. r = RegAt c i"
  using assms by (auto simp: rename_inv_def)

lemma held_thread_reg:
  assumes "rename_inv N phys st" "c \<in> set mapped_classes" "t < N"
    and "r \<in># thread_regs c (renameMap st t) (historyBuffer st t) (freeingInProgress st t)"
  shows "\<exists>i<phys c. r = RegAt c i"
  using held_is_reg [OF assms(1,2)] held_of_thread [OF assms(3)] assms(4)
  by (meson mset_subset_eqD union_iff)

lemma held_free_reg:
  assumes "rename_inv N phys st" "c \<in> set mapped_classes" "r \<in> set (freeLists st c)"
  shows "\<exists>i<phys c. r = RegAt c i"
  using held_is_reg [OF assms(1,2)] assms(3) by (auto simp: held_of_def)

lemma held_distinct:
  assumes "rename_inv N phys st" "c \<in> set mapped_classes" "t < N"
    and "r \<in># thread_regs c (renameMap st t) (historyBuffer st t) (freeingInProgress st t)"
  shows "r \<notin> set (freeLists st c)"
proof
  assume "r \<in> set (freeLists st c)"
  then have "2 \<le> count (thread_regs c (renameMap st t) (historyBuffer st t) (freeingInProgress st t)
      + mset (freeLists st c)) r"
    using assms(4) by (metis add_mono count_greater_eq_one_iff count_union one_add_one set_mset_mset)
  also have "\<dots> \<le> count (held N c st) r"
    using held_of_thread [OF assms(3)] by (rule mset_subset_eq_count)
  also have "\<dots> \<le> 1"
    using assms(1,2) distinct_count_atmost_1 [of "map (RegAt c) [0..<phys c]"]
    by (simp add: rename_inv_def distinct_map inj_on_def)
  finally show False by simp
qed

section \<open>Renaming a destination\<close>

text \<open>The two outcomes of \<open>rename\<close>: the register keeps its mapping, or a free register replaces it.\<close>

lemma UnifiedRenameMap_rename_cases:
  assumes "UnifiedRenameMap_rename r rf fl rm = Inr ((new, prev), rf', fl', rm')"
  obtains (kept) f where "new = prev" "fl' = fl" "rm' = rm" "rf' = update_reg new f rf"
      "\<And>x. pr_class (f x) = pr_class x" "\<And>x. pr_flatIdx (f x) = pr_flatIdx x"
      "\<And>x. pr_pinnedWrites (f x) \<le> pr_pinnedWrites x"
    | (allocated) f rest where "isRenameable (ri_class r)" "fl (ri_class r) = new # rest"
      "fl' = fl(ri_class r := rest)" "rm' = set_map r new rm" "rf' = update_reg new f rf"
      "unat (ri_index r) < length (rm (ri_class r))"
      "rm (ri_class r) ! unat (ri_index r) = Some prev"
      "\<And>x. pr_class (f x) = pr_class x" "\<And>x. pr_flatIdx (f x) = pr_flatIdx x"
      "\<And>x. pr_pinnedWrites (f x) = ri_pinnedWrites r"
proof (cases "isRenameable (ri_class r)")
  case False
  then have "new = prev" "fl' = fl" "rm' = rm" "rf' = rf"
    using assms by (auto simp: UnifiedRenameMap_rename_def Let_def rbind_eq_Inr split: option.splits)
  moreover have "rf = update_reg new (\<lambda>x. x) rf"
    by (cases new) simp_all
  ultimately show ?thesis using kept [of "\<lambda>x. x"] by simp
next
  case True
  then obtain regs' m' where R: "SimpleRenameMap_rename r rf (fl (ri_class r)) (rm (ri_class r)) =
      Inr ((new, prev), rf', regs', m')" and fl': "fl' = fl(ri_class r := regs')"
      and rm': "rm' = rm(ri_class r := m')"
    using assms by (auto simp: UnifiedRenameMap_rename_def Let_def rbind_eq_Inr)
  have idx: "unat (ri_index r) < length (rm (ri_class r))"
    "rm (ri_class r) ! unat (ri_index r) = Some prev"
    using R by (auto simp: SimpleRenameMap_rename_def rbind_eq_Inr assert_that_eq_Inr split: if_splits option.splits)
  show ?thesis
  proof (cases "pr_pinnedWrites (deref rf prev) > 0")
    case pinned: True
    then show ?thesis
      using R True idx fl' rm' kept [of PhysRegId_decrNumPinnedWrites]
      by (auto simp: SimpleRenameMap_rename_def assert_that_eq_Inr PhysRegId_decrNumPinnedWrites_def)
  next
    case free: False
    then show ?thesis
      using R True idx fl' rm'
        allocated [of regs' "PhysRegId_setNumPinnedWritesToComplete (ri_pinnedWrites r + 1)
                          \<circ> PhysRegId_setNumPinnedWrites (ri_pinnedWrites r)"]
      by (auto simp: SimpleRenameMap_rename_def rbind_eq_Inr assert_that_eq_Inr SimpleFreeList_getReg_def
            set_map_def PhysRegId_setNumPinnedWritesToComplete_def PhysRegId_setNumPinnedWrites_def)
  qed
qed

text \<open>The map the entries newer than \<open>sn\<close> were applied to.\<close>

primrec undo :: "InstSeqNum \<Rightarrow> RenameHistory list \<Rightarrow> UnifiedRenameMap \<Rightarrow> UnifiedRenameMap" where
  "undo sn [] rm = rm"
| "undo sn (h # hs) rm =
     (if instSeqNum h > sn then
        undo sn hs (if newPhysReg h = prevPhysReg h then rm else set_map (archReg h) (prevPhysReg h) rm)
      else rm)"

text \<open>What a step of one thread changes, seen from the invariant.\<close>

lemma rename_inv_thread:
  assumes "rename_inv N phys st" "t < N" "regs_ok phys rf sb"
    and "\<And>c. c \<in> set mapped_classes \<Longrightarrow> mset (fl c) + thread_regs c rm hs fr =
       mset (freeLists st c) +
       thread_regs c (renameMap st t) (historyBuffer st t) (freeingInProgress st t)"
    and "hist_ok hs rm" "\<forall>r \<in> set fr. ptr_class r \<in> set mapped_classes"
  shows "rename_inv N phys
     (st\<lparr>regFile := rf, freeLists := fl, scoreboard := sb, renameMap := (renameMap st)(t := rm),
         historyBuffer := (historyBuffer st)(t := hs),
         freeingInProgress := (freeingInProgress st)(t := fr)\<rparr>)"
  using assms by (simp add: rename_inv_def held_upd)

lemma renameDestReg_step_inv:
  assumes inv: "rename_inv N phys st" and t: "t < N"
    and step: "renameDestReg_step r t k (inst, st) = Inr (inst', st')"
  shows "rename_inv N phys st' \<and> di_seqNum inst' = di_seqNum inst \<and>
     (\<forall>s. s \<noteq> t \<longrightarrow> renameMap st' s = renameMap st s \<and> historyBuffer st' s = historyBuffer st s) \<and>
     (\<forall>sn < di_seqNum inst.
        undo sn (historyBuffer st' t) (renameMap st' t) = undo sn (historyBuffer st t) (renameMap st t))"
    (is "?inv st' \<and> ?rest")
proof -
  obtain new prev rf fl rm sb where
    ren: "UnifiedRenameMap_rename r (regFile st) (freeLists st) (renameMap st t) = Inr ((new, prev), rf, fl, rm)"
    and sb: "Scoreboard_unsetReg (deref rf new) (scoreboard st) = Inr sb"
    and st': "st' = st\<lparr>regFile := rf, freeLists := fl, scoreboard := sb,
       renameMap := (renameMap st)(t := rm),
       historyBuffer := (historyBuffer st)(t := \<lparr>instSeqNum = di_seqNum inst, archReg = r,
          newPhysReg = new, prevPhysReg = prev\<rparr> # historyBuffer st t),
       freeingInProgress := (freeingInProgress st)(t := freeingInProgress st t)\<rparr>"
    and seq: "di_seqNum inst' = di_seqNum inst"
    using step by (auto simp: renameDestReg_step_def rbind_eq_Inr DynInst_renameDestReg_def)
  have ok: "regs_ok phys (regFile st) (scoreboard st)" "hist_ok (historyBuffer st t) (renameMap st t)"
    "\<forall>r \<in> set (freeingInProgress st t). ptr_class r \<in> set mapped_classes"
    using inv t by (auto simp: rename_inv_def)
  from ren show ?thesis
  proof (cases rule: UnifiedRenameMap_rename_cases)
    case (kept f)
    then have "?inv st'"
      unfolding st' using ok inv t length_unsetReg [OF sb]
      by (intro rename_inv_thread) (simp_all add: regs_ok_update thread_regs_def)
    with kept seq show ?thesis by (simp add: st')
  next
    case (allocated f rest)
    let ?c = "ri_class r"
    have c: "?c \<in> set mapped_classes" using allocated(1) by (simp add: mapped_iff)
    have prev: "prev \<in># thread_regs ?c (renameMap st t) (historyBuffer st t) (freeingInProgress st t)"
      using somes_mem [OF allocated(6,7)] by (simp add: thread_regs_def)
    have ne: "new \<noteq> prev" using held_distinct [OF inv c t prev] allocated(2) by auto
    have cls: "ptr_class new = ?c" "ptr_class prev = ?c"
      using held_free_reg [OF inv c, of new] held_thread_reg [OF inv c t prev] allocated(2) by auto
    have undone: "set_map r prev (set_map r new (renameMap st t)) = renameMap st t"
      using allocated(7) by (auto simp: set_map_def fun_eq_iff list_update_same_conv allocated(6))
    have "mset (fl c') + thread_regs c' rm (\<lparr>instSeqNum = di_seqNum inst, archReg = r,
          newPhysReg = new, prevPhysReg = prev\<rparr> # historyBuffer st t) (freeingInProgress st t) =
       mset (freeLists st c') + thread_regs c' (renameMap st t) (historyBuffer st t) (freeingInProgress st t)"
      for c'
      using ne cls allocated(2-5) somes_upd_Some [OF allocated(6,7), of new]
      by (cases "c' = ?c") (auto simp: thread_regs_def set_map_def)
    then have "?inv st'"
      unfolding st' using ok inv t length_unsetReg [OF sb] allocated ne cls c undone
      by (intro rename_inv_thread) (simp_all add: regs_ok_update set_map_def)
    with allocated ne seq undone show ?thesis by (simp add: st')
  qed
qed

section \<open>Squashing\<close>

lemma setEntry_ok:
  assumes "pr_class (deref rf p) = ri_class r" "isRenameable (ri_class r)"
    and "unat (ri_index r) < length (rm (ri_class r))"
  shows "UnifiedRenameMap_setEntry r p rf rm = Inr (set_map r p rm)"
  using assms by (simp add: UnifiedRenameMap_setEntry_def SimpleRenameMap_setEntry_def Let_def set_map_def)

lemma history_freeing_commute:
  "st\<lparr>renameMap := a, freeingInProgress := b, historyBuffer := c\<rparr> =
   st\<lparr>renameMap := a, historyBuffer := c, freeingInProgress := b\<rparr>" for st :: rename_state
  by (cases st) simp

lemma doSquash_entry_inv:
  assumes inv: "rename_inv N phys (st\<lparr>historyBuffer := (historyBuffer st)(t := h # hs)\<rparr>)" and t: "t < N"
    and ne: "newPhysReg h \<noteq> prevPhysReg h"
  shows "UnifiedRenameMap_setEntry (archReg h) (prevPhysReg h) (regFile st) (renameMap st t) =
           Inr (set_map (archReg h) (prevPhysReg h) (renameMap st t))" (is ?set)
    and "rename_inv N phys (st\<lparr>renameMap := (renameMap st)(t := set_map (archReg h) (prevPhysReg h) (renameMap st t)),
           freeingInProgress := (freeingInProgress st)(t := freeingInProgress st t @ [newPhysReg h]),
           historyBuffer := (historyBuffer st)(t := hs)\<rparr>)" (is ?inv)
proof -
  let ?c = "ri_class (archReg h)"
  have h: "?c \<in> set mapped_classes" "ptr_class (newPhysReg h) = ?c" "ptr_class (prevPhysReg h) = ?c"
    "unat (ri_index (archReg h)) < length (renameMap st t ?c)"
    "renameMap st t ?c ! unat (ri_index (archReg h)) = Some (newPhysReg h)"
    "hist_ok hs (set_map (archReg h) (prevPhysReg h) (renameMap st t))"
    "\<forall>r \<in> set (freeingInProgress st t). ptr_class r \<in> set mapped_classes"
    "regs_ok phys (regFile st) (scoreboard st)"
    using inv t ne by (auto simp: rename_inv_def Let_def)
  have "prevPhysReg h \<in># thread_regs ?c (renameMap st t) (h # hs) (freeingInProgress st t)"
    using ne h by (simp add: thread_regs_def)
  then obtain i where "i < phys ?c" "prevPhysReg h = RegAt ?c i"
    using held_thread_reg [OF inv h(1) t] by auto
  then show ?set
    using h regs_ok_class [OF h(8)] by (intro setEntry_ok) (simp_all add: mapped_iff)
  have "mset (freeLists st c) + thread_regs c (set_map (archReg h) (prevPhysReg h) (renameMap st t)) hs
          (freeingInProgress st t @ [newPhysReg h]) =
        mset (freeLists st c) + thread_regs c (renameMap st t) (h # hs) (freeingInProgress st t)" for c
    using ne h somes_upd_Some [OF h(4,5), of "prevPhysReg h"]
    by (cases "c = ?c") (auto simp: thread_regs_def set_map_def)
  then show ?inv
    using rename_inv_thread [OF inv t h(8), of "freeLists st" "set_map (archReg h) (prevPhysReg h) (renameMap st t)"
        hs "freeingInProgress st t @ [newPhysReg h]"] h
    by (simp add: history_freeing_commute)
qed

lemma rename_inv_skip_entry:
  assumes "rename_inv N phys (st\<lparr>historyBuffer := (historyBuffer st)(t := h # hs)\<rparr>)" "t < N"
    and "newPhysReg h = prevPhysReg h"
  shows "rename_inv N phys (st\<lparr>historyBuffer := (historyBuffer st)(t := hs)\<rparr>)"
proof -
  have "hist_ok hs (renameMap st t)" "regs_ok phys (regFile st) (scoreboard st)"
    "\<forall>r \<in> set (freeingInProgress st t). ptr_class r \<in> set mapped_classes"
    using assms by (auto simp: rename_inv_def)
  then show ?thesis
    using rename_inv_thread [OF assms(1,2), of "regFile st" "scoreboard st" "freeLists st" "renameMap st t" hs
      "freeingInProgress st t"] assms(3)
    by (simp add: thread_regs_def)
qed

lemma doSquash_loop_ok:
  assumes "rename_inv N phys (st\<lparr>historyBuffer := (historyBuffer st)(t := hs)\<rparr>)" "t < N"
  shows "\<exists>st'. doSquash_loop sn t hs st = Inr st' \<and> rename_inv N phys st' \<and>
     renameMap st' = (renameMap st)(t := undo sn hs (renameMap st t)) \<and>
     historyBuffer st' = (historyBuffer st)(t := dropWhile (\<lambda>h. instSeqNum h > sn) hs)"
  using assms
proof (induction hs arbitrary: st)
  case Nil
  then show ?case by (simp add: fun_upd_def)
next
  case (Cons h hs)
  consider "\<not> instSeqNum h > sn" | "instSeqNum h > sn" "newPhysReg h = prevPhysReg h"
    | "instSeqNum h > sn" "newPhysReg h \<noteq> prevPhysReg h" by blast
  then show ?case
  proof cases
    case 1
    then show ?thesis using Cons.prems by (simp add: fun_upd_def)
  next
    case 2
    then show ?thesis
      using Cons.IH [OF rename_inv_skip_entry [OF Cons.prems]] Cons.prems(2) by (simp add: fun_upd_def)
  next
    case 3
    note entry = doSquash_entry_inv [OF Cons.prems 3(2)]
    show ?thesis
      using Cons.IH [of "st\<lparr>renameMap := (renameMap st)(t := set_map (archReg h) (prevPhysReg h) (renameMap st t)),
           freeingInProgress := (freeingInProgress st)(t := freeingInProgress st t @ [newPhysReg h])\<rparr>"]
        entry Cons.prems(2) 3
      by (simp add: fun_upd_def cong: if_cong)
  qed
qed

lemma doSquash_ok:
  assumes "rename_inv N phys st" "t < N"
  shows "\<exists>st'. Rename_doSquash sn t st = Inr st' \<and> rename_inv N phys st' \<and>
     renameMap st' = (renameMap st)(t := undo sn (historyBuffer st t) (renameMap st t)) \<and>
     historyBuffer st' = (historyBuffer st)(t := dropWhile (\<lambda>h. instSeqNum h > sn) (historyBuffer st t))"
  unfolding Rename_doSquash_def using assms by (intro doSquash_loop_ok) simp_all

section \<open>Committing and freeing\<close>

lemma addReg_ok:
  assumes "regs_ok phys rf sb" "i < phys c" "c \<in> set mapped_classes"
  shows "UnifiedFreeList_addReg rf (RegAt c i) fl = Inr (fl(c := fl c @ [RegAt c i]))"
  using assms regs_ok_class [OF assms(1,2)]
  by (simp add: UnifiedFreeList_addReg_def Let_def SimpleFreeList_addReg_def)

lemma hist_ok_butlast: "hist_ok (hs @ [h]) rm \<Longrightarrow> hist_ok hs rm"
  by (induction hs arbitrary: rm) (auto simp: Let_def split: if_splits)

lemma hist_ok_mapped:
  "hist_ok hs rm \<Longrightarrow> h \<in> set hs \<Longrightarrow> newPhysReg h \<noteq> prevPhysReg h \<Longrightarrow> ptr_class (prevPhysReg h) \<in> set mapped_classes"
  by (induction hs arbitrary: rm) (auto simp: Let_def split: if_splits)

lemma commit_entry_inv:
  assumes inv: "rename_inv N phys (st\<lparr>historyBuffer := (historyBuffer st)(t := hs @ [h])\<rparr>)" and t: "t < N"
    and ne: "newPhysReg h \<noteq> prevPhysReg h"
  shows "\<exists>fl. UnifiedFreeList_addReg (regFile st) (prevPhysReg h) (freeLists st) = Inr fl \<and>
     rename_inv N phys (st\<lparr>freeLists := fl, historyBuffer := (historyBuffer st)(t := hs)\<rparr>)"
proof -
  let ?c = "ptr_class (prevPhysReg h)"
  have ok: "regs_ok phys (regFile st) (scoreboard st)" "hist_ok (hs @ [h]) (renameMap st t)"
    "\<forall>r \<in> set (freeingInProgress st t). ptr_class r \<in> set mapped_classes"
    using inv t by (auto simp: rename_inv_def)
  have c: "?c \<in> set mapped_classes" using hist_ok_mapped [OF ok(2) _ ne] by simp
  have "prevPhysReg h \<in># thread_regs ?c (renameMap st t) (hs @ [h]) (freeingInProgress st t)"
    using ne by (simp add: thread_regs_def)
  then obtain i where i: "i < phys ?c" "prevPhysReg h = RegAt ?c i"
    using held_thread_reg [OF inv c t] by auto
  let ?fl = "(freeLists st)(?c := freeLists st ?c @ [prevPhysReg h])"
  have "mset (?fl c') + thread_regs c' (renameMap st t) hs (freeingInProgress st t) =
        mset (freeLists st c') + thread_regs c' (renameMap st t) (hs @ [h]) (freeingInProgress st t)" for c'
    using ne by (cases "c' = ?c") (auto simp: thread_regs_def)
  then have "rename_inv N phys (st\<lparr>freeLists := ?fl, historyBuffer := (historyBuffer st)(t := hs)\<rparr>)"
    using rename_inv_thread [OF inv t ok(1), of ?fl "renameMap st t" hs "freeingInProgress st t"] ok
      hist_ok_butlast [OF ok(2)] by simp
  moreover have "UnifiedFreeList_addReg (regFile st) (prevPhysReg h) (freeLists st) = Inr ?fl"
    using addReg_ok [OF ok(1) i(1) c] i(2) by metis
  ultimately show ?thesis by blast
qed

lemma rename_inv_skip_last:
  assumes "rename_inv N phys (st\<lparr>historyBuffer := (historyBuffer st)(t := hs @ [h])\<rparr>)" "t < N"
    and "newPhysReg h = prevPhysReg h"
  shows "rename_inv N phys (st\<lparr>historyBuffer := (historyBuffer st)(t := hs)\<rparr>)"
proof -
  have "hist_ok (hs @ [h]) (renameMap st t)" "regs_ok phys (regFile st) (scoreboard st)"
    "\<forall>r \<in> set (freeingInProgress st t). ptr_class r \<in> set mapped_classes"
    using assms(1,2) by (auto simp: rename_inv_def)
  moreover from this(1) have "hist_ok hs (renameMap st t)" by (rule hist_ok_butlast)
  ultimately show ?thesis
    using rename_inv_thread [OF assms(1,2), of "regFile st" "scoreboard st" "freeLists st" "renameMap st t" hs
      "freeingInProgress st t"] assms(3)
    by (simp add: thread_regs_def)
qed

lemma removeFromHistory_loop_ok:
  assumes "rename_inv N phys (st\<lparr>historyBuffer := (historyBuffer st)(t := rev hs)\<rparr>)" "t < N"
  shows "\<exists>st'. removeFromHistory_loop sn t hs st = Inr st' \<and> rename_inv N phys st' \<and>
     renameMap st' = renameMap st \<and>
     historyBuffer st' = (historyBuffer st)(t := rev (dropWhile (\<lambda>h. instSeqNum h \<le> sn) hs))"
  using assms
proof (induction hs arbitrary: st)
  case Nil
  then show ?case by (simp add: fun_upd_def)
next
  case (Cons h hs)
  consider "\<not> instSeqNum h \<le> sn" | "instSeqNum h \<le> sn" "newPhysReg h = prevPhysReg h"
    | "instSeqNum h \<le> sn" "newPhysReg h \<noteq> prevPhysReg h" by blast
  then show ?case
  proof cases
    case 1
    then show ?thesis using Cons.prems by (simp add: fun_upd_def)
  next
    case 2
    then show ?thesis
      using Cons.IH [of st] rename_inv_skip_last [of N phys st t "rev hs" h] Cons.prems
      by (simp add: fun_upd_def)
  next
    case 3
    obtain fl where "UnifiedFreeList_addReg (regFile st) (prevPhysReg h) (freeLists st) = Inr fl"
      "rename_inv N phys (st\<lparr>freeLists := fl, historyBuffer := (historyBuffer st)(t := rev hs)\<rparr>)"
      using commit_entry_inv [of N phys st t "rev hs" h] Cons.prems 3 by (auto simp: fun_upd_def)
    then show ?thesis
      using Cons.IH [of "st\<lparr>freeLists := fl\<rparr>"] Cons.prems(2) 3 by (simp add: fun_upd_def)
  qed
qed

lemma removeFromHistory_ok:
  assumes "rename_inv N phys st" "t < N"
  shows "\<exists>st' k. Rename_removeFromHistory sn t st = Inr st' \<and> rename_inv N phys st' \<and>
     renameMap st' = renameMap st \<and>
     historyBuffer st' = (historyBuffer st)(t := take k (historyBuffer st t)) \<and>
     (\<forall>h \<in> set (drop k (historyBuffer st t)). instSeqNum h \<le> sn)"
proof (cases "historyBuffer st t = [] \<or> instSeqNum (last (historyBuffer st t)) > sn")
  case True
  then show ?thesis
    using assms by (intro exI [of _ st] exI [of _ "length (historyBuffer st t)"])
      (auto simp: Rename_removeFromHistory_def)
next
  case False
  let ?hs = "rev (historyBuffer st t)" and ?P = "\<lambda>h. instSeqNum h \<le> sn"
  let ?k = "length (dropWhile ?P ?hs)"
  have "historyBuffer st t = rev (dropWhile ?P ?hs) @ rev (takeWhile ?P ?hs)"
    by (simp flip: rev_append)
  then have split: "take ?k (historyBuffer st t) = rev (dropWhile ?P ?hs)"
    "drop ?k (historyBuffer st t) = rev (takeWhile ?P ?hs)"
    by (metis append_eq_conv_conj length_rev)+
  obtain st' where "removeFromHistory_loop sn t ?hs st = Inr st'" "rename_inv N phys st'"
    "renameMap st' = renameMap st" "historyBuffer st' = (historyBuffer st)(t := rev (dropWhile ?P ?hs))"
    using removeFromHistory_loop_ok [of N phys st t ?hs sn] assms by auto
  then show ?thesis
    using False split by (intro exI [of _ st'] exI [of _ ?k])
      (auto simp: Rename_removeFromHistory_def dest: set_takeWhileD)
qed

lemma addRegs_ok:
  assumes "regs_ok phys rf sb"
    and "\<And>r. r \<in> set rs \<Longrightarrow> \<exists>c i. r = RegAt c i \<and> i < phys c \<and> c \<in> set mapped_classes"
  shows "UnifiedFreeList_addRegs rf rs fl = Inr (\<lambda>c. fl c @ filter (\<lambda>r. ptr_class r = c) rs)"
  using assms(2)
proof (induction rs arbitrary: fl)
  case (Cons r rs)
  obtain c i where "r = RegAt c i" "i < phys c" "c \<in> set mapped_classes"
    using Cons.prems [of r] by auto
  then show ?case
    using addReg_ok [OF assms(1)] Cons.IH Cons.prems by (auto simp: fun_eq_iff)
qed simp

lemma freeSquashed_ok:
  assumes inv: "rename_inv N phys st" and t: "t < N"
  shows "\<exists>st'. Rename_freeSquashed t st = Inr st' \<and> rename_inv N phys st' \<and>
     renameMap st' = renameMap st \<and> historyBuffer st' = historyBuffer st"
proof -
  let ?fl = "\<lambda>c. freeLists st c @ filter (\<lambda>r. ptr_class r = c) (freeingInProgress st t)"
  have ok: "regs_ok phys (regFile st) (scoreboard st)" "hist_ok (historyBuffer st t) (renameMap st t)"
    "\<forall>r \<in> set (freeingInProgress st t). ptr_class r \<in> set mapped_classes"
    using inv t by (auto simp: rename_inv_def)
  have "\<exists>c i. r = RegAt c i \<and> i < phys c \<and> c \<in> set mapped_classes" if "r \<in> set (freeingInProgress st t)" for r
    using held_thread_reg [OF inv _ t, of "ptr_class r" r] ok(3) that by (auto simp: thread_regs_def)
  from addRegs_ok [OF ok(1) this] have
    "UnifiedFreeList_addRegs (regFile st) (freeingInProgress st t) (freeLists st) = Inr ?fl" by simp
  moreover have "rename_inv N phys (st\<lparr>freeLists := ?fl, freeingInProgress := (freeingInProgress st)(t := [])\<rparr>)"
    using rename_inv_thread [OF inv t ok(1), of ?fl "renameMap st t" "historyBuffer st t" "[]"] ok
    by (simp add: thread_regs_def)
  ultimately show ?thesis by (simp add: Rename_freeSquashed_def)
qed

section \<open>Runs keep the invariant\<close>

lemma renameDestRegs_loop_inv:
  assumes "rename_inv N phys st" "t < N" "renameDestRegs_loop flatten t ds k (inst, st) = Inr (inst', st')"
  shows "rename_inv N phys st' \<and>
     (\<forall>s. s \<noteq> t \<longrightarrow> renameMap st' s = renameMap st s \<and> historyBuffer st' s = historyBuffer st s) \<and>
     (\<forall>sn < di_seqNum inst.
        undo sn (historyBuffer st' t) (renameMap st' t) = undo sn (historyBuffer st t) (renameMap st t))"
  using assms
proof (induction ds arbitrary: k inst st)
  case (Cons d ds)
  then obtain i1 s1 where "renameDestReg_step (flat_dest flatten d) t k (inst, st) = Inr (i1, s1)"
    "renameDestRegs_loop flatten t ds (Suc k) (i1, s1) = Inr (inst', st')"
    by (auto simp: rbind_eq_Inr)
  with renameDestReg_step_inv [OF Cons.prems(1,2) this(1)] Cons.IH [of s1 "Suc k" i1] Cons.prems(2)
  show ?case by auto
qed simp

lemma renameSrcRegs_loop_seqNum:
  "renameSrcRegs_loop flatten st t rs k inst = Inr inst' \<Longrightarrow>
   di_seqNum inst' = di_seqNum inst \<and> di_destRegs inst' = di_destRegs inst"
  by (induction rs arbitrary: k inst)
     (force simp: rbind_eq_Inr Let_def panic_if_eq_Inr DynInst_renameSrcReg_def DynInst_markSrcRegReady_def
        split: option.splits if_splits)+

lemma undo_append:
  "\<forall>h \<in> set ys. instSeqNum h \<le> sn \<Longrightarrow> undo sn (xs @ ys) rm = undo sn xs rm"
  by (induction xs arbitrary: rm) (auto, cases ys, auto)

lemma undo_undo:
  "sn \<le> sn' \<Longrightarrow> undo sn (dropWhile (\<lambda>h. instSeqNum h > sn') hs) (undo sn' hs rm) = undo sn hs rm"
  by (induction hs arbitrary: rm) auto

fun event_thread_ok :: "nat \<Rightarrow> rename_event \<Rightarrow> bool" where
  "event_thread_ok N (EvRename inst) = (di_thread inst < N)"
| "event_thread_ok N (EvSquash sn t) = (t < N)"
| "event_thread_ok N (EvCommit sn t) = (t < N)"
| "event_thread_ok N (EvFree t) = (t < N)"
| "event_thread_ok N _ = True"

text \<open>Events of thread \<open>t\<close> that leave what was renamed up to \<open>sn\<close> alone.\<close>

fun newer_than :: "InstSeqNum \<Rightarrow> ThreadID \<Rightarrow> rename_event \<Rightarrow> bool" where
  "newer_than sn t (EvRename inst) = (di_thread inst = t \<longrightarrow> di_seqNum inst > sn)"
| "newer_than sn t (EvSquash sn' t') = (t' = t \<longrightarrow> sn' \<ge> sn)"
| "newer_than sn t (EvCommit sn' t') = (t' = t \<longrightarrow> sn' \<le> sn)"
| "newer_than sn t _ = True"

lemma rename_do_inv:
  assumes "rename_inv N phys st" "event_thread_ok N e" "rename_do flatten e st = Inr st'"
  shows "rename_inv N phys st' \<and> (newer_than sn t e \<longrightarrow>
     undo sn (historyBuffer st' t) (renameMap st' t) = undo sn (historyBuffer st t) (renameMap st t))"
proof (cases e)
  case (EvRename inst)
  then show ?thesis
    using assms renameDestRegs_loop_inv [OF assms(1), of "di_thread inst"]
    by (cases "di_thread inst = t")
       (fastforce simp: rbind_eq_Inr Rename_renameInst_def Rename_renameDestRegs_def Rename_renameSrcRegs_def
          dest: renameSrcRegs_loop_seqNum)+
next
  case (EvSquash sn' t')
  then show ?thesis
    using assms doSquash_ok [OF assms(1), of t' sn'] by (auto simp: undo_undo)
next
  case (EvCommit sn' t')
  then obtain k where "rename_inv N phys st'" "renameMap st' = renameMap st"
     "historyBuffer st' = (historyBuffer st)(t' := take k (historyBuffer st t'))"
     "\<forall>h \<in> set (drop k (historyBuffer st t')). instSeqNum h \<le> sn'"
    using assms removeFromHistory_ok [OF assms(1), of t' sn'] by auto
  moreover from this(4) have "\<forall>h \<in> set (drop k (historyBuffer st t')). instSeqNum h \<le> sn" if "sn' \<le> sn"
    using that by (meson order_trans)
  ultimately show ?thesis
    using EvCommit undo_append [of "drop k (historyBuffer st t')" sn "take k (historyBuffer st t')" "renameMap st t'"]
    by auto
next
  case (EvFree t')
  then show ?thesis using assms freeSquashed_ok [OF assms(1), of t'] by auto
next
  case (EvCommitMap inst)
  then show ?thesis using assms by (auto simp: Commit_updateRenameMap_def rbind_eq_Inr rename_inv_def)
next
  case (EvReady r)
  then show ?thesis
    using assms regs_ok_length [of phys "regFile st" "scoreboard st"]
    by (auto simp: rbind_eq_Inr rename_inv_def dest: length_setReg)
next
  case (EvPins r n m)
  then show ?thesis
    using assms regs_ok_update [of phys "regFile st" "scoreboard st" "\<lambda>x. x\<lparr>pr_pinnedWrites := n, pr_toComplete := m\<rparr>"]
    by (auto simp: rename_inv_def)
qed

lemma rename_run_inv:
  assumes "rename_inv N phys st" "list_all (event_thread_ok N) es" "rename_run flatten es st = Inr st'"
  shows "rename_inv N phys st' \<and> (list_all (newer_than sn t) es \<longrightarrow>
     undo sn (historyBuffer st' t) (renameMap st' t) = undo sn (historyBuffer st t) (renameMap st t))"
  using assms
proof (induction es arbitrary: st)
  case (Cons e es)
  then obtain s1 where "rename_do flatten e st = Inr s1" "rename_run flatten es s1 = Inr st'"
    by (auto simp: rbind_eq_Inr)
  with rename_do_inv [OF Cons.prems(1), of e flatten s1 sn t] Cons.IH [of s1] Cons.prems(2)
  show ?case by auto
qed simp

section \<open>The initial state\<close>

lemma mapped_distinct [simp]: "distinct mapped_classes"
  by (simp add: mapped_classes_def)

lemma emplace_classes_ok:
  assumes "emplace_classes cs k (rf, flat) = Inr (rf', flat')" "distinct cs"
  shows "flat \<le> flat' \<and>
     (\<forall>c \<in> set cs. k c < 2 ^ 16 \<and> (\<exists>base. base + k c \<le> flat' \<and>
        rf' c = map (\<lambda>i. PhysRegId_new c (of_nat i) (of_nat (base + i))) [0..<k c])) \<and>
     (\<forall>c. c \<notin> set cs \<longrightarrow> rf' c = rf c)"
  using assms
proof (induction cs arbitrary: rf flat)
  case (Cons c cs)
  let ?ids = "map (\<lambda>i. PhysRegId_new c (of_nat i) (of_nat (flat + i))) [0..<k c]"
  have k: "k c < 2 ^ 16" and rest: "emplace_classes cs k (rf(c := ?ids), flat + k c) = Inr (rf', flat')"
    using Cons.prems(1) by (auto simp: emplace_ids_def split: if_splits)
  from Cons.IH [OF rest] Cons.prems(2) have IH: "flat + k c \<le> flat'" "rf' c = ?ids"
     "\<forall>c \<in> set cs. k c < 2 ^ 16 \<and> (\<exists>base. base + k c \<le> flat' \<and>
        rf' c = map (\<lambda>i. PhysRegId_new c (of_nat i) (of_nat (base + i))) [0..<k c])"
     "\<forall>c'. c' \<notin> set (c # cs) \<longrightarrow> rf' c' = rf c'"
    by auto
  then show ?case using k by auto
qed simp

lemma unat_of_nat_le: "unat (of_nat n :: 'a::len word) \<le> n"
  by (simp add: unsigned_of_nat)

lemma PhysRegFile_new_ok:
  assumes "PhysRegFile_new n num_regs = Inr (rf, tot)"
  shows "regs_ok (numPhysical n num_regs) rf (Scoreboard_new tot) \<and>
     (\<forall>c \<in> set mapped_classes. \<forall>i < length (rf c). unat (pr_index (rf c ! i)) = i)"
proof -
  let ?k = "numPhysical n num_regs"
  obtain rf1 where E: "emplace_classes mapped_classes ?k (\<lambda>c. [], 0) = Inr (rf1, tot)"
    and rf: "rf = rf1(MiscRegClass := map (\<lambda>i. PhysRegId_new MiscRegClass (of_nat i) 0) [0..<num_regs MiscRegClass])"
    using assms by (auto simp: PhysRegFile_new_def rbind_eq_Inr split: if_splits)
  have ids: "\<exists>base. base + ?k c \<le> tot \<and> ?k c < 2 ^ 16 \<and>
      rf c = map (\<lambda>i. PhysRegId_new c (of_nat i) (of_nat (base + i))) [0..<?k c]" if "c \<in> set mapped_classes" for c
    using emplace_classes_ok [OF E] that by (auto simp: rf mapped_iff)
  have other: "rf InvalidRegClass = []"
    using emplace_classes_ok [OF E] by (simp add: rf mapped_iff)
  have len: "length (rf c) = ?k c" for c
    using ids [of c] other by (cases c) (auto simp: mapped_classes_def rf numPhysical_def)
  have cls: "pr_class (rf c ! i) = c" if "i < ?k c" for c i
    using ids [of c] other that by (cases c) (auto simp: mapped_classes_def rf numPhysical_def PhysRegId_new_def)
  have flat: "unat (pr_flatIdx (rf c ! i)) < tot" if c: "c \<in> set mapped_classes" and i: "i < ?k c" for c i
  proof -
    obtain base where "base + ?k c \<le> tot" "pr_flatIdx (rf c ! i) = of_nat (base + i)"
      using ids [OF c] i by (auto simp: PhysRegId_new_def)
    with i show ?thesis using unat_of_nat_le [of "base + i", where 'a = 16] by simp
  qed
  have "unat (pr_index (rf c ! i)) = i" if "c \<in> set mapped_classes" "i < ?k c" for c i
    using ids [OF that(1)] that(2) by (auto simp: PhysRegId_new_def unsigned_of_nat take_bit_nat_eq_self)
  then show ?thesis
    using len cls flat by (simp add: regs_ok_def Scoreboard_new_def)
qed

lemma initFreeList_ok:
  assumes "regs_ok phys rf sb" "set cs \<subseteq> set mapped_classes" "distinct cs"
    and "initFreeList_classes cs rf fl = Inr fl'"
  shows "fl' = (\<lambda>c. fl c @ (if c \<in> set cs then map (RegAt c) [0..<phys c] else []))"
  using assms(2-)
proof (induction cs arbitrary: fl)
  case (Cons c cs)
  have len: "length (rf c) = phys c" using assms(1) by (simp add: regs_ok_def)
  have "UnifiedFreeList_addRegs rf (map (RegAt c) [0..<phys c]) fl =
    Inr (\<lambda>c'. fl c' @ filter (\<lambda>r. ptr_class r = c') (map (RegAt c) [0..<phys c]))"
    using assms(1) Cons.prems(1) by (intro addRegs_ok) auto
  moreover have "filter (\<lambda>r. ptr_class r = c') (map (RegAt c) xs) =
      (if c' = c then map (RegAt c) xs else [])" for c' xs
    by (induction xs) auto
  ultimately show ?case
    using Cons.IH Cons.prems len by (fastforce simp: assert_that_eq_Inr rbind_eq_Inr fun_eq_iff)
qed simp

text \<open>A register taken from the free list enters an empty slot of the map.\<close>

lemma init_entry_inv:
  assumes inv: "rename_inv N phys st" and t: "t < N" and c: "c \<in> set mapped_classes"
    and get: "UnifiedFreeList_getReg c (freeLists st) = Inr (r, fl)"
    and set: "UnifiedRenameMap_setEntry a r (regFile st) (renameMap st t) = Inr rm"
    and a: "ri_class a = c" "renameMap st t c ! unat (ri_index a) = None"
    and hist: "historyBuffer st t = []"
  shows "rename_inv N phys (st\<lparr>freeLists := fl, renameMap := (renameMap st)(t := rm)\<rparr>) \<and>
     rm = set_map a r (renameMap st t) \<and> unat (ri_index a) < length (renameMap st t c)"
proof -
  obtain regs' where fl: "freeLists st c = r # regs'" "fl = (freeLists st)(c := regs')"
    using get by (auto simp: UnifiedFreeList_getReg_def SimpleFreeList_getReg_def rbind_eq_Inr assert_that_eq_Inr
        neq_Nil_conv split: if_splits)
  have rm: "unat (ri_index a) < length (renameMap st t c)" "rm = set_map a r (renameMap st t)"
    using set a c by (auto simp: UnifiedRenameMap_setEntry_def SimpleRenameMap_setEntry_def Let_def rbind_eq_Inr
        assert_that_eq_Inr mapped_iff set_map_def split: if_splits)
  have ok: "regs_ok phys (regFile st) (scoreboard st)"
    "\<forall>r \<in> set (freeingInProgress st t). ptr_class r \<in> set mapped_classes"
    using inv t by (auto simp: rename_inv_def)
  have "mset (fl c') + thread_regs c' rm [] (freeingInProgress st t) =
      mset (freeLists st c') + thread_regs c' (renameMap st t) [] (freeingInProgress st t)" for c'
    using fl somes_upd_None [OF rm(1) a(2), of r] by (auto simp: rm thread_regs_def set_map_def a)
  then show ?thesis
    using rename_inv_thread [OF inv t ok(1), of fl rm "[]" "freeingInProgress st t"] ok hist rm
    by (simp add: fun_upd_idem)
qed

text \<open>The slots of a map still to be filled.\<close>

definition empty_slots :: "RegClassType list \<Rightarrow> UnifiedRenameMap \<Rightarrow> bool" where
  "empty_slots cs rm = (\<forall>c \<in> set cs. \<forall>i < length (rm c). rm c ! i = None)"

lemma init_entries_inv:
  assumes "rename_inv N phys st" "t < N" "c \<in> set mapped_classes"
    and "init_entries t c is st = Inr st'" "distinct is" "\<forall>i \<in> set is. i < 2 ^ 16"
    and "\<forall>i \<in> set is. i < length (renameMap st t c) \<longrightarrow> renameMap st t c ! i = None"
    and "historyBuffer st t = []"
  shows "rename_inv N phys st' \<and> historyBuffer st' = historyBuffer st \<and>
     (\<forall>s. s \<noteq> t \<longrightarrow> renameMap st' s = renameMap st s) \<and>
     (\<forall>c'. c' \<noteq> c \<longrightarrow> renameMap st' t c' = renameMap st t c') \<and>
     length (renameMap st' t c) = length (renameMap st t c) \<and>
     (\<forall>i. i \<notin> set is \<longrightarrow> renameMap st' t c ! i = renameMap st t c ! i) \<and>
     (\<forall>i \<in> set is. renameMap st' t c ! i \<noteq> None)"
  using assms
proof (induction "is" arbitrary: st)
  case (Cons i "is")
  let ?a = "\<lparr>ri_class = c, ri_index = of_nat i, ri_pinnedWrites = 0\<rparr>"
  have i: "unat (of_nat i :: RegIndex) = i"
    using Cons.prems(6) by (simp add: unsigned_of_nat take_bit_nat_eq_self)
  obtain r fl rm cm where
    get: "UnifiedFreeList_getReg c (freeLists st) = Inr (r, fl)"
    and set: "UnifiedRenameMap_setEntry ?a r (regFile st) (renameMap st t) = Inr rm"
    and rest: "init_entries t c is (st\<lparr>freeLists := fl, renameMap := (renameMap st)(t := rm),
              commitRenameMap := (commitRenameMap st)(t := cm)\<rparr>) = Inr st'"
    using Cons.prems(4) by (auto simp: rbind_eq_Inr Let_def)
  have idx: "i < length (renameMap st t c)"
    using set Cons.prems(3) by (auto simp: UnifiedRenameMap_setEntry_def SimpleRenameMap_setEntry_def Let_def
        rbind_eq_Inr assert_that_eq_Inr mapped_iff i split: if_splits)
  have step: "rename_inv N phys (st\<lparr>freeLists := fl, renameMap := (renameMap st)(t := rm)\<rparr>)"
     "rm = set_map ?a r (renameMap st t)"
    using init_entry_inv [OF Cons.prems(1-3) get set] Cons.prems(7,8) idx i by auto
  then have "rename_inv N phys (st\<lparr>freeLists := fl, renameMap := (renameMap st)(t := rm),
              commitRenameMap := (commitRenameMap st)(t := cm)\<rparr>)"
    by (simp add: rename_inv_def)
  note IH = Cons.IH [OF this Cons.prems(2,3) rest]
  have "\<forall>j \<in> set is. j < length (rm c) \<longrightarrow> rm c ! j = None"
    using Cons.prems(5,7) idx by (auto simp: step(2) set_map_def i nth_list_update)
  then show ?case
    using IH Cons.prems(5,6,8) idx by (simp add: step(2) set_map_def i nth_list_update)
qed simp

lemma init_classes_inv:
  assumes "rename_inv N phys st" "t < N" "set cs \<subseteq> set mapped_classes" "distinct cs"
    and "init_classes t num_regs cs st = Inr st'" "empty_slots cs (renameMap st t)"
    and "historyBuffer st t = []"
  shows "rename_inv N phys st' \<and> historyBuffer st' = historyBuffer st \<and>
     (\<forall>s. s \<noteq> t \<longrightarrow> renameMap st' s = renameMap st s) \<and>
     (\<forall>c. c \<notin> set cs \<longrightarrow> renameMap st' t c = renameMap st t c) \<and>
     (\<forall>c. length (renameMap st' t c) = length (renameMap st t c)) \<and>
     (\<forall>c \<in> set cs. \<forall>i < unat (of_nat (num_regs c) :: RegIndex). renameMap st' t c ! i \<noteq> None)"
  using assms
proof (induction cs arbitrary: st)
  case (Cons c cs)
  let ?is = "[0..<unat (of_nat (num_regs c) :: RegIndex)]"
  obtain s1 where one: "init_entries t c ?is st = Inr s1" and rest: "init_classes t num_regs cs s1 = Inr st'"
    using Cons.prems(5) by (auto simp: rbind_eq_Inr)
  have lt: "\<forall>i \<in> set ?is. i < 2 ^ 16"
    using unsigned_less [of "of_nat (num_regs c) :: RegIndex", where 'a = nat] by simp
  have c: "c \<in> set mapped_classes" using Cons.prems(3) by simp
  have E: "\<forall>i \<in> set ?is. i < length (renameMap st t c) \<longrightarrow> renameMap st t c ! i = None"
    using Cons.prems(6) by (simp add: empty_slots_def)
  note A = init_entries_inv [OF Cons.prems(1,2) c one _ lt E Cons.prems(7)]
  have "empty_slots cs (renameMap s1 t)"
    using A Cons.prems(4,6) by (auto simp: empty_slots_def)
  with A Cons.IH [OF _ Cons.prems(2) _ _ rest] Cons.prems show ?case
    by (auto simp: less_Suc_eq)
qed simp

lemma init_threads_inv:
  assumes "rename_inv N phys st" "set ts \<subseteq> {..<N}" "distinct ts"
    and "init_threads ts num_regs st = Inr st'"
    and "\<forall>t \<in> set ts. empty_slots mapped_classes (renameMap st t)" "\<forall>t. historyBuffer st t = []"
  shows "rename_inv N phys st' \<and> (\<forall>t. historyBuffer st' t = []) \<and>
     (\<forall>t. t \<notin> set ts \<longrightarrow> renameMap st' t = renameMap st t) \<and>
     (\<forall>t \<in> set ts. \<forall>c. length (renameMap st' t c) = length (renameMap st t c)) \<and>
     (\<forall>t \<in> set ts. \<forall>c \<in> set mapped_classes. \<forall>i < unat (of_nat (num_regs c) :: RegIndex).
        renameMap st' t c ! i \<noteq> None)"
  using assms
proof (induction ts arbitrary: st)
  case (Cons t ts)
  obtain s1 where one: "init_classes t num_regs mapped_classes st = Inr s1"
    and rest: "init_threads ts num_regs s1 = Inr st'"
    using Cons.prems(4) by (auto simp: rbind_eq_Inr)
  have A: "rename_inv N phys s1" "historyBuffer s1 = historyBuffer st"
     "\<forall>s. s \<noteq> t \<longrightarrow> renameMap s1 s = renameMap st s"
     "\<forall>c. length (renameMap s1 t c) = length (renameMap st t c)"
     "\<forall>c \<in> set mapped_classes. \<forall>i < unat (of_nat (num_regs c) :: RegIndex). renameMap s1 t c ! i \<noteq> None"
    using init_classes_inv [OF Cons.prems(1) _ _ _ one] Cons.prems(2,5,6) by auto
  have B: "\<forall>t \<in> set ts. empty_slots mapped_classes (renameMap s1 t)" "\<forall>t. historyBuffer s1 t = []"
     "set ts \<subseteq> {..<N}" "distinct ts" "t \<notin> set ts"
    using A(2,3) Cons.prems(2,3,5,6) by auto
  from Cons.IH [OF A(1) B(3,4) rest B(1,2)] A B(5) show ?case by auto
qed simp

lemma held_initial:
  "held_of N c fl (\<lambda>t. UnifiedRenameMap_init num_regs) (\<lambda>t. []) (\<lambda>t. []) = mset (fl c)"
  by (simp add: held_of_def thread_regs_def UnifiedRenameMap_init_def SimpleRenameMap_init_def)

lemma CPU_initRegs_inv:
  assumes "CPU_initRegs n num_regs N A = Inr st" "A \<le> N"
  shows "rename_inv N (numPhysical n num_regs) st" "\<forall>t. historyBuffer st t = []"
    and "\<forall>t c. length (renameMap st t c) = num_regs c"
    and "\<forall>t<A. \<forall>c \<in> set mapped_classes. \<forall>i < unat (of_nat (num_regs c) :: RegIndex). renameMap st t c ! i \<noteq> None"
proof -
  obtain rf tot fl where new: "PhysRegFile_new n num_regs = Inr (rf, tot)"
    and fl: "initFreeList_classes mapped_classes rf (\<lambda>c. []) = Inr fl"
    and init: "init_threads [0..<A] num_regs
          \<lparr>regFile = rf, freeLists = fl, scoreboard = Scoreboard_new tot,
           renameMap = (\<lambda>tid. UnifiedRenameMap_init num_regs),
           commitRenameMap = (\<lambda>tid. UnifiedRenameMap_init num_regs),
           historyBuffer = (\<lambda>tid. []), freeingInProgress = (\<lambda>tid. [])\<rparr> = Inr st"
      (is "init_threads _ _ ?st0 = _")
    using assms(1) by (auto simp: CPU_initRegs_def rbind_eq_Inr panic_if_eq_Inr PhysRegFile_initFreeList_def)
  have ok: "regs_ok (numPhysical n num_regs) rf (Scoreboard_new tot)"
    using PhysRegFile_new_ok [OF new] by simp
  have "fl = (\<lambda>c. if c \<in> set mapped_classes then map (RegAt c) [0..<numPhysical n num_regs c] else [])"
    using initFreeList_ok [OF ok _ _ fl] by (simp add: fun_eq_iff)
  then have inv0: "rename_inv N (numPhysical n num_regs) ?st0"
    using ok by (simp add: rename_inv_def held_initial)
  have slots: "\<forall>t \<in> set [0..<A]. empty_slots mapped_classes (renameMap ?st0 t)"
    by (simp add: empty_slots_def UnifiedRenameMap_init_def SimpleRenameMap_init_def)
  have len: "\<forall>c. length (UnifiedRenameMap_init num_regs c) = num_regs c"
    by (simp add: UnifiedRenameMap_init_def SimpleRenameMap_init_def)
  note final = init_threads_inv [OF inv0 _ _ init slots]
  show "rename_inv N (numPhysical n num_regs) st" "\<forall>t. historyBuffer st t = []"
    "\<forall>t c. length (renameMap st t c) = num_regs c"
    "\<forall>t<A. \<forall>c \<in> set mapped_classes. \<forall>i < unat (of_nat (num_regs c) :: RegIndex). renameMap st t c ! i \<noteq> None"
    using final assms(2) len by (auto simp: subset_eq)
qed

section \<open>Renaming succeeds\<close>

text \<open>The rename map of an active thread has no null entry.\<close>

definition map_full :: "(RegClassType \<Rightarrow> nat) \<Rightarrow> UnifiedRenameMap \<Rightarrow> bool" where
  "map_full num_regs rm =
     (\<forall>c \<in> set mapped_classes. length (rm c) = num_regs c \<and> (\<forall>i < num_regs c. rm c ! i \<noteq> None))"

text \<open>What every entry written into a rename map keeps, every event keeps.\<close>

definition map_closed :: "(UnifiedRenameMap \<Rightarrow> bool) \<Rightarrow> bool" where
  "map_closed P \<longleftrightarrow> (\<forall>rm r p. P rm \<longrightarrow> P (set_map r p rm))"

lemma map_full_closed: "map_closed (map_full num_regs)"
  by (auto simp: map_closed_def map_full_def set_map_def) (metis nth_list_update_eq nth_list_update_neq)

lemma closed_undo: "map_closed P \<Longrightarrow> P rm \<Longrightarrow> P (undo sn hs rm)"
  by (induction hs arbitrary: rm) (simp_all add: map_closed_def)

lemma renameDestReg_step_closed:
  assumes "renameDestReg_step r t k (inst, st) = Inr (inst', st')" "map_closed P" "P (renameMap st s)"
  shows "P (renameMap st' s)"
proof -
  obtain new prev rf fl rm where
    "UnifiedRenameMap_rename r (regFile st) (freeLists st) (renameMap st t) = Inr ((new, prev), rf, fl, rm)"
    and st': "renameMap st' = (renameMap st)(t := rm)"
    using assms(1) by (auto simp: renameDestReg_step_def rbind_eq_Inr)
  then have "rm = renameMap st t \<or> rm = set_map r new (renameMap st t)"
    by (cases rule: UnifiedRenameMap_rename_cases) auto
  then show ?thesis using assms(2,3) st' by (cases "s = t") (auto simp: map_closed_def)
qed

lemma renameDestRegs_loop_closed:
  "renameDestRegs_loop flatten t ds k x = Inr (inst', st') \<Longrightarrow> map_closed P \<Longrightarrow>
   P (renameMap (snd x) s) \<Longrightarrow> P (renameMap st' s)"
proof (induction ds arbitrary: k x)
  case (Cons d ds)
  then show ?case
    by (cases x) (fastforce simp: rbind_eq_Inr dest: renameDestReg_step_closed)
qed simp

lemma rename_do_closed:
  assumes "rename_inv N phys st" "event_thread_ok N e" "rename_do flatten e st = Inr st'"
    and "map_closed P" "P (renameMap st s)"
  shows "P (renameMap st' s)"
proof (cases e)
  case (EvRename inst)
  then show ?thesis
    using assms(3,4,5) by (auto simp: rbind_eq_Inr Rename_renameInst_def Rename_renameDestRegs_def
        dest: renameDestRegs_loop_closed [where s = s and P = P])
next
  case (EvSquash sn t)
  then show ?thesis using assms doSquash_ok [OF assms(1), of t sn] by (auto simp: closed_undo)
next
  case (EvCommit sn t)
  then show ?thesis using assms removeFromHistory_ok [OF assms(1), of t sn] by auto
next
  case (EvFree t)
  then show ?thesis using assms freeSquashed_ok [OF assms(1), of t] by auto
qed (use assms in \<open>auto simp: Commit_updateRenameMap_def rbind_eq_Inr\<close>)

lemma rename_run_closed:
  assumes "rename_inv N phys st" "list_all (event_thread_ok N) es" "rename_run flatten es st = Inr st'"
    and "map_closed P" "P (renameMap st s)"
  shows "P (renameMap st' s)"
  using assms(1,2,3,5)
proof (induction es arbitrary: st)
  case (Cons e es)
  then obtain s1 where "rename_do flatten e st = Inr s1" "rename_run flatten es s1 = Inr st'"
    by (auto simp: rbind_eq_Inr)
  with rename_do_inv [OF Cons.prems(1), of e flatten s1] rename_do_closed [OF Cons.prems(1), of e flatten s1 P]
    Cons.IH [of s1] Cons.prems assms(4)
  show ?case by simp
qed simp

definition reg_in_range :: "(RegClassType \<Rightarrow> nat) \<Rightarrow> RegId \<Rightarrow> bool" where
  "reg_in_range num_regs r =
     (ri_class r = InvalidRegClass \<or> unat (ri_index r) < num_regs (ri_class r))"

lemma lookup_ok:
  assumes inv: "rename_inv N phys st" and t: "t < N" and full: "map_full num_regs (renameMap st t)"
    and r: "reg_in_range num_regs r" and misc: "phys MiscRegClass = num_regs MiscRegClass"
  shows "\<exists>p. UnifiedRenameMap_lookup (regFile st) (renameMap st t) r = Inr (Some p) \<and>
     pr_class (deref (regFile st) p) = ri_class r \<and>
     (isRenameable (ri_class r) \<longrightarrow> (\<exists>i < phys (ri_class r). p = RegAt (ri_class r) i) \<and>
        renameMap st t (ri_class r) ! unat (ri_index r) = Some p)"
proof -
  have ok: "regs_ok phys (regFile st) (scoreboard st)" using inv by (simp add: rename_inv_def)
  consider "ri_class r = InvalidRegClass" | "ri_class r = MiscRegClass" | "isRenameable (ri_class r)" by auto
  then show ?thesis
  proof cases
    case 1
    then show ?thesis by (simp add: UnifiedRenameMap_lookup_def invalidPhysRegId_def PhysRegId_new_def)
  next
    case 2
    then show ?thesis
      using ok r misc by (simp add: UnifiedRenameMap_lookup_def PhysRegFile_getMiscRegId_def regs_ok_def reg_in_range_def)
  next
    case 3
    then have c: "ri_class r \<in> set mapped_classes" by (simp add: mapped_iff)
    then obtain p where p: "unat (ri_index r) < length (renameMap st t (ri_class r))"
       "renameMap st t (ri_class r) ! unat (ri_index r) = Some p"
      using 3 r full by (fastforce simp: map_full_def reg_in_range_def)
    obtain i where "i < phys (ri_class r)" "p = RegAt (ri_class r) i"
      using held_thread_reg [OF inv c t, of p] somes_mem [OF p] by (auto simp: thread_regs_def)
    then show ?thesis
      using p 3 regs_ok_class [OF ok, of i "ri_class r"]
      by (auto simp: UnifiedRenameMap_lookup_def SimpleRenameMap_lookup_def)
  qed
qed

lemma getReg_ok:
  assumes "regs_ok phys rf sb" "isRenameable (pr_class (deref rf p)) \<longrightarrow> (\<exists>i < phys c. p = RegAt c i)"
  shows "\<exists>b. Scoreboard_getReg (deref rf p) sb = Inr b" "\<exists>sb'. Scoreboard_unsetReg (deref rf p) sb = Inr sb'"
  using assms regs_ok_class [OF assms(1)] regs_ok_flat [OF assms(1)]
  by (auto simp: Scoreboard_getReg_def Scoreboard_unsetReg_def)

lemma renameSrcRegs_loop_ok:
  assumes "rename_inv N phys st" "t < N" "map_full num_regs (renameMap st t)"
    and "phys MiscRegClass = num_regs MiscRegClass"
    and "\<forall>r \<in> set rs. reg_in_range num_regs (flatten r)"
  shows "\<exists>inst'. renameSrcRegs_loop flatten st t rs k inst = Inr inst'"
  using assms(5)
proof (induction rs arbitrary: k inst)
  case (Cons r rs)
  obtain p where p: "UnifiedRenameMap_lookup (regFile st) (renameMap st t) (flatten r) = Inr (Some p)"
     "isRenameable (ri_class (flatten r)) \<longrightarrow> (\<exists>i < phys (ri_class (flatten r)). p = RegAt (ri_class (flatten r)) i)"
     "pr_class (deref (regFile st) p) = ri_class (flatten r)"
    using lookup_ok [OF assms(1-3) _ assms(4), of "flatten r"] Cons.prems by auto
  moreover have "src_class_ok (ri_class (flatten r))"
    by (cases "ri_class (flatten r)") (simp_all add: src_class_ok_def)
  moreover obtain b where "Scoreboard_getReg (deref (regFile st) p) (scoreboard st) = Inr b"
    using getReg_ok(1) [of phys "regFile st" "scoreboard st" p "ri_class (flatten r)"] p assms(1)
    by (auto simp: rename_inv_def)
  ultimately show ?case using Cons by (simp add: Let_def)
qed simp

text \<open>
  A pinned register takes its next writes without being renamed, and \<open>rename\<close> asserts that
  it is not pinned a second time meanwhile.
\<close>

definition still_pinned :: "rename_state \<Rightarrow> ThreadID \<Rightarrow> RegId \<Rightarrow> bool" where
  "still_pinned st t r \<longleftrightarrow> (\<exists>p. renameMap st t (ri_class r) ! unat (ri_index r) = Some p \<and>
     0 < pr_pinnedWrites (deref (regFile st) p))"

definition same_arch :: "RegId \<Rightarrow> RegId \<Rightarrow> bool" where
  "same_arch r r' \<longleftrightarrow> ri_class r = ri_class r' \<and> ri_index r = ri_index r'"

abbreviation pin_error :: gem5_error where
  "pin_error \<equiv> AssertFail ''arch_reg.getNumPinnedWrites() == 0''"

lemma deref_update_neq: "q \<noteq> p \<Longrightarrow> deref (update_reg p f rf) q = deref rf q"
  by (cases p; cases q) auto

lemma pinned_update_le:
  "(\<And>x. pr_pinnedWrites (f x) \<le> pr_pinnedWrites x) \<Longrightarrow>
   pr_pinnedWrites (deref (update_reg p f rf) q) \<le> pr_pinnedWrites (deref rf q)"
proof (cases p)
  case (RegAt c i)
  assume le: "\<And>x. pr_pinnedWrites (f x) \<le> pr_pinnedWrites x"
  show ?thesis
  proof (cases "q = p")
    case True
    then show ?thesis using RegAt le by (cases "i < length (rf c)") (simp_all add: list_update_beyond)
  qed (simp add: deref_update_neq)
qed simp

text \<open>A register is still pinned after the renaming of a destination only if it was before, or if this pins it.\<close>

lemma still_pinned_step:
  assumes inv: "rename_inv N phys st" and t: "t < N"
    and step: "renameDestReg_step r t k (inst, st) = Inr (inst', st')"
    and r': "isRenameable (ri_class r')" "unat (ri_index r') < length (renameMap st t (ri_class r'))"
    and pinned: "still_pinned st' t r'"
  shows "still_pinned st t r' \<or> same_arch r r' \<and> 0 < ri_pinnedWrites r"
proof -
  obtain new prev rf fl rm where
    ren: "UnifiedRenameMap_rename r (regFile st) (freeLists st) (renameMap st t) = Inr ((new, prev), rf, fl, rm)"
    and st': "regFile st' = rf" "renameMap st' t = rm"
    using step by (auto simp: renameDestReg_step_def rbind_eq_Inr)
  obtain p where p: "rm (ri_class r') ! unat (ri_index r') = Some p" "0 < pr_pinnedWrites (deref rf p)"
    using pinned st' by (auto simp: still_pinned_def)
  from ren show ?thesis
  proof (cases rule: UnifiedRenameMap_rename_cases)
    case (kept f)
    then have "pr_pinnedWrites (deref rf p) \<le> pr_pinnedWrites (deref (regFile st) p)"
      using pinned_update_le [of f] by simp
    then show ?thesis using p kept(3) by (auto simp: still_pinned_def)
  next
    case (allocated f rest)
    show ?thesis
    proof (cases "same_arch r r'")
      case True
      then have "p = new" using p(1) allocated(4) r'(2) by (simp add: same_arch_def set_map_def)
      moreover have "ri_class r \<in> set mapped_classes" using allocated(1) by (simp add: mapped_iff)
      then obtain i where "i < phys (ri_class r)" "new = RegAt (ri_class r) i"
        using held_free_reg [OF inv, of "ri_class r" new] allocated(2) by auto
      ultimately have "pr_pinnedWrites (deref rf p) = ri_pinnedWrites r"
        using allocated(5,10) inv by (simp add: rename_inv_def regs_ok_def)
      then show ?thesis using True p(2) by simp
    next
      case False
      then have map: "renameMap st t (ri_class r') ! unat (ri_index r') = Some p"
        using p(1) allocated(4) by (auto simp: same_arch_def set_map_def word_unat_eq_iff split: if_splits)
      have c: "ri_class r' \<in> set mapped_classes" "ri_class r \<in> set mapped_classes"
        using r'(1) allocated(1) by (simp_all add: mapped_iff)
      have mem: "p \<in># thread_regs (ri_class r') (renameMap st t) (historyBuffer st t) (freeingInProgress st t)"
        using somes_mem [OF r'(2) map] by (simp add: thread_regs_def)
      have "p \<noteq> new"
        using held_distinct [OF inv c(1) t mem] held_thread_reg [OF inv c(1) t mem]
          held_free_reg [OF inv c(2), of new] allocated(2) by auto
      then show ?thesis
        using map p(2) allocated(5) by (auto simp: still_pinned_def deref_update_neq)
    qed
  qed
qed

lemma rename_ok:
  assumes inv: "rename_inv N phys st" and t: "t < N" and full: "map_full num_regs (renameMap st t)"
    and r: "reg_in_range num_regs r" and misc: "phys MiscRegClass = num_regs MiscRegClass"
    and free: "isRenameable (ri_class r) \<Longrightarrow> freeLists st (ri_class r) \<noteq> []"
  shows "UnifiedRenameMap_rename r (regFile st) (freeLists st) (renameMap st t) = Inl pin_error \<and>
     isRenameable (ri_class r) \<and> ri_pinnedWrites r \<noteq> 0 \<and> still_pinned st t r \<or>
   (\<exists>new prev rf fl rm.
     UnifiedRenameMap_rename r (regFile st) (freeLists st) (renameMap st t) = Inr ((new, prev), rf, fl, rm) \<and>
     regs_ok phys rf (scoreboard st) \<and>
     (isRenameable (pr_class (deref rf new)) \<longrightarrow> (\<exists>i < phys (ri_class r). new = RegAt (ri_class r) i)) \<and>
     (\<forall>c. length (freeLists st c) \<le> length (fl c) + (if c = ri_class r then 1 else 0)))"
proof -
  let ?c = "ri_class r"
  have ok: "regs_ok phys (regFile st) (scoreboard st)" using inv by (simp add: rename_inv_def)
  obtain p where p: "UnifiedRenameMap_lookup (regFile st) (renameMap st t) r = Inr (Some p)"
     "pr_class (deref (regFile st) p) = ?c"
     "isRenameable ?c \<longrightarrow> (\<exists>i < phys ?c. p = RegAt ?c i) \<and> renameMap st t ?c ! unat (ri_index r) = Some p"
    using lookup_ok [OF inv t full r misc] by auto
  show ?thesis
  proof (cases "isRenameable ?c")
    case False
    then show ?thesis using p ok by (auto simp: UnifiedRenameMap_rename_def Let_def)
  next
    case True
    have c: "?c \<in> set mapped_classes" using True by (simp add: mapped_iff)
    then have idx: "unat (ri_index r) < length (renameMap st t ?c)"
      using r full True by (auto simp: map_full_def reg_in_range_def)
    obtain new rest where fl: "freeLists st ?c = new # rest" using free [OF True] by (cases "freeLists st ?c") auto
    obtain i where "i < phys ?c" "new = RegAt ?c i" using held_free_reg [OF inv c, of new] fl by auto
    then show ?thesis
      using True p idx fl regs_ok_update [OF ok, of PhysRegId_decrNumPinnedWrites "scoreboard st" p]
        regs_ok_update [OF ok, of "PhysRegId_setNumPinnedWritesToComplete (ri_pinnedWrites r + 1) \<circ>
          PhysRegId_setNumPinnedWrites (ri_pinnedWrites r)" "scoreboard st" new]
      by (auto simp: UnifiedRenameMap_rename_def Let_def SimpleRenameMap_rename_def SimpleFreeList_getReg_def
          assert_that_def still_pinned_def rbind_def
          PhysRegId_decrNumPinnedWrites_def PhysRegId_setNumPinnedWritesToComplete_def PhysRegId_setNumPinnedWrites_def)
  qed
qed

definition dests_of :: "(RegId \<Rightarrow> RegId) \<Rightarrow> RegId list \<Rightarrow> RegClassType \<Rightarrow> nat" where
  "dests_of flatten ds c = length (filter (\<lambda>d. ri_class (flatten d) = c) ds)"

text \<open>
  A destination pins a register that is still pinned, or that an earlier destination of the same
  instruction pins.
\<close>

definition pins_twice :: "(RegId \<Rightarrow> RegId) \<Rightarrow> ThreadID \<Rightarrow> RegId list \<Rightarrow> rename_state \<Rightarrow> bool" where
  "pins_twice flatten t ds st \<longleftrightarrow> (\<exists>ds1 d ds2. ds = ds1 @ d # ds2 \<and> isRenameable (ri_class (flatten d)) \<and>
     ri_pinnedWrites d \<noteq> 0 \<and> (still_pinned st t (flatten d) \<or>
       (\<exists>e \<in> set ds1. same_arch (flatten e) (flatten d) \<and> 0 < ri_pinnedWrites e)))"

lemma flat_dest_sel [simp]:
  "ri_class (flat_dest flatten d) = ri_class (flatten d)" "ri_index (flat_dest flatten d) = ri_index (flatten d)"
  "ri_pinnedWrites (flat_dest flatten d) = ri_pinnedWrites d"
  by (simp_all add: flat_dest_def)

lemma still_pinned_flat [simp]: "still_pinned st t (flat_dest flatten d) = still_pinned st t (flatten d)"
  by (simp add: still_pinned_def)

lemma pins_twice_Cons:
  assumes "rename_inv N phys st" "t < N" "renameDestReg_step (flat_dest flatten d) t k (inst, st) = Inr (inst', st')"
    and "map_full num_regs (renameMap st t)" "\<forall>d \<in> set ds. reg_in_range num_regs (flatten d)"
    and "pins_twice flatten t ds st'"
  shows "pins_twice flatten t (d # ds) st"
proof -
  obtain ds1 e ds2 where e: "ds = ds1 @ e # ds2" "isRenameable (ri_class (flatten e))" "ri_pinnedWrites e \<noteq> 0"
      "still_pinned st' t (flatten e) \<or> (\<exists>x \<in> set ds1. same_arch (flatten x) (flatten e) \<and> 0 < ri_pinnedWrites x)"
    using assms(6) by (auto simp: pins_twice_def)
  have "unat (ri_index (flatten e)) < length (renameMap st t (ri_class (flatten e)))"
    using e(1,2) assms(4,5) by (auto simp: map_full_def reg_in_range_def mapped_iff)
  then have "still_pinned st t (flatten e) \<or>
      (\<exists>x \<in> set (d # ds1). same_arch (flatten x) (flatten e) \<and> 0 < ri_pinnedWrites x)"
    using e(4) still_pinned_step [OF assms(1-3) e(2)] by (auto simp: same_arch_def)
  then show ?thesis
    using e(1-3) unfolding pins_twice_def by (intro exI [of _ "d # ds1"] exI [of _ e] exI [of _ ds2]) simp
qed

lemma renameDestRegs_loop_ok:
  assumes "rename_inv N phys st" "t < N" "map_full num_regs (renameMap st t)"
    and "phys MiscRegClass = num_regs MiscRegClass"
    and "\<forall>d \<in> set ds. reg_in_range num_regs (flatten d)"
    and "\<forall>c \<in> set mapped_classes. dests_of flatten ds c \<le> length (freeLists st c)"
  shows "(\<exists>x. renameDestRegs_loop flatten t ds k (inst, st) = Inr x) \<or>
    renameDestRegs_loop flatten t ds k (inst, st) = Inl pin_error \<and> pins_twice flatten t ds st"
  using assms
proof (induction ds arbitrary: k inst st)
  case (Cons d ds)
  let ?r = "flat_dest flatten d"
  have r: "reg_in_range num_regs ?r"
    using Cons.prems(5) by (simp add: reg_in_range_def)
  have free: "freeLists st (ri_class ?r) \<noteq> []" if "isRenameable (ri_class ?r)"
    using bspec [OF Cons.prems(6), of "ri_class ?r"] that by (auto simp: mapped_iff dests_of_def)
  show ?case
  proof (cases "UnifiedRenameMap_rename ?r (regFile st) (freeLists st) (renameMap st t) = Inl pin_error \<and>
      isRenameable (ri_class ?r) \<and> ri_pinnedWrites ?r \<noteq> 0 \<and> still_pinned st t ?r")
    case True
    then have "pins_twice flatten t (d # ds) st"
      unfolding pins_twice_def by (intro exI [of _ "[]"] exI [of _ d] exI [of _ ds]) simp
    then show ?thesis using True by (simp add: renameDestReg_step_def)
  next
    case False
    then obtain new prev rf fl rm where ren:
        "UnifiedRenameMap_rename ?r (regFile st) (freeLists st) (renameMap st t) = Inr ((new, prev), rf, fl, rm)"
        "regs_ok phys rf (scoreboard st)"
        "isRenameable (pr_class (deref rf new)) \<longrightarrow> (\<exists>i < phys (ri_class ?r). new = RegAt (ri_class ?r) i)"
        "\<forall>c. length (freeLists st c) \<le> length (fl c) + (if c = ri_class ?r then 1 else 0)"
      using rename_ok [OF Cons.prems(1-3) r Cons.prems(4) free] by blast
    obtain sb where "Scoreboard_unsetReg (deref rf new) (scoreboard st) = Inr sb"
      using getReg_ok(2) [OF ren(2), of new "ri_class ?r"] ren(3) by auto
    then obtain i1 s1 where step: "renameDestReg_step ?r t k (inst, st) = Inr (i1, s1)" and fl: "freeLists s1 = fl"
      using ren(1) by (auto simp: renameDestReg_step_def)
    have "\<forall>c \<in> set mapped_classes. dests_of flatten ds c \<le> length (freeLists s1 c)"
    proof
      fix c
      assume "c \<in> set mapped_classes"
      then have "dests_of flatten (d # ds) c \<le> length (freeLists st c)" using Cons.prems(6) by blast
      with spec [OF ren(4), of c] show "dests_of flatten ds c \<le> length (freeLists s1 c)"
        by (auto simp: fl dests_of_def split: if_splits)
    qed
    then show ?thesis
      using Cons.IH [of s1 "Suc k" i1] renameDestReg_step_inv [OF Cons.prems(1,2) step]
        renameDestReg_step_closed [OF step map_full_closed Cons.prems(3)] Cons.prems(2,4,5) step
        pins_twice_Cons [OF Cons.prems(1,2) step Cons.prems(3), of ds] by auto
  qed
qed simp

section \<open>A small CPU\<close>

text \<open>Two integer registers, one vector register of one element; an instruction from register 1 to register 0.\<close>

definition ex_regs :: "RegClassType \<Rightarrow> nat" where
  "ex_regs c = (case c of IntRegClass \<Rightarrow> 2 | VecRegClass \<Rightarrow> 1 | VecElemClass \<Rightarrow> 1 | MiscRegClass \<Rightarrow> 1 | _ \<Rightarrow> 0)"

definition ex_phys :: "RegClassType \<Rightarrow> 32 word" where
  "ex_phys c = (case c of IntRegClass \<Rightarrow> 4 | VecRegClass \<Rightarrow> 2 | _ \<Rightarrow> 0)"

definition ex_reg :: "RegIndex \<Rightarrow> RegId" where
  "ex_reg i = \<lparr>ri_class = IntRegClass, ri_index = i, ri_pinnedWrites = 0\<rparr>"

definition ex_inst :: "InstSeqNum \<Rightarrow> DynInst" where
  "ex_inst sn =
     \<lparr>di_seqNum = sn, di_thread = 0, di_srcRegs = [ex_reg 1], di_destRegs = [ex_reg 0],
      di_numTypedDests = (\<lambda>c. if c = IntRegClass then 1 else 0), di_flatDest = [None], di_dest = [None],
      di_prevDest = [None], di_src = [None], di_readySrc = [False], di_readyRegs = 0, di_canIssue = False,
      di_pinnedRegsRenamed = False\<rparr>"

text \<open>The same, with a destination that is pinned for three more writes.\<close>

definition ex_pin :: "InstSeqNum \<Rightarrow> DynInst" where
  "ex_pin sn = (ex_inst sn)\<lparr>di_destRegs := [(ex_reg 0)\<lparr>ri_pinnedWrites := 3\<rparr>]\<rparr>"

definition ex_init :: "rename_state result" where
  "ex_init = CPU_initRegs ex_phys ex_regs 1 1"

lemmas ex_init_defs =
  ex_init_def CPU_initRegs_def PhysRegFile_new_def ex_regs_def ex_phys_def mapped_classes_def
  emplace_ids_def numPhysical_def numPhysicalVecElemRegs_def PhysRegFile_initFreeList_def
  UnifiedFreeList_addReg_def SimpleFreeList_addReg_def PhysRegId_new_def enough_regs_def
  UnifiedFreeList_getReg_def SimpleFreeList_getReg_def UnifiedRenameMap_setEntry_def
  SimpleRenameMap_setEntry_def UnifiedRenameMap_init_def SimpleRenameMap_init_def upt_rec

lemmas ex_run_defs =
  ex_init_defs ex_inst_def ex_reg_def Rename_renameInst_def Rename_renameSrcRegs_def
  UnifiedRenameMap_lookup_def SimpleRenameMap_lookup_def src_class_ok_def DynInst_renameSrcReg_def
  Scoreboard_getReg_def Scoreboard_new_def DynInst_markSrcRegReady_def Rename_renameDestRegs_def
  renameDestReg_step_def flat_dest_def UnifiedRenameMap_rename_def SimpleRenameMap_rename_def
  Scoreboard_unsetReg_def PhysRegId_setNumPinnedWrites_def PhysRegId_setNumPinnedWritesToComplete_def
  DynInst_renameDestReg_def

definition ex_run :: "rename_event list \<Rightarrow> rename_state result" where
  "ex_run es = rbind ex_init (rename_run (\<lambda>r. r) es)"

lemma ex_first_rename:
  "\<exists>st. ex_run [EvRename (ex_inst 1)] = Inr st \<and> (\<forall>h \<in> set (historyBuffer st 0). instSeqNum h \<le> 1)"
  by (simp add: ex_run_def ex_run_defs Let_def)

lemma ex_two_renames: "\<exists>st. ex_run [EvRename (ex_inst 1), EvRename (ex_inst 2)] = Inr st"
  by (simp add: ex_run_def ex_run_defs Let_def)

section \<open>Properties\<close>

text \<open>C3: physical registers are conserved. From the state the CPU constructor builds, after any
  sequence of renames, squashes, commits and releases of any threads, every physical register of
  every renameable class is in exactly one place: on the free list, in one rename map, in one
  history entry as a superseded mapping, or in one list of registers waiting to be freed. So no
  register is given out while it is in use, and none is lost.\<close>

theorem rename_conserves_registers:
  assumes "CPU_initRegs n num_regs numThreads active = Inr st0" "active \<le> numThreads"
    and "list_all (event_thread_ok numThreads) es" "rename_run flatten es st0 = Inr st"
    and "c \<in> set mapped_classes"
  shows "held numThreads c st = mset (map (RegAt c) [0..<numPhysical n num_regs c])"
  using rename_run_inv [OF CPU_initRegs_inv(1) [OF assms(1,2)] assms(3,4)] assms(5)
  by (simp add: rename_inv_def)

lemma rename_conserves_registers_witness:
  "\<exists>st. ex_run [EvRename (ex_inst 1), EvRename (ex_inst 2)] = Inr st \<and>
     held 1 IntRegClass st = mset (map (RegAt IntRegClass) [0..<4])"
proof -
  obtain st0 st where run: "CPU_initRegs ex_phys ex_regs 1 1 = Inr st0"
      "rename_run (\<lambda>r. r) [EvRename (ex_inst 1), EvRename (ex_inst 2)] st0 = Inr st"
      "ex_run [EvRename (ex_inst 1), EvRename (ex_inst 2)] = Inr st"
    using ex_two_renames by (auto simp: ex_run_def rbind_eq_Inr ex_init_def simp del: rename_run.simps)
  have "held 1 IntRegClass st = mset (map (RegAt IntRegClass) [0..<numPhysical ex_phys ex_regs IntRegClass])"
    by (rule rename_conserves_registers [OF run(1) _ _ run(2)]) (simp_all add: ex_inst_def mapped_classes_def)
  with run(3) show ?thesis by (simp add: numPhysical_def ex_phys_def)
qed

text \<open>C7: a squash restores the rename map. Take the state reached at some point where every
  rename of a thread is at or before sequence number \<open>sn\<close>. After any further events in which that
  thread only renames newer instructions, commits up to \<open>sn\<close> and squashes no further back than
  \<open>sn\<close>, a squash to \<open>sn\<close> returns, and the thread's rename map is exactly the one it had.\<close>

theorem doSquash_restores_map:
  assumes "CPU_initRegs n num_regs numThreads active = Inr st0" "active \<le> numThreads"
    and "list_all (event_thread_ok numThreads) (es @ es')" "tid < numThreads"
    and "rename_run flatten es st0 = Inr st1"
    and "\<forall>h \<in> set (historyBuffer st1 tid). instSeqNum h \<le> sn"
    and "list_all (newer_than sn tid) es'" "rename_run flatten es' st1 = Inr st2"
  shows "\<exists>st3. Rename_doSquash sn tid st2 = Inr st3 \<and> renameMap st3 tid = renameMap st1 tid"
proof -
  have inv1: "rename_inv numThreads (numPhysical n num_regs) st1"
    using rename_run_inv [OF CPU_initRegs_inv(1) [OF assms(1,2)] _ assms(5)] assms(3) by simp
  have "rename_inv numThreads (numPhysical n num_regs) st2"
    "undo sn (historyBuffer st2 tid) (renameMap st2 tid) = undo sn (historyBuffer st1 tid) (renameMap st1 tid)"
    using rename_run_inv [OF inv1 _ assms(8), of sn tid] assms(3,7) by simp_all
  moreover have "undo sn (historyBuffer st1 tid) (renameMap st1 tid) = renameMap st1 tid"
    using undo_append [OF assms(6), of "[]"] by simp
  ultimately show ?thesis
    using doSquash_ok [OF _ assms(4), of "numPhysical n num_regs" st2 sn] by auto
qed

lemma rename_run_append:
  "rename_run flatten (xs @ ys) st = rbind (rename_run flatten xs st) (rename_run flatten ys)"
  by (induction xs arbitrary: st) (simp_all add: rbind_def split: sum.splits)

lemma doSquash_restores_map_witness:
  "\<exists>st1 st2 st3. ex_run [EvRename (ex_inst 1)] = Inr st1 \<and>
     rename_run (\<lambda>r. r) [EvRename (ex_inst 2)] st1 = Inr st2 \<and>
     Rename_doSquash 1 0 st2 = Inr st3 \<and> renameMap st3 0 = renameMap st1 0"
proof -
  obtain st0 st1 where one: "CPU_initRegs ex_phys ex_regs 1 1 = Inr st0"
      "rename_run (\<lambda>r. r) [EvRename (ex_inst 1)] st0 = Inr st1" "ex_run [EvRename (ex_inst 1)] = Inr st1"
      "\<forall>h \<in> set (historyBuffer st1 0). instSeqNum h \<le> 1"
    using ex_first_rename by (auto simp: ex_run_def rbind_eq_Inr ex_init_def simp del: rename_run.simps)
  obtain st2 where two: "rename_run (\<lambda>r. r) [EvRename (ex_inst 2)] st1 = Inr st2"
    using ex_two_renames rename_run_append [of "\<lambda>r. r" "[EvRename (ex_inst 1)]" "[EvRename (ex_inst 2)]" st0] one(1,2)
    by (auto simp: ex_run_def ex_init_def simp del: rename_run.simps)
  have "\<exists>st3. Rename_doSquash 1 0 st2 = Inr st3 \<and> renameMap st3 0 = renameMap st1 0"
    by (rule doSquash_restores_map [OF one(1) _ _ _ one(2) one(4) _ two]) (simp_all add: ex_inst_def)
  with one(3) two show ?thesis by blast
qed

text \<open>C22: \<open>canRename\<close> is enough. In every reachable state, when \<open>canRename\<close> accepts an instruction
  of an active thread whose registers exist, renaming its sources and destinations returns: no free
  list is popped while empty, no null mapping is dereferenced and no assertion fails, whatever the
  destinations pin, with one exception: if a destination pins a register that is still
  pinned, or that an earlier destination of the instruction pins, then \<open>rename\<close> may stop
  at the assertion that forbids it, and at no other. The instruction set's \<open>flatten\<close> keeps the class of a
  register, and the typed counts of the static instruction count its destinations.\<close>

theorem canRename_suffices:
  assumes "CPU_initRegs n num_regs numThreads active = Inr st0" "active \<le> numThreads"
    and "\<forall>c \<in> set mapped_classes. num_regs c < 2 ^ 16"
    and "list_all (event_thread_ok numThreads) es" "rename_run flatten es st0 = Inr st"
    and "\<And>r. ri_class (flatten r) = ri_class r"
    and "\<And>c. di_numTypedDests inst c = length (filter (\<lambda>d. ri_class d = c) (di_destRegs inst))"
    and "di_thread inst < active"
    and "\<forall>r \<in> set (di_srcRegs inst @ di_destRegs inst). reg_in_range num_regs (flatten r)"
    and "UnifiedRenameMap_canRename (freeLists st) inst"
  shows "(\<exists>inst' st'. Rename_renameInst flatten inst st = Inr (inst', st')) \<or>
    Rename_renameInst flatten inst st = Inl (AssertFail ''arch_reg.getNumPinnedWrites() == 0'') \<and>
      pins_twice flatten (di_thread inst) (di_destRegs inst) st"
proof -
  note init = CPU_initRegs_inv [OF assms(1,2)]
  have N: "di_thread inst < numThreads" using assms(2,8) by simp
  have inv: "rename_inv numThreads (numPhysical n num_regs) st"
    using rename_run_inv [OF init(1) assms(4,5)] by simp
  have "map_full num_regs (renameMap st0 (di_thread inst))"
    using init(3,4) assms(3,8) by (simp add: map_full_def unsigned_of_nat take_bit_nat_eq_self)
  then have full: "map_full num_regs (renameMap st (di_thread inst))"
    using rename_run_closed [OF init(1) assms(4,5) map_full_closed] by simp
  have misc: "numPhysical n num_regs MiscRegClass = num_regs MiscRegClass" by (simp add: numPhysical_def)
  have "dests_of flatten (di_destRegs inst) c \<le> length (freeLists st c)" if "c \<in> set mapped_classes" for c
    using assms(6,7,10) that unat_of_nat_le [of "length (freeLists st c)", where 'a = 32]
    by (auto simp: UnifiedRenameMap_canRename_def list_all_iff SimpleFreeList_numFreeRegs_def dests_of_def
        intro: le_trans)
  moreover obtain i1 where i1: "Rename_renameSrcRegs flatten st (di_thread inst) inst = Inr i1"
    using renameSrcRegs_loop_ok [OF inv N full misc, of "di_srcRegs inst" flatten 0 inst] assms(9)
    by (auto simp: Rename_renameSrcRegs_def)
  moreover have "di_destRegs i1 = di_destRegs inst"
    using renameSrcRegs_loop_seqNum [of flatten st "di_thread inst" "di_srcRegs inst" 0 inst i1] i1
    by (simp add: Rename_renameSrcRegs_def)
  ultimately show ?thesis
    using renameDestRegs_loop_ok [OF inv N full misc, of "di_destRegs inst" flatten 0 i1] assms(9)
    by (auto simp: Rename_renameInst_def Rename_renameDestRegs_def)
qed

lemma canRename_suffices_witness:
  "\<exists>st inst' st'. ex_init = Inr st \<and> Rename_renameInst (\<lambda>r. r) (ex_pin 1) st = Inr (inst', st')"
proof -
  have "case ex_init of Inl _ \<Rightarrow> False | Inr st \<Rightarrow> UnifiedRenameMap_canRename (freeLists st) (ex_pin 1) \<and>
      renameMap st 0 IntRegClass ! 0 = Some (RegAt IntRegClass 0) \<and>
      pr_pinnedWrites (deref (regFile st) (RegAt IntRegClass 0)) = 0"
    by (simp add: ex_run_defs ex_pin_def Let_def UnifiedRenameMap_canRename_def SimpleFreeList_numFreeRegs_def)
  then obtain st where st: "CPU_initRegs ex_phys ex_regs 1 1 = Inr st" "UnifiedRenameMap_canRename (freeLists st) (ex_pin 1)"
      "\<not> pins_twice (\<lambda>r. r) 0 (di_destRegs (ex_pin 1)) st"
    by (auto simp: ex_init_def ex_pin_def ex_reg_def pins_twice_def still_pinned_def Cons_eq_append_conv split: sum.splits)
  have "(\<exists>inst' st'. Rename_renameInst (\<lambda>r. r) (ex_pin 1) st = Inr (inst', st')) \<or>
    Rename_renameInst (\<lambda>r. r) (ex_pin 1) st = Inl (AssertFail ''arch_reg.getNumPinnedWrites() == 0'') \<and>
      pins_twice (\<lambda>r. r) (di_thread (ex_pin 1)) (di_destRegs (ex_pin 1)) st"
    by (rule canRename_suffices [OF st(1) _ _ _ _ _ _ _ _ st(2), of "[]"])
       (simp_all add: mapped_classes_def ex_regs_def ex_pin_def ex_inst_def ex_reg_def reg_in_range_def)
  with st(1,3) show ?thesis by (simp add: ex_init_def ex_pin_def ex_inst_def)
qed

end
