(* ===== verification/O3_Rename_Progress.thy ===== *)
theory O3_Rename_Progress
  imports O3_Rename_Correct
begin

text \<open>
  The rename stage does not run out of registers for good: once the instructions in flight have
  committed and the squashed ones have been freed, every free list has its share again.
\<close>

section \<open>Draining the registers in flight\<close>

definition drained :: "nat \<Rightarrow> rename_state \<Rightarrow> bool" where
  "drained N st \<longleftrightarrow> (\<forall>t<N. historyBuffer st t = [] \<and> freeingInProgress st t = [])"

text \<open>Thread \<open>t\<close> commits everything it renamed and frees what was squashed.\<close>

definition drain_thread :: "ThreadID \<Rightarrow> rename_event list" where
  "drain_thread t = [EvCommit (- 1) t, EvFree t]"

definition drain :: "nat \<Rightarrow> rename_event list" where
  "drain N = concat (map drain_thread [0..<N])"

lemma removeFromHistory_loop_freeing:
  "removeFromHistory_loop sn t hs st = Inr st' \<Longrightarrow> freeingInProgress st' = freeingInProgress st"
  by (induction sn t hs st rule: removeFromHistory_loop.induct) (auto simp: rbind_eq_Inr split: if_splits)

lemma commit_all:
  assumes "rename_inv N phys st" "t < N"
  shows "\<exists>st'. Rename_removeFromHistory (- 1) t st = Inr st' \<and> rename_inv N phys st' \<and>
    historyBuffer st' = (historyBuffer st)(t := []) \<and> freeingInProgress st' = freeingInProgress st"
proof (cases "historyBuffer st t = []")
  case True
  with assms(1) show ?thesis
    by (auto simp: Rename_removeFromHistory_def fun_upd_idem)
next
  case False
  have all: "dropWhile (\<lambda>h. True) hs = []" for hs :: "RenameHistory list"
    by (simp add: dropWhile_eq_Nil_conv)
  obtain st' where st': "removeFromHistory_loop (- 1) t (rev (historyBuffer st t)) st = Inr st'"
      "rename_inv N phys st'" "historyBuffer st' = (historyBuffer st)(t := [])"
    using removeFromHistory_loop_ok [of N phys st t "rev (historyBuffer st t)" "- 1"] assms by (auto simp: all)
  with False removeFromHistory_loop_freeing [OF st'(1)] show ?thesis
    by (auto simp: Rename_removeFromHistory_def not_less)
qed

lemma drain_thread_ok:
  assumes "rename_inv N phys st" "t < N"
  shows "\<exists>st'. rename_run flatten (drain_thread t) st = Inr st' \<and> rename_inv N phys st' \<and>
    historyBuffer st' = (historyBuffer st)(t := []) \<and> freeingInProgress st' = (freeingInProgress st)(t := [])"
proof -
  obtain s1 where s1: "Rename_removeFromHistory (- 1) t st = Inr s1" "rename_inv N phys s1"
      "historyBuffer s1 = (historyBuffer st)(t := [])" "freeingInProgress s1 = freeingInProgress st"
    using commit_all [OF assms] by blast
  obtain s2 where s2: "Rename_freeSquashed t s1 = Inr s2" "rename_inv N phys s2" "historyBuffer s2 = historyBuffer s1"
    using freeSquashed_ok [OF s1(2) assms(2)] by blast
  have "freeingInProgress s2 = (freeingInProgress s1)(t := [])"
    using s2(1) by (auto simp: Rename_freeSquashed_def rbind_eq_Inr)
  with s1 s2 show ?thesis
    by (simp add: drain_thread_def)
qed

lemma drain_threads_ok:
  assumes "set ts \<subseteq> {..<N}" "rename_inv N phys st"
  shows "\<exists>st'. rename_run flatten (concat (map drain_thread ts)) st = Inr st' \<and> rename_inv N phys st' \<and>
    (\<forall>t. historyBuffer st' t = (if t \<in> set ts then [] else historyBuffer st t) \<and>
      freeingInProgress st' t = (if t \<in> set ts then [] else freeingInProgress st t))"
  using assms
proof (induction ts arbitrary: st)
  case (Cons t ts)
  obtain s1 where s1: "rename_run flatten (drain_thread t) st = Inr s1" "rename_inv N phys s1"
      "historyBuffer s1 = (historyBuffer st)(t := [])" "freeingInProgress s1 = (freeingInProgress st)(t := [])"
    using drain_thread_ok [OF Cons.prems(2), of t flatten] Cons.prems(1) by auto
  obtain s2 where "rename_run flatten (concat (map drain_thread ts)) s1 = Inr s2" "rename_inv N phys s2"
      "\<forall>t. historyBuffer s2 t = (if t \<in> set ts then [] else historyBuffer s1 t) \<and>
        freeingInProgress s2 t = (if t \<in> set ts then [] else freeingInProgress s1 t)"
    using Cons.IH [OF _ s1(2)] Cons.prems(1) by auto
  with s1 show ?case
    by (auto simp: rename_run_append)
qed simp

lemma drain_ok:
  "rename_inv N phys st \<Longrightarrow> \<exists>st'. rename_run flatten (drain N) st = Inr st' \<and> drained N st'"
  using drain_threads_ok [of "[0..<N]" N phys st flatten]
  by (fastforce simp: drain_def drained_def atLeast0LessThan)

section \<open>The free lists of a drained state\<close>

lemma size_somes: "size (somes xs) \<le> length xs"
  using size_filter_mset_lesseq [of "\<lambda>x. x \<noteq> None" "mset xs"] by (simp add: somes_def)

lemma size_sum_le: "(\<And>t. t < N \<Longrightarrow> size (f t) \<le> k) \<Longrightarrow> size (\<Sum>t<N. f t) \<le> N * k" for f :: "nat \<Rightarrow> 'a multiset"
proof (induction N)
  case (Suc N)
  have "size (\<Sum>t<N. f t) \<le> N * k" "size (f N) \<le> k"
    using Suc by simp_all
  then show ?case
    by simp
qed simp

lemma map_len_closed: "map_closed (\<lambda>rm. \<forall>c. length (rm c) = num_regs c)"
  by (simp add: map_closed_def set_map_def)

lemma drained_free:
  assumes "rename_inv N phys st" "drained N st" "\<And>t. t < N \<Longrightarrow> length (renameMap st t c) = k" "c \<in> set mapped_classes"
  shows "phys c \<le> length (freeLists st c) + N * k" "length (freeLists st c) \<le> phys c"
proof -
  let ?regs = "\<Sum>t<N. thread_regs c (renameMap st t) (historyBuffer st t) (freeingInProgress st t)"
  have "size ?regs \<le> N * k"
    using assms(2,3) size_somes [of "renameMap st _ c"]
    by (intro size_sum_le) (auto simp: thread_regs_def drained_def)
  moreover have "held N c st = mset (map (RegAt c) [0..<phys c])"
    using assms(1,4) unfolding rename_inv_def by blast
  then have "size (mset (freeLists st c) + ?regs) = phys c"
    unfolding held_of_def by (simp only: size_mset length_map length_upt diff_zero)
  then have "phys c = length (freeLists st c) + size ?regs"
    by (simp only: size_union size_mset)
  ultimately show "phys c \<le> length (freeLists st c) + N * k" "length (freeLists st c) \<le> phys c"
    by simp_all
qed

lemma numPhysical_less: "c \<in> set mapped_classes \<Longrightarrow> numPhysical n num_regs c < 2 ^ 32"
  by (auto simp: numPhysical_def numPhysicalVecElemRegs_def mapped_classes_def unsigned_less [where 'b = 32, simplified])

section \<open>Properties\<close>

text \<open>
  C15: The rename stage is never stuck for lack of registers. Take an instruction whose
  destinations of each class fit into the physical registers that remain when every thread has
  all its architectural registers mapped. From every reachable state, committing what is in
  flight and freeing what was squashed returns and leads to a state in which the instruction can
  be renamed; and it can be renamed in every reachable state in which nothing is in flight.
\<close>

theorem rename_never_stuck:
  assumes "CPU_initRegs n num_regs numThreads active = Inr st0" "active \<le> numThreads"
    and "list_all (event_thread_ok numThreads) es" "rename_run flatten es st0 = Inr st"
    and "\<And>c. c \<in> set mapped_classes \<Longrightarrow>
      di_numTypedDests inst c + numThreads * num_regs c \<le> numPhysical n num_regs c"
  shows "(\<exists>st'. rename_run flatten (drain numThreads) st = Inr st' \<and> drained numThreads st' \<and>
      UnifiedRenameMap_canRename (freeLists st') inst) \<and>
    (drained numThreads st \<longrightarrow> UnifiedRenameMap_canRename (freeLists st) inst)"
proof -
  note init = CPU_initRegs_inv [OF assms(1,2)]
  have can: "UnifiedRenameMap_canRename (freeLists s) inst"
    if run: "list_all (event_thread_ok numThreads) es'" "rename_run flatten es' st0 = Inr s" and dr: "drained numThreads s"
    for es' s
  proof -
    have inv: "rename_inv numThreads (numPhysical n num_regs) s"
      using rename_run_inv [OF init(1) run] by simp
    have len: "\<forall>c. length (renameMap s t c) = num_regs c" for t
      using rename_run_closed [OF init(1) run map_len_closed] init(3) by simp
    have "di_numTypedDests inst c \<le> SimpleFreeList_numFreeRegs (freeLists s c)" if c: "c \<in> set mapped_classes" for c
    proof -
      have "length (freeLists s c) < 2 ^ 32"
        using drained_free(2) [OF inv dr _ c, of "num_regs c"] len numPhysical_less [OF c] by (meson le_less_trans)
      then show ?thesis
        using drained_free(1) [OF inv dr _ c, of "num_regs c"] len assms(5) [OF c]
        by (simp add: SimpleFreeList_numFreeRegs_def unat_of_nat)
    qed
    then show ?thesis
      by (simp add: UnifiedRenameMap_canRename_def list_all_iff)
  qed
  obtain st' where st': "rename_run flatten (drain numThreads) st = Inr st'" "drained numThreads st'"
    using drain_ok rename_run_inv [OF init(1) assms(3,4)] by blast
  moreover have "list_all (event_thread_ok numThreads) (drain numThreads)"
    by (auto simp: drain_def drain_thread_def list_all_iff)
  ultimately have "UnifiedRenameMap_canRename (freeLists st') inst"
    using can [of "es @ drain numThreads" st'] assms(3,4) by (simp add: rename_run_append)
  with st' can [OF assms(3,4)] show ?thesis
    by blast
qed

lemma rename_never_stuck_witness:
  "\<exists>st st'. ex_run [EvRename (ex_inst 1), EvRename (ex_inst 2)] = Inr st \<and>
     rename_run (\<lambda>r. r) (drain 1) st = Inr st' \<and> UnifiedRenameMap_canRename (freeLists st') (ex_inst 3)"
proof -
  obtain st0 st where run: "CPU_initRegs ex_phys ex_regs 1 1 = Inr st0"
      "rename_run (\<lambda>r. r) [EvRename (ex_inst 1), EvRename (ex_inst 2)] st0 = Inr st"
      "ex_run [EvRename (ex_inst 1), EvRename (ex_inst 2)] = Inr st"
    using ex_two_renames by (auto simp: ex_run_def rbind_eq_Inr ex_init_def simp del: rename_run.simps)
  have fit: "c \<in> set mapped_classes \<Longrightarrow>
      di_numTypedDests (ex_inst 3) c + 1 * ex_regs c \<le> numPhysical ex_phys ex_regs c" for c
    by (auto simp: ex_inst_def mapped_classes_def numPhysical_def numPhysicalVecElemRegs_def ex_phys_def ex_regs_def)
  have ok: "list_all (event_thread_ok 1) [EvRename (ex_inst 1), EvRename (ex_inst 2)]"
    by (simp add: ex_inst_def)
  show ?thesis
    using rename_never_stuck [OF run(1) order.refl ok run(2) fit] run(3) by blast
qed

end
