(* ===== verification/Mem_Request.thy ===== *)
theory Mem_Request
  imports Gem5_Flags
begin

text \<open>
  Memory requests (\<open>mem/request.hh\<close>): the flags that say what is asked for, the private flags
  that say which fields are valid, and the operations that fill, translate and split a
  request. The two function objects a request may carry (an atomic operation and a local
  accessor) are left out.
\<close>

section \<open>Flags\<close>

abbreviation "INST_FETCH \<equiv> (0x100 :: 64 word)"
abbreviation "UNCACHEABLE \<equiv> (0x400 :: 64 word)"
abbreviation "STRICT_ORDER \<equiv> (0x800 :: 64 word)"
abbreviation "CACHE_BLOCK_ZERO \<equiv> (0x10000 :: 64 word)"
abbreviation "LOCKED_RMW \<equiv> (0x100000 :: 64 word)"
abbreviation "LLSC \<equiv> (0x200000 :: 64 word)"
abbreviation "MEM_SWAP \<equiv> (0x400000 :: 64 word)"
abbreviation "MEM_SWAP_COND \<equiv> (0x800000 :: 64 word)"
abbreviation "PREFETCH \<equiv> (0x1000000 :: 64 word)"
abbreviation "PF_EXCLUSIVE \<equiv> (0x2000000 :: 64 word)"
abbreviation "SECURE \<equiv> (0x10000000 :: 64 word)"
abbreviation "ATOMIC_RETURN_OP \<equiv> (0x40000000 :: 64 word)"
abbreviation "ATOMIC_NO_RETURN_OP \<equiv> (0x80000000 :: 64 word)"
abbreviation "INVALIDATE \<equiv> (0x100000000 :: 64 word)"
abbreviation "CLEAN \<equiv> (0x200000000 :: 64 word)"
abbreviation "HTM_START \<equiv> (0x10000000000 :: 64 word)"
abbreviation "HTM_COMMIT \<equiv> (0x20000000000 :: 64 word)"
abbreviation "HTM_CANCEL \<equiv> (0x40000000000 :: 64 word)"
abbreviation "HTM_ABORT \<equiv> (0x80000000000 :: 64 word)"
abbreviation "TLBI \<equiv> (0x100000000000 :: 64 word)"
abbreviation "TLBI_SYNC \<equiv> (0x200000000000 :: 64 word)"
abbreviation "TLBI_EXT_SYNC \<equiv> (0x400000000000 :: 64 word)"
abbreviation "TLBI_EXT_SYNC_COMP \<equiv> (0x800000000000 :: 64 word)"
abbreviation "STICKY_FLAGS \<equiv> INST_FETCH"

abbreviation "REQ_VALID_SIZE \<equiv> (0x1 :: 16 word)"
abbreviation "REQ_VALID_PADDR \<equiv> (0x2 :: 16 word)"
abbreviation "REQ_VALID_VADDR \<equiv> (0x4 :: 16 word)"
abbreviation "REQ_VALID_INST_SEQ_NUM \<equiv> (0x8 :: 16 word)"
abbreviation "REQ_VALID_PC \<equiv> (0x10 :: 16 word)"
abbreviation "REQ_VALID_CONTEXT_ID \<equiv> (0x20 :: 16 word)"
abbreviation "REQ_VALID_EXTRA_DATA \<equiv> (0x80 :: 16 word)"
abbreviation "REQ_VALID_STREAM_ID \<equiv> (0x100 :: 16 word)"
abbreviation "REQ_VALID_SUBSTREAM_ID \<equiv> (0x200 :: 16 word)"
abbreviation "REQ_VALID_HTM_ABORT_CAUSE \<equiv> (0x400 :: 16 word)"
abbreviation "REQ_VALID_INST_COUNT \<equiv> (0x800 :: 16 word)"
abbreviation "STICKY_PRIVATE_FLAGS \<equiv> REQ_VALID_CONTEXT_ID"

section \<open>Requests\<close>

record Request =
  req_paddr :: Addr
  req_size :: "32 word"
  req_byteEnable :: "bool list"
  req_requestorId :: "16 word"
  req_flags :: "64 word"
  req_cacheCoherenceFlags :: "64 word"
  req_privateFlags :: "16 word"
  req_time :: Tick
  req_taskId :: "32 word"
  req_streamId :: "32 word"
  req_substreamId :: "32 word"
  req_systemReq :: bool
  req_vaddr :: Addr
  req_extraData :: "64 word"
  req_contextId :: int
  req_pc :: Addr
  req_reqInstSeqNum :: "64 word"
  req_instCount :: "64 word"
  req_htmAbortCause :: int
  req_translateDelta :: Tick
  req_accessDelta :: Tick
  req_depth :: int

definition Request_default :: Request where
  "Request_default =
    \<lparr>req_paddr = 0, req_size = 0, req_byteEnable = [], req_requestorId = - 1, req_flags = 0,
     req_cacheCoherenceFlags = 0, req_privateFlags = 0, req_time = - 1, req_taskId = 1024,
     req_streamId = 0, req_substreamId = 0, req_systemReq = False, req_vaddr = - 1,
     req_extraData = 0, req_contextId = - 1, req_pc = - 1, req_reqInstSeqNum = 0,
     req_instCount = 0, req_htmAbortCause = - 1, req_translateDelta = 0, req_accessDelta = 0,
     req_depth = 0\<rparr>"

text \<open>
  The copy constructor names the members it copies; the others keep their default.
\<close>

definition Request_copy :: "Request \<Rightarrow> Request" where
  "Request_copy other =
    Request_default\<lparr>req_paddr := req_paddr other, req_size := req_size other,
      req_byteEnable := req_byteEnable other, req_requestorId := req_requestorId other,
      req_flags := req_flags other, req_cacheCoherenceFlags := req_cacheCoherenceFlags other,
      req_privateFlags := req_privateFlags other, req_time := req_time other,
      req_taskId := req_taskId other, req_vaddr := req_vaddr other,
      req_extraData := req_extraData other, req_contextId := req_contextId other,
      req_pc := req_pc other, req_reqInstSeqNum := req_reqInstSeqNum other,
      req_translateDelta := req_translateDelta other, req_accessDelta := req_accessDelta other,
      req_depth := req_depth other\<rparr>"

definition Request_hasPaddr :: "Request \<Rightarrow> bool" where
  "Request_hasPaddr req = Flags_isSet (req_privateFlags req) REQ_VALID_PADDR"

definition Request_getPaddr :: "Request \<Rightarrow> Addr result" where
  "Request_getPaddr req = assert_that (Request_hasPaddr req) ''hasPaddr()'' (Inr (req_paddr req))"

definition Request_hasVaddr :: "Request \<Rightarrow> bool" where
  "Request_hasVaddr req = Flags_isSet (req_privateFlags req) REQ_VALID_VADDR"

definition Request_hasSize :: "Request \<Rightarrow> bool" where
  "Request_hasSize req = Flags_isSet (req_privateFlags req) REQ_VALID_SIZE"

definition Request_getSize :: "Request \<Rightarrow> 32 word result" where
  "Request_getSize req = assert_that (Request_hasSize req) ''hasSize()'' (Inr (req_size req))"

definition Request_isMasked :: "Request \<Rightarrow> bool" where
  "Request_isMasked req = (False \<in> set (req_byteEnable req))"

text \<open>
  \<open>splitOnVaddr\<close> copies the request twice and divides the size and the byte enables at the
  split address. The vector constructor reads from \<open>begin() + _size\<close> of the first part,
  which has no meaning when there are fewer byte enables.
\<close>

definition Request_splitOnVaddr :: "Addr \<Rightarrow> Request \<Rightarrow> (Request \<times> Request) result" where
  "Request_splitOnVaddr split_addr req =
    assert_that (Request_hasVaddr req) ''hasVaddr()''
   (assert_that (\<not> Request_hasPaddr req) ''!hasPaddr()''
   (assert_that (split_addr > req_vaddr req \<and> split_addr < req_vaddr req + ucast (req_size req))
      ''split_addr > _vaddr && split_addr < _vaddr + _size''
     (let size1 = (ucast (split_addr - req_vaddr req) :: 32 word);
          size2 = req_size req - size1 in
      if unat size1 \<le> length (req_byteEnable req) then
        Inr ((Request_copy req)\<lparr>req_size := size1, req_byteEnable := take (unat size1) (req_byteEnable req)\<rparr>,
             (Request_copy req)\<lparr>req_vaddr := split_addr, req_size := size2,
                 req_byteEnable := drop (unat size1) (req_byteEnable req)\<rparr>)
      else Inl (Undefined ''_byteEnable.begin() + size beyond end()''))))"

section \<open>Optional fields\<close>

definition Request_setStreamId :: "32 word \<Rightarrow> Request \<Rightarrow> Request" where
  "Request_setStreamId sid req =
    req\<lparr>req_streamId := sid,
        req_privateFlags := Flags_set (req_privateFlags req) REQ_VALID_STREAM_ID\<rparr>"

definition Request_hasStreamId :: "Request \<Rightarrow> bool" where
  "Request_hasStreamId req = Flags_isSet (req_privateFlags req) REQ_VALID_STREAM_ID"

definition Request_streamId :: "Request \<Rightarrow> 32 word result" where
  "Request_streamId req =
    assert_that (Request_hasStreamId req) ''hasStreamId()'' (Inr (req_streamId req))"

definition Request_setSubstreamId :: "32 word \<Rightarrow> Request \<Rightarrow> Request result" where
  "Request_setSubstreamId ssid req =
    assert_that (Request_hasStreamId req) ''hasStreamId()''
      (Inr (req\<lparr>req_substreamId := ssid,
        req_privateFlags := Flags_set (req_privateFlags req) REQ_VALID_SUBSTREAM_ID\<rparr>))"

definition Request_hasSubstreamId :: "Request \<Rightarrow> bool" where
  "Request_hasSubstreamId req = Flags_isSet (req_privateFlags req) REQ_VALID_SUBSTREAM_ID"

definition Request_substreamId :: "Request \<Rightarrow> 32 word result" where
  "Request_substreamId req =
    assert_that (Request_hasSubstreamId req) ''hasSubstreamId()'' (Inr (req_substreamId req))"

definition Request_setInstCount :: "64 word \<Rightarrow> Request \<Rightarrow> Request" where
  "Request_setInstCount v req =
    req\<lparr>req_privateFlags := Flags_set (req_privateFlags req) REQ_VALID_INST_COUNT,
        req_instCount := v\<rparr>"

definition Request_hasInstCount :: "Request \<Rightarrow> bool" where
  "Request_hasInstCount req = Flags_isSet (req_privateFlags req) REQ_VALID_INST_COUNT"

definition Request_getInstCount :: "Request \<Rightarrow> 64 word result" where
  "Request_getInstCount req =
    assert_that (Request_hasInstCount req) ''hasInstCount()'' (Inr (req_instCount req))"

definition Request_setExtraData :: "64 word \<Rightarrow> Request \<Rightarrow> Request" where
  "Request_setExtraData v req =
    req\<lparr>req_extraData := v,
        req_privateFlags := Flags_set (req_privateFlags req) REQ_VALID_EXTRA_DATA\<rparr>"

definition Request_extraDataValid :: "Request \<Rightarrow> bool" where
  "Request_extraDataValid req = Flags_isSet (req_privateFlags req) REQ_VALID_EXTRA_DATA"

definition Request_getExtraData :: "Request \<Rightarrow> 64 word result" where
  "Request_getExtraData req =
    assert_that (Request_extraDataValid req) ''extraDataValid()'' (Inr (req_extraData req))"

section \<open>Tests\<close>

definition Request_hasContextId :: "Request \<Rightarrow> bool" where
  "Request_hasContextId r = Flags_isSet (req_privateFlags r) REQ_VALID_CONTEXT_ID"

definition Request_contextId :: "Request \<Rightarrow> int result" where
  "Request_contextId r = assert_that (Request_hasContextId r) ''hasContextId()'' (Inr (req_contextId r))"

definition Request_isUncacheable :: "Request \<Rightarrow> bool" where
  "Request_isUncacheable req = Flags_isSet (req_flags req) UNCACHEABLE"

definition Request_isPrefetch :: "Request \<Rightarrow> bool" where
  "Request_isPrefetch req = Flags_isSet (req_flags req) (PREFETCH OR PF_EXCLUSIVE)"

definition Request_isPrefetchEx :: "Request \<Rightarrow> bool" where
  "Request_isPrefetchEx req = Flags_isSet (req_flags req) PF_EXCLUSIVE"

definition Request_isLLSC :: "Request \<Rightarrow> bool" where
  "Request_isLLSC req = Flags_isSet (req_flags req) LLSC"

definition Request_isLockedRMW :: "Request \<Rightarrow> bool" where
  "Request_isLockedRMW req = Flags_isSet (req_flags req) LOCKED_RMW"

definition Request_isSwap :: "Request \<Rightarrow> bool" where
  "Request_isSwap req = Flags_isSet (req_flags req) (MEM_SWAP OR MEM_SWAP_COND)"

definition Request_isSecure :: "Request \<Rightarrow> bool" where
  "Request_isSecure req = Flags_isSet (req_flags req) SECURE"

definition Request_isHTMAbort :: "Request \<Rightarrow> bool" where
  "Request_isHTMAbort req = Flags_isSet (req_flags req) HTM_ABORT"

definition Request_isHTMCmd :: "Request \<Rightarrow> bool" where
  "Request_isHTMCmd req =
    (Flags_isSet (req_flags req) HTM_START \<or> Flags_isSet (req_flags req) HTM_COMMIT \<or>
     Flags_isSet (req_flags req) HTM_CANCEL \<or> Request_isHTMAbort req)"

definition Request_isAtomic :: "Request \<Rightarrow> bool" where
  "Request_isAtomic req =
    (Flags_isSet (req_flags req) ATOMIC_RETURN_OP \<or> Flags_isSet (req_flags req) ATOMIC_NO_RETURN_OP)"

definition Request_isCacheClean :: "Request \<Rightarrow> bool" where
  "Request_isCacheClean req = Flags_isSet (req_flags req) CLEAN"

definition Request_isCacheInvalidate :: "Request \<Rightarrow> bool" where
  "Request_isCacheInvalidate req = Flags_isSet (req_flags req) INVALIDATE"

definition Request_isCacheMaintenance :: "Request \<Rightarrow> bool" where
  "Request_isCacheMaintenance req = Flags_isSet (req_flags req) (CLEAN OR INVALIDATE)"

section \<open>Splitting a request\<close>

lemma vaddr_no_wrap:
  fixes v a :: Addr and s :: "32 word"
  assumes "v < a" "a < v + ucast s"
  shows "unat a < unat v + unat s" "unat (a - v) = unat a - unat v"
proof -
  have s: "unat (ucast s :: Addr) = unat s"
    using unsigned_less [where 'a = nat, of s] by (simp add: unsigned_ucast_eq take_bit_nat_eq_self)
  have b: "unat v < unat a" "unat a < unat (v + ucast s)"
    using assms by (simp_all add: word_less_nat_alt)
  have "unat (v + ucast s) \<le> unat v + unat s"
    by (simp add: unat_word_ariths s)
  thus "unat a < unat v + unat s"
    using b by linarith
  show "unat (a - v) = unat a - unat v"
    using assms(1) by (simp add: unat_sub order.strict_implies_order)
qed

lemma split_size:
  fixes v a :: Addr and s :: "32 word"
  assumes "v < a" "a < v + ucast s"
  shows "unat (ucast (a - v) :: 32 word) = unat a - unat v"
    "unat (s - ucast (a - v)) = unat s - (unat a - unat v)"
    "0 < unat a - unat v" "unat a - unat v < unat s"
proof -
  have b: "unat v < unat a" using assms(1) by (simp add: word_less_nat_alt)
  note n = vaddr_no_wrap [OF assms]
  show d: "0 < unat a - unat v" "unat a - unat v < unat s"
    using b n(1) by simp_all
  have "unat a - unat v < 2 ^ 32"
    using d(2) unsigned_less [where 'a = nat, of s] by simp
  thus u: "unat (ucast (a - v) :: 32 word) = unat a - unat v"
    using n(2) by (simp add: unsigned_ucast_eq take_bit_nat_eq_self)
  show "unat (s - ucast (a - v)) = unat s - (unat a - unat v)"
    using u d(2) by (simp add: unat_sub word_le_nat_alt)
qed

text \<open>
  Splitting a request at a virtual address divides it: the two parts are not empty, the
  second begins where the first ends, together they have the size and the byte enables of the
  request, and each has as many byte enables as bytes.
\<close>

theorem splitOnVaddr_partitions:
  assumes "Request_splitOnVaddr split_addr req = Inr (req1, req2)"
    and "length (req_byteEnable req) = unat (req_size req)"
  shows "req_vaddr req1 = req_vaddr req \<and> req_vaddr req2 = split_addr \<and>
    unat split_addr = unat (req_vaddr req1) + unat (req_size req1) \<and>
    unat (req_size req1) + unat (req_size req2) = unat (req_size req) \<and>
    req_size req1 \<noteq> 0 \<and> req_size req2 \<noteq> 0 \<and>
    req_byteEnable req1 @ req_byteEnable req2 = req_byteEnable req \<and>
    length (req_byteEnable req1) = unat (req_size req1) \<and>
    length (req_byteEnable req2) = unat (req_size req2)"
proof -
  from assms(1) have r: "req_vaddr req < split_addr" "split_addr < req_vaddr req + ucast (req_size req)"
    "req1 = (Request_copy req)\<lparr>req_size := ucast (split_addr - req_vaddr req),
       req_byteEnable := take (unat (ucast (split_addr - req_vaddr req) :: 32 word)) (req_byteEnable req)\<rparr>"
    "req2 = (Request_copy req)\<lparr>req_vaddr := split_addr,
       req_size := req_size req - ucast (split_addr - req_vaddr req),
       req_byteEnable := drop (unat (ucast (split_addr - req_vaddr req) :: 32 word)) (req_byteEnable req)\<rparr>"
    by (auto simp: Request_splitOnVaddr_def Let_def result_eq_Inr split: if_splits)
  note s = split_size [OF r(1,2)]
  have n: "unat (req_size req1) = unat split_addr - unat (req_vaddr req)"
    "unat (req_size req2) = unat (req_size req) - (unat split_addr - unat (req_vaddr req))"
    using s by (simp_all add: r)
  have "req_vaddr req1 = req_vaddr req" "req_vaddr req2 = split_addr"
    by (simp_all add: r Request_copy_def)
  moreover have "unat (req_size req1) \<noteq> 0" "unat (req_size req2) \<noteq> 0"
    using s(3,4) n by simp_all
  moreover have "req_byteEnable req1 @ req_byteEnable req2 = req_byteEnable req"
    by (simp add: r)
  moreover have "length (req_byteEnable req1) = unat (req_size req1)"
    "length (req_byteEnable req2) = unat (req_size req2)"
    using s n assms(2) by (simp_all add: r)
  ultimately show ?thesis
    using s n by auto
qed

section \<open>Copying a request\<close>

text \<open>
  C35: a copy of a request keeps the marks that its stream id, substream id, instruction count
  and transaction abort cause are valid, but not their values: each accessor of the copy
  returns the default of the field instead of failing its assertion.
\<close>

theorem Request_copy_drops_fields:
  "Request_streamId (Request_copy (Request_setStreamId sid req)) = Inr 0 \<and>
   Request_getInstCount (Request_copy (Request_setInstCount n req)) = Inr 0 \<and>
   rbind (Request_setSubstreamId ssid (Request_setStreamId sid req))
     (\<lambda>r. Request_substreamId (Request_copy r)) = Inr 0 \<and>
   Request_getExtraData (Request_copy (Request_setExtraData x req)) = Inr x"
  by (simp add: Request_streamId_def Request_copy_def Request_setStreamId_def Request_default_def
      Request_hasStreamId_def Request_getInstCount_def Request_setInstCount_def
      Request_hasInstCount_def Request_setSubstreamId_def Request_substreamId_def
      Request_hasSubstreamId_def Request_getExtraData_def Request_setExtraData_def
      Request_extraDataValid_def Flags_isSet_set_same)

end
