(* ===== verification/Packet.thy ===== *)
theory Packet
  imports Mem_Request Addr_Range
begin

text \<open>
  Memory commands and packets (\<open>mem/packet.hh\<close>, \<open>mem/packet.cc\<close>). A command is an index into
  the table of its attributes, its response and its name; the table is kept as the list it is
  in the source, so that its order against the enumeration is part of the model. The two
  values of the enumeration that the source skips are the deprecated message commands.

  A packet owns its data as a list of bytes, \<open>None\<close> for a null pointer. The contents of
  memory fresh from \<open>new\<close> are a parameter. Printing, reference counting and the identifier
  taken from the address of the request are left out.
\<close>

section \<open>Commands (MemCmd)\<close>

datatype Command =
    InvalidCmd | ReadReq | ReadResp | ReadRespWithInvalidate
  | WriteReq | WriteResp | WriteCompleteResp | WritebackDirty
  | WritebackClean | WriteClean | CleanEvict | SoftPFReq
  | SoftPFExReq | HardPFReq | SoftPFResp | HardPFResp
  | WriteLineReq | UpgradeReq | SCUpgradeReq | UpgradeResp
  | SCUpgradeFailReq | UpgradeFailResp | ReadExReq | ReadExResp
  | ReadCleanReq | ReadSharedReq | LoadLockedReq | StoreCondReq
  | StoreCondFailReq | StoreCondResp | LockedRMWReadReq | LockedRMWReadResp
  | LockedRMWWriteReq | LockedRMWWriteResp | SwapReq | SwapResp
  | Deprecated_MessageReq | Deprecated_MessageResp | MemFenceReq | MemSyncReq
  | MemSyncResp | MemFenceResp | CleanSharedReq | CleanSharedResp
  | CleanInvalidReq | CleanInvalidResp | InvalidDestError | BadAddressError
  | ReadError | WriteError | FunctionalReadError | FunctionalWriteError
  | PrintReq | FlushReq | InvalidateReq | InvalidateResp
  | HTMReq | HTMReqResp | HTMAbort | TlbiExtSync

datatype Attribute =
    IsRead | IsWrite | IsUpgrade | IsInvalidate | IsClean
  | NeedsWritable | IsRequest | IsResponse | NeedsResponse | IsEviction
  | IsSWPrefetch | IsHWPrefetch | IsLlsc | IsLockedRMW | HasData
  | IsError | IsPrint | IsFlush | FromCache

datatype CommandInfo = CommandInfo (ci_attributes: "Attribute list") (ci_response: Command) (ci_str: string)

fun MemCmd_toInt :: "Command \<Rightarrow> nat" where
  "MemCmd_toInt InvalidCmd = 0"
| "MemCmd_toInt ReadReq = 1"
| "MemCmd_toInt ReadResp = 2"
| "MemCmd_toInt ReadRespWithInvalidate = 3"
| "MemCmd_toInt WriteReq = 4"
| "MemCmd_toInt WriteResp = 5"
| "MemCmd_toInt WriteCompleteResp = 6"
| "MemCmd_toInt WritebackDirty = 7"
| "MemCmd_toInt WritebackClean = 8"
| "MemCmd_toInt WriteClean = 9"
| "MemCmd_toInt CleanEvict = 10"
| "MemCmd_toInt SoftPFReq = 11"
| "MemCmd_toInt SoftPFExReq = 12"
| "MemCmd_toInt HardPFReq = 13"
| "MemCmd_toInt SoftPFResp = 14"
| "MemCmd_toInt HardPFResp = 15"
| "MemCmd_toInt WriteLineReq = 16"
| "MemCmd_toInt UpgradeReq = 17"
| "MemCmd_toInt SCUpgradeReq = 18"
| "MemCmd_toInt UpgradeResp = 19"
| "MemCmd_toInt SCUpgradeFailReq = 20"
| "MemCmd_toInt UpgradeFailResp = 21"
| "MemCmd_toInt ReadExReq = 22"
| "MemCmd_toInt ReadExResp = 23"
| "MemCmd_toInt ReadCleanReq = 24"
| "MemCmd_toInt ReadSharedReq = 25"
| "MemCmd_toInt LoadLockedReq = 26"
| "MemCmd_toInt StoreCondReq = 27"
| "MemCmd_toInt StoreCondFailReq = 28"
| "MemCmd_toInt StoreCondResp = 29"
| "MemCmd_toInt LockedRMWReadReq = 30"
| "MemCmd_toInt LockedRMWReadResp = 31"
| "MemCmd_toInt LockedRMWWriteReq = 32"
| "MemCmd_toInt LockedRMWWriteResp = 33"
| "MemCmd_toInt SwapReq = 34"
| "MemCmd_toInt SwapResp = 35"
| "MemCmd_toInt Deprecated_MessageReq = 36"
| "MemCmd_toInt Deprecated_MessageResp = 37"
| "MemCmd_toInt MemFenceReq = 38"
| "MemCmd_toInt MemSyncReq = 39"
| "MemCmd_toInt MemSyncResp = 40"
| "MemCmd_toInt MemFenceResp = 41"
| "MemCmd_toInt CleanSharedReq = 42"
| "MemCmd_toInt CleanSharedResp = 43"
| "MemCmd_toInt CleanInvalidReq = 44"
| "MemCmd_toInt CleanInvalidResp = 45"
| "MemCmd_toInt InvalidDestError = 46"
| "MemCmd_toInt BadAddressError = 47"
| "MemCmd_toInt ReadError = 48"
| "MemCmd_toInt WriteError = 49"
| "MemCmd_toInt FunctionalReadError = 50"
| "MemCmd_toInt FunctionalWriteError = 51"
| "MemCmd_toInt PrintReq = 52"
| "MemCmd_toInt FlushReq = 53"
| "MemCmd_toInt InvalidateReq = 54"
| "MemCmd_toInt InvalidateResp = 55"
| "MemCmd_toInt HTMReq = 56"
| "MemCmd_toInt HTMReqResp = 57"
| "MemCmd_toInt HTMAbort = 58"
| "MemCmd_toInt TlbiExtSync = 59"

definition commandInfo :: "CommandInfo list" where
  "commandInfo =
   [CommandInfo [] InvalidCmd ''InvalidCmd'',
    CommandInfo [IsRead, IsRequest, NeedsResponse] ReadResp ''ReadReq'',
    CommandInfo [IsRead, IsResponse, HasData] InvalidCmd ''ReadResp'',
    CommandInfo [IsRead, IsResponse, HasData, IsInvalidate] InvalidCmd ''ReadRespWithInvalidate'',
    CommandInfo [IsWrite, NeedsWritable, IsRequest, NeedsResponse, HasData] WriteResp ''WriteReq'',
    CommandInfo [IsWrite, IsResponse] InvalidCmd ''WriteResp'',
    CommandInfo [IsWrite, IsResponse] InvalidCmd ''WriteCompleteResp'',
    CommandInfo [IsWrite, IsRequest, IsEviction, HasData, FromCache] InvalidCmd ''WritebackDirty'',
    CommandInfo [IsWrite, IsRequest, IsEviction, HasData, FromCache] InvalidCmd ''WritebackClean'',
    CommandInfo [IsWrite, IsRequest, HasData, FromCache] InvalidCmd ''WriteClean'',
    CommandInfo [IsRequest, IsEviction, FromCache] InvalidCmd ''CleanEvict'',
    CommandInfo [IsRead, IsRequest, IsSWPrefetch, NeedsResponse] SoftPFResp ''SoftPFReq'',
    CommandInfo [IsRead, NeedsWritable, IsInvalidate, IsRequest, IsSWPrefetch, NeedsResponse]
      SoftPFResp ''SoftPFExReq'',
    CommandInfo [IsRead, IsRequest, IsHWPrefetch, NeedsResponse, FromCache]
      HardPFResp ''HardPFReq'',
    CommandInfo [IsRead, IsResponse, IsSWPrefetch, HasData] InvalidCmd ''SoftPFResp'',
    CommandInfo [IsRead, IsResponse, IsHWPrefetch, HasData] InvalidCmd ''HardPFResp'',
    CommandInfo [IsWrite, NeedsWritable, IsRequest, NeedsResponse, HasData]
      WriteResp ''WriteLineReq'',
    CommandInfo [IsInvalidate, NeedsWritable, IsUpgrade, IsRequest, NeedsResponse, FromCache]
      UpgradeResp ''UpgradeReq'',
    CommandInfo [IsInvalidate, NeedsWritable, IsUpgrade, IsLlsc, IsRequest, NeedsResponse, FromCache]
      UpgradeResp ''SCUpgradeReq'',
    CommandInfo [IsUpgrade, IsResponse] InvalidCmd ''UpgradeResp'',
    CommandInfo [IsRead, NeedsWritable, IsInvalidate, IsLlsc, IsRequest, NeedsResponse, FromCache]
      UpgradeFailResp ''SCUpgradeFailReq'',
    CommandInfo [IsRead, IsResponse, HasData] InvalidCmd ''UpgradeFailResp'',
    CommandInfo [IsRead, NeedsWritable, IsInvalidate, IsRequest, NeedsResponse, FromCache]
      ReadExResp ''ReadExReq'',
    CommandInfo [IsRead, IsResponse, HasData] InvalidCmd ''ReadExResp'',
    CommandInfo [IsRead, IsRequest, NeedsResponse, FromCache] ReadResp ''ReadCleanReq'',
    CommandInfo [IsRead, IsRequest, NeedsResponse, FromCache] ReadResp ''ReadSharedReq'',
    CommandInfo [IsRead, IsLlsc, IsRequest, NeedsResponse] ReadResp ''LoadLockedReq'',
    CommandInfo [IsWrite, NeedsWritable, IsLlsc, IsRequest, NeedsResponse, HasData]
      StoreCondResp ''StoreCondReq'',
    CommandInfo [IsWrite, NeedsWritable, IsLlsc, IsRequest, NeedsResponse, HasData]
      StoreCondResp ''StoreCondFailReq'',
    CommandInfo [IsWrite, IsLlsc, IsResponse] InvalidCmd ''StoreCondResp'',
    CommandInfo [IsRead, IsLockedRMW, NeedsWritable, IsRequest, NeedsResponse]
      LockedRMWReadResp ''LockedRMWReadReq'',
    CommandInfo [IsRead, IsLockedRMW, NeedsWritable, IsResponse, HasData]
      InvalidCmd ''LockedRMWReadResp'',
    CommandInfo [IsWrite, IsLockedRMW, NeedsWritable, IsRequest, NeedsResponse, HasData]
      LockedRMWWriteResp ''LockedRMWWriteReq'',
    CommandInfo [IsWrite, IsLockedRMW, NeedsWritable, IsResponse] InvalidCmd ''LockedRMWWriteResp'',
    CommandInfo [IsRead, IsWrite, NeedsWritable, IsRequest, HasData, NeedsResponse]
      SwapResp ''SwapReq'',
    CommandInfo [IsRead, IsWrite, IsResponse, HasData] InvalidCmd ''SwapResp'',
    CommandInfo [] InvalidCmd ''Deprecated_MessageReq'',
    CommandInfo [] InvalidCmd ''Deprecated_MessageResp'',
    CommandInfo [IsRequest, NeedsResponse] MemFenceResp ''MemFenceReq'',
    CommandInfo [IsRequest, NeedsResponse] MemSyncResp ''MemSyncReq'',
    CommandInfo [IsResponse] InvalidCmd ''MemSyncResp'',
    CommandInfo [IsResponse] InvalidCmd ''MemFenceResp'',
    CommandInfo [IsRequest, IsClean, NeedsResponse, FromCache] CleanSharedResp ''CleanSharedReq'',
    CommandInfo [IsResponse, IsClean] InvalidCmd ''CleanSharedResp'',
    CommandInfo [IsRequest, IsInvalidate, IsClean, NeedsResponse, FromCache]
      CleanInvalidResp ''CleanInvalidReq'',
    CommandInfo [IsResponse, IsInvalidate, IsClean] InvalidCmd ''CleanInvalidResp'',
    CommandInfo [IsResponse, IsError] InvalidCmd ''InvalidDestError'',
    CommandInfo [IsResponse, IsError] InvalidCmd ''BadAddressError'',
    CommandInfo [IsRead, IsResponse, IsError] InvalidCmd ''ReadError'',
    CommandInfo [IsWrite, IsResponse, IsError] InvalidCmd ''WriteError'',
    CommandInfo [IsRead, IsResponse, IsError] InvalidCmd ''FunctionalReadError'',
    CommandInfo [IsWrite, IsResponse, IsError] InvalidCmd ''FunctionalWriteError'',
    CommandInfo [IsRequest, IsPrint] InvalidCmd ''PrintReq'',
    CommandInfo [IsRequest, IsFlush, NeedsWritable] InvalidCmd ''FlushReq'',
    CommandInfo [IsInvalidate, IsRequest, NeedsWritable, NeedsResponse, FromCache]
      InvalidateResp ''InvalidateReq'',
    CommandInfo [IsInvalidate, IsResponse] InvalidCmd ''InvalidateResp'',
    CommandInfo [IsRead, IsRequest, NeedsResponse] HTMReqResp ''HTMReq'',
    CommandInfo [IsRead, IsResponse] InvalidCmd ''HTMReqResp'',
    CommandInfo [IsRead, IsRequest] InvalidCmd ''HTMAbort'',
    CommandInfo [IsRequest] InvalidCmd ''TlbiExtSync'']"

definition testCmdAttrib :: "Command \<Rightarrow> Attribute \<Rightarrow> bool" where
  "testCmdAttrib cmd attrib = (attrib \<in> set (ci_attributes (commandInfo ! MemCmd_toInt cmd)))"

definition MemCmd_responseCommand :: "Command \<Rightarrow> Command" where
  "MemCmd_responseCommand cmd = ci_response (commandInfo ! MemCmd_toInt cmd)"

definition MemCmd_isWriteback :: "Command \<Rightarrow> bool" where
  "MemCmd_isWriteback cmd = (testCmdAttrib cmd IsEviction \<and> testCmdAttrib cmd HasData)"

section \<open>Packets\<close>

abbreviation "COPY_FLAGS \<equiv> (0x000000FF :: 32 word)"
abbreviation "RESPONDER_FLAGS \<equiv> (0x00000009 :: 32 word)"
abbreviation "HAS_SHARERS \<equiv> (0x00000001 :: 32 word)"
abbreviation "EXPRESS_SNOOP \<equiv> (0x00000002 :: 32 word)"
abbreviation "RESPONDER_HAD_WRITABLE \<equiv> (0x00000004 :: 32 word)"
abbreviation "CACHE_RESPONDING \<equiv> (0x00000008 :: 32 word)"
abbreviation "WRITE_THROUGH \<equiv> (0x00000010 :: 32 word)"
abbreviation "SATISFIED \<equiv> (0x00000020 :: 32 word)"
abbreviation "FAILS_TRANSACTION \<equiv> (0x00000040 :: 32 word)"
abbreviation "FROM_TRANSACTION \<equiv> (0x00000080 :: 32 word)"
abbreviation "VALID_ADDR \<equiv> (0x00000100 :: 32 word)"
abbreviation "VALID_SIZE \<equiv> (0x00000200 :: 32 word)"
abbreviation "STATIC_DATA \<equiv> (0x00001000 :: 32 word)"
abbreviation "DYNAMIC_DATA \<equiv> (0x00002000 :: 32 word)"
abbreviation "SUPPRESS_FUNC_ERROR \<equiv> (0x00008000 :: 32 word)"
abbreviation "BLOCK_CACHED \<equiv> (0x00010000 :: 32 word)"

datatype HtmCacheFailure = NO_FAIL | FAIL_SELF | FAIL_REMOTE | FAIL_OTHER

record Packet =
  pkt_flags :: "32 word"
  pkt_cmd :: Command
  pkt_req :: Request
  pkt_data :: "8 word list option"
  pkt_addr :: Addr
  pkt_isSecure :: bool
  pkt_size :: "32 word"
  pkt_bytesValid :: "bool list"
  pkt_qosValue :: "8 word"
  pkt_htmReturnReason :: HtmCacheFailure
  pkt_htmTransactionUid :: "64 word"
  pkt_headerDelay :: "32 word"
  pkt_snoopDelay :: "32 word"
  pkt_payloadDelay :: "32 word"
  pkt_senderState :: "nat list"

abbreviation pkt_attr :: "Attribute \<Rightarrow> Packet \<Rightarrow> bool" where
  "pkt_attr a pkt \<equiv> testCmdAttrib (pkt_cmd pkt) a"

definition pkt_set_flags :: "32 word \<Rightarrow> Packet \<Rightarrow> Packet" where
  "pkt_set_flags m pkt = pkt\<lparr>pkt_flags := Flags_set (pkt_flags pkt) m\<rparr>"

definition pkt_clear_flags :: "32 word \<Rightarrow> Packet \<Rightarrow> Packet" where
  "pkt_clear_flags m pkt = pkt\<lparr>pkt_flags := Flags_clear (pkt_flags pkt) m\<rparr>"

definition Packet_getAddr :: "Packet \<Rightarrow> Addr result" where
  "Packet_getAddr pkt =
    assert_that (Flags_isSet (pkt_flags pkt) VALID_ADDR) ''flags.isSet(VALID_ADDR)'' (Inr (pkt_addr pkt))"

definition Packet_getSize :: "Packet \<Rightarrow> 32 word result" where
  "Packet_getSize pkt =
    assert_that (Flags_isSet (pkt_flags pkt) VALID_SIZE) ''flags.isSet(VALID_SIZE)'' (Inr (pkt_size pkt))"

definition Packet_getOffset :: "32 word \<Rightarrow> Packet \<Rightarrow> Addr result" where
  "Packet_getOffset blk_size pkt =
    rbind (Packet_getAddr pkt) (\<lambda>a. Inr (a AND ucast (blk_size - 1)))"

definition Packet_getBlockAddr :: "32 word \<Rightarrow> Packet \<Rightarrow> Addr result" where
  "Packet_getBlockAddr blk_size pkt =
    rbind (Packet_getAddr pkt) (\<lambda>a. Inr (a AND NOT (ucast (blk_size - 1))))"

definition Packet_isSecure :: "Packet \<Rightarrow> bool result" where
  "Packet_isSecure pkt =
    assert_that (Flags_isSet (pkt_flags pkt) VALID_ADDR) ''flags.isSet(VALID_ADDR)'' (Inr (pkt_isSecure pkt))"

section \<open>Tests on the command\<close>

definition Packet_isWriteback :: "Packet \<Rightarrow> bool" where
  "Packet_isWriteback pkt = MemCmd_isWriteback (pkt_cmd pkt)"

definition Packet_hasRespData :: "Packet \<Rightarrow> bool" where
  "Packet_hasRespData pkt = testCmdAttrib (MemCmd_responseCommand (pkt_cmd pkt)) HasData"

definition Packet_isMaskedWrite :: "Packet \<Rightarrow> bool" where
  "Packet_isMaskedWrite pkt = (pkt_cmd pkt = WriteReq \<and> Request_isMasked (pkt_req pkt))"

section \<open>Snoop and response flags\<close>

definition Packet_cacheResponding :: "Packet \<Rightarrow> bool" where
  "Packet_cacheResponding pkt = Flags_isSet (pkt_flags pkt) CACHE_RESPONDING"

definition Packet_hasSharers :: "Packet \<Rightarrow> bool" where
  "Packet_hasSharers pkt = Flags_isSet (pkt_flags pkt) HAS_SHARERS"

definition Packet_isBlockCached :: "Packet \<Rightarrow> bool" where
  "Packet_isBlockCached pkt = Flags_isSet (pkt_flags pkt) BLOCK_CACHED"

section \<open>Transactional memory\<close>

definition Packet_setHtmTransactionFailedInCache :: "HtmCacheFailure \<Rightarrow> Packet \<Rightarrow> Packet" where
  "Packet_setHtmTransactionFailedInCache rc pkt =
    (if rc \<noteq> NO_FAIL then pkt_set_flags FAILS_TRANSACTION pkt else pkt)\<lparr>pkt_htmReturnReason := rc\<rparr>"

definition Packet_htmTransactionFailedInCache :: "Packet \<Rightarrow> bool" where
  "Packet_htmTransactionFailedInCache pkt = Flags_isSet (pkt_flags pkt) FAILS_TRANSACTION"

definition Packet_setHtmTransactional :: "64 word \<Rightarrow> Packet \<Rightarrow> Packet" where
  "Packet_setHtmTransactional htm_uid pkt =
    (pkt_set_flags FROM_TRANSACTION pkt)\<lparr>pkt_htmTransactionUid := htm_uid\<rparr>"

definition Packet_isHtmTransactional :: "Packet \<Rightarrow> bool" where
  "Packet_isHtmTransactional pkt = Flags_isSet (pkt_flags pkt) FROM_TRANSACTION"

section \<open>Data\<close>

abbreviation "ANY_DATA \<equiv> STATIC_DATA OR DYNAMIC_DATA"

definition Packet_getPtr :: "Packet \<Rightarrow> 8 word list option result" where
  "Packet_getPtr pkt =
    assert_that (Flags_isSet (pkt_flags pkt) ANY_DATA) ''flags.isSet(STATIC_DATA|DYNAMIC_DATA)''
   (assert_that (\<not> Packet_isMaskedWrite pkt) ''!isMaskedWrite()'' (Inr (pkt_data pkt)))"

definition Packet_getConstPtr :: "Packet \<Rightarrow> 8 word list option result" where
  "Packet_getConstPtr pkt =
    assert_that (Flags_isSet (pkt_flags pkt) ANY_DATA) ''flags.isSet(STATIC_DATA|DYNAMIC_DATA)''
      (Inr (pkt_data pkt))"

text \<open>
  \<open>memcpy\<close> of \<open>n\<close> bytes from an offset of one buffer to an offset of another; leaving either
  buffer, or using a null pointer, has no meaning.
\<close>

definition deref :: "8 word list option \<Rightarrow> 8 word list result" where
  "deref p = (case p of None \<Rightarrow> Inl (Undefined ''null data pointer'') | Some d \<Rightarrow> Inr d)"

definition memcpy :: "8 word list \<Rightarrow> nat \<Rightarrow> 8 word list \<Rightarrow> nat \<Rightarrow> nat \<Rightarrow> 8 word list result" where
  "memcpy dst doff src soff n =
    (if doff + n \<le> length dst \<and> soff + n \<le> length src
     then Inr (take doff dst @ take n (drop soff src) @ drop (doff + n) dst)
     else Inl (Undefined ''memcpy outside a buffer''))"

text \<open>
  \<open>setData\<close> copies from a buffer that is not the packet's own: for its own buffer the code
  asserts that the data is static and copies nothing.
\<close>

definition Packet_setData :: "8 word list \<Rightarrow> nat \<Rightarrow> Packet \<Rightarrow> Packet result" where
  "Packet_setData p off pkt =
    rbind (Packet_getPtr pkt) (\<lambda>d.
    rbind (Packet_getSize pkt) (\<lambda>s.
    rbind (deref d) (\<lambda>buf.
    rbind (memcpy buf 0 p off (unat s)) (\<lambda>buf'.
      Inr (pkt\<lparr>pkt_data := Some buf'\<rparr>)))))"

definition Packet_setDataFromBlock :: "8 word list \<Rightarrow> 32 word \<Rightarrow> Packet \<Rightarrow> Packet result" where
  "Packet_setDataFromBlock blk_data blkSize pkt =
    rbind (Packet_getOffset blkSize pkt) (\<lambda>off. Packet_setData blk_data (unat off) pkt)"

fun masked_copy :: "bool list \<Rightarrow> 8 word list \<Rightarrow> nat \<Rightarrow> 8 word list \<Rightarrow> 8 word list result" where
  "masked_copy [] base i p = Inr p"
| "masked_copy (b # be) base i p =
    (if \<not> b then masked_copy be (tl base) (Suc i) p
     else if base = [] \<or> \<not> i < length p then Inl (Undefined ''byte outside a buffer'')
     else masked_copy be (tl base) (Suc i) (p[i := hd base]))"

definition Packet_writeData :: "8 word list \<Rightarrow> nat \<Rightarrow> Packet \<Rightarrow> 8 word list result" where
  "Packet_writeData p off pkt =
    rbind (Packet_getSize pkt) (\<lambda>s.
    if \<not> Packet_isMaskedWrite pkt then
      rbind (Packet_getConstPtr pkt) (\<lambda>d. rbind (deref d) (\<lambda>buf. memcpy p off buf 0 (unat s)))
    else
      assert_that (length (req_byteEnable (pkt_req pkt)) = unat s)
        ''req->getByteEnable().size() == getSize()''
       (rbind (Packet_getConstPtr pkt) (\<lambda>d. rbind (deref d) (\<lambda>buf.
          masked_copy (req_byteEnable (pkt_req pkt)) buf off p))))"

definition Packet_writeDataToBlock :: "8 word list \<Rightarrow> 32 word \<Rightarrow> Packet \<Rightarrow> 8 word list result" where
  "Packet_writeDataToBlock blk_data blkSize pkt =
    rbind (Packet_getOffset blkSize pkt) (\<lambda>off. Packet_writeData blk_data (unat off) pkt)"

definition Packet_allocate :: "(nat \<Rightarrow> 8 word) \<Rightarrow> Packet \<Rightarrow> Packet result" where
  "Packet_allocate raw pkt =
    (if pkt_attr HasData pkt \<or> Packet_hasRespData pkt then
       assert_that (Flags_noneSet (pkt_flags pkt) ANY_DATA)
         ''flags.noneSet(STATIC_DATA|DYNAMIC_DATA)''
        (rbind (Packet_getSize pkt) (\<lambda>s.
          Inr ((pkt_set_flags DYNAMIC_DATA pkt)\<lparr>pkt_data := Some (map raw [0..<unat s])\<rparr>)))
     else Inr pkt)"

section \<open>Construction and responses\<close>

definition Packet_blank :: "Request \<Rightarrow> Command \<Rightarrow> Packet" where
  "Packet_blank req cmd =
    \<lparr>pkt_flags = 0, pkt_cmd = cmd, pkt_req = req, pkt_data = None, pkt_addr = 0,
     pkt_isSecure = False, pkt_size = 0, pkt_bytesValid = [], pkt_qosValue = 0,
     pkt_htmReturnReason = NO_FAIL, pkt_htmTransactionUid = 0, pkt_headerDelay = 0,
     pkt_snoopDelay = 0, pkt_payloadDelay = 0, pkt_senderState = []\<rparr>"

definition Packet_new :: "Request \<Rightarrow> Command \<Rightarrow> Packet result" where
  "Packet_new req cmd =
    (let p0 = Packet_blank req cmd;
         p1 = (if Request_hasPaddr req
               then (pkt_set_flags VALID_ADDR (p0\<lparr>pkt_addr := req_paddr req\<rparr>))
                      \<lparr>pkt_isSecure := Request_isSecure req\<rparr>
               else p0);
         p2 = (if Request_isHTMCmd req then pkt_set_flags VALID_ADDR p1 else p1);
         p3 = (if Request_hasSize req
               then pkt_set_flags VALID_SIZE (p2\<lparr>pkt_size := req_size req\<rparr>) else p2) in
     assert_that (Request_isHTMCmd req \<longrightarrow> pkt_addr p1 = 0) ''addr == 0x0'' (Inr p3))"

definition Packet_new_block :: "Request \<Rightarrow> Command \<Rightarrow> int \<Rightarrow> Packet" where
  "Packet_new_block req cmd blkSize =
    (let p0 = Packet_blank req cmd;
         p1 = (if Request_hasPaddr req
               then (pkt_set_flags VALID_ADDR
                      (p0\<lparr>pkt_addr := req_paddr req AND NOT (of_int (blkSize - 1))\<rparr>))
                      \<lparr>pkt_isSecure := Request_isSecure req\<rparr>
               else p0) in
     pkt_set_flags VALID_SIZE (p1\<lparr>pkt_size := of_int blkSize\<rparr>))"

text \<open>
  The copy constructor: a copy with static data points at the same buffer, which is the same
  contents here; the delays spent snooping and the transaction fields start anew.
\<close>

definition Packet_copy :: "(nat \<Rightarrow> 8 word) \<Rightarrow> Packet \<Rightarrow> bool \<Rightarrow> bool \<Rightarrow> Packet result" where
  "Packet_copy raw pkt clear_flags alloc_data =
    (let p0 = pkt\<lparr>pkt_flags := 0, pkt_data := None, pkt_htmReturnReason := NO_FAIL,
                  pkt_htmTransactionUid := 0, pkt_snoopDelay := 0\<rparr>;
         p1 = (if \<not> clear_flags then pkt_set_flags (pkt_flags pkt AND COPY_FLAGS) p0 else p0);
         p2 = pkt_set_flags (pkt_flags pkt AND (VALID_ADDR OR VALID_SIZE)) p1;
         p3 = (if Packet_isHtmTransactional pkt
               then Packet_setHtmTransactional (pkt_htmTransactionUid pkt) p2 else p2);
         p4 = (if Packet_htmTransactionFailedInCache pkt
               then Packet_setHtmTransactionFailedInCache (pkt_htmReturnReason pkt) p3 else p3) in
     if alloc_data then
       (if Flags_isSet (pkt_flags pkt) STATIC_DATA
        then Inr (pkt_set_flags STATIC_DATA (p4\<lparr>pkt_data := pkt_data pkt\<rparr>))
        else Packet_allocate raw p4)
     else Inr p4)"

definition Packet_makeReadCmd :: "Request \<Rightarrow> Command" where
  "Packet_makeReadCmd req =
    (if Request_isHTMCmd req then (if Request_isHTMAbort req then HTMAbort else HTMReq)
     else if Request_isLLSC req then LoadLockedReq
     else if Request_isPrefetchEx req then SoftPFExReq
     else if Request_isPrefetch req then SoftPFReq
     else if Request_isLockedRMW req then LockedRMWReadReq
     else ReadReq)"

definition Packet_makeWriteCmd :: "Request \<Rightarrow> Command" where
  "Packet_makeWriteCmd req =
    (if Request_isLLSC req then StoreCondReq
     else if Request_isSwap req \<or> Request_isAtomic req then SwapReq
     else if Request_isCacheInvalidate req
     then (if Request_isCacheClean req then CleanInvalidReq else InvalidateReq)
     else if Request_isCacheClean req then CleanSharedReq
     else if Request_isLockedRMW req then LockedRMWWriteReq
     else WriteReq)"

definition Packet_makeResponse :: "Packet \<Rightarrow> Packet result" where
  "Packet_makeResponse pkt =
    assert_that (pkt_attr NeedsResponse pkt) ''needsResponse()''
   (assert_that (pkt_attr IsRequest pkt) ''isRequest()''
     (Inr (pkt_clear_flags EXPRESS_SNOOP (pkt\<lparr>pkt_cmd := MemCmd_responseCommand (pkt_cmd pkt)\<rparr>))))"

section \<open>Functional accesses\<close>

text \<open>
  The two loops of \<open>trySatisfyFunctional\<close> that test and set \<open>bytesValid\<close>; an index outside the
  vector has no meaning.
\<close>

function valid_scan :: "bool list \<Rightarrow> bool \<Rightarrow> nat \<Rightarrow> nat \<Rightarrow> bool result" where
  "valid_scan bv all_bytes_valid i n =
    (if all_bytes_valid \<and> i < n then
       (if i < length bv then valid_scan bv (all_bytes_valid \<and> bv ! i) (Suc i) n
        else Inl (Undefined ''bytesValid[i]''))
     else Inr all_bytes_valid)"
  by auto
termination
  by (relation "measure (\<lambda>(bv, ok, i, n). n - i)") auto

declare valid_scan.simps [simp del]

fun valid_mark :: "bool list \<Rightarrow> nat \<Rightarrow> nat \<Rightarrow> bool list result" where
  "valid_mark bv i 0 = Inr bv"
| "valid_mark bv i (Suc n) =
    (if i < length bv then valid_mark (bv[i := True]) (Suc i) n
     else Inl (Undefined ''bytesValid[i]''))"

definition Packet_trySatisfyFunctional ::
    "Addr \<Rightarrow> bool \<Rightarrow> int \<Rightarrow> 8 word list option \<Rightarrow> Packet \<Rightarrow>
     (bool \<times> Packet \<times> 8 word list option) result" where
  "Packet_trySatisfyFunctional addr is_secure sz vdata pkt =
    rbind (Packet_getAddr pkt) (\<lambda>func_start.
    rbind (Packet_getSize pkt) (\<lambda>psize.
    let func_end = func_start + ucast psize - 1;
        val_start = addr;
        val_end = val_start + of_int sz - 1 in
    if is_secure \<noteq> pkt_isSecure pkt \<or> func_start > val_end \<or> val_start > func_end
    then Inr (False, pkt, vdata)
    else if pkt_attr IsPrint pkt
    then assert_that (vdata = None) ''!_data'' (Inr (False, pkt, vdata))
    else case vdata of None \<Rightarrow> Inr (False, pkt, vdata)
    | Some d \<Rightarrow>
      let val_offset = (if func_start > val_start then func_start - val_start else 0);
          func_offset = (if func_start < val_start then val_start - func_start else 0);
          overlap_size = min val_end func_end + 1 - max val_start func_start in
      if pkt_attr IsRead pkt then
        rbind (Packet_getPtr pkt) (\<lambda>p. rbind (deref p) (\<lambda>buf.
        rbind (memcpy buf (unat func_offset) d (unat val_offset) (unat overlap_size)) (\<lambda>buf'.
        let bv = (if pkt_bytesValid pkt = [] then replicate (unat psize) False
                  else pkt_bytesValid pkt) in
        rbind (valid_scan bv True 0 (unat func_offset)) (\<lambda>ok1.
        rbind (valid_mark bv (unat func_offset) (unat overlap_size)) (\<lambda>bv'.
        rbind (valid_scan bv' ok1 (unat func_offset + unat overlap_size) (unat psize)) (\<lambda>ok2.
          Inr (ok2, pkt\<lparr>pkt_data := Some buf', pkt_bytesValid := bv'\<rparr>, vdata)))))))
      else if pkt_attr IsWrite pkt then
        rbind (Packet_getConstPtr pkt) (\<lambda>p. rbind (deref p) (\<lambda>buf.
        rbind (memcpy d (unat val_offset) buf (unat func_offset) (unat overlap_size)) (\<lambda>d'.
          Inr (False, pkt, Some d'))))
      else Inl (Panic ''Don't know how to handle command'')))"

definition Packet_trySatisfyFunctional_pkt :: "Packet \<Rightarrow> Packet \<Rightarrow> (bool \<times> Packet \<times> Packet) result" where
  "Packet_trySatisfyFunctional_pkt other pkt =
    (if Packet_isMaskedWrite other then
       rbind (Packet_isSecure other) (\<lambda>s.
         if pkt_isSecure pkt = s then
           rbind (Packet_getAddr pkt) (\<lambda>_. rbind (Packet_getAddr other) (\<lambda>_.
           rbind (Packet_getSize other) (\<lambda>_. Inr (False, pkt, other))))
         else Inr (False, pkt, other))
     else
       rbind (Packet_getAddr other) (\<lambda>a.
       rbind (Packet_isSecure other) (\<lambda>s.
       rbind (Packet_getSize other) (\<lambda>n.
       rbind (if pkt_attr HasData other then Packet_getPtr other else Inr None) (\<lambda>d.
       rbind (Packet_trySatisfyFunctional a s (sint n) d pkt) (\<lambda>(r, pkt', d').
         Inr (r, pkt', if pkt_attr HasData other then other\<lparr>pkt_data := d'\<rparr> else other)))))))"

end
