(* ===== verification/Snoop_Filter.thy ===== *)
theory Snoop_Filter
  imports Packet "HOL-Library.AList"
begin

text \<open>
  The snoop filter of the coherent crossbar (\<open>mem/snoop_filter.hh\<close>, \<open>mem/snoop_filter.cc\<close>): a
  hash map from line addresses to the sets of CPU-side ports that hold the line or have asked
  for it. The map is an association list. The iterator kept between \<open>lookupRequest\<close> and
  \<open>finishRequest\<close> is \<open>At_end\<close>, points to a key, or dangles once its entry is erased. Statistics
  are left out.
\<close>

type_synonym SnoopMask = "256 word"

record SnoopItem =
  requested :: SnoopMask
  holder :: SnoopMask

definition SnoopItem_empty :: SnoopItem where
  "SnoopItem_empty = \<lparr>requested = 0, holder = 0\<rparr>"

record ResponsePort =
  port_id :: int
  port_isSnooping :: bool

datatype sf_iterator = At_end | At_key Addr | Dangling

record SnoopFilter =
  cachedLocations :: "(Addr \<times> SnoopItem) list"
  lookup_it :: sf_iterator
  retryItem :: SnoopItem
  cpuSidePorts :: "ResponsePort list"
  localResponsePortIds :: "int list"
  linesize :: Addr
  lookupLatency :: "64 word"
  maxEntryCount :: "32 word"

section \<open>Construction\<close>

definition SnoopFilter_new :: "64 word \<Rightarrow> 64 word \<Rightarrow> 64 word \<Rightarrow> SnoopFilter result" where
  "SnoopFilter_new cacheLineSize lookup_latency max_capacity =
    (if cacheLineSize = 0 then Inl (Undefined ''division by zero'')
     else Inr \<lparr>cachedLocations = [], lookup_it = At_end, retryItem = SnoopItem_empty,
               cpuSidePorts = [], localResponsePortIds = [], linesize = cacheLineSize,
               lookupLatency = lookup_latency,
               maxEntryCount = ucast (max_capacity div cacheLineSize)\<rparr>)"

fun set_ports :: "ResponsePort list \<Rightarrow> int \<Rightarrow> SnoopFilter \<Rightarrow> (int \<times> SnoopFilter) result" where
  "set_ports [] i sf = Inr (i, sf)"
| "set_ports (p # ps) i sf =
    (if port_isSnooping p then
       (if 0 \<le> port_id p \<and> nat (port_id p) < length (localResponsePortIds sf) then
          set_ports ps (i + 1)
            (sf\<lparr>cpuSidePorts := cpuSidePorts sf @ [p],
                localResponsePortIds := (localResponsePortIds sf)[nat (port_id p) := i]\<rparr>)
        else Inl (Undefined ''localResponsePortIds[p->getId()]''))
     else set_ports ps i sf)"

definition SnoopFilter_setCPUSidePorts :: "ResponsePort list \<Rightarrow> SnoopFilter \<Rightarrow> SnoopFilter result" where
  "SnoopFilter_setCPUSidePorts ports sf =
    rbind (set_ports ports 0
      (sf\<lparr>localResponsePortIds :=
          take (length ports) (localResponsePortIds sf @ replicate (length ports) (- 1))\<rparr>))
     (\<lambda>(n, sf'). fatal_if (n > 256) ''Snoop filter only supports 256 snooping ports'' (Inr sf'))"

section \<open>Ports and masks\<close>

text \<open>
  A shift of a \<open>bitset\<close> by its size or more, also by a negative number converted to an unsigned
  one, gives the empty set.
\<close>

definition portToMask :: "SnoopFilter \<Rightarrow> ResponsePort \<Rightarrow> SnoopMask result" where
  "portToMask sf port =
    assert_that (port_id port \<noteq> - 1) ''port.getId() != InvalidPortID''
     (if \<not> port_isSnooping port then Inr 0
      else if 0 \<le> port_id port \<and> nat (port_id port) < length (localResponsePortIds sf) then
        (let i = localResponsePortIds sf ! nat (port_id port) in
         Inr (if 0 \<le> i then push_bit (nat i) 1 else 0))
      else Inl (Undefined ''localResponsePortIds[port.getId()]''))"

fun mask_ports :: "SnoopFilter \<Rightarrow> SnoopMask \<Rightarrow> ResponsePort list \<Rightarrow> ResponsePort list result" where
  "mask_ports sf m [] = Inr []"
| "mask_ports sf m (p # ps) =
    rbind (portToMask sf p) (\<lambda>b. rbind (mask_ports sf m ps) (\<lambda>res.
      Inr (if m AND b \<noteq> 0 then p # res else res)))"

definition maskToPortList :: "SnoopFilter \<Rightarrow> SnoopMask \<Rightarrow> ResponsePort list result" where
  "maskToPortList sf m = mask_ports sf m (cpuSidePorts sf)"

definition snoopSelected :: "SnoopFilter \<Rightarrow> SnoopMask \<Rightarrow> SnoopFilter \<Rightarrow>
    ((ResponsePort list \<times> 64 word) \<times> SnoopFilter) result" where
  "snoopSelected sf m sf' =
    rbind (maskToPortList sf m) (\<lambda>ports. Inr ((ports, lookupLatency sf), sf'))"

section \<open>The hash map\<close>

definition sf_find :: "SnoopFilter \<Rightarrow> Addr \<Rightarrow> SnoopItem option" where
  "sf_find sf a = map_of (cachedLocations sf) a"

definition sf_put :: "Addr \<Rightarrow> SnoopItem \<Rightarrow> SnoopFilter \<Rightarrow> SnoopFilter" where
  "sf_put a item sf = sf\<lparr>cachedLocations := AList.update a item (cachedLocations sf)\<rparr>"

definition sf_erase :: "Addr \<Rightarrow> SnoopFilter \<Rightarrow> SnoopFilter" where
  "sf_erase a sf =
    sf\<lparr>cachedLocations := AList.delete a (cachedLocations sf),
       lookup_it := if lookup_it sf = At_key a then Dangling else lookup_it sf\<rparr>"

definition SnoopFilter_eraseIfNullEntry :: "Addr \<Rightarrow> SnoopFilter \<Rightarrow> SnoopFilter" where
  "SnoopFilter_eraseIfNullEntry a sf =
    (case sf_find sf a of None \<Rightarrow> sf
     | Some item \<Rightarrow> if requested item OR holder item = 0 then sf_erase a sf else sf)"

abbreviation "LineSecure \<equiv> (0x01 :: Addr)"

definition line_address :: "SnoopFilter \<Rightarrow> Packet \<Rightarrow> Addr result" where
  "line_address sf cpkt =
    rbind (Packet_getBlockAddr (ucast (linesize sf)) cpkt) (\<lambda>line_addr.
    rbind (Packet_isSecure cpkt) (\<lambda>s. Inr (if s then line_addr OR LineSecure else line_addr)))"

section \<open>Requests from above\<close>

definition request_item :: "Packet \<Rightarrow> SnoopMask \<Rightarrow> SnoopItem \<Rightarrow> SnoopItem result" where
  "request_item cpkt req_port item =
    (if pkt_attr NeedsResponse cpkt then
       (if \<not> Packet_cacheResponding cpkt then
          panic_if (requested item AND req_port \<noteq> 0) ''double request''
            (Inr (item\<lparr>requested := requested item OR req_port\<rparr>))
        else panic_if (holder item AND req_port = 0) ''Need to hold the value!'' (Inr item))
     else
       assert_that (pkt_attr IsEviction cpkt) ''cpkt->isEviction()''
        (panic_if (holder item AND req_port = 0) ''requestor is not a holder''
          (Inr (if \<not> Packet_isBlockCached cpkt
                then item\<lparr>holder := holder item AND NOT req_port\<rparr> else item))))"

definition SnoopFilter_lookupRequest :: "Packet \<Rightarrow> ResponsePort \<Rightarrow> SnoopFilter \<Rightarrow>
    ((ResponsePort list \<times> 64 word) \<times> SnoopFilter) result" where
  "SnoopFilter_lookupRequest cpkt cpu_side_port sf =
    (let allocate = (\<not> Request_isUncacheable (pkt_req cpkt) \<and> port_isSnooping cpu_side_port \<and>
                     pkt_attr FromCache cpkt) in
     rbind (line_address sf cpkt) (\<lambda>line_addr.
     rbind (portToMask sf cpu_side_port) (\<lambda>req_port.
     let found = sf_find sf line_addr in
     if found = None \<and> \<not> allocate then
       Inr (([], lookupLatency sf), sf\<lparr>lookup_it := At_end\<rparr>)
     else
       let sf_item = (case found of None \<Rightarrow> SnoopItem_empty | Some item \<Rightarrow> item);
           interested = holder sf_item OR requested sf_item;
           sf1 = (sf_put line_addr sf_item sf)\<lparr>lookup_it := At_key line_addr, retryItem := sf_item\<rparr> in
       if \<not> allocate then snoopSelected sf (interested AND NOT req_port) sf1
       else rbind (request_item cpkt req_port sf_item) (\<lambda>item.
         snoopSelected sf (interested AND NOT req_port) (sf_put line_addr item sf1)))))"

definition SnoopFilter_finishRequest :: "bool \<Rightarrow> Addr \<Rightarrow> bool \<Rightarrow> SnoopFilter \<Rightarrow> SnoopFilter result" where
  "SnoopFilter_finishRequest will_retry addr is_secure sf =
    (case lookup_it sf of
       At_end \<Rightarrow> Inr sf
     | Dangling \<Rightarrow> Inl (Undefined ''reqLookupResult.it was erased'')
     | At_key k \<Rightarrow>
         let line_addr = addr AND NOT (linesize sf - 1) in
         assert_that (k = (if is_secure then line_addr OR LineSecure else line_addr))
           ''reqLookupResult.it->first == line address''
          (Inr (SnoopFilter_eraseIfNullEntry k
            (if will_retry then sf_put k (retryItem sf) sf else sf))))"

section \<open>Snoops from below\<close>

definition SnoopFilter_lookupSnoop :: "Packet \<Rightarrow> SnoopFilter \<Rightarrow>
    ((ResponsePort list \<times> 64 word) \<times> SnoopFilter) result" where
  "SnoopFilter_lookupSnoop cpkt sf =
    assert_that (pkt_attr IsRequest cpkt) ''cpkt->isRequest()''
   (rbind (line_address sf cpkt) (\<lambda>line_addr.
    panic_if (sf_find sf line_addr = None \<and>
              unat (maxEntryCount sf) \<le> length (cachedLocations sf))
      ''snoop filter exceeded capacity''
     (case sf_find sf line_addr of
        None \<Rightarrow> Inr (([], lookupLatency sf), sf)
      | Some sf_item \<Rightarrow>
          let interested = holder sf_item OR requested sf_item in
          assert_that (Packet_isWriteback cpkt \<or> Request_isUncacheable (pkt_req cpkt) \<or>
              pkt_attr IsInvalidate cpkt = pkt_attr NeedsWritable cpkt \<or>
              Request_isCacheMaintenance (pkt_req cpkt))
            ''isWriteback() || isUncacheable() || isInvalidate() == needsWritable() || isCacheMaintenance()''
           (snoopSelected sf interested
             (if pkt_attr IsInvalidate cpkt \<and> requested sf_item = 0
              then SnoopFilter_eraseIfNullEntry line_addr
                     (sf_put line_addr (sf_item\<lparr>holder := 0\<rparr>) sf)
              else sf)))))"

section \<open>Responses\<close>

text \<open>
  \<open>operator[]\<close> enters an empty item for a line that is not tracked; the check that follows
  then ends the simulation.
\<close>

definition SnoopFilter_updateSnoopResponse ::
    "Packet \<Rightarrow> ResponsePort \<Rightarrow> ResponsePort \<Rightarrow> SnoopFilter \<Rightarrow> SnoopFilter result" where
  "SnoopFilter_updateSnoopResponse cpkt rsp_port req_port sf =
    assert_that (pkt_attr IsResponse cpkt) ''cpkt->isResponse()''
   (assert_that (Packet_cacheResponding cpkt) ''cpkt->cacheResponding()''
    (if Request_isUncacheable (pkt_req cpkt) \<or> \<not> port_isSnooping req_port then Inr sf
     else
       rbind (line_address sf cpkt) (\<lambda>line_addr.
       rbind (portToMask sf rsp_port) (\<lambda>rsp_mask.
       rbind (portToMask sf req_port) (\<lambda>req_mask.
       let sf_item = (case sf_find sf line_addr of None \<Rightarrow> SnoopItem_empty | Some item \<Rightarrow> item) in
       panic_if (holder sf_item AND rsp_mask = 0) ''SF value does not have the line''
      (panic_if (requested sf_item AND req_mask = 0) ''SF value missing the original request''
        (let h = (if \<not> Packet_hasSharers cpkt then 0 else holder sf_item);
             item = sf_item\<lparr>requested := requested sf_item AND NOT req_mask,
                            holder := h OR req_mask\<rparr> in
         assert_that (\<not> Packet_isWriteback cpkt) ''!cpkt->isWriteback()''
        (assert_that (requested item OR holder item \<noteq> 0) ''(sf_item.requested | sf_item.holder).any()''
          (Inr (sf_put line_addr item sf))))))))))"

definition SnoopFilter_updateSnoopForward :: "Packet \<Rightarrow> SnoopFilter \<Rightarrow> SnoopFilter result" where
  "SnoopFilter_updateSnoopForward cpkt sf =
    assert_that (pkt_attr IsResponse cpkt) ''cpkt->isResponse()''
   (assert_that (Packet_cacheResponding cpkt) ''cpkt->cacheResponding()''
    (rbind (line_address sf cpkt) (\<lambda>line_addr.
      case sf_find sf line_addr of
        None \<Rightarrow> Inr sf
      | Some sf_item \<Rightarrow>
          (if \<not> Packet_hasSharers cpkt
           then Inr (SnoopFilter_eraseIfNullEntry line_addr
                      (sf_put line_addr (sf_item\<lparr>holder := 0\<rparr>) sf))
           else Inr sf))))"

definition SnoopFilter_updateResponse :: "Packet \<Rightarrow> ResponsePort \<Rightarrow> SnoopFilter \<Rightarrow> SnoopFilter result" where
  "SnoopFilter_updateResponse cpkt cpu_side_port sf =
    assert_that (pkt_attr IsResponse cpkt) ''cpkt->isResponse()''
    (if Request_isUncacheable (pkt_req cpkt) \<or> \<not> port_isSnooping cpu_side_port then Inr sf
     else
       rbind (line_address sf cpkt) (\<lambda>line_addr.
       case sf_find sf line_addr of
         None \<Rightarrow> Inr sf
       | Some sf_item \<Rightarrow>
           rbind (portToMask sf cpu_side_port) (\<lambda>response_mask.
           panic_if (requested sf_item AND response_mask = 0) ''SF value missing request bit''
            (let item = sf_item\<lparr>requested := requested sf_item AND NOT response_mask\<rparr> in
             if Request_isCacheMaintenance (pkt_req cpkt) then
               Inr (SnoopFilter_eraseIfNullEntry line_addr (sf_put line_addr
                 (if pkt_attr IsInvalidate cpkt
                  then item\<lparr>holder := holder item AND NOT response_mask\<rparr> else item) sf))
             else
               let item' = item\<lparr>holder := holder item OR response_mask\<rparr> in
               assert_that (holder item' OR requested item' \<noteq> 0) ''(sf_item.holder | sf_item.requested).any()''
                 (Inr (sf_put line_addr item' sf))))))"

section \<open>Steps\<close>

text \<open>
  The calls the crossbar makes (\<open>mem/coherent_xbar.cc\<close>): a request is looked up and finished in
  one go, once it is known whether it has to be retried; the other calls stand alone. A step
  also returns the ports to snoop.
\<close>

datatype sf_call =
    Request_call Packet ResponsePort bool
  | Snoop_call Packet
  | Snoop_response_call Packet ResponsePort ResponsePort
  | Snoop_forward_call Packet
  | Response_call Packet ResponsePort

fun sf_step :: "sf_call \<Rightarrow> SnoopFilter \<Rightarrow> (ResponsePort list \<times> SnoopFilter) result" where
  "sf_step (Request_call pkt port will_retry) sf =
    rbind (SnoopFilter_lookupRequest pkt port sf) (\<lambda>((ports, lat), sf1).
    rbind (Packet_getAddr pkt) (\<lambda>a. rbind (Packet_isSecure pkt) (\<lambda>s.
    rbind (SnoopFilter_finishRequest will_retry a s sf1) (\<lambda>sf2. Inr (ports, sf2)))))"
| "sf_step (Snoop_call pkt) sf =
    rbind (SnoopFilter_lookupSnoop pkt sf) (\<lambda>((ports, lat), sf1). Inr (ports, sf1))"
| "sf_step (Snoop_response_call pkt rsp_port req_port) sf =
    rbind (SnoopFilter_updateSnoopResponse pkt rsp_port req_port sf) (\<lambda>sf1. Inr ([], sf1))"
| "sf_step (Snoop_forward_call pkt) sf =
    rbind (SnoopFilter_updateSnoopForward pkt sf) (\<lambda>sf1. Inr ([], sf1))"
| "sf_step (Response_call pkt port) sf =
    rbind (SnoopFilter_updateResponse pkt port sf) (\<lambda>sf1. Inr ([], sf1))"

fun sf_run :: "sf_call list \<Rightarrow> SnoopFilter \<Rightarrow> SnoopFilter result" where
  "sf_run [] sf = Inr sf"
| "sf_run (c # cs) sf = rbind (sf_step c sf) (\<lambda>(ports, sf1). sf_run cs sf1)"

end
