(* ===== verification/Packet_Correct.thy ===== *)
theory Packet_Correct
  imports Packet
begin

text \<open>
  Correctness of commands and packets: the command table agrees with the enumeration and every
  request that needs a response gets one of the right kind; functional reads and writes of
  packets act on the values they meet as on one memory; block writes read back.
\<close>

section \<open>The command table\<close>

text \<open>
  The attribute and the response column of the table, without the names.
\<close>

lemma attribute_column:
  "map ci_attributes commandInfo =
    [[], [IsRead, IsRequest, NeedsResponse], [IsRead, IsResponse, HasData],
      [IsRead, IsResponse, HasData, IsInvalidate],
      [IsWrite, NeedsWritable, IsRequest, NeedsResponse, HasData], [IsWrite, IsResponse],
      [IsWrite, IsResponse], [IsWrite, IsRequest, IsEviction, HasData, FromCache],
      [IsWrite, IsRequest, IsEviction, HasData, FromCache],
      [IsWrite, IsRequest, HasData, FromCache], [IsRequest, IsEviction, FromCache],
      [IsRead, IsRequest, IsSWPrefetch, NeedsResponse],
      [IsRead, NeedsWritable, IsInvalidate, IsRequest, IsSWPrefetch, NeedsResponse],
      [IsRead, IsRequest, IsHWPrefetch, NeedsResponse, FromCache],
      [IsRead, IsResponse, IsSWPrefetch, HasData], [IsRead, IsResponse, IsHWPrefetch, HasData],
      [IsWrite, NeedsWritable, IsRequest, NeedsResponse, HasData],
      [IsInvalidate, NeedsWritable, IsUpgrade, IsRequest, NeedsResponse, FromCache],
      [IsInvalidate, NeedsWritable, IsUpgrade, IsLlsc, IsRequest, NeedsResponse, FromCache],
      [IsUpgrade, IsResponse],
      [IsRead, NeedsWritable, IsInvalidate, IsLlsc, IsRequest, NeedsResponse, FromCache],
      [IsRead, IsResponse, HasData],
      [IsRead, NeedsWritable, IsInvalidate, IsRequest, NeedsResponse, FromCache],
      [IsRead, IsResponse, HasData], [IsRead, IsRequest, NeedsResponse, FromCache],
      [IsRead, IsRequest, NeedsResponse, FromCache], [IsRead, IsLlsc, IsRequest, NeedsResponse],
      [IsWrite, NeedsWritable, IsLlsc, IsRequest, NeedsResponse, HasData],
      [IsWrite, NeedsWritable, IsLlsc, IsRequest, NeedsResponse, HasData],
      [IsWrite, IsLlsc, IsResponse],
      [IsRead, IsLockedRMW, NeedsWritable, IsRequest, NeedsResponse],
      [IsRead, IsLockedRMW, NeedsWritable, IsResponse, HasData],
      [IsWrite, IsLockedRMW, NeedsWritable, IsRequest, NeedsResponse, HasData],
      [IsWrite, IsLockedRMW, NeedsWritable, IsResponse],
      [IsRead, IsWrite, NeedsWritable, IsRequest, HasData, NeedsResponse],
      [IsRead, IsWrite, IsResponse, HasData], [], [], [IsRequest, NeedsResponse],
      [IsRequest, NeedsResponse], [IsResponse], [IsResponse],
      [IsRequest, IsClean, NeedsResponse, FromCache], [IsResponse, IsClean],
      [IsRequest, IsInvalidate, IsClean, NeedsResponse, FromCache],
      [IsResponse, IsInvalidate, IsClean], [IsResponse, IsError], [IsResponse, IsError],
      [IsRead, IsResponse, IsError], [IsWrite, IsResponse, IsError],
      [IsRead, IsResponse, IsError], [IsWrite, IsResponse, IsError], [IsRequest, IsPrint],
      [IsRequest, IsFlush, NeedsWritable],
      [IsInvalidate, IsRequest, NeedsWritable, NeedsResponse, FromCache],
      [IsInvalidate, IsResponse], [IsRead, IsRequest, NeedsResponse], [IsRead, IsResponse],
      [IsRead, IsRequest], [IsRequest]]"
  by (simp add: commandInfo_def)

lemma response_column:
  "map ci_response commandInfo =
    [InvalidCmd, ReadResp, InvalidCmd, InvalidCmd, WriteResp, InvalidCmd, InvalidCmd,
      InvalidCmd, InvalidCmd, InvalidCmd, InvalidCmd, SoftPFResp, SoftPFResp, HardPFResp,
      InvalidCmd, InvalidCmd, WriteResp, UpgradeResp, UpgradeResp, InvalidCmd, UpgradeFailResp,
      InvalidCmd, ReadExResp, InvalidCmd, ReadResp, ReadResp, ReadResp, StoreCondResp,
      StoreCondResp, InvalidCmd, LockedRMWReadResp, InvalidCmd, LockedRMWWriteResp, InvalidCmd,
      SwapResp, InvalidCmd, InvalidCmd, InvalidCmd, MemFenceResp, MemSyncResp, InvalidCmd,
      InvalidCmd, CleanSharedResp, InvalidCmd, CleanInvalidResp, InvalidCmd, InvalidCmd,
      InvalidCmd, InvalidCmd, InvalidCmd, InvalidCmd, InvalidCmd, InvalidCmd, InvalidCmd,
      InvalidateResp, InvalidCmd, HTMReqResp, InvalidCmd, InvalidCmd, InvalidCmd]"
  by (simp add: commandInfo_def)

lemma MemCmd_toInt_less: "MemCmd_toInt cmd < length commandInfo"
  by (cases cmd) (simp_all add: commandInfo_def)

lemma testCmdAttrib_column:
  "testCmdAttrib cmd a = (a \<in> set (map ci_attributes commandInfo ! MemCmd_toInt cmd))"
  by (simp add: testCmdAttrib_def MemCmd_toInt_less)

lemma responseCommand_column:
  "MemCmd_responseCommand cmd = map ci_response commandInfo ! MemCmd_toInt cmd"
  by (simp add: MemCmd_responseCommand_def MemCmd_toInt_less)

lemmas command_eval =
  testCmdAttrib_column responseCommand_column attribute_column response_column

text \<open>
  C27: the command table is well formed. Every command but the invalid and the deprecated
  ones is either a request or a response; a command names a response exactly when it needs
  one, which is then a request whose response needs no further response; the response to a
  read carries data (except for the transactional request) and is a read, that to a write is a
  write; a writeback is a write that needs no response.
\<close>

theorem command_table_well_formed:
  "(cmd \<notin> {InvalidCmd, Deprecated_MessageReq, Deprecated_MessageResp} \<longrightarrow>
      testCmdAttrib cmd IsRequest \<noteq> testCmdAttrib cmd IsResponse) \<and>
   (testCmdAttrib cmd NeedsResponse \<longleftrightarrow> MemCmd_responseCommand cmd \<noteq> InvalidCmd) \<and>
   (testCmdAttrib cmd NeedsResponse \<longrightarrow>
      testCmdAttrib cmd IsRequest \<and>
      testCmdAttrib (MemCmd_responseCommand cmd) IsResponse \<and>
      \<not> testCmdAttrib (MemCmd_responseCommand cmd) NeedsResponse \<and>
      (testCmdAttrib cmd IsRead \<longrightarrow> testCmdAttrib (MemCmd_responseCommand cmd) IsRead) \<and>
      (testCmdAttrib cmd IsRead \<and> cmd \<noteq> HTMReq \<longrightarrow>
         testCmdAttrib (MemCmd_responseCommand cmd) HasData) \<and>
      (testCmdAttrib cmd IsWrite \<longrightarrow> testCmdAttrib (MemCmd_responseCommand cmd) IsWrite) \<and>
      \<not> testCmdAttrib (MemCmd_responseCommand cmd) IsError) \<and>
   (MemCmd_isWriteback cmd \<longrightarrow> testCmdAttrib cmd IsWrite \<and> \<not> testCmdAttrib cmd NeedsResponse)"
  unfolding MemCmd_isWriteback_def
  by (cases cmd; simp add: command_eval)

theorem command_table_well_formed_witness:
  "testCmdAttrib ReadExReq NeedsResponse \<and>
   testCmdAttrib (MemCmd_responseCommand ReadExReq) IsResponse \<and>
   testCmdAttrib (MemCmd_responseCommand ReadExReq) HasData"
proof -
  have "testCmdAttrib ReadExReq NeedsResponse" "testCmdAttrib ReadExReq IsRead"
    by (simp_all add: command_eval)
  thus ?thesis
    using command_table_well_formed [of ReadExReq] by simp
qed

section \<open>Copying bytes\<close>

lemma memcpy_ok:
  assumes "doff + n \<le> length dst" "soff + n \<le> length src"
  obtains dst' where "memcpy dst doff src soff n = Inr dst'" "length dst' = length dst"
    "\<And>i. i < length dst \<Longrightarrow>
       dst' ! i = (if doff \<le> i \<and> i < doff + n then src ! (soff + (i - doff)) else dst ! i)"
proof
  let ?d = "take doff dst @ take n (drop soff src) @ drop (doff + n) dst"
  show "memcpy dst doff src soff n = Inr ?d"
    using assms by (simp add: memcpy_def)
  show "length ?d = length dst"
    using assms by simp
  fix i assume "i < length dst"
  thus "?d ! i = (if doff \<le> i \<and> i < doff + n then src ! (soff + (i - doff)) else dst ! i)"
    using assms by (auto simp: nth_append min_absorb2)
qed

lemma valid_scan_correct:
  "n \<le> length bv \<Longrightarrow> valid_scan bv ok i n = Inr (ok \<and> (\<forall>j. i \<le> j \<and> j < n \<longrightarrow> bv ! j))"
proof (induction bv ok i n rule: valid_scan.induct)
  case (1 bv ok i n)
  show ?case
  proof (cases "ok \<and> i < n")
    case True
    have "(\<forall>j. i \<le> j \<and> j < n \<longrightarrow> bv ! j) = (bv ! i \<and> (\<forall>j. Suc i \<le> j \<and> j < n \<longrightarrow> bv ! j))"
      using True by (metis Suc_leD Suc_leI le_neq_implies_less order_refl)
    thus ?thesis
      using 1 True by (simp add: valid_scan.simps [of bv True i n])
  next
    case False
    thus ?thesis
      by (auto simp: valid_scan.simps [of bv ok i n])
  qed
qed

lemma valid_mark_correct:
  "i + n \<le> length bv \<Longrightarrow> \<exists>bv'. valid_mark bv i n = Inr bv' \<and> length bv' = length bv \<and>
     (\<forall>j < length bv. bv' ! j = (bv ! j \<or> i \<le> j \<and> j < i + n))"
proof (induction bv i n rule: valid_mark.induct)
  case (1 bv i)
  show ?case by auto
next
  case (2 bv i n)
  then obtain bv' where b: "valid_mark (bv[i := True]) (Suc i) n = Inr bv'"
    "length bv' = length bv"
    "\<forall>j < length bv. bv' ! j = (bv[i := True] ! j \<or> Suc i \<le> j \<and> j < Suc i + n)"
    by auto
  have "bv' ! j = (bv ! j \<or> i \<le> j \<and> j < i + Suc n)" if "j < length bv" for j
    using b(3) that by (cases "j = i") (auto simp: nth_list_update)
  thus ?case using b 2(2) by auto
qed

section \<open>Address arithmetic\<close>

lemma range_last:
  fixes a :: Addr
  assumes "0 < n" "unat a + n \<le> 2 ^ 64"
  shows "unat (a + of_nat n - 1) = unat a + n - 1"
proof -
  have "a + of_nat n - 1 = of_nat (unat a + n - 1)"
    using assms(1) by (simp add: of_nat_diff)
  moreover have "unat a + n - 1 < 2 ^ 64"
    using assms by linarith
  ultimately show ?thesis
    by (simp add: unat_of_nat_64)
qed

lemma range_overlap:
  fixes x y :: Addr
  assumes "y \<le> x" "unat x - unat y + 1 < 2 ^ 64"
  shows "unat (x + 1 - y) = unat x + 1 - unat y"
proof -
  have "x + 1 - y = of_nat (unat x + 1 - unat y)"
    using assms(1) by (simp add: of_nat_diff word_le_nat_alt)
  moreover have "unat x + 1 - unat y < 2 ^ 64"
    using assms by (simp add: word_le_nat_alt)
  ultimately show ?thesis
    by (simp add: unat_of_nat_64)
qed

text \<open>
  The offsets and the size of the overlap that \<open>trySatisfyFunctional\<close> computes, for a packet of
  \<open>fn\<close> bytes at \<open>f\<close> and a value of \<open>vn\<close> bytes at \<open>v\<close> that do not reach past the address space.
\<close>

lemma overlap_values:
  fixes f v :: Addr
  assumes "0 < fn" "unat f + fn \<le> 2 ^ 64" "0 < vn" "unat v + vn \<le> 2 ^ 64" "fn < 2 ^ 64"
    and "\<not> (f > v + of_nat vn - 1 \<or> v > f + of_nat fn - 1)"
  shows "unat (if f > v then f - v else 0) = unat f - unat v"
    "unat (if f < v then v - f else 0) = unat v - unat f"
    "unat (min (v + of_nat vn - 1) (f + of_nat fn - 1) + 1 - max v f) =
       min (unat v + vn) (unat f + fn) - max (unat v) (unat f)"
proof -
  show "unat (if f > v then f - v else 0) = unat f - unat v"
    "unat (if f < v then v - f else 0) = unat v - unat f"
    by (auto simp: unat_sub word_less_nat_alt word_le_nat_alt order.strict_implies_order)
  note l = range_last [OF assms(1,2)] range_last [OF assms(3,4)]
  let ?x = "min (v + of_nat vn - 1) (f + of_nat fn - 1)"
  have x: "unat ?x = min (unat v + vn) (unat f + fn) - 1"
    using l assms(1,3) by (auto simp: min_def word_le_nat_alt)
  have y: "unat (max v f) = max (unat v) (unat f)"
    by (auto simp: max_def word_le_nat_alt)
  have d: "\<not> unat f > unat v + vn - 1" "\<not> unat v > unat f + fn - 1"
    using assms(6) l by (auto simp: word_less_nat_alt)
  have le: "max v f \<le> ?x"
    using x y d assms(1,3) by (auto simp: word_le_nat_alt)
  have "unat ?x - unat (max v f) + 1 < 2 ^ 64"
    unfolding x y using assms by (auto simp: min_def max_def)
  from range_overlap [OF le this] show "unat (?x + 1 - max v f) =
      min (unat v + vn) (unat f + fn) - max (unat v) (unat f)"
    unfolding x y using assms(1,3) by (auto simp: min_def)
qed

lemma no_overlap_values:
  fixes f v :: Addr
  assumes "0 < fn" "unat f + fn \<le> 2 ^ 64" "0 < vn" "unat v + vn \<le> 2 ^ 64"
    and "f > v + of_nat vn - 1 \<or> v > f + of_nat fn - 1"
  shows "unat v + vn \<le> unat f \<or> unat f + fn \<le> unat v"
  using range_last [OF assms(1,2)] range_last [OF assms(3,4)] assms
  by (auto simp: word_less_nat_alt)

section \<open>Functional accesses\<close>

text \<open>
  What the values met by a functional access stand for: a memory, a function from addresses to
  bytes. A value agrees with it when every byte is that of the memory; a packet agrees with it
  on the bytes that it has marked valid.
\<close>

definition value_agrees :: "(nat \<Rightarrow> 8 word) \<Rightarrow> Addr \<Rightarrow> 8 word list \<Rightarrow> bool" where
  "value_agrees M a d = (\<forall>i < length d. d ! i = M (unat a + i))"

definition mem_write :: "(nat \<Rightarrow> 8 word) \<Rightarrow> Addr \<Rightarrow> 8 word list \<Rightarrow> nat \<Rightarrow> 8 word" where
  "mem_write M a d x = (if unat a \<le> x \<and> x < unat a + length d then d ! (x - unat a) else M x)"

definition pkt_buffer :: "Packet \<Rightarrow> 8 word list" where
  "pkt_buffer pkt = (case pkt_data pkt of None \<Rightarrow> [] | Some d \<Rightarrow> d)"

definition pkt_valid :: "Packet \<Rightarrow> nat \<Rightarrow> bool" where
  "pkt_valid pkt i = (i < length (pkt_bytesValid pkt) \<and> pkt_bytesValid pkt ! i)"

definition packet_agrees :: "(nat \<Rightarrow> 8 word) \<Rightarrow> Packet \<Rightarrow> bool" where
  "packet_agrees M pkt =
    (\<forall>i < unat (pkt_size pkt). pkt_valid pkt i \<longrightarrow> pkt_buffer pkt ! i = M (unat (pkt_addr pkt) + i))"

definition functional_pkt :: "Packet \<Rightarrow> bool" where
  "functional_pkt pkt =
    (Flags_isSet (pkt_flags pkt) VALID_ADDR \<and> Flags_isSet (pkt_flags pkt) VALID_SIZE \<and>
     Flags_isSet (pkt_flags pkt) ANY_DATA \<and> \<not> Packet_isMaskedWrite pkt \<and> \<not> pkt_attr IsPrint pkt \<and>
     0 < unat (pkt_size pkt) \<and> unat (pkt_addr pkt) + unat (pkt_size pkt) \<le> 2 ^ 64 \<and>
     pkt_data pkt \<noteq> None \<and> length (pkt_buffer pkt) = unat (pkt_size pkt) \<and>
     (pkt_bytesValid pkt = [] \<or> length (pkt_bytesValid pkt) = unat (pkt_size pkt)))"

definition functional_value :: "Addr \<Rightarrow> 8 word list \<Rightarrow> bool" where
  "functional_value a d = (0 < length d \<and> unat a + length d \<le> 2 ^ 64)"

lemma functional_pktD:
  assumes "functional_pkt pkt"
  shows "Packet_getAddr pkt = Inr (pkt_addr pkt)" "Packet_getSize pkt = Inr (pkt_size pkt)"
    "Packet_getPtr pkt = Inr (Some (pkt_buffer pkt))"
    "Packet_getConstPtr pkt = Inr (Some (pkt_buffer pkt))"
    "0 < unat (pkt_size pkt)" "unat (pkt_addr pkt) + unat (pkt_size pkt) \<le> 2 ^ 64"
    "unat (pkt_size pkt) < 2 ^ 64" "\<not> pkt_attr IsPrint pkt"
    "length (pkt_buffer pkt) = unat (pkt_size pkt)"
  using assms unsigned_less [where 'a = nat, of "pkt_size pkt"]
  by (auto simp: functional_pkt_def Packet_getAddr_def Packet_getSize_def Packet_getPtr_def
      Packet_getConstPtr_def pkt_buffer_def)

text \<open>
  Where a value and a packet do not meet, or belong to different security states, nothing happens.
\<close>

lemma functional_miss:
  assumes "functional_pkt pkt" "functional_value a d"
    and "sec \<noteq> pkt_isSecure pkt \<or> unat a + length d \<le> unat (pkt_addr pkt) \<or>
         unat (pkt_addr pkt) + unat (pkt_size pkt) \<le> unat a"
  shows "Packet_trySatisfyFunctional a sec (int (length d)) (Some d) pkt = Inr (False, pkt, Some d)"
proof -
  note f = functional_pktD [OF assms(1)]
  have v: "0 < length d" "unat a + length d \<le> 2 ^ 64"
    using assms(2) by (simp_all add: functional_value_def)
  have "sec \<noteq> pkt_isSecure pkt \<or> pkt_addr pkt > a + of_nat (length d) - 1 \<or>
      a > pkt_addr pkt + of_nat (unat (pkt_size pkt)) - 1"
    unfolding word_less_nat_alt range_last [OF f(5,6)] range_last [OF v]
    using assms(3) f(5) v(1) by linarith
  thus ?thesis
    by (simp add: Packet_trySatisfyFunctional_def f)
qed

lemma functional_read_hit:
  assumes "functional_pkt pkt" "functional_value a d" "sec = pkt_isSecure pkt"
    and "pkt_attr IsRead pkt"
    and "\<not> (unat a + length d \<le> unat (pkt_addr pkt) \<or>
         unat (pkt_addr pkt) + unat (pkt_size pkt) \<le> unat a)"
  obtains buf bv where "Packet_trySatisfyFunctional a sec (int (length d)) (Some d) pkt =
      Inr (\<forall>i < unat (pkt_size pkt). bv ! i, pkt\<lparr>pkt_data := Some buf, pkt_bytesValid := bv\<rparr>, Some d)"
    "length buf = unat (pkt_size pkt)" "length bv = unat (pkt_size pkt)"
    "\<And>i. i < unat (pkt_size pkt) \<Longrightarrow> buf ! i =
      (if unat a \<le> unat (pkt_addr pkt) + i \<and> unat (pkt_addr pkt) + i < unat a + length d
       then d ! (unat (pkt_addr pkt) + i - unat a) else pkt_buffer pkt ! i)"
    "\<And>i. i < unat (pkt_size pkt) \<Longrightarrow> bv ! i =
      (pkt_valid pkt i \<or> unat a \<le> unat (pkt_addr pkt) + i \<and> unat (pkt_addr pkt) + i < unat a + length d)"
proof -
  note f = functional_pktD [OF assms(1)]
  have v: "0 < length d" "unat a + length d \<le> 2 ^ 64"
    using assms(2) by (simp_all add: functional_value_def)
  let ?f = "unat (pkt_addr pkt)" and ?n = "unat (pkt_size pkt)" and ?v = "unat a" and ?m = "length d"
  have ov: "\<not> (pkt_addr pkt > a + of_nat ?m - 1 \<or> a > pkt_addr pkt + of_nat ?n - 1)"
    using no_overlap_values [OF f(5,6) v] assms(5) by blast
  note o = overlap_values [OF f(5,6) v f(7) ov, simplified]
  let ?fo = "?v - ?f" and ?os = "min (?v + ?m) (?f + ?n) - max ?v ?f"
  have fo: "?fo + ?os \<le> ?n" and vo: "?f - ?v + ?os \<le> ?m"
    using assms(5) by (auto simp: min_def max_def)
  obtain buf where b: "memcpy (pkt_buffer pkt) ?fo d (?f - ?v) ?os = Inr buf" "length buf = ?n"
    "\<And>i. i < ?n \<Longrightarrow> buf ! i =
       (if ?fo \<le> i \<and> i < ?fo + ?os then d ! (?f - ?v + (i - ?fo)) else pkt_buffer pkt ! i)"
    using memcpy_ok [of ?fo ?os "pkt_buffer pkt" "?f - ?v" d] fo vo unfolding f(9) by metis
  define bv0 where "bv0 = (if pkt_bytesValid pkt = [] then replicate ?n False else pkt_bytesValid pkt)"
  have l0: "length bv0 = ?n" and v0: "\<And>i. i < ?n \<Longrightarrow> bv0 ! i = pkt_valid pkt i"
    using assms(1) by (auto simp: bv0_def functional_pkt_def pkt_valid_def)
  obtain bv where m: "valid_mark bv0 ?fo ?os = Inr bv" "length bv = ?n"
    "\<And>j. j < ?n \<Longrightarrow> bv ! j = (bv0 ! j \<or> ?fo \<le> j \<and> j < ?fo + ?os)"
    using valid_mark_correct [of ?fo ?os bv0] l0 fo by auto
  have s1: "valid_scan bv0 True 0 ?fo = Inr (\<forall>j < ?fo. bv0 ! j)"
    using valid_scan_correct [of ?fo bv0 True 0] l0 fo by simp
  let ?all = "(\<forall>j < ?fo. bv0 ! j) \<and> (\<forall>j. ?fo + ?os \<le> j \<and> j < ?n \<longrightarrow> bv ! j)"
  have s2: "valid_scan bv (\<forall>j < ?fo. bv0 ! j) (?fo + ?os) ?n = Inr ?all"
    using valid_scan_correct [of ?n bv] m(2) by simp
  have all: "?all = (\<forall>i < ?n. bv ! i)"
  proof -
    have "bv0 ! j = bv ! j" if "j < ?fo" for j
      using m(3) [of j] that fo by simp
    moreover have "bv ! j" if "?fo \<le> j" "j < ?fo + ?os" for j
      using m(3) [of j] that fo by simp
    moreover have "j < ?n" if "j < ?fo" for j
      using that fo by linarith
    ultimately show ?thesis
      by (meson leI)
  qed
  show thesis
  proof (rule that [of bv buf])
    show "Packet_trySatisfyFunctional a sec (int (length d)) (Some d) pkt =
      Inr (\<forall>i < ?n. bv ! i, pkt\<lparr>pkt_data := Some buf, pkt_bytesValid := bv\<rparr>, Some d)"
      using ov assms(3,4) all
      by (simp add: Packet_trySatisfyFunctional_def f o Let_def deref_def b(1) bv0_def [symmetric] s1 m(1) s2)
    fix i assume i: "i < ?n"
    have c: "(?fo \<le> i \<and> i < ?fo + ?os) = (?v \<le> ?f + i \<and> ?f + i < ?v + ?m)"
      using i assms(5) by (auto simp: min_def max_def)
    have e: "?f - ?v + (i - ?fo) = ?f + i - ?v" if "?v \<le> ?f + i"
      using that by simp
    show "buf ! i = (if ?v \<le> ?f + i \<and> ?f + i < ?v + ?m then d ! (?f + i - ?v) else pkt_buffer pkt ! i)"
      unfolding b(3) [OF i] c by (rule if_cong) (simp_all only: e)
    show "bv ! i = (pkt_valid pkt i \<or> ?v \<le> ?f + i \<and> ?f + i < ?v + ?m)"
      using m(3) [OF i] v0 [OF i] c by simp
  qed (use b m in simp_all)
qed

text \<open>
  C12: a functional read collects the bytes of one memory. Offered a value that agrees with a
  memory, a read packet that agrees with it on its valid bytes still does so afterwards, no
  valid byte is lost, the value is not changed, and when the call returns true every byte of the
  packet is that of the memory.
\<close>

theorem functional_read_sound:
  assumes "functional_pkt pkt" "functional_value a d" "pkt_attr IsRead pkt"
    and "packet_agrees M pkt" and "value_agrees M a d"
  shows "\<exists>r pkt'. Packet_trySatisfyFunctional a sec (int (length d)) (Some d) pkt = Inr (r, pkt', Some d) \<and>
    functional_pkt pkt' \<and> packet_agrees M pkt' \<and> (\<forall>i. pkt_valid pkt i \<longrightarrow> pkt_valid pkt' i) \<and>
    pkt_addr pkt' = pkt_addr pkt \<and> pkt_size pkt' = pkt_size pkt \<and>
    (r \<longrightarrow> value_agrees M (pkt_addr pkt') (pkt_buffer pkt'))"
proof (cases "sec \<noteq> pkt_isSecure pkt \<or> unat a + length d \<le> unat (pkt_addr pkt) \<or>
         unat (pkt_addr pkt) + unat (pkt_size pkt) \<le> unat a")
  case True
  thus ?thesis
    using functional_miss [OF assms(1,2)] assms(1,4) by auto
next
  case False
  let ?f = "unat (pkt_addr pkt)" and ?n = "unat (pkt_size pkt)"
  obtain buf bv where r: "Packet_trySatisfyFunctional a sec (int (length d)) (Some d) pkt =
      Inr (\<forall>i < ?n. bv ! i, pkt\<lparr>pkt_data := Some buf, pkt_bytesValid := bv\<rparr>, Some d)"
    "length buf = ?n" "length bv = ?n"
    "\<And>i. i < ?n \<Longrightarrow> buf ! i =
      (if unat a \<le> ?f + i \<and> ?f + i < unat a + length d then d ! (?f + i - unat a) else pkt_buffer pkt ! i)"
    "\<And>i. i < ?n \<Longrightarrow> bv ! i = (pkt_valid pkt i \<or> unat a \<le> ?f + i \<and> ?f + i < unat a + length d)"
    by (rule functional_read_hit [OF assms(1,2) _ assms(3)]) (use False in blast)+
  let ?p = "pkt\<lparr>pkt_data := Some buf, pkt_bytesValid := bv\<rparr>"
  have ag: "buf ! i = M (?f + i)" if i: "i < ?n" "bv ! i" for i
  proof (cases "unat a \<le> ?f + i \<and> ?f + i < unat a + length d")
    case True
    hence "d ! (?f + i - unat a) = M (?f + i)"
      using assms(5) unfolding value_agrees_def by (metis add_diff_inverse_nat less_diff_conv2 not_le add.commute)
    thus ?thesis using r(4) [OF i(1)] True by simp
  next
    case False
    thus ?thesis
      using r(4,5) [OF i(1)] i assms(4) by (auto simp: packet_agrees_def)
  qed
  have "functional_pkt ?p"
    using assms(1) r(2,3) by (auto simp: functional_pkt_def pkt_buffer_def Packet_isMaskedWrite_def)
  moreover have "packet_agrees M ?p"
    using ag r(3) by (simp add: packet_agrees_def pkt_valid_def pkt_buffer_def)
  moreover have "pkt_valid ?p i" if "pkt_valid pkt i" for i
  proof -
    have "i < ?n"
      using that assms(1) by (auto simp: pkt_valid_def functional_pkt_def)
    thus ?thesis
      using that r(3,5) by (simp add: pkt_valid_def [of ?p])
  qed
  moreover have "(\<forall>i < ?n. bv ! i) \<longrightarrow> value_agrees M (pkt_addr ?p) (pkt_buffer ?p)"
    using ag r(2) by (simp add: value_agrees_def pkt_buffer_def)
  ultimately show ?thesis
    using r(1) by simp
qed

definition sample_packet :: "Command \<Rightarrow> 8 word list \<Rightarrow> Packet" where
  "sample_packet cmd d =
    (Packet_blank Request_default cmd)\<lparr>pkt_flags := VALID_ADDR OR VALID_SIZE OR STATIC_DATA,
      pkt_addr := 0x1000, pkt_size := 2, pkt_data := Some d\<rparr>"

lemma sample_packet_functional:
  "length d = 2 \<Longrightarrow> cmd \<noteq> PrintReq \<Longrightarrow> functional_pkt (sample_packet cmd d)"
  by (cases cmd) (simp_all add: functional_pkt_def sample_packet_def Packet_blank_def Flags_isSet_def
      Packet_isMaskedWrite_def Request_isMasked_def Request_default_def pkt_buffer_def command_eval)

theorem functional_read_sound_witness:
  "\<exists>r pkt'. Packet_trySatisfyFunctional 0xFFF False (int (length [0xFFF, 0x1000, 0x1001 :: 8 word]))
      (Some [0xFFF, 0x1000, 0x1001]) (sample_packet ReadReq [7, 7]) =
      Inr (r, pkt', Some [0xFFF, 0x1000, 0x1001]) \<and> packet_agrees of_nat pkt' \<and>
      (r \<longrightarrow> value_agrees of_nat (pkt_addr pkt') (pkt_buffer pkt'))"
proof -
  have "functional_value 0xFFF [0xFFF, 0x1000, 0x1001]"
    "pkt_attr IsRead (sample_packet ReadReq [7, 7])"
    "packet_agrees of_nat (sample_packet ReadReq [7, 7])"
    "value_agrees of_nat 0xFFF [0xFFF, 0x1000, 0x1001 :: 8 word]"
    by (simp_all add: functional_value_def sample_packet_def Packet_blank_def command_eval
        packet_agrees_def pkt_valid_def value_agrees_def numeral_3_eq_3 less_Suc_eq)
  from functional_read_sound [OF sample_packet_functional this(1-4), of False]
  show ?thesis by auto
qed

text \<open>
  C14: a functional write updates one memory. Every value that agrees with a memory is
  changed so that it agrees with the memory after the bytes of the packet are written to it, and
  the packet is not changed.
\<close>

theorem functional_write_sound:
  assumes "functional_pkt pkt" "functional_value a d"
    and "pkt_attr IsWrite pkt" "\<not> pkt_attr IsRead pkt" and "value_agrees M a d"
  shows "\<exists>d'. Packet_trySatisfyFunctional a (pkt_isSecure pkt) (int (length d)) (Some d) pkt =
      Inr (False, pkt, Some d') \<and> length d' = length d \<and>
    value_agrees (mem_write M (pkt_addr pkt) (pkt_buffer pkt)) a d'"
proof (cases "unat a + length d \<le> unat (pkt_addr pkt) \<or>
         unat (pkt_addr pkt) + unat (pkt_size pkt) \<le> unat a")
  case True
  hence "value_agrees (mem_write M (pkt_addr pkt) (pkt_buffer pkt)) a d"
    using assms(5) functional_pktD(9) [OF assms(1)] by (auto simp: value_agrees_def mem_write_def)
  thus ?thesis
    using functional_miss [OF assms(1,2)] True by simp
next
  case False
  note f = functional_pktD [OF assms(1)]
  have v: "0 < length d" "unat a + length d \<le> 2 ^ 64"
    using assms(2) by (simp_all add: functional_value_def)
  let ?f = "unat (pkt_addr pkt)" and ?n = "unat (pkt_size pkt)" and ?v = "unat a" and ?m = "length d"
  have ov: "\<not> (pkt_addr pkt > a + of_nat ?m - 1 \<or> a > pkt_addr pkt + of_nat ?n - 1)"
    using no_overlap_values [OF f(5,6) v] False by blast
  note o = overlap_values [OF f(5,6) v f(7) ov, simplified]
  let ?vo = "?f - ?v" and ?os = "min (?v + ?m) (?f + ?n) - max ?v ?f"
  have fo: "?v - ?f + ?os \<le> ?n" and vo: "?vo + ?os \<le> ?m"
    using False by (auto simp: min_def max_def)
  obtain d' where b: "memcpy d ?vo (pkt_buffer pkt) (?v - ?f) ?os = Inr d'" "length d' = ?m"
    "\<And>i. i < ?m \<Longrightarrow> d' ! i =
       (if ?vo \<le> i \<and> i < ?vo + ?os then pkt_buffer pkt ! (?v - ?f + (i - ?vo)) else d ! i)"
    using memcpy_ok [of ?vo ?os d "?v - ?f" "pkt_buffer pkt"] fo vo unfolding f(9) by metis
  have "Packet_trySatisfyFunctional a (pkt_isSecure pkt) (int ?m) (Some d) pkt = Inr (False, pkt, Some d')"
    using ov assms(3,4) by (simp add: Packet_trySatisfyFunctional_def f o Let_def deref_def b(1))
  moreover have "d' ! i = mem_write M (pkt_addr pkt) (pkt_buffer pkt) (?v + i)" if i: "i < ?m" for i
  proof -
    have c: "(?vo \<le> i \<and> i < ?vo + ?os) = (?f \<le> ?v + i \<and> ?v + i < ?f + ?n)"
      using i False by (auto simp: min_def max_def)
    have e: "?v - ?f + (i - ?vo) = ?v + i - ?f" if "?f \<le> ?v + i"
      using that by simp
    have "d ! i = M (?v + i)" using assms(5) i by (simp add: value_agrees_def)
    thus ?thesis
      unfolding b(3) [OF i] c mem_write_def f(9) by (intro if_cong) (simp_all only: e)
  qed
  ultimately show ?thesis
    using b(2) by (simp add: value_agrees_def)
qed

theorem functional_write_sound_witness:
  "\<exists>d'. Packet_trySatisfyFunctional 0x1001 False (int (length [0x1001, 0x1002 :: 8 word]))
      (Some [0x1001, 0x1002]) (sample_packet WriteReq [7, 8]) =
      Inr (False, sample_packet WriteReq [7, 8], Some d') \<and>
    value_agrees (mem_write of_nat 0x1000 [7, 8]) 0x1001 d'"
proof -
  have "functional_value 0x1001 [0x1001, 0x1002]"
    "pkt_attr IsWrite (sample_packet WriteReq [7, 8])"
    "\<not> pkt_attr IsRead (sample_packet WriteReq [7, 8])"
    "value_agrees of_nat 0x1001 [0x1001, 0x1002 :: 8 word]"
    by (simp_all add: functional_value_def sample_packet_def Packet_blank_def command_eval
        value_agrees_def less_Suc_eq)
  from functional_write_sound [OF sample_packet_functional this(1-4)]
  show ?thesis by (auto simp: sample_packet_def Packet_blank_def pkt_buffer_def)
qed

section \<open>Block accesses\<close>

definition block_pkt :: "Packet \<Rightarrow> bool" where
  "block_pkt pkt =
    (Flags_isSet (pkt_flags pkt) VALID_ADDR \<and> Flags_isSet (pkt_flags pkt) VALID_SIZE \<and>
     Flags_isSet (pkt_flags pkt) ANY_DATA \<and> pkt_data pkt \<noteq> None \<and>
     length (pkt_buffer pkt) = unat (pkt_size pkt))"

lemma masked_copy_correct:
  "off + length be \<le> length p \<Longrightarrow> length base = length be \<Longrightarrow>
   \<exists>p'. masked_copy be base off p = Inr p' \<and> length p' = length p \<and>
     (\<forall>j < length p. p' ! j =
       (if off \<le> j \<and> j < off + length be \<and> be ! (j - off) then base ! (j - off) else p ! j))"
proof (induction be base off p rule: masked_copy.induct)
  case (1 base i p)
  thus ?case by auto
next
  case (2 b be base i p)
  then obtain x xs where x: "base = x # xs" "length xs = length be"
    by (cases base) auto
  let ?q = "if b then p[i := x] else p"
  have "\<exists>p'. masked_copy be xs (Suc i) ?q = Inr p' \<and> length p' = length p \<and>
     (\<forall>j < length p. p' ! j =
       (if Suc i \<le> j \<and> j < Suc i + length be \<and> be ! (j - Suc i) then xs ! (j - Suc i) else ?q ! j))"
    using 2(1,2) 2(3) x by (cases b) auto
  then obtain p' where p': "masked_copy be xs (Suc i) ?q = Inr p'" "length p' = length p"
    "\<And>j. j < length p \<Longrightarrow> p' ! j =
       (if Suc i \<le> j \<and> j < Suc i + length be \<and> be ! (j - Suc i) then xs ! (j - Suc i) else ?q ! j)"
    by auto
  have "p' ! j = (if i \<le> j \<and> j < i + length (b # be) \<and> (b # be) ! (j - i)
      then base ! (j - i) else p ! j)" if j: "j < length p" for j
  proof (cases "j = i")
    case True
    thus ?thesis using p'(3) [OF j] x j by simp
  next
    case False
    thus ?thesis
      using p'(3) [OF j] x by (cases "i < j") (auto simp: nth_Cons' Suc_diff_Suc not_less)
  qed
  thus ?case
    using p' x 2(3) by auto
qed

text \<open>
  Writing a packet to its block changes exactly the bytes the packet covers and enables,
  and an unmasked write reads back: filling a packet from the block it was written to gives the
  same packet.
\<close>

theorem writeDataToBlock_correct:
  assumes "block_pkt pkt"
    and "Packet_isMaskedWrite pkt \<longrightarrow> length (req_byteEnable (pkt_req pkt)) = unat (pkt_size pkt)"
    and "unat (pkt_addr pkt AND ucast (bs - 1)) + unat (pkt_size pkt) \<le> length blk"
  shows "\<exists>blk'. Packet_writeDataToBlock blk bs pkt = Inr blk' \<and> length blk' = length blk \<and>
    (\<forall>j < length blk. blk' ! j =
      (let off = unat (pkt_addr pkt AND ucast (bs - 1)) in
       if off \<le> j \<and> j < off + unat (pkt_size pkt) \<and>
          (Packet_isMaskedWrite pkt \<longrightarrow> req_byteEnable (pkt_req pkt) ! (j - off))
       then pkt_buffer pkt ! (j - off) else blk ! j)) \<and>
    (\<not> Packet_isMaskedWrite pkt \<longrightarrow> Packet_setDataFromBlock blk' bs pkt = Inr pkt)"
proof -
  let ?o = "unat (pkt_addr pkt AND ucast (bs - 1))" and ?n = "unat (pkt_size pkt)"
  obtain buf where buf: "pkt_data pkt = Some buf" "length buf = ?n" "pkt_buffer pkt = buf"
    using assms(1) by (auto simp: block_pkt_def pkt_buffer_def)
  have g: "Packet_getOffset bs pkt = Inr (pkt_addr pkt AND ucast (bs - 1))"
    "Packet_getSize pkt = Inr (pkt_size pkt)" "Packet_getConstPtr pkt = Inr (Some buf)"
    using assms(1) buf
    by (simp_all add: block_pkt_def Packet_getOffset_def Packet_getAddr_def Packet_getSize_def Packet_getConstPtr_def)
  show ?thesis
  proof (cases "Packet_isMaskedWrite pkt")
    case True
    let ?be = "req_byteEnable (pkt_req pkt)"
    obtain blk' where "masked_copy ?be buf ?o blk = Inr blk'" "length blk' = length blk"
      "\<forall>j < length blk. blk' ! j =
       (if ?o \<le> j \<and> j < ?o + length ?be \<and> ?be ! (j - ?o) then buf ! (j - ?o) else blk ! j)"
      using masked_copy_correct [of ?o ?be blk buf] assms(2,3) True buf by auto
    thus ?thesis
      using True assms(2) buf
      by (simp add: Packet_writeDataToBlock_def Packet_writeData_def g deref_def Let_def)
  next
    case False
    obtain blk' where b: "memcpy blk ?o buf 0 ?n = Inr blk'" "length blk' = length blk"
      "\<And>j. j < length blk \<Longrightarrow> blk' ! j = (if ?o \<le> j \<and> j < ?o + ?n then buf ! (0 + (j - ?o)) else blk ! j)"
      using memcpy_ok [of ?o ?n blk 0 buf] assms(3) buf(2) by (metis add_0 order_refl)
    have "take ?n (drop ?o blk') = buf"
      using b assms(3) buf(2) by (intro nth_equalityI) auto
    hence "Packet_setDataFromBlock blk' bs pkt = Inr pkt"
      using assms(1,3) False buf b(2) g
      by (simp add: Packet_setDataFromBlock_def Packet_setData_def Packet_getPtr_def deref_def
          memcpy_def block_pkt_def)
    thus ?thesis
      using False buf b by (simp add: Packet_writeDataToBlock_def Packet_writeData_def g deref_def Let_def)
  qed
qed

end
