(* ===== verification/Snoop_Filter_Correct.thy ===== *)
theory Snoop_Filter_Correct
  imports Snoop_Filter Packet_Correct
begin

text \<open>
  Correctness of the snoop filter: the entry of a line as a total function of the line, the
  effect of every call on it, the invariant of the map, undoing a retried request, and the
  guarantee the filter exists for: a port that holds a line is snooped until it gives it up.
\<close>

section \<open>Entries\<close>

definition entry :: "SnoopFilter \<Rightarrow> Addr \<Rightarrow> SnoopItem" where
  "entry sf l = (case sf_find sf l of None \<Rightarrow> SnoopItem_empty | Some item \<Rightarrow> item)"

definition null_item :: "SnoopItem \<Rightarrow> bool" where
  "null_item item = (requested item OR holder item = 0)"

lemma null_item_empty: "null_item item \<longleftrightarrow> item = SnoopItem_empty"
proof -
  have "a OR b = 0 \<longleftrightarrow> a = 0 \<and> b = 0" for a b :: SnoopMask
    by (auto simp: bit_eq_iff bit_or_iff)
  thus ?thesis
    by (cases item) (simp add: null_item_def SnoopItem_empty_def)
qed

named_theorems sf_simps

lemma find_put [sf_simps]: "sf_find (sf_put a i sf) = (sf_find sf)(a \<mapsto> i)"
  by (simp add: sf_find_def [abs_def] sf_put_def update_conv')

lemma find_erase [sf_simps]: "sf_find (sf_erase a sf) = (sf_find sf)(a := None)"
  by (simp add: sf_find_def [abs_def] sf_erase_def delete_conv')

lemma find_update [sf_simps]:
  "sf_find (sf\<lparr>lookup_it := it\<rparr>) = sf_find sf" "sf_find (sf\<lparr>retryItem := i\<rparr>) = sf_find sf"
  by (simp_all add: sf_find_def [abs_def])

lemma find_eraseIfNull [sf_simps]:
  "sf_find (SnoopFilter_eraseIfNullEntry a sf) =
    (if null_item (entry sf a) then (sf_find sf)(a := None) else sf_find sf)"
  by (auto simp: SnoopFilter_eraseIfNullEntry_def null_item_def entry_def find_erase
      SnoopItem_empty_def fun_upd_idem split: option.splits)

lemma entry_put [sf_simps]: "entry (sf_put a i sf) = (entry sf)(a := i)"
  by (auto simp: entry_def [abs_def] find_put)

lemma entry_update [sf_simps]:
  "entry (sf\<lparr>lookup_it := it\<rparr>) = entry sf" "entry (sf\<lparr>retryItem := i\<rparr>) = entry sf"
  by (simp_all add: entry_def [abs_def] sf_simps)

lemma entry_eraseIfNull [sf_simps]: "entry (SnoopFilter_eraseIfNullEntry a sf) = entry sf"
proof
  fix l
  show "entry (SnoopFilter_eraseIfNullEntry a sf) l = entry sf l"
  proof (cases "null_item (entry sf a) \<and> l = a")
    case True
    thus ?thesis
      by (simp add: null_item_empty entry_def [of "SnoopFilter_eraseIfNullEntry a sf"] find_eraseIfNull)
  qed (auto simp: entry_def [of "SnoopFilter_eraseIfNullEntry a sf"] entry_def [of sf l] find_eraseIfNull)
qed

section \<open>Configuration and invariant\<close>

definition sf_config :: "SnoopFilter \<Rightarrow> ResponsePort list \<times> int list \<times> Addr \<times> 32 word" where
  "sf_config sf = (cpuSidePorts sf, localResponsePortIds sf, linesize sf, maxEntryCount sf)"

lemma config_simps [sf_simps]:
  "sf_config (sf_put a i sf) = sf_config sf" "sf_config (sf_erase a sf) = sf_config sf"
  "sf_config (sf\<lparr>lookup_it := it\<rparr>) = sf_config sf" "sf_config (sf\<lparr>retryItem := i\<rparr>) = sf_config sf"
  "sf_config (SnoopFilter_eraseIfNullEntry a sf) = sf_config sf"
  by (simp_all add: sf_config_def sf_put_def sf_erase_def SnoopFilter_eraseIfNullEntry_def split: option.splits)

definition port_bit :: "SnoopFilter \<Rightarrow> ResponsePort \<Rightarrow> nat" where
  "port_bit sf p = nat (localResponsePortIds sf ! nat (port_id p))"

definition ports_ok :: "SnoopFilter \<Rightarrow> bool" where
  "ports_ok sf =
    ((\<forall>p \<in> set (cpuSidePorts sf). port_isSnooping p \<and> 0 \<le> port_id p \<and>
        nat (port_id p) < length (localResponsePortIds sf) \<and>
        0 \<le> localResponsePortIds sf ! nat (port_id p) \<and> port_bit sf p < 256) \<and>
     inj_on (port_bit sf) (set (cpuSidePorts sf)) \<and>
     0 < linesize sf \<and> linesize sf < 2 ^ 32)"

definition map_ok :: "SnoopFilter \<Rightarrow> bool" where
  "map_ok sf =
    (distinct (map fst (cachedLocations sf)) \<and>
     (\<forall>l item. sf_find sf l = Some item \<longrightarrow> \<not> null_item item))"

definition sf_ok :: "SnoopFilter \<Rightarrow> bool" where
  "sf_ok sf = (ports_ok sf \<and> map_ok sf)"

lemma ports_ok_config: "sf_config sf' = sf_config sf \<Longrightarrow> ports_ok sf' = ports_ok sf"
  by (simp add: sf_config_def ports_ok_def port_bit_def [abs_def])

lemma port_bit_config: "sf_config sf' = sf_config sf \<Longrightarrow> port_bit sf' = port_bit sf"
  by (simp add: sf_config_def port_bit_def [abs_def])

lemma line_address_config: "sf_config sf' = sf_config sf \<Longrightarrow> line_address sf' pkt = line_address sf pkt"
  by (simp add: sf_config_def line_address_def)

lemma distinct_put: "distinct (map fst (cachedLocations sf)) \<Longrightarrow>
    distinct (map fst (cachedLocations (sf_put a i sf)))"
  by (simp add: sf_put_def distinct_update)

lemma distinct_eraseIfNull: "distinct (map fst (cachedLocations sf)) \<Longrightarrow>
    distinct (map fst (cachedLocations (SnoopFilter_eraseIfNullEntry a sf)))"
  by (simp add: SnoopFilter_eraseIfNullEntry_def sf_erase_def distinct_delete split: option.splits)

lemma map_ok_put: "map_ok sf \<Longrightarrow> \<not> null_item i \<Longrightarrow> map_ok (sf_put a i sf)"
  by (simp add: map_ok_def distinct_put find_put)

lemma map_ok_eraseIfNull_put: "map_ok sf \<Longrightarrow> map_ok (SnoopFilter_eraseIfNullEntry a (sf_put a i sf))"
  unfolding map_ok_def
  by (intro conjI distinct_eraseIfNull distinct_put) (auto simp: sf_simps split: if_splits)

lemma map_ok_update [sf_simps]:
  "map_ok (sf\<lparr>lookup_it := it\<rparr>) = map_ok sf" "map_ok (sf\<lparr>retryItem := i\<rparr>) = map_ok sf"
  by (simp_all add: map_ok_def sf_simps)

lemma put_put: "sf_find (sf_put a i (sf_put a j sf)) = sf_find (sf_put a i sf)"
  by (simp add: sf_simps)

section \<open>Masks\<close>

lemma mask_bit:
  fixes m :: SnoopMask
  assumes "n < 256"
  shows "(m AND push_bit n 1 \<noteq> 0) = bit m n"
  using Flags_isSet_bit [of m "push_bit n 1"] assms
  by (auto simp: Flags_isSet_def bit_push_bit_iff bit_1_iff simp del: push_bit_of_1)

lemma portToMask_ok:
  assumes "ports_ok sf" "p \<in> set (cpuSidePorts sf)"
  shows "portToMask sf p = Inr (push_bit (port_bit sf p) 1)" "port_bit sf p < 256"
  using assms by (auto simp: ports_ok_def portToMask_def port_bit_def)

lemma portToMask_other:
  "\<not> port_isSnooping p \<Longrightarrow> portToMask sf p = Inr m \<Longrightarrow> m = 0"
  by (simp add: portToMask_def assert_that_eq_Inr)

lemma mask_ports_filter:
  assumes "ports_ok sf" "set ps \<subseteq> set (cpuSidePorts sf)"
  shows "mask_ports sf m ps = Inr (filter (\<lambda>p. bit m (port_bit sf p)) ps)"
  using assms(2)
proof (induction ps)
  case (Cons p ps)
  have "portToMask sf p = Inr (push_bit (port_bit sf p) 1)" "port_bit sf p < 256"
    using portToMask_ok [OF assms(1)] Cons(2) by auto
  thus ?case
    using Cons mask_bit [of "port_bit sf p" m] by simp
qed simp

lemma snoopSelected_ok:
  assumes "ports_ok sf"
  shows "snoopSelected sf m sf' =
    Inr ((filter (\<lambda>p. bit m (port_bit sf p)) (cpuSidePorts sf), lookupLatency sf), sf')"
  using mask_ports_filter [OF assms, of "cpuSidePorts sf" m]
  by (simp add: snoopSelected_def maskToPortList_def)

section \<open>The effect of each call\<close>

definition holds :: "SnoopFilter \<Rightarrow> ResponsePort \<Rightarrow> Addr \<Rightarrow> bool" where
  "holds sf p l = bit (holder (entry sf l)) (port_bit sf p)"

definition requests :: "SnoopFilter \<Rightarrow> ResponsePort \<Rightarrow> Addr \<Rightarrow> bool" where
  "requests sf p l = bit (requested (entry sf l)) (port_bit sf p)"

definition known_port :: "SnoopFilter \<Rightarrow> ResponsePort \<Rightarrow> bool" where
  "known_port sf p = (p \<in> set (cpuSidePorts sf) \<or> \<not> port_isSnooping p)"

definition request_allocates :: "Packet \<Rightarrow> ResponsePort \<Rightarrow> bool" where
  "request_allocates pkt port =
    (\<not> Request_isUncacheable (pkt_req pkt) \<and> port_isSnooping port \<and> pkt_attr FromCache pkt)"

lemma block_mask:
  fixes ls :: Addr
  assumes "0 < ls" "ls < 2 ^ 32"
  shows "ucast ((ucast ls :: 32 word) - 1) = ls - 1"
proof -
  have u: "unat (ucast ls :: 32 word) = unat ls"
    using assms(2) by (simp add: unsigned_ucast_eq take_bit_nat_eq_self word_less_nat_alt)
  have "unat ((ucast ls :: 32 word) - 1) = unat ls - 1"
    using u assms(1) by (metis unat_minus_one unat_gt_0 word_gt_0 unat_0)
  moreover have "unat (ls - 1) = unat ls - 1"
    using assms(1) by (simp add: unat_minus_one word_gt_0)
  moreover have "unat ls - 1 < 2 ^ 64"
    using assms(2) by (simp add: word_less_nat_alt)
  ultimately show ?thesis
    by (simp add: word_unat_eq_iff unsigned_ucast_eq take_bit_nat_eq_self word_less_nat_alt)
qed

lemma line_address_eq:
  assumes "ports_ok sf" "line_address sf pkt = Inr l"
  shows "Packet_getAddr pkt = Inr (pkt_addr pkt)" "Packet_isSecure pkt = Inr (pkt_isSecure pkt)"
    "l = (if pkt_isSecure pkt then (pkt_addr pkt AND NOT (linesize sf - 1)) OR LineSecure
          else pkt_addr pkt AND NOT (linesize sf - 1))"
  using assms block_mask [of "linesize sf"]
  by (auto simp: line_address_def Packet_getBlockAddr_def Packet_getAddr_def Packet_isSecure_def
      result_eq_Inr ports_ok_def)

text \<open>
  The state between the two halves of a request.
\<close>

lemma lookupRequest_effect:
  assumes "ports_ok sf" "SnoopFilter_lookupRequest pkt port sf = Inr ((ports, lat), sf1)"
  obtains l m where "line_address sf pkt = Inr l" "portToMask sf port = Inr m"
    "ports = filter (\<lambda>p. bit ((holder (entry sf l) OR requested (entry sf l)) AND NOT m) (port_bit sf p))
       (cpuSidePorts sf)"
    "sf_config sf1 = sf_config sf"
    "sf_find sf l = None \<and> \<not> request_allocates pkt port \<and> sf1 = sf\<lparr>lookup_it := At_end\<rparr> \<or>
     (\<exists>item. (if request_allocates pkt port then request_item pkt m (entry sf l) = Inr item
              else item = entry sf l) \<and>
       lookup_it sf1 = At_key l \<and> retryItem sf1 = entry sf l \<and> sf_find sf1 = (sf_find sf)(l \<mapsto> item) \<and>
       (map_ok sf \<longrightarrow> distinct (map fst (cachedLocations sf1))))"
proof -
  obtain l m where lm: "line_address sf pkt = Inr l" "portToMask sf port = Inr m"
    using assms(2) by (auto simp: SnoopFilter_lookupRequest_def Let_def rbind_eq_Inr)
  let ?sf = "(sf_put l (entry sf l) sf)\<lparr>lookup_it := At_key l, retryItem := entry sf l\<rparr>"
  have r: "SnoopFilter_lookupRequest pkt port sf =
     (if sf_find sf l = None \<and> \<not> request_allocates pkt port
      then Inr (([], lookupLatency sf), sf\<lparr>lookup_it := At_end\<rparr>)
      else if \<not> request_allocates pkt port
      then snoopSelected sf ((holder (entry sf l) OR requested (entry sf l)) AND NOT m) ?sf
      else rbind (request_item pkt m (entry sf l))
        (\<lambda>item. snoopSelected sf ((holder (entry sf l) OR requested (entry sf l)) AND NOT m) (sf_put l item ?sf)))"
    using lm by (simp add: SnoopFilter_lookupRequest_def Let_def request_allocates_def entry_def)
  have d: "map_ok sf \<longrightarrow> distinct (map fst (cachedLocations ?sf))"
    "map_ok sf \<longrightarrow> distinct (map fst (cachedLocations (sf_put l i ?sf)))" for i
    using distinct_put [of sf l "entry sf l"] distinct_put [of ?sf l i] by (auto simp: map_ok_def)
  have c: "lookup_it (sf_put l i ?sf) = At_key l" "retryItem (sf_put l i ?sf) = entry sf l" for i
    by (simp_all add: sf_put_def)
  show thesis
  proof (rule that [OF lm])
    show "sf_config sf1 = sf_config sf"
      using assms(2) unfolding r snoopSelected_ok [OF assms(1)]
      by (auto simp: sf_simps rbind_eq_Inr split: if_splits)
    show "ports = filter (\<lambda>p. bit ((holder (entry sf l) OR requested (entry sf l)) AND NOT m) (port_bit sf p))
       (cpuSidePorts sf)"
      using assms(2) unfolding r snoopSelected_ok [OF assms(1)]
      by (auto simp: rbind_eq_Inr entry_def SnoopItem_empty_def split: if_splits)
    show "sf_find sf l = None \<and> \<not> request_allocates pkt port \<and> sf1 = sf\<lparr>lookup_it := At_end\<rparr> \<or>
     (\<exists>item. (if request_allocates pkt port then request_item pkt m (entry sf l) = Inr item
              else item = entry sf l) \<and>
       lookup_it sf1 = At_key l \<and> retryItem sf1 = entry sf l \<and> sf_find sf1 = (sf_find sf)(l \<mapsto> item) \<and>
       (map_ok sf \<longrightarrow> distinct (map fst (cachedLocations sf1))))"
      using assms(2) d c unfolding r snoopSelected_ok [OF assms(1)]
      by (auto simp: sf_simps rbind_eq_Inr split: if_splits)
  qed
qed

lemma map_ok_entry: "map_ok sf \<Longrightarrow> (sf_find sf)(l := if null_item (entry sf l) then None else Some (entry sf l)) = sf_find sf"
  by (rule ext) (auto simp: map_ok_def entry_def null_item_empty split: option.splits)

lemma finishRequest_effect:
  assumes "ports_ok sf" "map_ok sf" "line_address sf pkt = Inr l"
    and "sf_config sf1 = sf_config sf" "lookup_it sf1 = At_key l" "retryItem sf1 = entry sf l"
    and "sf_find sf1 = (sf_find sf)(l \<mapsto> item)" "distinct (map fst (cachedLocations sf1))"
  obtains sf2 where
    "SnoopFilter_finishRequest will_retry (pkt_addr pkt) (pkt_isSecure pkt) sf1 = Inr sf2"
    "sf_config sf2 = sf_config sf" "map_ok sf2"
    "entry sf2 = (if will_retry then entry sf else (entry sf)(l := item))"
    "will_retry \<longrightarrow> sf_find sf2 = sf_find sf"
proof -
  let ?sf = "if will_retry then sf_put l (entry sf l) sf1 else sf1"
  let ?sf2 = "SnoopFilter_eraseIfNullEntry l ?sf"
  have ls: "linesize sf1 = linesize sf"
    using assms(4) by (simp add: sf_config_def)
  have r: "SnoopFilter_finishRequest will_retry (pkt_addr pkt) (pkt_isSecure pkt) sf1 = Inr ?sf2"
    using line_address_eq [OF assms(1,3)] assms(5,6) ls by (simp add: SnoopFilter_finishRequest_def Let_def)
  have e1: "entry sf1 = (entry sf)(l := item)"
    by (rule ext) (simp add: entry_def assms(7))
  have e: "entry ?sf = (if will_retry then entry sf else (entry sf)(l := item))"
    by (simp add: sf_simps e1 fun_upd_idem)
  let ?new = "if will_retry then entry sf l else item"
  have f: "sf_find ?sf2 = (sf_find sf)(l := if null_item ?new then None else Some ?new)"
    using e by (auto simp: find_eraseIfNull find_put assms(7))
  have "distinct (map fst (cachedLocations ?sf2))"
    using distinct_eraseIfNull distinct_put [OF assms(8)] assms(8) by auto
  moreover have "\<not> null_item i" if "sf_find ?sf2 k = Some i" for k i
    using that assms(2) unfolding f by (auto simp: map_ok_def split: if_splits)
  ultimately have "map_ok ?sf2"
    by (simp add: map_ok_def)
  moreover have "will_retry \<longrightarrow> sf_find ?sf2 = sf_find sf"
    unfolding f using map_ok_entry [OF assms(2), of l] by auto
  ultimately show thesis
    using that [OF r] e assms(4) by (simp add: sf_simps)
qed

lemma request_step_effect:
  assumes "sf_ok sf" "SnoopFilter_lookupRequest pkt port sf = Inr ((ports, lat), sf1)"
  obtains l m item sf' where "sf_step (Request_call pkt port will_retry) sf = Inr (ports, sf')"
    "line_address sf pkt = Inr l" "portToMask sf port = Inr m"
    "ports = filter (\<lambda>p. bit ((holder (entry sf l) OR requested (entry sf l)) AND NOT m) (port_bit sf p))
       (cpuSidePorts sf)"
    "sf_config sf' = sf_config sf" "map_ok sf'"
    "if request_allocates pkt port then request_item pkt m (entry sf l) = Inr item else item = entry sf l"
    "entry sf' = (if will_retry then entry sf else (entry sf)(l := item))"
    "will_retry \<longrightarrow> sf_find sf' = sf_find sf"
proof -
  have ok: "ports_ok sf" "map_ok sf" using assms(1) by (simp_all add: sf_ok_def)
  obtain l m where lm: "line_address sf pkt = Inr l" "portToMask sf port = Inr m"
    "ports = filter (\<lambda>p. bit ((holder (entry sf l) OR requested (entry sf l)) AND NOT m) (port_bit sf p))
       (cpuSidePorts sf)"
    "sf_config sf1 = sf_config sf"
    "sf_find sf l = None \<and> \<not> request_allocates pkt port \<and> sf1 = sf\<lparr>lookup_it := At_end\<rparr> \<or>
     (\<exists>item. (if request_allocates pkt port then request_item pkt m (entry sf l) = Inr item
              else item = entry sf l) \<and>
       lookup_it sf1 = At_key l \<and> retryItem sf1 = entry sf l \<and> sf_find sf1 = (sf_find sf)(l \<mapsto> item) \<and>
       (map_ok sf \<longrightarrow> distinct (map fst (cachedLocations sf1))))"
    by (rule lookupRequest_effect [OF ok(1) assms(2)])
  note a = line_address_eq(1,2) [OF ok(1) lm(1)]
  show thesis
  proof (rule disjE [OF lm(5)])
    assume n: "sf_find sf l = None \<and> \<not> request_allocates pkt port \<and> sf1 = sf\<lparr>lookup_it := At_end\<rparr>"
    hence "sf_step (Request_call pkt port will_retry) sf = Inr (ports, sf1)"
      using assms(2) a by (simp add: SnoopFilter_finishRequest_def)
    thus thesis
      using that [OF _ lm(1,2,3), of sf1 "entry sf l"] lm(4) ok(2) n
      by (simp add: sf_simps fun_upd_idem)
  next
    assume "\<exists>item. (if request_allocates pkt port then request_item pkt m (entry sf l) = Inr item
              else item = entry sf l) \<and>
       lookup_it sf1 = At_key l \<and> retryItem sf1 = entry sf l \<and> sf_find sf1 = (sf_find sf)(l \<mapsto> item) \<and>
       (map_ok sf \<longrightarrow> distinct (map fst (cachedLocations sf1)))"
    then obtain item where i: "if request_allocates pkt port then request_item pkt m (entry sf l) = Inr item
              else item = entry sf l" "lookup_it sf1 = At_key l" "retryItem sf1 = entry sf l"
       "sf_find sf1 = (sf_find sf)(l \<mapsto> item)" "distinct (map fst (cachedLocations sf1))"
      using ok(2) by auto
    obtain sf2 where f: "SnoopFilter_finishRequest will_retry (pkt_addr pkt) (pkt_isSecure pkt) sf1 = Inr sf2"
      "sf_config sf2 = sf_config sf" "map_ok sf2"
      "entry sf2 = (if will_retry then entry sf else (entry sf)(l := item))"
      "will_retry \<longrightarrow> sf_find sf2 = sf_find sf"
      by (rule finishRequest_effect [OF ok lm(1,4) i(2-5)])
    hence "sf_step (Request_call pkt port will_retry) sf = Inr (ports, sf2)"
      using assms(2) a by simp
    thus thesis
      using that [OF _ lm(1,2,3), of sf2 item] f i(1) by simp
  qed
qed

text \<open>
  C18: a request that has to be retried leaves no trace: when the lookup succeeds, so does
  finishing it, and afterwards every line is tracked exactly as before.
\<close>

theorem retry_restores_filter:
  assumes "sf_ok sf" "SnoopFilter_lookupRequest pkt port sf = Inr ((ports, lat), sf1)"
  shows "\<exists>sf2. SnoopFilter_finishRequest True (pkt_addr pkt) (pkt_isSecure pkt) sf1 = Inr sf2 \<and>
    sf_find sf2 = sf_find sf \<and> sf_ok sf2"
proof -
  obtain l sf' where s: "sf_step (Request_call pkt port True) sf = Inr (ports, sf')"
    "line_address sf pkt = Inr l" "sf_config sf' = sf_config sf" "map_ok sf'" "sf_find sf' = sf_find sf"
    using request_step_effect [OF assms, of True] by metis
  have p: "ports_ok sf" "ports_ok sf'"
    using assms(1) ports_ok_config [OF s(3)] by (simp_all add: sf_ok_def)
  have "SnoopFilter_finishRequest True (pkt_addr pkt) (pkt_isSecure pkt) sf1 = Inr sf'"
    using s(1) assms(2) line_address_eq [OF p(1) s(2)] by (auto simp: rbind_eq_Inr)
  thus ?thesis
    using s(4,5) p(2) by (simp add: sf_ok_def)
qed

lemma snoop_step_effect:
  assumes "sf_ok sf" "sf_step (Snoop_call pkt) sf = Inr (ports, sf')"
  obtains l where "line_address sf pkt = Inr l"
    "ports = filter (\<lambda>p. bit (holder (entry sf l) OR requested (entry sf l)) (port_bit sf p)) (cpuSidePorts sf)"
    "sf_config sf' = sf_config sf" "map_ok sf'"
    "entry sf' = entry sf \<or>
     pkt_attr IsInvalidate pkt \<and> entry sf' = (entry sf)(l := (entry sf l)\<lparr>holder := 0\<rparr>)"
proof -
  have ok: "ports_ok sf" "map_ok sf" using assms(1) by (simp_all add: sf_ok_def)
  obtain l lat where l: "line_address sf pkt = Inr l"
    and r: "SnoopFilter_lookupSnoop pkt sf = Inr ((ports, lat), sf')"
    using assms(2) by (auto simp: SnoopFilter_lookupSnoop_def result_eq_Inr)
  let ?sf = "SnoopFilter_eraseIfNullEntry l (sf_put l ((entry sf l)\<lparr>holder := 0\<rparr>) sf)"
  have c: "sf_find sf l = None \<and> ports = [] \<and> sf' = sf \<or>
     sf_find sf l = Some (entry sf l) \<and>
     ports = filter (\<lambda>p. bit (holder (entry sf l) OR requested (entry sf l)) (port_bit sf p)) (cpuSidePorts sf) \<and>
     (sf' = sf \<or> pkt_attr IsInvalidate pkt \<and> sf' = ?sf)"
    using r l unfolding SnoopFilter_lookupSnoop_def
    by (auto simp: result_eq_Inr snoopSelected_ok [OF ok(1)] Let_def entry_def split: option.splits if_splits)
  show thesis
  proof (rule that [OF l])
    show "ports = filter (\<lambda>p. bit (holder (entry sf l) OR requested (entry sf l)) (port_bit sf p)) (cpuSidePorts sf)"
      using c by (auto simp: entry_def SnoopItem_empty_def)
    show "map_ok sf'"
      using c ok(2) map_ok_eraseIfNull_put by auto
  qed (use c in \<open>auto simp: sf_simps\<close>)
qed

lemma snoop_response_step_effect:
  assumes "sf_ok sf" "sf_step (Snoop_response_call pkt rsp req) sf = Inr (ports, sf')"
  obtains "sf' = sf"
  | l m i where "line_address sf pkt = Inr l" "portToMask sf req = Inr m" "port_isSnooping req"
    "sf_config sf' = sf_config sf" "map_ok sf'" "entry sf' = (entry sf)(l := i)"
    "holder i = (if Packet_hasSharers pkt then holder (entry sf l) else 0) OR m"
    "requested i = requested (entry sf l) AND NOT m"
proof (cases "Request_isUncacheable (pkt_req pkt) \<or> \<not> port_isSnooping req")
  case True
  thus thesis
    using assms(2) that(1) by (auto simp: SnoopFilter_updateSnoopResponse_def result_eq_Inr)
next
  case False
  then obtain l m where lm: "line_address sf pkt = Inr l" "portToMask sf req = Inr m"
    using assms(2) by (auto simp: SnoopFilter_updateSnoopResponse_def result_eq_Inr)
  define i where "i = (entry sf l)\<lparr>requested := requested (entry sf l) AND NOT m,
     holder := (if \<not> Packet_hasSharers pkt then 0 else holder (entry sf l)) OR m\<rparr>"
  have r: "sf' = sf_put l i sf" "\<not> null_item i"
    using assms(2) lm False
    by (auto simp: SnoopFilter_updateSnoopResponse_def result_eq_Inr Let_def i_def null_item_def entry_def)
  have "map_ok sf'"
    using map_ok_put r assms(1) by (simp add: sf_ok_def)
  thus thesis
    using that(2) [OF lm, of i] r(1) False by (simp add: sf_simps i_def)
qed

lemma snoop_forward_step_effect:
  assumes "sf_ok sf" "sf_step (Snoop_forward_call pkt) sf = Inr (ports, sf')"
  obtains "sf' = sf"
  | l where "line_address sf pkt = Inr l" "\<not> Packet_hasSharers pkt"
    "sf_config sf' = sf_config sf" "map_ok sf'" "entry sf' = (entry sf)(l := (entry sf l)\<lparr>holder := 0\<rparr>)"
proof -
  obtain l where l: "line_address sf pkt = Inr l"
    using assms(2) by (auto simp: SnoopFilter_updateSnoopForward_def result_eq_Inr)
  have "sf' = sf \<or> \<not> Packet_hasSharers pkt \<and>
      sf' = SnoopFilter_eraseIfNullEntry l (sf_put l ((entry sf l)\<lparr>holder := 0\<rparr>) sf)"
    using assms(2) l
    by (auto simp: SnoopFilter_updateSnoopForward_def result_eq_Inr entry_def split: option.splits if_splits)
  thus thesis
    using that(1) that(2) [OF l] map_ok_eraseIfNull_put assms(1) by (auto simp: sf_simps sf_ok_def)
qed

lemma response_step_effect:
  assumes "sf_ok sf" "sf_step (Response_call pkt port) sf = Inr (ports, sf')"
  obtains "sf' = sf" "\<forall>l. line_address sf pkt = Inr l \<longrightarrow> Request_isUncacheable (pkt_req pkt) \<or>
      \<not> port_isSnooping port \<or> sf_find sf l = None"
  | l m i where "line_address sf pkt = Inr l" "portToMask sf port = Inr m"
    "sf_config sf' = sf_config sf" "map_ok sf'" "entry sf' = (entry sf)(l := i)"
    "holder i = (if Request_isCacheMaintenance (pkt_req pkt)
       then if pkt_attr IsInvalidate pkt then holder (entry sf l) AND NOT m else holder (entry sf l)
       else holder (entry sf l) OR m)"
    "requested i = requested (entry sf l) AND NOT m"
proof (cases "Request_isUncacheable (pkt_req pkt) \<or> \<not> port_isSnooping port")
  case True
  thus thesis
    using assms(2) that(1) by (auto simp: SnoopFilter_updateResponse_def result_eq_Inr)
next
  case False
  then obtain l where l: "line_address sf pkt = Inr l"
    using assms(2) by (auto simp: SnoopFilter_updateResponse_def result_eq_Inr)
  show thesis
  proof (cases "sf_find sf l")
    case None
    thus thesis
      using assms(2) that(1) l False by (auto simp: SnoopFilter_updateResponse_def result_eq_Inr)
  next
    case (Some item)
    then obtain m where m: "portToMask sf port = Inr m"
      using assms(2) l False by (auto simp: SnoopFilter_updateResponse_def result_eq_Inr)
    let ?mt = "Request_isCacheMaintenance (pkt_req pkt)"
    define i where "i = item\<lparr>requested := requested item AND NOT m,
       holder := if ?mt then if pkt_attr IsInvalidate pkt then holder item AND NOT m else holder item
                 else holder item OR m\<rparr>"
    have e: "entry sf l = item" by (simp add: entry_def Some)
    have "sf' = (if ?mt then SnoopFilter_eraseIfNullEntry l (sf_put l i sf) else sf_put l i sf)"
      "?mt \<or> \<not> null_item i"
      using assms(2) l m False Some
      by (cases item; auto simp: SnoopFilter_updateResponse_def result_eq_Inr Let_def i_def null_item_def
          or.commute split: if_splits)+
    moreover from this have "map_ok sf'"
      using assms(1) map_ok_put map_ok_eraseIfNull_put by (auto simp: sf_ok_def)
    ultimately show thesis
      using that(2) [OF l m, of i] by (simp add: sf_simps i_def e)
  qed
qed

section \<open>Steps keep the invariant\<close>

lemma step_lookup:
  assumes "sf_step (Request_call pkt port r) sf = Inr (ports, sf')"
  obtains lat sf1 where "SnoopFilter_lookupRequest pkt port sf = Inr ((ports, lat), sf1)"
  using assms by (auto simp: rbind_eq_Inr)

lemma sf_step_ok:
  assumes "sf_ok sf" "sf_step c sf = Inr (ports, sf')"
  shows "sf_config sf' = sf_config sf \<and> sf_ok sf'"
proof -
  have "sf_config sf' = sf_config sf \<and> map_ok sf'"
  proof (cases c)
    case (Request_call pkt port r)
    obtain lat sf1 where "SnoopFilter_lookupRequest pkt port sf = Inr ((ports, lat), sf1)"
      using step_lookup assms(2) Request_call by blast
    thus ?thesis
      by (rule request_step_effect [OF assms(1), of _ _ _ _ _ r]) (use assms(2) Request_call in simp)
  next
    case (Snoop_call pkt)
    show ?thesis
      by (rule snoop_step_effect [OF assms(1) assms(2) [unfolded Snoop_call]]) simp
  next
    case (Snoop_response_call pkt rsp req)
    show ?thesis
      by (rule snoop_response_step_effect [OF assms(1) assms(2) [unfolded Snoop_response_call]])
        (use assms(1) in \<open>auto simp: sf_ok_def\<close>)
  next
    case (Snoop_forward_call pkt)
    show ?thesis
      by (rule snoop_forward_step_effect [OF assms(1) assms(2) [unfolded Snoop_forward_call]])
        (use assms(1) in \<open>auto simp: sf_ok_def\<close>)
  next
    case (Response_call pkt port)
    show ?thesis
      by (rule response_step_effect [OF assms(1) assms(2) [unfolded Response_call]])
        (use assms(1) in \<open>simp_all add: sf_ok_def\<close>)
  qed
  thus ?thesis
    using assms(1) ports_ok_config [of sf' sf] by (simp add: sf_ok_def)
qed

lemma sf_run_ok:
  "sf_ok sf \<Longrightarrow> sf_run cs sf = Inr sf' \<Longrightarrow> sf_config sf' = sf_config sf \<and> sf_ok sf'"
proof (induction cs arbitrary: sf)
  case (Cons c cs)
  from Cons(3) obtain ports sf1 where s: "sf_step c sf = Inr (ports, sf1)" "sf_run cs sf1 = Inr sf'"
    by (auto simp: rbind_eq_Inr simp del: sf_step.simps)
  have "sf_config sf1 = sf_config sf \<and> sf_ok sf1"
    by (rule sf_step_ok [OF Cons(2) s(1)])
  thus ?case using Cons(1) [OF _ s(2)] by simp
qed simp

section \<open>Holders\<close>

lemma known_mask:
  assumes "ports_ok sf" "p \<in> set (cpuSidePorts sf)" "known_port sf q" "portToMask sf q = Inr m"
  shows "bit m (port_bit sf p) = (q = p)"
proof (cases "q \<in> set (cpuSidePorts sf)")
  case True
  have m: "m = push_bit (port_bit sf q) 1"
    using portToMask_ok [OF assms(1) True] assms(4) by simp
  have "port_bit sf p < 256" "(port_bit sf p = port_bit sf q) = (q = p)"
    using assms(1,2) True portToMask_ok by (auto simp: ports_ok_def inj_on_def)
  thus ?thesis
    unfolding m by (auto simp: bit_push_bit_iff bit_1_iff simp del: push_bit_of_1)
next
  case False
  hence "\<not> port_isSnooping q" using assms(3) by (simp add: known_port_def)
  moreover have "port_isSnooping p" using assms(1,2) by (simp add: ports_ok_def)
  ultimately show ?thesis
    using portToMask_other [of q sf m] assms(4) by auto
qed

fun call_known :: "SnoopFilter \<Rightarrow> sf_call \<Rightarrow> bool" where
  "call_known sf (Request_call pkt port r) = known_port sf port"
| "call_known sf (Snoop_call pkt) = True"
| "call_known sf (Snoop_response_call pkt rsp req) = (known_port sf rsp \<and> known_port sf req)"
| "call_known sf (Snoop_forward_call pkt) = True"
| "call_known sf (Response_call pkt port) = known_port sf port"

text \<open>
  The calls after which the filter may take a port off a line: the port evicts the line and no
  cache above keeps it, the line is invalidated from below, it is passed on to another port or
  downwards without leaving sharers, or an invalidating maintenance operation of the port completes.
\<close>

fun gives_up :: "SnoopFilter \<Rightarrow> ResponsePort \<Rightarrow> Addr \<Rightarrow> sf_call \<Rightarrow> bool" where
  "gives_up sf p l (Request_call pkt port r) =
    (line_address sf pkt = Inr l \<and> port = p \<and> \<not> r \<and> pkt_attr IsEviction pkt \<and>
     \<not> Packet_isBlockCached pkt)"
| "gives_up sf p l (Snoop_call pkt) = (line_address sf pkt = Inr l \<and> pkt_attr IsInvalidate pkt)"
| "gives_up sf p l (Snoop_response_call pkt rsp req) =
    (line_address sf pkt = Inr l \<and> \<not> Packet_hasSharers pkt \<and> req \<noteq> p)"
| "gives_up sf p l (Snoop_forward_call pkt) = (line_address sf pkt = Inr l \<and> \<not> Packet_hasSharers pkt)"
| "gives_up sf p l (Response_call pkt port) =
    (line_address sf pkt = Inr l \<and> port = p \<and> Request_isCacheMaintenance (pkt_req pkt) \<and>
     pkt_attr IsInvalidate pkt)"

lemma request_item_holder:
  assumes "request_item pkt m item = Inr item'"
  shows "holder item' = holder item \<or>
    pkt_attr IsEviction pkt \<and> \<not> Packet_isBlockCached pkt \<and> holder item' = holder item AND NOT m"
  using assms by (auto simp: request_item_def result_eq_Inr split: if_splits)

lemma holds_step:
  assumes "sf_ok sf" "p \<in> set (cpuSidePorts sf)" "call_known sf c" "sf_step c sf = Inr (ports, sf')"
    and "holds sf p l" "\<not> gives_up sf p l c"
  shows "holds sf' p l"
proof -
  have ok: "ports_ok sf" using assms(1) by (simp add: sf_ok_def)
  have b: "port_bit sf' = port_bit sf"
    using sf_step_ok [OF assms(1,4)] port_bit_config by blast
  have lt: "port_bit sf p < 256" using portToMask_ok [OF ok assms(2)] by simp
  have u: "entry sf' = entry sf \<Longrightarrow> ?thesis"
    using assms(5) b by (simp add: holds_def)
  show ?thesis
  proof (cases c)
    case (Request_call pkt port r)
    obtain lat sf1 where s: "SnoopFilter_lookupRequest pkt port sf = Inr ((ports, lat), sf1)"
      using step_lookup assms(4) Request_call by blast
    obtain k m item sf2 where e: "sf_step (Request_call pkt port r) sf = Inr (ports, sf2)"
      "line_address sf pkt = Inr k" "portToMask sf port = Inr m"
      "if request_allocates pkt port then request_item pkt m (entry sf k) = Inr item else item = entry sf k"
      "entry sf2 = (if r then entry sf else (entry sf)(k := item))"
      by (rule request_step_effect [OF assms(1) s, of r])
    have [simp]: "sf2 = sf'" using e(1) assms(4) Request_call by simp
    have m: "bit m (port_bit sf p) = (port = p)"
      using known_mask [OF ok assms(2) _ e(3)] assms(3) Request_call by simp
    have "bit (holder item) (port_bit sf p)" if "k = l" "\<not> r"
    proof (cases "request_allocates pkt port")
      case True
      thus ?thesis
        using request_item_holder [of pkt m "entry sf k" item] e(2,4) that assms(5,6) Request_call m lt
        by (auto simp: holds_def bit_and_iff bit_not_iff)
    qed (use that e(4) assms(5) in \<open>simp add: holds_def\<close>)
    thus ?thesis
      using e(5) assms(5) b by (auto simp: holds_def)
  next
    case (Snoop_call pkt)
    show ?thesis
      by (rule snoop_step_effect [OF assms(1) assms(4) [unfolded Snoop_call]])
        (use assms(5,6) Snoop_call b in \<open>auto simp: holds_def\<close>)
  next
    case (Snoop_response_call pkt rsp req)
    show ?thesis
    proof (rule snoop_response_step_effect [OF assms(1) assms(4) [unfolded Snoop_response_call]])
      fix k m i
      assume e: "line_address sf pkt = Inr k" "portToMask sf req = Inr m" "entry sf' = (entry sf)(k := i)"
        "holder i = (if Packet_hasSharers pkt then holder (entry sf k) else 0) OR m"
      have "bit m (port_bit sf p) = (req = p)"
        using known_mask [OF ok assms(2) _ e(2)] assms(3) Snoop_response_call by simp
      thus ?thesis
        using e assms(5,6) Snoop_response_call b by (auto simp: holds_def bit_or_iff)
    qed (use assms(5) in simp)
  next
    case (Snoop_forward_call pkt)
    show ?thesis
      by (rule snoop_forward_step_effect [OF assms(1) assms(4) [unfolded Snoop_forward_call]])
        (use assms(5,6) Snoop_forward_call b in \<open>auto simp: holds_def\<close>)
  next
    case (Response_call pkt port)
    show ?thesis
    proof (rule response_step_effect [OF assms(1) assms(4) [unfolded Response_call]])
      fix k m i
      assume e: "line_address sf pkt = Inr k" "portToMask sf port = Inr m" "entry sf' = (entry sf)(k := i)"
        "holder i = (if Request_isCacheMaintenance (pkt_req pkt)
           then if pkt_attr IsInvalidate pkt then holder (entry sf k) AND NOT m else holder (entry sf k)
           else holder (entry sf k) OR m)"
      have "bit m (port_bit sf p) = (port = p)"
        using known_mask [OF ok assms(2) _ e(2)] assms(3) Response_call by simp
      thus ?thesis
        using e assms(5,6) Response_call b lt by (auto simp: holds_def bit_or_iff bit_and_iff bit_not_iff)
    qed (use assms(5) in simp)
  qed
qed

lemma holds_run:
  assumes "sf_ok sf" "p \<in> set (cpuSidePorts sf)" "sf_run cs sf = Inr sf'" "holds sf p l"
    and "\<forall>c \<in> set cs. call_known sf c \<and> \<not> gives_up sf p l c"
  shows "holds sf' p l"
  using assms
proof (induction cs arbitrary: sf)
  case (Cons c cs)
  from Cons(4) obtain ports sf1 where s: "sf_step c sf = Inr (ports, sf1)" "sf_run cs sf1 = Inr sf'"
    by (auto simp: rbind_eq_Inr simp del: sf_step.simps)
  have ok: "sf_config sf1 = sf_config sf" "sf_ok sf1"
    using sf_step_ok [OF Cons(2) s(1)] by simp_all
  have same: "cpuSidePorts sf1 = cpuSidePorts sf" "call_known sf1 d = call_known sf d"
    "gives_up sf1 p l d = gives_up sf p l d" for d
    using ok(1) line_address_config [OF ok(1)]
    by (cases d; simp add: sf_config_def known_port_def)+
  show ?case
    using Cons(1) [OF ok(2) _ s(2)] holds_step [OF Cons(2,3) _ s(1) Cons(5)] Cons(3,6) same by simp
qed simp

lemma response_holds:
  assumes "sf_ok sf" "p \<in> set (cpuSidePorts sf)"
    and "sf_step (Response_call rsp p) sf = Inr (x, sf1)" "line_address sf rsp = Inr l"
    and "sf_find sf l \<noteq> None" "\<not> Request_isUncacheable (pkt_req rsp)" "\<not> Request_isCacheMaintenance (pkt_req rsp)"
  shows "holds sf1 p l"
proof (rule response_step_effect [OF assms(1,3)])
  have ok: "ports_ok sf" "sf_config sf1 = sf_config sf"
    using assms(1) sf_step_ok [OF assms(1,3)] by (simp_all add: sf_ok_def)
  fix k m i
  assume e: "line_address sf rsp = Inr k" "portToMask sf p = Inr m" "entry sf1 = (entry sf)(k := i)"
    "holder i = (if Request_isCacheMaintenance (pkt_req rsp)
         then if pkt_attr IsInvalidate rsp then holder (entry sf k) AND NOT m else holder (entry sf k)
         else holder (entry sf k) OR m)"
  have "bit m (port_bit sf p)"
    using known_mask [OF ok(1) assms(2) _ e(2)] assms(2) by (simp add: known_port_def)
  thus "holds sf1 p l"
    using e assms(4,7) port_bit_config [OF ok(2)] by (simp add: holds_def bit_or_iff)
next
  assume "\<forall>l. line_address sf rsp = Inr l \<longrightarrow> Request_isUncacheable (pkt_req rsp) \<or>
    \<not> port_isSnooping p \<or> sf_find sf l = None"
  thus "holds sf1 p l"
    using assms(1,2,4,5,6) by (auto simp: ports_ok_def sf_ok_def)
qed

lemma holder_snooped:
  assumes "sf_ok sf" "p \<in> set (cpuSidePorts sf)" "holds sf p l"
    "sf_step (Snoop_call pkt) sf = Inr (ports, sf')" "line_address sf pkt = Inr l"
  shows "p \<in> set ports"
  by (rule snoop_step_effect [OF assms(1,4)]) (use assms in \<open>auto simp: holds_def bit_or_iff\<close>)

lemma holder_asked:
  assumes "sf_ok sf" "p \<in> set (cpuSidePorts sf)" "holds sf p l"
    "sf_step (Request_call pkt q r) sf = Inr (ports, sf')" "line_address sf pkt = Inr l" "known_port sf q" "q \<noteq> p"
  shows "p \<in> set ports"
proof -
  have ok: "ports_ok sf"
    using assms(1) by (simp add: sf_ok_def)
  obtain lat sf4 where f: "SnoopFilter_lookupRequest pkt q sf = Inr ((ports, lat), sf4)"
    using step_lookup [OF assms(4)] .
  obtain k m where e: "line_address sf pkt = Inr k" "portToMask sf q = Inr m"
    "ports = filter (\<lambda>p. bit ((holder (entry sf k) OR requested (entry sf k)) AND NOT m) (port_bit sf p)) (cpuSidePorts sf)"
    by (rule request_step_effect [OF assms(1) f])
  have "\<not> bit m (port_bit sf p)"
    using known_mask [OF ok assms(2) _ e(2)] assms(6,7) by simp
  thus ?thesis
    using e assms(2,3,5) portToMask_ok [OF ok assms(2)] by (auto simp: holds_def bit_or_iff bit_and_iff bit_not_iff)
qed

text \<open>
  C5: no snoop is missed. Once a cacheable response has brought a tracked line to a port,
  that port is among the ports to snoop for every snoop of the line from below and every request
  for it from another port, as long as none of the calls in between gives the line up.
\<close>

theorem snoop_filter_no_missed_snoop:
  assumes "sf_ok sf" "p \<in> set (cpuSidePorts sf)"
    and "sf_step (Response_call rsp p) sf = Inr (x, sf1)" "line_address sf rsp = Inr l"
    and "sf_find sf l \<noteq> None" "\<not> Request_isUncacheable (pkt_req rsp)"
    and "\<not> Request_isCacheMaintenance (pkt_req rsp)"
    and "sf_run cs sf1 = Inr sf2" "\<forall>c \<in> set cs. call_known sf c \<and> \<not> gives_up sf p l c"
  shows "(\<forall>pkt ports sf3. sf_step (Snoop_call pkt) sf2 = Inr (ports, sf3) \<and> line_address sf pkt = Inr l \<longrightarrow>
      p \<in> set ports) \<and>
    (\<forall>pkt q r ports sf3. sf_step (Request_call pkt q r) sf2 = Inr (ports, sf3) \<and>
      line_address sf pkt = Inr l \<and> known_port sf q \<and> q \<noteq> p \<longrightarrow> p \<in> set ports)"
proof -
  have ok: "sf_config sf1 = sf_config sf" "sf_ok sf1" and c1: "cpuSidePorts sf1 = cpuSidePorts sf"
    using sf_step_ok [OF assms(1,3)] by (simp_all add: sf_config_def)
  have "call_known sf1 c \<and> \<not> gives_up sf1 p l c" if "c \<in> set cs" for c
    using assms(9) that line_address_config [OF ok(1)] c1 by (cases c) (auto simp: known_port_def)
  then have h: "holds sf2 p l"
    using holds_run [OF ok(2) _ assms(8)] response_holds [OF assms(1-7)] assms(2) c1 by simp
  have ok2: "sf_config sf2 = sf_config sf" "sf_ok sf2"
    using sf_run_ok [OF ok(2) assms(8)] ok(1) by simp_all
  have "p \<in> set (cpuSidePorts sf2)" "\<And>q. known_port sf2 q = known_port sf q"
    using ok2(1) assms(2) by (auto simp: sf_config_def known_port_def)
  then show ?thesis
    using holder_snooped [OF ok2(2) _ h] holder_asked [OF ok2(2) _ h] line_address_config [OF ok2(1)] by metis
qed

section \<open>Construction\<close>

lemma set_ports_inv:
  assumes "set_ports ps i sf = Inr (n, sf')" "0 \<le> i"
    and "\<forall>p \<in> set (cpuSidePorts sf). port_isSnooping p \<and> 0 \<le> port_id p \<and>
        nat (port_id p) < length (localResponsePortIds sf) \<and>
        0 \<le> localResponsePortIds sf ! nat (port_id p) \<and> localResponsePortIds sf ! nat (port_id p) < i"
    and "inj_on (port_bit sf) (set (cpuSidePorts sf))"
    and "distinct (map port_id (cpuSidePorts sf @ ps))" "\<forall>p \<in> set ps. 0 \<le> port_id p"
  shows "(\<forall>p \<in> set (cpuSidePorts sf'). port_isSnooping p \<and> 0 \<le> port_id p \<and>
        nat (port_id p) < length (localResponsePortIds sf') \<and>
        0 \<le> localResponsePortIds sf' ! nat (port_id p) \<and> localResponsePortIds sf' ! nat (port_id p) < n) \<and>
    inj_on (port_bit sf') (set (cpuSidePorts sf')) \<and>
    cachedLocations sf' = cachedLocations sf \<and> linesize sf' = linesize sf \<and>
    cpuSidePorts sf' = cpuSidePorts sf @ filter port_isSnooping ps"
  using assms
proof (induction ps i sf rule: set_ports.induct)
  case (2 p ps i sf)
  show ?case
  proof (cases "port_isSnooping p")
    case True
    let ?j = "nat (port_id p)"
    let ?sf = "sf\<lparr>cpuSidePorts := cpuSidePorts sf @ [p],
                localResponsePortIds := (localResponsePortIds sf)[?j := i]\<rparr>"
    have p: "0 \<le> port_id p" "?j < length (localResponsePortIds sf)" "set_ports ps (i + 1) ?sf = Inr (n, sf')"
      using 2(3) True by (auto split: if_splits)
    have ne: "nat (port_id q) \<noteq> ?j" if "q \<in> set (cpuSidePorts sf)" for q
      using 2(5,7) p(1) that by (auto simp: nat_eq_iff2)
    have keep: "port_bit ?sf q = port_bit sf q" if "q \<in> set (cpuSidePorts sf)" for q
      using ne [OF that] by (simp add: port_bit_def)
    have new: "port_bit ?sf p = nat i" using p by (simp add: port_bit_def)
    have "nat i \<notin> port_bit sf ` set (cpuSidePorts sf)"
      using 2(5) by (auto simp: port_bit_def eq_nat_nat_iff 2(4))
    hence inj: "inj_on (port_bit ?sf) (set (cpuSidePorts ?sf))"
      using 2(6) keep new inj_on_cong [of "set (cpuSidePorts sf)" "port_bit ?sf" "port_bit sf"]
        image_cong [OF refl keep] by auto
    have old: "\<forall>q \<in> set (cpuSidePorts ?sf). port_isSnooping q \<and> 0 \<le> port_id q \<and>
        nat (port_id q) < length (localResponsePortIds ?sf) \<and>
        0 \<le> localResponsePortIds ?sf ! nat (port_id q) \<and> localResponsePortIds ?sf ! nat (port_id q) < i + 1"
      using 2(4,5) ne p True by fastforce
    have d: "distinct (map port_id (cpuSidePorts ?sf @ ps))" "\<forall>q \<in> set ps. 0 \<le> port_id q" "0 \<le> i + 1"
      using 2(4,7,8) by simp_all
    have e: "cpuSidePorts ?sf @ filter port_isSnooping ps = cpuSidePorts sf @ filter port_isSnooping (p # ps)"
      "cachedLocations ?sf = cachedLocations sf" "linesize ?sf = linesize sf"
      using True by simp_all
    show ?thesis
      using 2(1) [OF True conjI [OF p(1,2)] p(3) d(3) old inj d(1,2)] unfolding e .
  next
    case False
    have h: "set_ports ps i sf = Inr (n, sf')" "distinct (map port_id (cpuSidePorts sf @ ps))"
      "\<forall>q \<in> set ps. 0 \<le> port_id q" and e: "filter port_isSnooping ps = filter port_isSnooping (p # ps)"
      using 2(3,7,8) False by simp_all
    show ?thesis
      using 2(2) [OF False h(1) 2(4-6) h(2,3)] unfolding e .
  qed
qed simp

lemma setCPUSidePorts_ok:
  assumes "SnoopFilter_new cls lat cap = Inr sf0" "cls < 2 ^ 32"
    and "SnoopFilter_setCPUSidePorts ports sf0 = Inr sf"
    and "distinct (map port_id ports)" "\<forall>p \<in> set ports. 0 \<le> port_id p"
  shows "sf_ok sf \<and> cpuSidePorts sf = filter port_isSnooping ports"
proof -
  have n: "cachedLocations sf0 = []" "cpuSidePorts sf0 = []" "0 < linesize sf0" "linesize sf0 < 2 ^ 32"
    using assms(1,2) by (auto simp: SnoopFilter_new_def word_gt_0 split: if_splits)
  obtain k where s: "set_ports ports 0 (sf0\<lparr>localResponsePortIds :=
      take (length ports) (localResponsePortIds sf0 @ replicate (length ports) (- 1))\<rparr>) = Inr (k, sf)" "k \<le> 256"
    using assms(3) by (auto simp: SnoopFilter_setCPUSidePorts_def result_eq_Inr)
  have i: "(\<forall>p \<in> set (cpuSidePorts sf). port_isSnooping p \<and> 0 \<le> port_id p \<and>
        nat (port_id p) < length (localResponsePortIds sf) \<and>
        0 \<le> localResponsePortIds sf ! nat (port_id p) \<and> localResponsePortIds sf ! nat (port_id p) < k) \<and>
    inj_on (port_bit sf) (set (cpuSidePorts sf)) \<and>
    cachedLocations sf = [] \<and> linesize sf = linesize sf0 \<and> cpuSidePorts sf = filter port_isSnooping ports"
  proof -
    let ?sf = "sf0\<lparr>localResponsePortIds :=
      take (length ports) (localResponsePortIds sf0 @ replicate (length ports) (- 1))\<rparr>"
    have e: "cpuSidePorts ?sf = []" "cachedLocations ?sf = []" "linesize ?sf = linesize sf0"
      by (simp_all add: n)
    have d: "distinct (map port_id ([] @ ports))" "inj_on (port_bit ?sf) (set [])"
      "\<forall>p \<in> set []. port_isSnooping p \<and> 0 \<le> port_id p \<and>
        nat (port_id p) < length (localResponsePortIds ?sf) \<and>
        0 \<le> localResponsePortIds ?sf ! nat (port_id p) \<and> localResponsePortIds ?sf ! nat (port_id p) < 0"
      using assms(4) by simp_all
    show ?thesis
      using set_ports_inv [OF s(1) order_refl, unfolded e, OF d(3,2,1) assms(5)] unfolding append_Nil .
  qed
  have c: "cachedLocations sf = []" "linesize sf = linesize sf0" "cpuSidePorts sf = filter port_isSnooping ports"
    using i by blast+
  have "port_bit sf p < 256" if "p \<in> set (cpuSidePorts sf)" for p
  proof -
    have "localResponsePortIds sf ! nat (port_id p) < k"
      using i that by blast
    thus ?thesis using s(2) by (simp add: port_bit_def)
  qed
  hence "ports_ok sf"
    using i n(3,4) unfolding ports_ok_def c(2) by blast
  thus ?thesis
    using c(1,3) by (simp add: sf_ok_def map_ok_def sf_find_def)
qed

text \<open>
  C19: a filter connected to ports with distinct ids keeps its invariant whatever calls the
  crossbar makes: one entry per line, no entry without a requesting or holding port, and a mask
  bit of its own for every snooping port.
\<close>

theorem snoop_filter_invariant:
  assumes "SnoopFilter_new cls lat cap = Inr sf0" "cls < 2 ^ 32"
    and "SnoopFilter_setCPUSidePorts ports sf0 = Inr sf1"
    and "distinct (map port_id ports)" "\<forall>p \<in> set ports. 0 \<le> port_id p"
    and "sf_run cs sf1 = Inr sf"
  shows "distinct (map fst (cachedLocations sf)) \<and>
    (\<forall>l item. sf_find sf l = Some item \<longrightarrow> requested item OR holder item \<noteq> 0) \<and>
    cpuSidePorts sf = filter port_isSnooping ports \<and>
    (\<forall>p \<in> set (cpuSidePorts sf). portToMask sf p = Inr (push_bit (port_bit sf p) 1) \<and> port_bit sf p < 256) \<and>
    inj_on (port_bit sf) (set (cpuSidePorts sf))"
proof -
  have s: "sf_ok sf1" "cpuSidePorts sf1 = filter port_isSnooping ports"
    using setCPUSidePorts_ok [OF assms(1-5)] by simp_all
  have r: "sf_config sf = sf_config sf1" "sf_ok sf"
    using sf_run_ok [OF s(1) assms(6)] by simp_all
  have "\<forall>p \<in> set (cpuSidePorts sf). portToMask sf p = Inr (push_bit (port_bit sf p) 1) \<and> port_bit sf p < 256"
    using r(2) portToMask_ok by (simp add: sf_ok_def)
  thus ?thesis
    using r s(2) by (simp add: sf_config_def sf_ok_def map_ok_def null_item_def ports_ok_def)
qed

section \<open>A run\<close>

definition sample_port :: "int \<Rightarrow> ResponsePort" where
  "sample_port i = \<lparr>port_id = i, port_isSnooping = True\<rparr>"

definition sample_filter :: "(Addr \<times> SnoopItem) list \<Rightarrow> SnoopFilter" where
  "sample_filter m =
    \<lparr>cachedLocations = m, lookup_it = At_end, retryItem = SnoopItem_empty,
     cpuSidePorts = [sample_port 0, sample_port 1], localResponsePortIds = [0, 1], linesize = 64,
     lookupLatency = 1, maxEntryCount = 8\<rparr>"

lemmas sample_eval =
  sample_filter_def sample_port_def sample_packet_def Packet_blank_def Request_default_def
  line_address_def Packet_getBlockAddr_def Packet_getAddr_def Packet_isSecure_def Flags_isSet_def
  SnoopFilter_lookupRequest_def SnoopFilter_finishRequest_def SnoopFilter_updateResponse_def
  SnoopFilter_eraseIfNullEntry_def snoopSelected_def maskToPortList_def portToMask_def request_item_def
  sf_find_def sf_put_def sf_erase_def SnoopItem_empty_def Request_isUncacheable_def
  Request_isCacheMaintenance_def Packet_cacheResponding_def Let_def

lemma sample_commands:
  "pkt_attr FromCache (sample_packet ReadSharedReq d)" "pkt_attr NeedsResponse (sample_packet ReadSharedReq d)"
  "\<not> pkt_attr IsEviction (sample_packet ReadSharedReq d)" "pkt_attr IsResponse (sample_packet ReadResp d)"
  "\<not> pkt_attr IsInvalidate (sample_packet ReadResp d)"
  by (simp_all add: sample_packet_def Packet_blank_def command_eval)

lemma sample_ok: "sf_ok (sample_filter [])" "sf_ok (sample_filter [(0x1000, \<lparr>requested = 1, holder = 0\<rparr>)])"
  by (auto simp: sf_ok_def ports_ok_def map_ok_def sample_filter_def sample_port_def port_bit_def inj_on_def
      sf_find_def null_item_def split: if_splits)

theorem retry_restores_filter_witness:
  "\<exists>r sf1 sf2. SnoopFilter_lookupRequest (sample_packet ReadSharedReq [7, 8]) (sample_port 0) (sample_filter []) =
      Inr (r, sf1) \<and> sf_find sf1 0x1000 \<noteq> None \<and>
    SnoopFilter_finishRequest True 0x1000 False sf1 = Inr sf2 \<and> sf_find sf2 = sf_find (sample_filter [])"
proof -
  let ?p = "sample_packet ReadSharedReq [7, 8]"
  obtain ports lat sf1 where r: "SnoopFilter_lookupRequest ?p (sample_port 0) (sample_filter []) =
      Inr ((ports, lat), sf1)" "sf_find sf1 0x1000 \<noteq> None"
    using sample_commands(1,2) [of "[7, 8]"] by (simp add: sample_eval)
  thus ?thesis
    using retry_restores_filter [OF sample_ok(1) r(1)] by (auto simp: sample_packet_def Packet_blank_def)
qed

theorem snoop_filter_no_missed_snoop_witness:
  "\<exists>x sf1 sf2. sf_step (Response_call (sample_packet ReadResp [7, 8]) (sample_port 0))
      (sample_filter [(0x1000, \<lparr>requested = 1, holder = 0\<rparr>)]) = Inr (x, sf1) \<and>
    sf_run [Request_call (sample_packet ReadSharedReq [7, 8]) (sample_port 1) False] sf1 = Inr sf2 \<and>
    (\<forall>pkt ports sf3. sf_step (Snoop_call pkt) sf2 = Inr (ports, sf3) \<and>
      line_address (sample_filter [(0x1000, \<lparr>requested = 1, holder = 0\<rparr>)]) pkt = Inr 0x1000 \<longrightarrow>
      sample_port 0 \<in> set ports)"
proof -
  let ?sf = "sample_filter [(0x1000, \<lparr>requested = 1, holder = 0\<rparr>)]"
  let ?rsp = "sample_packet ReadResp [7, 8]" and ?c = "Request_call (sample_packet ReadSharedReq [7, 8]) (sample_port 1) False"
  note c = sample_commands [of "[7, 8]"]
  obtain x sf1 sf2 where r: "sf_step (Response_call ?rsp (sample_port 0)) ?sf = Inr (x, sf1)"
    "sf_run [?c] sf1 = Inr sf2"
    using c by (simp add: sample_eval)
  have h: "sample_port 0 \<in> set (cpuSidePorts ?sf)" "line_address ?sf ?rsp = Inr 0x1000"
    "sf_find ?sf 0x1000 \<noteq> None" "\<not> Request_isUncacheable (pkt_req ?rsp)"
    "\<not> Request_isCacheMaintenance (pkt_req ?rsp)"
    by (simp_all add: sample_eval)
  have k: "\<forall>d \<in> set [?c]. call_known ?sf d \<and> \<not> gives_up ?sf (sample_port 0) 0x1000 d"
    by (simp add: known_port_def sample_filter_def sample_port_def)
  show ?thesis
    using snoop_filter_no_missed_snoop [OF sample_ok(2) h(1) r(1) h(2-5) r(2) k] r by blast
qed

theorem snoop_filter_invariant_witness:
  "\<exists>sf0 sf1 sf. SnoopFilter_new 64 1 512 = Inr sf0 \<and>
    SnoopFilter_setCPUSidePorts [sample_port 0, sample_port 1] sf0 = Inr sf1 \<and>
    sf_run [Request_call (sample_packet ReadSharedReq [7, 8]) (sample_port 1) False] sf1 = Inr sf \<and>
    sf_find sf 0x1000 \<noteq> None \<and> distinct (map fst (cachedLocations sf))"
proof -
  let ?c = "Request_call (sample_packet ReadSharedReq [7, 8]) (sample_port 1) False"
  let ?ps = "[sample_port 0, sample_port 1]"
  obtain sf0 sf1 sf where r: "SnoopFilter_new 64 1 512 = Inr sf0" "SnoopFilter_setCPUSidePorts ?ps sf0 = Inr sf1"
    "sf_run [?c] sf1 = Inr sf" "sf_find sf 0x1000 \<noteq> None"
    using sample_commands [of "[7, 8]"]
    by (simp add: sample_eval SnoopFilter_new_def SnoopFilter_setCPUSidePorts_def)
  have p: "(64 :: 64 word) < 2 ^ 32" "distinct (map port_id ?ps)" "\<forall>p \<in> set ?ps. 0 \<le> port_id p"
    by (simp_all add: sample_port_def)
  show ?thesis
    using snoop_filter_invariant [OF r(1) p(1) r(2) p(2,3) r(3)] r by blast
qed

end
