(* ===== verification/Compressor.thy ===== *)
theory Compressor
  imports Bitfield
begin

text \<open>
  The cache compressors of \<open>mem/cache/compressors\<close>: the splitting of a block into chunks
  (\<open>base.cc\<close>), the dictionary compressor template with its patterns
  (\<open>dictionary_compressor.hh\<close>, \<open>dictionary_compressor_impl.hh\<close>) and the compressors made from it:
  CPack, FPC, FPCD, Zero, RepeatedQwords and BaseDelta; Perfect.

  The template argument \<open>T\<close> is represented by its size in bytes; a value of type \<open>T\<close> is a 64-bit
  word below \<open>2 ^ (8 * sz)\<close> and a dictionary entry the list of its bytes, lowest first. What a
  read of the dictionary vector outside its bounds gives, which \<open>decompressValue\<close> does, is the parameter
  \<open>outside\<close>: bytes, if the memory after the vector can be read, or an error. Statistics are left out.
\<close>

type_synonym DictionaryEntry = "8 word list"

section \<open>Chunks\<close>

record comp_params =
  blkSize :: nat
  chunkSizeBits :: nat
  sizeThreshold :: nat
  compChunksPerCycle :: nat
  compExtraLatency :: nat
  decompChunksPerCycle :: nat
  decompExtraLatency :: nat
  dictionarySize :: nat

definition Compressor_params_ok :: "comp_params \<Rightarrow> unit result" where
  "Compressor_params_ok p =
    (if chunkSizeBits p = 0 then Inl (Undefined ''64 % 0'')
     else fatal_if (64 mod chunkSizeBits p \<noteq> 0) ''64 must be a multiple of the chunk granularity''
      (fatal_if (8 * blkSize p div chunkSizeBits p < compChunksPerCycle p) ''Compressor processes more chunks''
      (fatal_if (8 * blkSize p div chunkSizeBits p < decompChunksPerCycle p) ''Decompressor processes more chunks''
      (fatal_if (blkSize p < sizeThreshold p) ''Compressed data must fit in a block'' (Inr ())))))"

fun chunk_loop :: "nat \<Rightarrow> 64 word list \<Rightarrow> nat list \<Rightarrow> 64 word list result" where
  "chunk_loop csb data [] = Inr []"
| "chunk_loop csb data (i # is) =
    (let n = 64 div csb; index_64 = i div n; start = i mod n in
     if index_64 < length data then
       rbind (bf_bits (data ! index_64) ((start + 1) * csb - 1) (start * csb)) (\<lambda>c.
       rbind (chunk_loop csb data is) (\<lambda>cs. Inr (c # cs)))
     else Inl (Undefined ''data[index_64]''))"

definition toChunks :: "comp_params \<Rightarrow> 64 word list \<Rightarrow> 64 word list result" where
  "toChunks p data = chunk_loop (chunkSizeBits p) data [0..<blkSize p * 8 div chunkSizeBits p]"

fun unchunk_loop :: "nat \<Rightarrow> 64 word list \<Rightarrow> nat \<Rightarrow> 64 word list \<Rightarrow> 64 word list result" where
  "unchunk_loop csb [] i data = Inr data"
| "unchunk_loop csb (c # cs) i data =
    (let n = 64 div csb; index_64 = i div n; start = i mod n in
     if index_64 < length data then
       rbind (bf_insertBits (data ! index_64) ((start + 1) * csb - 1) (start * csb) c) (\<lambda>w.
         unchunk_loop csb cs (Suc i) (data[index_64 := w]))
     else Inl (Undefined ''data[index_64]''))"

definition fromChunks :: "comp_params \<Rightarrow> 64 word list \<Rightarrow> 64 word list result" where
  "fromChunks p chunks = unchunk_loop (chunkSizeBits p) chunks 0 (replicate (blkSize p div 8) 0)"

section \<open>Dictionary entries\<close>

fun toDictionaryEntry :: "nat \<Rightarrow> 64 word \<Rightarrow> DictionaryEntry" where
  "toDictionaryEntry 0 value = []"
| "toDictionaryEntry (Suc n) value = ucast (value AND 0xFF) # toDictionaryEntry n (drop_bit 8 value)"

fun fromDictionaryEntry :: "DictionaryEntry \<Rightarrow> 64 word" where
  "fromDictionaryEntry [] = 0"
| "fromDictionaryEntry (b # bs) = push_bit 8 (fromDictionaryEntry bs) OR ucast b"

section \<open>Patterns\<close>

text \<open>
  The pattern classes with the data they keep. A zero run of FPC also has its length so far and
  its real size in bits.
\<close>

datatype pattern_body =
    UncompressedPattern DictionaryEntry
  | MaskedPattern "64 word" "64 word"
  | MaskedValuePattern "64 word" "64 word" "64 word"
  | RepeatedValuePattern "8 word"
  | DeltaPattern DictionaryEntry
  | SignExtendedPattern nat "64 word"
  | SignExtendedTwoHalfwords "8 word" "8 word"

record Pattern =
  patternNumber :: nat
  pat_code :: "8 word"
  pat_length :: nat
  numUnmatchedBits :: nat
  matchLocation :: int
  pat_allocate :: bool
  zeroRun :: "(nat \<times> nat) option"
  pat_body :: pattern_body

definition Pattern_getSizeBits :: "Pattern \<Rightarrow> nat" where
  "Pattern_getSizeBits p =
    (case zeroRun p of Some (runLength, realSize) \<Rightarrow> realSize
     | None \<Rightarrow> numUnmatchedBits p + pat_length p)"

definition Pattern_getMatchLocation :: "Pattern \<Rightarrow> nat" where
  "Pattern_getMatchLocation p = nat (matchLocation p mod 256)"

definition newUncompressed :: "nat \<Rightarrow> nat \<Rightarrow> 8 word \<Rightarrow> nat \<Rightarrow> int \<Rightarrow> DictionaryEntry \<Rightarrow> Pattern" where
  "newUncompressed sz number cd metadata_length match_location bytes =
    \<lparr>patternNumber = number, pat_code = cd, pat_length = metadata_length, numUnmatchedBits = sz * 8,
     matchLocation = match_location, pat_allocate = True, zeroRun = None,
     pat_body = UncompressedPattern bytes\<rparr>"

definition newMasked :: "nat \<Rightarrow> 64 word \<Rightarrow> nat \<Rightarrow> 8 word \<Rightarrow> nat \<Rightarrow> int \<Rightarrow> DictionaryEntry \<Rightarrow> bool \<Rightarrow> Pattern" where
  "newMasked sz m number cd metadata_length match_location bytes alloc =
    \<lparr>patternNumber = number, pat_code = cd, pat_length = metadata_length,
     numUnmatchedBits = popCount (NOT m AND bf_mask (8 * sz)), matchLocation = match_location,
     pat_allocate = alloc, zeroRun = None,
     pat_body = MaskedPattern m (fromDictionaryEntry bytes AND NOT m)\<rparr>"

definition newMaskedValue ::
    "nat \<Rightarrow> 64 word \<Rightarrow> 64 word \<Rightarrow> nat \<Rightarrow> 8 word \<Rightarrow> nat \<Rightarrow> int \<Rightarrow> DictionaryEntry \<Rightarrow> bool \<Rightarrow> Pattern" where
  "newMaskedValue sz v m number cd metadata_length match_location bytes alloc =
    (newMasked sz m number cd metadata_length match_location bytes alloc)
      \<lparr>pat_body := MaskedValuePattern v m (fromDictionaryEntry bytes AND NOT m)\<rparr>"

definition newRepeatedByte :: "nat \<Rightarrow> 8 word \<Rightarrow> nat \<Rightarrow> int \<Rightarrow> DictionaryEntry \<Rightarrow> bool \<Rightarrow> Pattern" where
  "newRepeatedByte number cd metadata_length match_location bytes alloc =
    \<lparr>patternNumber = number, pat_code = cd, pat_length = metadata_length, numUnmatchedBits = 8,
     matchLocation = match_location, pat_allocate = alloc, zeroRun = None,
     pat_body = RepeatedValuePattern (ucast (fromDictionaryEntry bytes))\<rparr>"

definition newDelta :: "nat \<Rightarrow> nat \<Rightarrow> 8 word \<Rightarrow> nat \<Rightarrow> int \<Rightarrow> DictionaryEntry \<Rightarrow> Pattern" where
  "newDelta deltaSizeBits number cd metadata_length match_location bytes =
    \<lparr>patternNumber = number, pat_code = cd, pat_length = metadata_length,
     numUnmatchedBits = deltaSizeBits, matchLocation = match_location, pat_allocate = False,
     zeroRun = None, pat_body = DeltaPattern bytes\<rparr>"

definition newSignExtended :: "nat \<Rightarrow> nat \<Rightarrow> 8 word \<Rightarrow> nat \<Rightarrow> DictionaryEntry \<Rightarrow> Pattern" where
  "newSignExtended N number cd metadata_length bytes =
    \<lparr>patternNumber = number, pat_code = cd, pat_length = metadata_length, numUnmatchedBits = N,
     matchLocation = - 1, pat_allocate = False, zeroRun = None,
     pat_body = SignExtendedPattern N (fromDictionaryEntry bytes AND bf_mask N)\<rparr>"

definition isMasked :: "64 word \<Rightarrow> DictionaryEntry \<Rightarrow> DictionaryEntry \<Rightarrow> int \<Rightarrow> bool" where
  "isMasked m bytes dict_bytes match_location =
    (match_location \<ge> 0 \<and> fromDictionaryEntry bytes AND m = fromDictionaryEntry dict_bytes AND m)"

definition isMaskedValue :: "64 word \<Rightarrow> 64 word \<Rightarrow> DictionaryEntry \<Rightarrow> bool" where
  "isMaskedValue v m bytes = (v AND m = fromDictionaryEntry bytes AND m)"

definition isLocatedMasked ::
    "64 word \<Rightarrow> int \<Rightarrow> DictionaryEntry \<Rightarrow> DictionaryEntry \<Rightarrow> int \<Rightarrow> bool" where
  "isLocatedMasked m location bytes dict_bytes match_location =
    (match_location = location \<and> isMasked m bytes dict_bytes match_location)"

fun repeated_loop :: "nat \<Rightarrow> 64 word \<Rightarrow> 8 word \<Rightarrow> bool" where
  "repeated_loop 0 bytes_value rep_value = True"
| "repeated_loop (Suc n) bytes_value rep_value =
    (if ucast bytes_value \<noteq> rep_value then False else repeated_loop n (drop_bit 8 bytes_value) rep_value)"

definition isRepeatedByte :: "nat \<Rightarrow> DictionaryEntry \<Rightarrow> bool" where
  "isRepeatedByte sz bytes =
    (let bytes_value = fromDictionaryEntry bytes in repeated_loop sz bytes_value (ucast bytes_value))"

definition isDelta :: "nat \<Rightarrow> nat \<Rightarrow> DictionaryEntry \<Rightarrow> DictionaryEntry \<Rightarrow> int \<Rightarrow> bool" where
  "isDelta sz deltaSizeBits bytes dict_bytes match_location =
    (let limit = (if deltaSizeBits \<noteq> 0 then uint (bf_mask (deltaSizeBits - 1)) else 0);
         delta = signed_take_bit (8 * sz - 1)
           (uint (fromDictionaryEntry bytes) - uint (fromDictionaryEntry dict_bytes)) in
     match_location \<ge> 0 \<and> delta \<ge> - limit \<and> delta \<le> limit)"

definition isSignExtended :: "nat \<Rightarrow> nat \<Rightarrow> DictionaryEntry \<Rightarrow> bool" where
  "isSignExtended sz N bytes =
    (let data = fromDictionaryEntry bytes in data = bf_szext data N AND bf_mask (8 * sz))"

text \<open>
  \<open>int16_t\<close> and \<open>uint16_t\<close> are both promoted to \<open>int\<close> for the comparison.
\<close>

definition isSignExtendedTwoHalfwords :: "DictionaryEntry \<Rightarrow> bool" where
  "isSignExtendedTwoHalfwords bytes =
    (let data = fromDictionaryEntry bytes;
         h0 = (ucast (data AND bf_mask 16) :: 16 word);
         h1 = (ucast (drop_bit 16 data AND bf_mask 16) :: 16 word) in
     sint h0 = uint (ucast (bf_szext (scast h0) 8) :: 16 word) \<and>
     sint h1 = uint (ucast (bf_szext (scast h1) 8) :: 16 word))"

fun repeat_byte :: "nat \<Rightarrow> 8 word \<Rightarrow> 64 word \<Rightarrow> 64 word" where
  "repeat_byte 0 value decomp_value = decomp_value"
| "repeat_byte (Suc n) value decomp_value = repeat_byte n value (push_bit 8 decomp_value OR ucast value)"

fun Pattern_decompress :: "nat \<Rightarrow> pattern_body \<Rightarrow> DictionaryEntry \<Rightarrow> DictionaryEntry" where
  "Pattern_decompress sz (UncompressedPattern bytes) dict_bytes = bytes"
| "Pattern_decompress sz (MaskedPattern m bits) dict_bytes =
    toDictionaryEntry sz (bits OR (fromDictionaryEntry dict_bytes AND m))"
| "Pattern_decompress sz (MaskedValuePattern v m bits) dict_bytes =
    toDictionaryEntry sz (bits OR (fromDictionaryEntry (toDictionaryEntry sz v) AND m))"
| "Pattern_decompress sz (RepeatedValuePattern value) dict_bytes =
    toDictionaryEntry sz (repeat_byte sz value 0)"
| "Pattern_decompress sz (DeltaPattern bytes) dict_bytes = bytes"
| "Pattern_decompress sz (SignExtendedPattern N bits) dict_bytes =
    toDictionaryEntry sz (bf_sext bits N)"
| "Pattern_decompress sz (SignExtendedTwoHalfwords b0 b1) dict_bytes =
    (let h0 = (ucast (bf_szext (scast b0) 8) :: 16 word);
         h1 = (ucast (bf_szext (scast b1) 8) :: 16 word) in
     toDictionaryEntry sz (push_bit 16 (ucast h1) OR ucast h0))"

section \<open>The dictionary compressors\<close>

text \<open>
  One constructor per class; \<open>FPC\<close> carries \<open>zeroRunSizeBits\<close>, \<open>BaseDelta\<close> the size in bytes of
  \<open>BaseType\<close> and \<open>DeltaSizeBits\<close>.
\<close>

datatype dict_class = CPack | FPC nat | FPCD | Zero | RepeatedQwords | BaseDelta nat nat

fun sizeofT :: "dict_class \<Rightarrow> nat" where
  "sizeofT CPack = 4"
| "sizeofT (FPC _) = 4"
| "sizeofT FPCD = 4"
| "sizeofT Zero = 8"
| "sizeofT RepeatedQwords = 8"
| "sizeofT (BaseDelta sz _) = sz"

definition CPack_getPattern :: "DictionaryEntry \<Rightarrow> DictionaryEntry \<Rightarrow> int \<Rightarrow> Pattern" where
  "CPack_getPattern bytes dict_bytes loc =
    (if isMaskedValue 0 0xFFFFFFFF bytes then newMaskedValue 4 0 0xFFFFFFFF 0 0x0 2 loc bytes False
     else if isMasked 0xFFFFFFFF bytes dict_bytes loc then newMasked 4 0xFFFFFFFF 2 0x2 6 loc bytes True
     else if isMaskedValue 0 0xFFFFFF00 bytes then newMaskedValue 4 0 0xFFFFFF00 4 0xD 4 loc bytes False
     else if isMasked 0xFFFFFF00 bytes dict_bytes loc then newMasked 4 0xFFFFFF00 5 0xE 8 loc bytes True
     else if isMasked 0xFFFF0000 bytes dict_bytes loc then newMasked 4 0xFFFF0000 3 0xC 8 loc bytes True
     else newUncompressed 4 1 0x1 2 loc bytes)"

definition FPC_newZeroRun :: "DictionaryEntry \<Rightarrow> Pattern" where
  "FPC_newZeroRun bytes =
    (newMaskedValue 4 0 0xFFFFFFFF 0 0 3 (- 1) bytes False) \<lparr>zeroRun := Some (0, 0)\<rparr>"

definition FPC_newTwoHalfwords :: "DictionaryEntry \<Rightarrow> Pattern" where
  "FPC_newTwoHalfwords bytes =
    \<lparr>patternNumber = 5, pat_code = 5, pat_length = 3, numUnmatchedBits = 16, matchLocation = - 1,
     pat_allocate = False, zeroRun = None,
     pat_body = SignExtendedTwoHalfwords (ucast (fromDictionaryEntry bytes AND bf_mask 8))
       (ucast (drop_bit 16 (fromDictionaryEntry bytes) AND bf_mask 8))\<rparr>"

definition FPC_getPattern :: "DictionaryEntry \<Rightarrow> DictionaryEntry \<Rightarrow> int \<Rightarrow> Pattern" where
  "FPC_getPattern bytes dict_bytes loc =
    (if isMaskedValue 0 0xFFFFFFFF bytes then FPC_newZeroRun bytes
     else if isSignExtended 4 4 bytes then newSignExtended 4 1 1 3 bytes
     else if isSignExtended 4 8 bytes then newSignExtended 8 2 2 3 bytes
     else if isSignExtended 4 16 bytes then newSignExtended 16 3 3 3 bytes
     else if isMaskedValue 0 0x0000FFFF bytes then newMaskedValue 4 0 0x0000FFFF 4 4 3 (- 1) bytes False
     else if isSignExtendedTwoHalfwords bytes then FPC_newTwoHalfwords bytes
     else if isRepeatedByte 4 bytes then newRepeatedByte 6 6 3 (- 1) bytes False
     else newUncompressed 4 7 7 3 (- 1) bytes)"

definition FPCD_getPattern :: "DictionaryEntry \<Rightarrow> DictionaryEntry \<Rightarrow> int \<Rightarrow> Pattern" where
  "FPCD_getPattern bytes dict_bytes loc =
    (if isMaskedValue 0 0xFFFFFFFF bytes then newMaskedValue 4 0 0xFFFFFFFF 0 0x0 4 loc bytes True
     else if isMaskedValue 0xFFFFFFFF 0xFFFFFFFF bytes
       then newMaskedValue 4 0xFFFFFFFF 0xFFFFFFFF 1 0x1 4 loc bytes True
     else if isLocatedMasked 0xFFFFFFFF 1 bytes dict_bytes loc then newMasked 4 0xFFFFFFFF 3 0x2 4 loc bytes True
     else if isLocatedMasked 0xFFFFFFFF 0 bytes dict_bytes loc then newMasked 4 0xFFFFFFFF 2 0x3 4 loc bytes True
     else if isMaskedValue 0 0xFFFFFF00 bytes then newMaskedValue 4 0 0xFFFFFF00 4 0x4 4 loc bytes True
     else if isMaskedValue 0 0x00FFFFFF bytes then newMaskedValue 4 0 0x00FFFFFF 5 0x5 4 loc bytes True
     else if isRepeatedByte 4 bytes then newRepeatedByte 6 0x6 4 loc bytes True
     else if isLocatedMasked 0xFFFFFF00 1 bytes dict_bytes loc then newMasked 4 0xFFFFFF00 8 0x7 4 loc bytes True
     else if isLocatedMasked 0xFFFFFF00 0 bytes dict_bytes loc then newMasked 4 0xFFFFFF00 7 0x8 4 loc bytes True
     else if isMaskedValue 0 0xFFFF0000 bytes then newMaskedValue 4 0 0xFFFF0000 9 0x9 4 loc bytes True
     else if isMaskedValue 0 0xFF00FF00 bytes then newMaskedValue 4 0 0xFF00FF00 10 0xA 4 loc bytes True
     else if isMaskedValue 0xFFFFFFFF 0xFFFF0000 bytes
       then newMaskedValue 4 0xFFFFFFFF 0xFFFF0000 11 0xB 4 loc bytes True
     else if isMaskedValue 0 0x0000FFFF bytes then newMaskedValue 4 0 0x0000FFFF 12 0xC 4 loc bytes True
     else if isLocatedMasked 0xFFFF0000 1 bytes dict_bytes loc then newMasked 4 0xFFFF0000 14 0xD 4 loc bytes True
     else if isLocatedMasked 0xFFFF0000 0 bytes dict_bytes loc then newMasked 4 0xFFFF0000 13 0xE 4 loc bytes True
     else newUncompressed 4 15 0xF 4 loc bytes)"

definition Zero_getPattern :: "DictionaryEntry \<Rightarrow> DictionaryEntry \<Rightarrow> int \<Rightarrow> Pattern" where
  "Zero_getPattern bytes dict_bytes loc =
    (if isMaskedValue 0 0xFFFFFFFFFFFFFFFF bytes
     then newMaskedValue 8 0 0xFFFFFFFFFFFFFFFF 1 1 0 loc bytes False
     else newUncompressed 8 0 0 0 loc bytes)"

definition RepeatedQwords_getPattern :: "DictionaryEntry \<Rightarrow> DictionaryEntry \<Rightarrow> int \<Rightarrow> Pattern" where
  "RepeatedQwords_getPattern bytes dict_bytes loc =
    (if isLocatedMasked 0xFFFFFFFFFFFFFFFF 0 bytes dict_bytes loc
     then newMasked 8 0xFFFFFFFFFFFFFFFF 1 1 0 loc bytes False
     else newUncompressed 8 0 0 0 loc bytes)"

text \<open>\<open>std::ceil(std::log2(DEFAULT_MAX_NUM_BASES))\<close> is 1.\<close>

definition BaseDelta_getPattern :: "nat \<Rightarrow> nat \<Rightarrow> DictionaryEntry \<Rightarrow> DictionaryEntry \<Rightarrow> int \<Rightarrow> Pattern" where
  "BaseDelta_getPattern sz deltaSizeBits bytes dict_bytes loc =
    (if isDelta sz deltaSizeBits bytes dict_bytes loc then newDelta deltaSizeBits 1 1 1 loc bytes
     else newUncompressed sz 0 0 (1 + deltaSizeBits) loc bytes)"

fun getPattern :: "dict_class \<Rightarrow> DictionaryEntry \<Rightarrow> DictionaryEntry \<Rightarrow> int \<Rightarrow> Pattern" where
  "getPattern CPack = CPack_getPattern"
| "getPattern (FPC _) = FPC_getPattern"
| "getPattern FPCD = FPCD_getPattern"
| "getPattern Zero = Zero_getPattern"
| "getPattern RepeatedQwords = RepeatedQwords_getPattern"
| "getPattern (BaseDelta sz deltaSizeBits) = BaseDelta_getPattern sz deltaSizeBits"

record dict_state =
  dictionary :: "DictionaryEntry list"
  numEntries :: nat

text \<open>CPack, Zero, RepeatedQwords and BaseDelta have the same \<open>addToDictionary\<close>.\<close>

definition append_addToDictionary :: "nat \<Rightarrow> DictionaryEntry \<Rightarrow> dict_state \<Rightarrow> dict_state result" where
  "append_addToDictionary dsize data st =
    assert_that (numEntries st < dsize) ''numEntries < dictionarySize''
      (Inr (st\<lparr>dictionary := (dictionary st)[numEntries st := data], numEntries := numEntries st + 1\<rparr>))"

definition FPCD_addToDictionary :: "DictionaryEntry \<Rightarrow> dict_state \<Rightarrow> dict_state result" where
  "FPCD_addToDictionary data st =
    (if numEntries st = 2 then
       Inr (st\<lparr>dictionary := (dictionary st)[0 := dictionary st ! 1, 1 := data]\<rparr>)
     else if numEntries st < length (dictionary st) then
       Inr (st\<lparr>dictionary := (dictionary st)[numEntries st := data], numEntries := numEntries st + 1\<rparr>)
     else Inl (Undefined ''dictionary[numEntries++]''))"

fun addToDictionary :: "dict_class \<Rightarrow> nat \<Rightarrow> DictionaryEntry \<Rightarrow> dict_state \<Rightarrow> dict_state result" where
  "addToDictionary (FPC _) dsize data st = Inr st"
| "addToDictionary FPCD dsize data st = FPCD_addToDictionary data st"
| "addToDictionary cls dsize data st = append_addToDictionary dsize data st"

text \<open>
  Compression and decompression both start by resetting the dictionary, whose length is always
  \<open>dictionarySize\<close>; the state before the reset is therefore not an argument.
\<close>

definition resetDictionary :: "dict_class \<Rightarrow> nat \<Rightarrow> dict_state result" where
  "resetDictionary cls dsize =
    (let st = \<lparr>dictionary = replicate dsize (toDictionaryEntry (sizeofT cls) 0), numEntries = 0\<rparr> in
     case cls of
       BaseDelta sz _ \<Rightarrow> addToDictionary cls dsize (toDictionaryEntry sz 0) st
     | _ \<Rightarrow> Inr st)"

fun best_match :: "dict_class \<Rightarrow> DictionaryEntry \<Rightarrow> DictionaryEntry list \<Rightarrow> nat list \<Rightarrow> Pattern \<Rightarrow> Pattern" where
  "best_match cls bytes dict [] pattern = pattern"
| "best_match cls bytes dict (i # is) pattern =
    (let temp_pattern = getPattern cls bytes (dict ! i) (int i) in
     best_match cls bytes dict is
       (if Pattern_getSizeBits temp_pattern < Pattern_getSizeBits pattern then temp_pattern else pattern))"

definition compressValue :: "dict_class \<Rightarrow> nat \<Rightarrow> 64 word \<Rightarrow> dict_state \<Rightarrow> (Pattern \<times> dict_state) result" where
  "compressValue cls dsize data st =
    (let bytes = toDictionaryEntry (sizeofT cls) data;
         pattern = best_match cls bytes (dictionary st) [0..<numEntries st]
           (getPattern cls bytes (toDictionaryEntry (sizeofT cls) 0) (- 1)) in
     if pat_allocate pattern then
       rbind (addToDictionary cls dsize bytes st) (\<lambda>st'. Inr (pattern, st'))
     else Inr (pattern, st))"

section \<open>Compression data\<close>

datatype CompressionData =
    DictData nat "Pattern list"
  | PerfectData nat "64 word list"
  | MultiData nat "8 word" CompressionData

fun CompressionData_getSizeBits :: "CompressionData \<Rightarrow> nat" where
  "CompressionData_getSizeBits (DictData n _) = n"
| "CompressionData_getSizeBits (PerfectData n _) = n"
| "CompressionData_getSizeBits (MultiData n _ _) = n"

fun CompressionData_setSizeBits :: "nat \<Rightarrow> CompressionData \<Rightarrow> CompressionData" where
  "CompressionData_setSizeBits n (DictData _ es) = DictData n es"
| "CompressionData_setSizeBits n (PerfectData _ cs) = PerfectData n cs"
| "CompressionData_setSizeBits n (MultiData _ i d) = MultiData n i d"

text \<open>\<open>std::ceil(_size/(float)CHAR_BIT)\<close>, exact for sizes below \<open>2 ^ 24\<close> bits.\<close>

definition CompressionData_getSize :: "CompressionData \<Rightarrow> nat" where
  "CompressionData_getSize d = (CompressionData_getSizeBits d + 7) div 8"

definition CompData_addEntry :: "Pattern \<Rightarrow> nat \<times> Pattern list \<Rightarrow> nat \<times> Pattern list" where
  "CompData_addEntry pattern d =
    (case d of (n, es) \<Rightarrow> (n + Pattern_getSizeBits pattern, es @ [pattern]))"

definition ZeroRun_setRealSize :: "nat \<Rightarrow> Pattern \<Rightarrow> Pattern" where
  "ZeroRun_setRealSize n p =
    (case zeroRun p of Some (runLength, _) \<Rightarrow> p\<lparr>zeroRun := Some (runLength, pat_length p + n)\<rparr> | None \<Rightarrow> p)"

definition ZeroRun_setRunLength :: "nat \<Rightarrow> Pattern \<Rightarrow> Pattern" where
  "ZeroRun_setRunLength n p =
    (case zeroRun p of Some (_, realSize) \<Rightarrow> p\<lparr>zeroRun := Some (n, realSize)\<rparr> | None \<Rightarrow> p)"

definition ZeroRun_getRunLength :: "Pattern \<Rightarrow> nat" where
  "ZeroRun_getRunLength p = (case zeroRun p of Some (runLength, _) \<Rightarrow> runLength | None \<Rightarrow> 0)"

definition FPCCompData_addEntry :: "nat \<Rightarrow> Pattern \<Rightarrow> nat \<times> Pattern list \<Rightarrow> nat \<times> Pattern list" where
  "FPCCompData_addEntry zeroRunSizeBits pattern d =
    (let es = snd d in
     CompData_addEntry
       (if patternNumber pattern = 0 then
          if es = [] \<or> patternNumber (List.last es) \<noteq> 0 then ZeroRun_setRealSize zeroRunSizeBits pattern
          else let run_length = ZeroRun_getRunLength (List.last es) in
            if run_length = unat (bf_mask zeroRunSizeBits) then ZeroRun_setRealSize zeroRunSizeBits pattern
            else ZeroRun_setRunLength (run_length + 1) pattern
        else pattern) d)"

fun addEntry :: "dict_class \<Rightarrow> Pattern \<Rightarrow> nat \<times> Pattern list \<Rightarrow> nat \<times> Pattern list" where
  "addEntry (FPC zeroRunSizeBits) pattern d = FPCCompData_addEntry zeroRunSizeBits pattern d"
| "addEntry cls pattern d = CompData_addEntry pattern d"

fun compress_values :: "dict_class \<Rightarrow> nat \<Rightarrow> 64 word list \<Rightarrow> dict_state \<Rightarrow> nat \<times> Pattern list \<Rightarrow>
    (dict_state \<times> nat \<times> Pattern list) result" where
  "compress_values cls dsize [] st d = Inr (st, d)"
| "compress_values cls dsize (value # values) st d =
    rbind (compressValue cls dsize value st) (\<lambda>(pattern, st').
      compress_values cls dsize values st' (addEntry cls pattern d))"

definition DictionaryCompressor_compress ::
    "dict_class \<Rightarrow> nat \<Rightarrow> 64 word list \<Rightarrow> (dict_state \<times> nat \<times> Pattern list) result" where
  "DictionaryCompressor_compress cls dsize chunks =
    rbind (resetDictionary cls dsize) (\<lambda>st. compress_values cls dsize chunks st (0, []))"

definition compress_latencies :: "comp_params \<Rightarrow> nat \<Rightarrow> (nat \<times> nat) result" where
  "compress_latencies p n =
    (if compChunksPerCycle p = 0 \<or> decompChunksPerCycle p = 0 then Inl (Undefined ''division by zero'')
     else Inr (compExtraLatency p + n div compChunksPerCycle p,
               decompExtraLatency p + n div decompChunksPerCycle p))"

text \<open>The virtual \<open>compress\<close> of the dictionary compressors: data, compression and decompression latency.\<close>

fun dict_compress :: "comp_params \<Rightarrow> dict_class \<Rightarrow> 64 word list \<Rightarrow> (CompressionData \<times> nat \<times> nat) result" where
  "dict_compress p Zero chunks =
    rbind (DictionaryCompressor_compress Zero (dictionarySize p) chunks) (\<lambda>(st, n, es).
      Inr (DictData (if numEntries st > 0 then blkSize p * 8 else n) es, 1, 1))"
| "dict_compress p RepeatedQwords chunks =
    rbind (DictionaryCompressor_compress RepeatedQwords (dictionarySize p) chunks) (\<lambda>(st, n, es).
      assert_that (numEntries st \<ge> 1) ''numEntries >= 1''
        (Inr (DictData (if numEntries st > 1 then blkSize p * 8 else n) es, 1, 1)))"
| "dict_compress p (BaseDelta sz deltaSizeBits) chunks =
    rbind (compress_latencies p (length chunks)) (\<lambda>(comp_lat, decomp_lat).
    rbind (DictionaryCompressor_compress (BaseDelta sz deltaSizeBits) (dictionarySize p) chunks) (\<lambda>(st, n, es).
      let diff = 2 - int (numEntries st) in
      Inr (DictData (if diff < 0 then blkSize p * 8
                     else if diff > 0 then n + 8 * sz * nat diff else n) es, comp_lat, decomp_lat)))"
| "dict_compress p cls chunks =
    rbind (compress_latencies p (length chunks)) (\<lambda>(comp_lat, decomp_lat).
    rbind (DictionaryCompressor_compress cls (dictionarySize p) chunks) (\<lambda>(st, n, es).
      Inr (DictData n es, comp_lat, decomp_lat)))"

text \<open>
  \<open>*entry_it\<close> is read before it is known whether the pattern uses it, at a location that may be
  outside the dictionary; what such a read gives, or that it fails, is the argument \<open>outside\<close>.
\<close>

definition decompressValue :: "(nat \<Rightarrow> DictionaryEntry result) \<Rightarrow> dict_class \<Rightarrow> nat \<Rightarrow> Pattern \<Rightarrow> dict_state \<Rightarrow>
    (64 word \<times> dict_state) result" where
  "decompressValue outside cls dsize pattern st =
    (let i = Pattern_getMatchLocation pattern in
     rbind (if i < length (dictionary st) then Inr (dictionary st ! i) else outside i) (\<lambda>entry.
     let data = Pattern_decompress (sizeofT cls) (pat_body pattern) entry in
     if pat_allocate pattern then
       rbind (addToDictionary cls dsize data st) (\<lambda>st'. Inr (fromDictionaryEntry data, st'))
     else Inr (fromDictionaryEntry data, st)))"

fun decompress_values :: "(nat \<Rightarrow> DictionaryEntry result) \<Rightarrow> dict_class \<Rightarrow> nat \<Rightarrow> Pattern list \<Rightarrow> dict_state \<Rightarrow>
    64 word list result" where
  "decompress_values outside cls dsize [] st = Inr []"
| "decompress_values outside cls dsize (e # es) st =
    rbind (decompressValue outside cls dsize e st) (\<lambda>(value, st').
    rbind (decompress_values outside cls dsize es st') (\<lambda>values. Inr (value # values)))"

definition concat_values :: "nat \<Rightarrow> nat \<Rightarrow> 64 word list \<Rightarrow> 64 word list result" where
  "concat_values sz n values =
    (let values_per_entry = 8 div sz in
     if n * values_per_entry \<le> length values then
       Inr (map (\<lambda>i. foldl (\<lambda>acc j. acc OR push_bit (j * 8 * sz) (values ! (values_per_entry * i + j)))
         0 (rev [0..<values_per_entry])) [0..<n])
     else Inl (Undefined ''decomp_values[values_per_entry*i+j]''))"

definition DictionaryCompressor_decompress ::
    "(nat \<Rightarrow> DictionaryEntry result) \<Rightarrow> comp_params \<Rightarrow> dict_class \<Rightarrow> Pattern list \<Rightarrow> 64 word list result" where
  "DictionaryCompressor_decompress outside p cls es =
    rbind (resetDictionary cls (dictionarySize p)) (\<lambda>st.
    rbind (decompress_values outside cls (dictionarySize p) es st) (\<lambda>values.
      concat_values (sizeofT cls) (blkSize p div 8) values))"

section \<open>The compressor objects\<close>

text \<open>
  \<open>PerfectCompressor\<close> carries \<open>compressedSize\<close>, \<open>MultiCompressor\<close> the flag \<open>encoding_in_tags\<close>
  and the sub-compressors.
\<close>

datatype Compressor =
    DictCompressor comp_params dict_class
  | PerfectCompressor comp_params nat
  | MultiCompressor comp_params bool "Compressor list"

fun Compressor_params :: "Compressor \<Rightarrow> comp_params" where
  "Compressor_params (DictCompressor p _) = p"
| "Compressor_params (PerfectCompressor p _) = p"
| "Compressor_params (MultiCompressor p _ _) = p"

definition Base_compress :: "comp_params \<Rightarrow> (64 word list \<Rightarrow> (CompressionData \<times> nat \<times> nat) result) \<Rightarrow>
    64 word list \<Rightarrow> (CompressionData \<times> nat \<times> nat) result" where
  "Base_compress p virtual_compress data =
    rbind (toChunks p data) (\<lambda>chunks.
    rbind (virtual_compress chunks) (\<lambda>(comp_data, comp_lat, decomp_lat).
      Inr (if CompressionData_getSizeBits comp_data > sizeThreshold p * 8
           then CompressionData_setSizeBits (blkSize p * 8) comp_data else comp_data,
           comp_lat, decomp_lat)))"

definition Perfect_compress ::
    "comp_params \<Rightarrow> nat \<Rightarrow> 64 word list \<Rightarrow> (CompressionData \<times> nat \<times> nat) result" where
  "Perfect_compress p compressedSize chunks =
    rbind (compress_latencies p (length chunks)) (\<lambda>(comp_lat, decomp_lat).
      Inr (PerfectData compressedSize chunks, comp_lat, decomp_lat))"

record Results =
  res_index :: nat
  res_compData :: CompressionData
  res_decompLat :: nat
  compressionFactor :: nat

definition Results_new :: "nat \<Rightarrow> CompressionData \<Rightarrow> nat \<Rightarrow> nat \<Rightarrow> Results" where
  "Results_new i comp_data decomp_lat blk_size =
    (let sz = CompressionData_getSize comp_data in
     \<lparr>res_index = i, res_compData = comp_data, res_decompLat = decomp_lat,
      compressionFactor =
        (if sz > blk_size then 1
         else if sz = 0 then blk_size
         else unat (alignToPowerOfTwo (of_nat (blk_size div sz)))) mod 256\<rparr>)"

definition ResultsComparator :: "Results \<Rightarrow> Results \<Rightarrow> bool" where
  "ResultsComparator lhs rhs =
    (if compressionFactor lhs = compressionFactor rhs then res_decompLat lhs > res_decompLat rhs
     else compressionFactor lhs < compressionFactor rhs)"

text \<open>
  \<open>std::priority_queue::push\<close> appends the value and lets it rise in the heap while its parent is
  smaller (\<open>std::push_heap\<close>); \<open>top\<close> is the front.
\<close>

function push_heap :: "nat \<Rightarrow> Results \<Rightarrow> Results list \<Rightarrow> Results list" where
  "push_heap hole v xs =
    (if hole > 0 \<and> ResultsComparator (xs ! ((hole - 1) div 2)) v
     then push_heap ((hole - 1) div 2) v (xs[hole := xs ! ((hole - 1) div 2)])
     else xs[hole := v])"
  by pat_completeness auto
termination by (relation "measure fst") auto

declare push_heap.simps [simp del]

definition results_push :: "Results list \<Rightarrow> Results \<Rightarrow> Results list" where
  "results_push xs v = push_heap (length xs) v (xs @ [v])"

text \<open>\<open>numEncodingBits\<close>: \<open>std::log2\<close> of a power of two.\<close>

definition Multi_numEncodingBits :: "bool \<Rightarrow> nat \<Rightarrow> nat" where
  "Multi_numEncodingBits encoding_in_tags n =
    (if encoding_in_tags then 0 else findMsbSet (alignToPowerOfTwo (of_nat n)))"

definition Multi_select :: "comp_params \<Rightarrow> Results list \<times> nat \<Rightarrow> (CompressionData \<times> nat \<times> nat) result" where
  "Multi_select p r =
    (case r of
       ([], _) \<Rightarrow> Inl (Undefined ''results.top()'')
     | (best # _, max_comp_lat) \<Rightarrow>
         Inr (MultiData (CompressionData_getSizeBits (res_compData best)) (of_nat (res_index best)) (res_compData best),
              max_comp_lat + compExtraLatency p, res_decompLat best + decompExtraLatency p))"

fun Compressor_compress :: "Compressor \<Rightarrow> 64 word list \<Rightarrow> (CompressionData \<times> nat \<times> nat) result"
  and Multi_results :: "nat \<Rightarrow> nat \<Rightarrow> 64 word list \<Rightarrow> nat \<Rightarrow> Compressor list \<Rightarrow> Results list \<times> nat \<Rightarrow>
    (Results list \<times> nat) result" where
  "Compressor_compress (DictCompressor p cls) chunks = dict_compress p cls chunks"
| "Compressor_compress (PerfectCompressor p compressedSize) chunks = Perfect_compress p compressedSize chunks"
| "Compressor_compress (MultiCompressor p encoding_in_tags cs) chunks =
    rbind (fromChunks p chunks) (\<lambda>data.
    rbind (Multi_results (blkSize p) (Multi_numEncodingBits encoding_in_tags (length cs)) data 0 cs ([], 0))
      (Multi_select p))"
| "Multi_results blk enc data i [] r = Inr r"
| "Multi_results blk enc data i (c # cs) r =
    rbind (Base_compress (Compressor_params c) (Compressor_compress c) data)
      (\<lambda>(temp_comp_data, comp_lat, temp_decomp_lat).
      let temp_comp_data =
        CompressionData_setSizeBits (CompressionData_getSizeBits temp_comp_data + enc) temp_comp_data in
      Multi_results blk enc data (i + 1) cs
        (results_push (fst r) (Results_new i temp_comp_data temp_decomp_lat blk), max (snd r) comp_lat))"

definition Compressor_compressLine :: "Compressor \<Rightarrow> 64 word list \<Rightarrow> (CompressionData \<times> nat \<times> nat) result" where
  "Compressor_compressLine c data = Base_compress (Compressor_params c) (Compressor_compress c) data"

fun Compressor_decompress :: "(nat \<Rightarrow> DictionaryEntry result) \<Rightarrow> Compressor \<Rightarrow> CompressionData \<Rightarrow> 64 word list result" where
  "Compressor_decompress outside (DictCompressor p cls) (DictData _ es) =
    DictionaryCompressor_decompress outside p cls es"
| "Compressor_decompress outside (PerfectCompressor p _) (PerfectData _ chunks) = fromChunks p chunks"
| "Compressor_decompress outside (MultiCompressor p _ cs) (MultiData _ i d) =
    (if unat i < length cs then Compressor_decompress outside (cs ! unat i) d
     else Inl (Undefined ''compressors[getIndex()]''))"
| "Compressor_decompress outside _ _ = Inl (Undefined ''static_cast'')"

end
