(* ===== verification/Compressor_Correct.thy ===== *)
theory Compressor_Correct
  imports Compressor "HOL-Library.Multiset" "HOL-Library.Log_Nat"
begin

text \<open>
  Correctness of the cache compressors: every compressor, including the composed one, gives
  back the block it compressed; the composed one keeps the best result of its parts.
\<close>

section \<open>Dictionary entries\<close>

lemma bit_word_0xFF: "bit (0xFF :: 64 word) k \<longleftrightarrow> k < 8"
  using bit_mask_iff [where 'a = "64 word", of 8 k] by (auto simp: mask_eq_exp_minus_1)

lemma ucast_and_0xFF: "ucast ((v :: 64 word) AND 0xFF) = (ucast v :: 8 word)"
proof (rule bit_word_eqI)
  fix n assume "n < LENGTH(8)"
  then show "bit (ucast (v AND 0xFF) :: 8 word) n = bit (ucast v :: 8 word) n"
    by (simp only: bit_ucast_iff bit_and_iff bit_word_0xFF) simp
qed

lemma from_toDictionaryEntry [simp]: "fromDictionaryEntry (toDictionaryEntry n v) = take_bit (8 * n) v"
proof (induction n arbitrary: v)
  case (Suc n)
  show ?case
    by (rule bit_word_eqI) (auto simp: Suc bit_simps ucast_and_0xFF)
qed simp

lemma length_toDictionaryEntry [simp]: "length (toDictionaryEntry n v) = n"
  by (induction n arbitrary: v) auto

lemma to_fromDictionaryEntry: "length bs \<le> 8 \<Longrightarrow> toDictionaryEntry (length bs) (fromDictionaryEntry bs) = bs"
proof (induction bs)
  case (Cons b bs)
  have low: "ucast ((push_bit 8 (fromDictionaryEntry bs) OR ucast b) AND 0xFF) = b"
    by (rule bit_word_eqI) (auto simp: bit_simps ucast_and_0xFF)
  have "fromDictionaryEntry bs = take_bit (8 * length bs) (fromDictionaryEntry bs)"
    using Cons from_toDictionaryEntry [of "length bs" "fromDictionaryEntry bs"] by simp
  then have top: "bit (fromDictionaryEntry bs) k \<Longrightarrow> k < 56" for k
    using Cons.prems bit_take_bit_iff [of "8 * length bs" "fromDictionaryEntry bs" k] by simp
  have high: "drop_bit 8 (push_bit 8 (fromDictionaryEntry bs) OR ucast b) = fromDictionaryEntry bs"
    by (rule bit_word_eqI) (auto simp: bit_simps dest: top bit_imp_le_length)
  show ?case
    using Cons low high by simp
qed simp

lemma toDictionaryEntry_cong:
  "take_bit (8 * n) v = take_bit (8 * n) w \<Longrightarrow> toDictionaryEntry n v = toDictionaryEntry n w"
proof (induction n arbitrary: v w)
  case (Suc n)
  have bits: "k < 8 + 8 * n \<Longrightarrow> bit v k = bit w k" for k
    using arg_cong [OF Suc.prems, of "\<lambda>x. bit x k"] by (simp add: bit_take_bit_iff)
  have "ucast v = (ucast w :: 8 word)"
    by (rule bit_word_eqI) (simp add: bit_ucast_iff bits)
  moreover have "take_bit (8 * n) (drop_bit 8 v) = take_bit (8 * n) (drop_bit 8 w)"
    by (rule bit_word_eqI) (auto simp: bit_simps bits)
  ultimately show ?case
    using Suc.IH [of "drop_bit 8 v" "drop_bit 8 w"] by (simp only: toDictionaryEntry.simps ucast_and_0xFF)
qed simp

lemma from_bounded: "length bs \<le> 8 \<Longrightarrow> take_bit (8 * length bs) (fromDictionaryEntry bs) = fromDictionaryEntry bs"
  using from_toDictionaryEntry [of "length bs" "fromDictionaryEntry bs"] by (simp add: to_fromDictionaryEntry)

lemma toDictionaryEntry_eqI:
  assumes "length bs \<le> 8" "take_bit (8 * length bs) v = fromDictionaryEntry bs"
  shows "toDictionaryEntry (length bs) v = bs"
  using toDictionaryEntry_cong [of "length bs" v "fromDictionaryEntry bs"] assms
  by (simp add: from_bounded to_fromDictionaryEntry)

section \<open>Patterns decode to what they encode\<close>

text \<open>
  A pattern made for \<open>bytes\<close> at match location \<open>loc\<close> either refers to that location, and decodes
  to \<open>bytes\<close> from the dictionary entry it was matched against, or decodes to \<open>bytes\<close> whatever
  the entry is.
\<close>

definition decodes :: "nat \<Rightarrow> DictionaryEntry \<Rightarrow> DictionaryEntry \<Rightarrow> int \<Rightarrow> Pattern \<Rightarrow> bool" where
  "decodes sz bytes d loc p \<longleftrightarrow>
    matchLocation p = loc \<and> 0 \<le> loc \<and> Pattern_decompress sz (pat_body p) d = bytes \<or>
    (\<forall>d'. Pattern_decompress sz (pat_body p) d' = bytes)"

lemma decodes_uncompressed [simp]: "decodes sz bytes d loc (newUncompressed sz n c l loc' bytes)"
  by (simp add: decodes_def newUncompressed_def)

lemma decodes_delta [simp]: "decodes sz bytes d loc (newDelta k n c l loc' bytes)"
  by (simp add: decodes_def newDelta_def)

lemma mask_split: "(x AND NOT m) OR (x AND m) = (x :: 64 word)"
  by (rule bit_word_eqI) (auto simp: bit_simps)

lemma decodes_masked [simp]:
  assumes "length bytes = sz" "sz \<le> 8" "isMasked m bytes d loc"
  shows "decodes sz bytes d loc (newMasked sz m n c l loc bytes a)"
proof -
  have "(fromDictionaryEntry bytes AND NOT m) OR (fromDictionaryEntry d AND m) = fromDictionaryEntry bytes"
    using assms(3) mask_split [of "fromDictionaryEntry bytes" m] by (simp add: isMasked_def)
  with assms show ?thesis
    by (auto simp: decodes_def newMasked_def isMasked_def to_fromDictionaryEntry)
qed

lemma decodes_located [simp]:
  assumes "length bytes = sz" "sz \<le> 8" "isLocatedMasked m k bytes d loc"
  shows "decodes sz bytes d loc (newMasked sz m n c l loc bytes a)"
  using assms decodes_masked by (auto simp: isLocatedMasked_def)

lemma decodes_maskedValue [simp]:
  assumes "length bytes = sz" "sz \<le> 8" "isMaskedValue v m bytes" "take_bit (8 * sz) m = m"
  shows "decodes sz bytes d loc (newMaskedValue sz v m n c l loc' bytes a)"
proof -
  have "take_bit (8 * sz) v AND m = take_bit (8 * sz) (v AND m)"
    using assms(4) by (simp add: take_bit_and)
  also have "v AND m = fromDictionaryEntry bytes AND m"
    using assms(3) by (simp add: isMaskedValue_def)
  also have "take_bit (8 * sz) \<dots> = fromDictionaryEntry bytes AND m"
    using assms from_bounded [of bytes] by (simp add: take_bit_and)
  finally have "(fromDictionaryEntry bytes AND NOT m) OR (take_bit (8 * sz) v AND m) = fromDictionaryEntry bytes"
    by (simp add: mask_split)
  with assms show ?thesis
    by (auto simp: decodes_def newMaskedValue_def newMasked_def to_fromDictionaryEntry)
qed

lemma decodes_zeroRun [simp]:
  "decodes sz bytes d loc p \<Longrightarrow> decodes sz bytes d loc (p\<lparr>zeroRun := z\<rparr>)"
  by (simp add: decodes_def)

lemma bit_repeated_loop:
  "repeated_loop n x r \<Longrightarrow> k < 8 * n \<Longrightarrow> n \<le> 8 \<Longrightarrow> bit x k = bit r (k mod 8)"
proof (induction n x r arbitrary: k rule: repeated_loop.induct)
  case (2 n x r)
  then have x: "ucast x = r"
    by (auto split: if_splits)
  show ?case
  proof (cases "k < 8")
    case True
    with arg_cong [OF x, of "\<lambda>w. bit w k"] show ?thesis
      by (simp add: bit_ucast_iff)
  next
    case False
    with 2 x have "bit (drop_bit 8 x) (k - 8) = bit r ((k - 8) mod 8)"
      by simp
    with False show ?thesis
      by (simp add: bit_drop_bit_eq le_mod_geq)
  qed
qed simp

lemma bit_repeat_byte:
  "k < 64 \<Longrightarrow> bit (repeat_byte n v acc) k = (if k < 8 * n then bit v (k mod 8) else bit acc (k - 8 * n))"
proof (induction n v acc rule: repeat_byte.induct)
  case (2 n v acc)
  show ?case
  proof (cases "k < 8 * n")
    case False
    have "k < 8 + 8 * n \<Longrightarrow> (k - 8 * n) = k mod 8"
      using False by (metis add.commute le_add_diff_inverse less_diff_conv2 linorder_not_less mod_less mod_mult_self2)
    with False 2 show ?thesis
      by (auto simp: bit_simps add.commute [of 8] dest: bit_imp_le_length)
  qed (use 2 in simp)
qed simp

lemma decodes_repeatedByte [simp]:
  assumes "length bytes = sz" "sz \<le> 8" "isRepeatedByte sz bytes"
  shows "decodes sz bytes d loc (newRepeatedByte n c l loc' bytes a)"
proof -
  let ?x = "fromDictionaryEntry bytes"
  have "repeated_loop sz ?x (ucast ?x)"
    using assms(3) by (simp add: isRepeatedByte_def Let_def)
  then have "k < 8 * sz \<Longrightarrow> bit (ucast ?x :: 8 word) (k mod 8) = bit ?x k" for k
    using assms(2) bit_repeated_loop by blast
  then have "take_bit (8 * sz) (repeat_byte sz (ucast ?x) 0) = take_bit (8 * sz) ?x"
    by (intro bit_word_eqI) (simp add: bit_take_bit_iff bit_repeat_byte)
  then have "toDictionaryEntry sz (repeat_byte sz (ucast ?x) 0) = bytes"
    using assms from_bounded [of bytes] toDictionaryEntry_eqI [of bytes] by simp
  then show ?thesis
    by (simp add: decodes_def newRepeatedByte_def)
qed

lemma bit_bf_bit_iff: "bf_bit x n \<noteq> 0 \<longleftrightarrow> bit x n"
proof -
  have "bf_bit x n = of_bool (bit x n)"
    by (rule bit_word_eqI) (auto simp: bf_bit_def bf_bit_simps bit_simps)
  then show ?thesis
    by simp
qed

lemma bit_bf_sext: "0 < N \<Longrightarrow> N \<le> 64 \<Longrightarrow> k < 64 \<Longrightarrow>
    bit (bf_sext x N) k = (if k < N then bit x k else bit x k \<or> bit x (N - 1))"
  by (auto simp: bf_sext_def bit_bf_bit_iff bit_simps bf_bit_simps Let_def)

lemma bit_bf_szext: "0 < N \<Longrightarrow> N \<le> 64 \<Longrightarrow> k < 64 \<Longrightarrow>
    bit (bf_szext x N) k = bit x (if k < N then k else N - 1)"
  by (auto simp: bf_szext_def bit_bf_bit_iff bit_simps bf_bit_simps Let_def)

lemma decodes_signExtended [simp]:
  assumes "length bytes = sz" "sz \<le> 8" "isSignExtended sz N bytes" "0 < N" "N \<le> 8 * sz"
  shows "decodes sz bytes d loc (newSignExtended N n c l bytes)"
proof -
  let ?x = "fromDictionaryEntry bytes"
  have "?x = bf_szext ?x N AND bf_mask (8 * sz)"
    using assms(3) by (simp add: isSignExtended_def Let_def)
  then have x: "bit ?x k = (bit (bf_szext ?x N) k \<and> bit (bf_mask (8 * sz)) k)" for k
    by (metis bit_and_iff)
  have ext: "bit ?x k = bit ?x (N - 1)" if "N \<le> k" "k < 8 * sz" for k
    using that assms(2,4) by (subst x) (simp add: bit_bf_szext bf_bit_simps)
  have outer: "\<not> bit ?x k" if "8 * sz \<le> k" for k
    using that by (subst x) (simp add: bf_bit_simps)
  have "take_bit (8 * sz) (bf_sext (?x AND bf_mask N) N) = ?x"
  proof (rule bit_word_eqI)
    fix k assume "k < LENGTH(64)"
    then show "bit (take_bit (8 * sz) (bf_sext (?x AND bf_mask N) N)) k = bit ?x k"
      using assms(2,4,5) ext [of k] outer [of k] outer [of "N - 1"]
      by (cases "k < N"; cases "k < 8 * sz") (auto simp: bit_take_bit_iff bit_and_iff bit_bf_sext bf_bit_simps)
  qed
  then have "toDictionaryEntry sz (bf_sext (?x AND bf_mask N) N) = bytes"
    using assms toDictionaryEntry_eqI [of bytes] by simp
  then show ?thesis
    by (simp add: decodes_def newSignExtended_def)
qed

lemma two_halfwords_half:
  fixes x :: "64 word"
  assumes "sint (ucast (x AND bf_mask 16) :: 16 word) =
    uint (ucast (bf_szext (scast (ucast (x AND bf_mask 16) :: 16 word)) 8) :: 16 word)"
  shows "ucast (bf_szext (scast (ucast (x AND bf_mask 8) :: 8 word)) 8) = (ucast x :: 16 word)"
proof -
  have h: "(ucast (x AND bf_mask 16) :: 16 word) = ucast x"
    by (rule bit_word_eqI) (simp add: bit_ucast_iff bit_and_iff bf_bit_simps)
  have "(ucast x :: 16 word) = ucast (bf_szext (scast (ucast x :: 16 word)) 8)"
    using arg_cong [OF assms, of "word_of_int :: int \<Rightarrow> 16 word"] by (simp add: h)
  moreover have "ucast (bf_szext (scast (ucast x :: 16 word)) 8) =
      (ucast (bf_szext (scast (ucast (x AND bf_mask 8) :: 8 word)) 8) :: 16 word)"
    by (rule bit_word_eqI)
      (simp add: bit_ucast_iff bit_bf_szext bit_signed_iff bit_and_iff bf_bit_simps)
  ultimately show ?thesis
    by simp
qed

lemma decodes_twoHalfwords [simp]:
  assumes "length bytes = 4" "isSignExtendedTwoHalfwords bytes"
  shows "decodes 4 bytes d loc (FPC_newTwoHalfwords bytes)"
proof -
  let ?x = "fromDictionaryEntry bytes"
  note halves = assms(2) [unfolded isSignExtendedTwoHalfwords_def Let_def]
  have "push_bit 16 (ucast (ucast (drop_bit 16 ?x) :: 16 word)) OR ucast (ucast ?x :: 16 word) = take_bit 32 ?x"
    by (rule bit_word_eqI) (auto simp: bit_simps)
  then have "toDictionaryEntry 4 (push_bit 16 (ucast (ucast (drop_bit 16 ?x) :: 16 word)) OR ucast (ucast ?x :: 16 word)) = bytes"
    using assms(1) from_bounded [of bytes] toDictionaryEntry_eqI [of bytes] by simp
  then show ?thesis
    by (simp add: decodes_def FPC_newTwoHalfwords_def Let_def two_halfwords_half halves)
qed

lemma decodes_if:
  "(b \<Longrightarrow> decodes sz bytes d loc p) \<Longrightarrow> (\<not> b \<Longrightarrow> decodes sz bytes d loc q) \<Longrightarrow>
    decodes sz bytes d loc (if b then p else q)"
  by simp

lemma mask_bounds [simp]:
  "take_bit 32 (0xFFFFFFFF :: 64 word) = 0xFFFFFFFF" "take_bit 32 (0xFFFFFF00 :: 64 word) = 0xFFFFFF00"
  "take_bit 32 (0xFFFF0000 :: 64 word) = 0xFFFF0000" "take_bit 32 (0xFF00FF00 :: 64 word) = 0xFF00FF00"
  "take_bit 32 (0x00FFFFFF :: 64 word) = 0x00FFFFFF" "take_bit 32 (0x0000FFFF :: 64 word) = 0x0000FFFF"
  by simp_all

lemma CPack_decodes: "length bytes = 4 \<Longrightarrow> decodes 4 bytes d loc (CPack_getPattern bytes d loc)"
  unfolding CPack_getPattern_def by (intro decodes_if) simp_all

lemma FPC_decodes: "length bytes = 4 \<Longrightarrow> decodes 4 bytes d loc (FPC_getPattern bytes d loc)"
  unfolding FPC_getPattern_def FPC_newZeroRun_def by (intro decodes_if) simp_all

lemma FPCD_decodes: "length bytes = 4 \<Longrightarrow> decodes 4 bytes d loc (FPCD_getPattern bytes d loc)"
  unfolding FPCD_getPattern_def by (intro decodes_if) simp_all

section \<open>The contract of a dictionary compressor\<close>

text \<open>\<open>room cls dsize n st\<close>: \<open>n\<close> more entries can be added.\<close>

fun room :: "dict_class \<Rightarrow> nat \<Rightarrow> nat \<Rightarrow> dict_state \<Rightarrow> bool" where
  "room (FPC _) dsize n st = True"
| "room FPCD dsize n st = (2 \<le> dsize \<and> numEntries st \<le> 2)"
| "room _ dsize n st = (numEntries st + n \<le> dsize)"

definition dict_ok :: "nat \<Rightarrow> dict_state \<Rightarrow> bool" where
  "dict_ok dsize st \<longleftrightarrow> length (dictionary st) = dsize \<and> numEntries st \<le> dsize"

definition reads_back :: "nat \<Rightarrow> DictionaryEntry list \<Rightarrow> DictionaryEntry \<Rightarrow> Pattern \<Rightarrow> bool" where
  "reads_back sz dict bytes p \<longleftrightarrow>
    (\<forall>e. (Pattern_getMatchLocation p < length dict \<longrightarrow> e = dict ! Pattern_getMatchLocation p) \<longrightarrow>
      Pattern_decompress sz (pat_body p) e = bytes)"

lemma decodes_reads_back:
  assumes "decodes sz bytes d loc p" "loc < 0 \<or> loc = int i \<and> i < length dict \<and> i < 256 \<and> d = dict ! i"
  shows "reads_back sz dict bytes p"
  using assms by (auto simp: decodes_def reads_back_def Pattern_getMatchLocation_def)

text \<open>\<open>same_code p q\<close>: \<open>q\<close> is \<open>p\<close>, possibly with the zero run data of FPC set.\<close>

definition same_code :: "Pattern \<Rightarrow> Pattern \<Rightarrow> bool" where
  "same_code p q \<longleftrightarrow> pat_body q = pat_body p \<and> matchLocation q = matchLocation p \<and> pat_allocate q = pat_allocate p"

lemma addEntry_same: "\<exists>n' q. addEntry cls p (n, es) = (n', es @ [q]) \<and> same_code p q"
  by (cases cls)
    (auto simp: CompData_addEntry_def FPCCompData_addEntry_def same_code_def Let_def
      ZeroRun_setRealSize_def ZeroRun_setRunLength_def split: option.split)

locale dictionary_code =
  fixes cls :: dict_class
  assumes pattern_decodes: "length bytes = sizeofT cls \<Longrightarrow> decodes (sizeofT cls) bytes d loc (getPattern cls bytes d loc)"
    and add_ok: "dict_ok dsize st \<Longrightarrow> addToDictionary cls dsize bytes st = Inr st' \<Longrightarrow> dict_ok dsize st'"
    and add_room: "dict_ok dsize st \<Longrightarrow> room cls dsize (Suc n) st \<Longrightarrow>
      \<exists>st'. addToDictionary cls dsize bytes st = Inr st' \<and> room cls dsize n st'"
    and room_mono: "room cls dsize (Suc n) st \<Longrightarrow> room cls dsize n st"
    and add_entries: "addToDictionary cls dsize bytes st = Inr st' \<Longrightarrow> numEntries st \<le> numEntries st'"
begin

lemma best_match_reads_back:
  assumes "length bytes = sizeofT cls" "reads_back (sizeofT cls) dict bytes p"
    "\<forall>i\<in>set is. i < length dict \<and> i < 256"
  shows "reads_back (sizeofT cls) dict bytes (best_match cls bytes dict is p)"
  using assms(2,3)
proof (induction "is" arbitrary: p)
  case (Cons i "is")
  have "reads_back (sizeofT cls) dict bytes (getPattern cls bytes (dict ! i) (int i))"
    using decodes_reads_back [OF pattern_decodes [OF assms(1)]] Cons.prems(2) by auto
  with Cons show ?case
    by (simp add: Let_def)
qed simp

lemma decompressValue_compressValue:
  assumes "dict_ok dsize st" "dsize \<le> 256" "compressValue cls dsize v st = Inr (p, st')" "same_code p q"
  shows "decompressValue (\<lambda>i. Inr (outside i)) cls dsize q st = Inr (take_bit (8 * sizeofT cls) v, st')"
proof -
  let ?bytes = "toDictionaryEntry (sizeofT cls) v"
  have "reads_back (sizeofT cls) (dictionary st) ?bytes (getPattern cls ?bytes d (- 1))" for d
    by (rule decodes_reads_back [OF pattern_decodes]) simp_all
  then have "reads_back (sizeofT cls) (dictionary st) ?bytes p"
    using assms best_match_reads_back [of ?bytes "dictionary st" _ "[0..<numEntries st]"]
    by (auto simp: compressValue_def dict_ok_def Let_def rbind_eq_Inr split: if_splits)
  then have "reads_back (sizeofT cls) (dictionary st) ?bytes q"
    using assms(4) by (simp add: reads_back_def same_code_def Pattern_getMatchLocation_def)
  then show ?thesis
    using assms(3,4)
    by (auto simp: decompressValue_def compressValue_def reads_back_def same_code_def Let_def
      rbind_eq_Inr split: if_splits)
qed

lemma compressValue_returns:
  assumes "dict_ok dsize st" "room cls dsize (Suc n) st"
  shows "\<exists>p st'. compressValue cls dsize v st = Inr (p, st') \<and> dict_ok dsize st' \<and>
    room cls dsize n st' \<and> numEntries st \<le> numEntries st'"
proof -
  obtain st' where st': "addToDictionary cls dsize (toDictionaryEntry (sizeofT cls) v) st = Inr st'"
      "room cls dsize n st'"
    using add_room [OF assms] by blast
  then show ?thesis
    using assms room_mono add_ok [OF assms(1) st'(1)] add_entries [OF st'(1)]
    by (auto simp: compressValue_def Let_def)
qed

lemma compress_values_round_trip:
  assumes "dict_ok dsize st" "dsize \<le> 256" "room cls dsize (length vs) st"
  shows "\<exists>st' n' es'. compress_values cls dsize vs st (n, es) = Inr (st', n', es @ es') \<and>
    numEntries st \<le> numEntries st' \<and>
    (\<forall>outside. decompress_values (\<lambda>i. Inr (outside i)) cls dsize es' st = Inr (map (take_bit (8 * sizeofT cls)) vs))"
  using assms(1,3)
proof (induction vs arbitrary: st n es)
  case (Cons v vs)
  obtain p st1 where p: "compressValue cls dsize v st = Inr (p, st1)" "dict_ok dsize st1"
      "room cls dsize (length vs) st1" "numEntries st \<le> numEntries st1"
    using compressValue_returns [of dsize st "length vs" v] Cons.prems by auto
  obtain n1 q where q: "addEntry cls p (n, es) = (n1, es @ [q])" "same_code p q"
    using addEntry_same by blast
  obtain st' n' es' where tl: "compress_values cls dsize vs st1 (n1, es @ [q]) = Inr (st', n', (es @ [q]) @ es')"
      "numEntries st1 \<le> numEntries st'"
      "\<forall>outside. decompress_values (\<lambda>i. Inr (outside i)) cls dsize es' st1 = Inr (map (take_bit (8 * sizeofT cls)) vs)"
    using Cons.IH [OF p(2,3)] by blast
  have "decompress_values (\<lambda>i. Inr (outside i)) cls dsize (q # es') st = Inr (map (take_bit (8 * sizeofT cls)) (v # vs))" for outside
    using decompressValue_compressValue [OF Cons.prems(1) assms(2) p(1) q(2)] tl(3) by simp
  then show ?case
    using p q tl by (intro exI [of _ st'] exI [of _ n'] exI [of _ "q # es'"]) simp
qed auto

end

lemma append_ok: "dict_ok dsize st \<Longrightarrow> append_addToDictionary dsize b st = Inr st' \<Longrightarrow> dict_ok dsize st'"
  by (auto simp: append_addToDictionary_def dict_ok_def assert_that_eq_Inr)

lemma append_room: "numEntries st + Suc n \<le> dsize \<Longrightarrow>
    \<exists>st'. append_addToDictionary dsize b st = Inr st' \<and> numEntries st' + n \<le> dsize"
  by (auto simp: append_addToDictionary_def)

lemma append_entries: "append_addToDictionary dsize b st = Inr st' \<Longrightarrow> numEntries st \<le> numEntries st'"
  by (auto simp: append_addToDictionary_def assert_that_eq_Inr)

lemmas append_dictionary = append_ok append_room append_entries

interpretation cpack: dictionary_code CPack
  by unfold_locales (auto simp: CPack_decodes append_dictionary)

interpretation fpc: dictionary_code "FPC zeroRunSizeBits"
  by unfold_locales (auto simp: FPC_decodes)

interpretation fpcd: dictionary_code FPCD
  by unfold_locales (auto simp: FPCD_decodes FPCD_addToDictionary_def dict_ok_def split: if_splits)

interpretation zeroes: dictionary_code Zero
  by unfold_locales (auto simp: Zero_getPattern_def append_dictionary)

interpretation qwords: dictionary_code RepeatedQwords
  by unfold_locales (auto simp: RepeatedQwords_getPattern_def append_dictionary)

interpretation deltas: dictionary_code "BaseDelta sz deltaSizeBits"
  by unfold_locales (auto simp: BaseDelta_getPattern_def append_dictionary)

section \<open>Chunks\<close>

definition chunks_of :: "nat \<Rightarrow> 64 word list \<Rightarrow> 64 word list" where
  "chunks_of csb data =
    map (\<lambda>i. take_bit csb (drop_bit (i mod (64 div csb) * csb) (data ! (i div (64 div csb)))))
      [0..<length data * (64 div csb)]"

lemma length_chunks_of [simp]: "length (chunks_of csb data) = length data * (64 div csb)"
  by (simp add: chunks_of_def)

lemma nth_chunks_of:
  "i < length data * (64 div csb) \<Longrightarrow>
    chunks_of csb data ! i = take_bit csb (drop_bit (i mod (64 div csb) * csb) (data ! (i div (64 div csb))))"
  by (simp add: chunks_of_def)

lemma take_bit_chunks_of [simp]: "map (take_bit csb) (chunks_of csb data) = chunks_of csb data"
  by (simp add: chunks_of_def)

lemma bf_bits_chunk:
  "0 < csb \<Longrightarrow> bf_bits w (csb + s * csb - Suc 0) (s * csb) = Inr (take_bit csb (drop_bit (s * csb) w))"
proof -
  assume "0 < csb"
  then have "s * csb \<le> csb + s * csb - Suc 0" "csb + s * csb - Suc 0 - s * csb + 1 = csb"
    by linarith+
  moreover from this have "bf_field w (csb + s * csb - Suc 0) (s * csb) = take_bit csb (drop_bit (s * csb) w)"
    by (intro bit_word_eqI) (auto simp: bit_bf_field bit_simps)
  ultimately show ?thesis
    by (simp add: bf_bits_def)
qed

lemma chunk_loop_map:
  assumes "0 < csb" "\<forall>i\<in>set is. i div (64 div csb) < length data"
  shows "chunk_loop csb data is =
    Inr (map (\<lambda>i. take_bit csb (drop_bit (i mod (64 div csb) * csb) (data ! (i div (64 div csb))))) is)"
  using assms(2) by (induction "is") (simp_all add: Let_def bf_bits_chunk [OF assms(1)])

lemma toChunks_eq:
  assumes "0 < chunkSizeBits p" "chunkSizeBits p dvd 64" "blkSize p = 8 * length data"
  shows "toChunks p data = Inr (chunks_of (chunkSizeBits p) data)"
proof -
  have "blkSize p * 8 div chunkSizeBits p = length data * (64 div chunkSizeBits p)"
    using assms by (simp add: div_mult_swap mult.commute)
  then show ?thesis
    using assms(1) by (simp add: toChunks_def chunks_of_def chunk_loop_map less_mult_imp_div_less)
qed

lemma foldl_or_bit: "bit (foldl (\<lambda>acc j. acc OR f j) a js) k \<longleftrightarrow> bit a k \<or> (\<exists>j\<in>set js. bit (f j) k)"
  for a :: "64 word"
  by (induction js arbitrary: a) (auto simp: bit_or_iff)

lemma concat_chunk:
  fixes w :: "64 word"
  assumes "0 < csb" "csb dvd 64"
  shows "foldl (\<lambda>acc j. acc OR push_bit (j * csb) (take_bit csb (drop_bit (j * csb) w))) 0 (rev [0..<64 div csb]) = w"
proof (rule bit_word_eqI)
  fix k assume k: "k < LENGTH(64)"
  have "bit (push_bit (j * csb) (take_bit csb (drop_bit (j * csb) w))) k \<longleftrightarrow> j = k div csb \<and> bit w k" for j
  proof -
    have "j = k div csb" if "j * csb \<le> k" "k - j * csb < csb"
      using that by (intro div_nat_eqI [symmetric]) (simp_all add: mult.commute)
    moreover have "k div csb * csb \<le> k \<and> k - k div csb * csb < csb"
      using assms(1) by (simp add: minus_div_mult_eq_mod)
    ultimately have "j * csb \<le> k \<and> k - j * csb < csb \<longleftrightarrow> j = k div csb"
      by blast
    then show ?thesis
      using k by (auto simp: bit_simps)
  qed
  moreover have "k div csb < 64 div csb"
    using k assms by (simp add: div_less_iff_less_mult)
  ultimately show "bit (foldl (\<lambda>acc j. acc OR push_bit (j * csb) (take_bit csb (drop_bit (j * csb) w))) 0
      (rev [0..<64 div csb])) k = bit w k"
    by (auto simp: foldl_or_bit)
qed

lemma concat_values_chunks:
  assumes "0 < sz" "sz dvd 8"
  shows "concat_values sz (length data) (chunks_of (8 * sz) data) = Inr data"
proof -
  have n: "64 div (8 * sz) = 8 div sz"
    by (simp add: div_mult2_eq)
  have dvd: "8 * sz dvd 64"
    using assms(2) mult_dvd_mono [of 8 8 sz 8] by simp
  have "foldl (\<lambda>acc j. acc OR push_bit (j * 8 * sz) (chunks_of (8 * sz) data ! (8 div sz * i + j))) 0
      (rev [0..<8 div sz]) = data ! i" if "i < length data" for i
  proof -
    have "chunks_of (8 * sz) data ! (8 div sz * i + j) = take_bit (8 * sz) (drop_bit (j * (8 * sz)) (data ! i))"
      if j: "j < 8 div sz" for j
    proof -
      have "8 div sz * i + j < length data * (8 div sz)"
        using j mult_le_mono1 [of "Suc i" "length data" "8 div sz"] \<open>i < length data\<close> by (simp add: mult.commute)
      then show ?thesis
        using j by (simp add: nth_chunks_of n)
    qed
    then have "foldl (\<lambda>acc j. acc OR push_bit (j * 8 * sz) (chunks_of (8 * sz) data ! (8 div sz * i + j))) 0
        (rev [0..<8 div sz]) =
      foldl (\<lambda>acc j. acc OR push_bit (j * (8 * sz)) (take_bit (8 * sz) (drop_bit (j * (8 * sz)) (data ! i)))) 0
        (rev [0..<64 div (8 * sz)])"
      by (intro foldl_cong) (simp_all add: n mult.assoc)
    then show ?thesis
      using concat_chunk [of "8 * sz" "data ! i"] assms(1) dvd by simp
  qed
  then show ?thesis
    by (auto simp: concat_values_def Let_def n intro!: nth_equalityI)
qed

lemma insert_chunk:
  fixes w :: "64 word"
  assumes "0 < csb" "s * csb + csb \<le> 64"
  shows "bf_insertBits (take_bit (s * csb) w) (csb + s * csb - Suc 0) (s * csb)
      (take_bit csb (drop_bit (s * csb) w)) = Inr (take_bit (Suc s * csb) w)"
proof -
  have "s * csb \<le> csb + s * csb - Suc 0" "csb + s * csb - Suc 0 + 1 < 2 ^ 32"
    using assms by simp_all
  moreover from this have "bf_insert (take_bit (s * csb) w) (csb + s * csb - Suc 0) (s * csb)
      (take_bit csb (drop_bit (s * csb) w)) = take_bit (Suc s * csb) w"
    using assms by (intro bit_word_eqI) (auto simp: bit_bf_insert bit_simps)
  ultimately show ?thesis
    by (simp add: bf_insertBits_def)
qed

text \<open>After \<open>i\<close> chunks, the first \<open>i * csb\<close> bits of the block are in place.\<close>

definition filled :: "nat \<Rightarrow> 64 word list \<Rightarrow> 64 word list" where
  "filled b data = map (\<lambda>q. take_bit (b - 64 * q) (data ! q)) [0..<length data]"

lemma filled_step:
  assumes "0 < csb" "csb dvd 64" "i < length data * (64 div csb)"
  shows "unchunk_loop csb (chunks_of csb data ! i # cs) i (filled (i * csb) data) =
    unchunk_loop csb cs (Suc i) (filled (Suc i * csb) data)"
proof -
  define n where "n = 64 div csb"
  define q where "q = i div n"
  define s where "s = i mod n"
  have n: "n * csb = 64" "0 < n"
    using assms(1,2) by (auto simp: n_def div_greater_zero_iff dvd_imp_le)
  have i: "i = q * n + s" "s < n"
    using n by (simp_all add: q_def s_def)
  have q: "q < length data"
    using assms(3) by (simp add: q_def n_def less_mult_imp_div_less)
  have pos: "i * csb = 64 * q + s * csb"
    using n(1) by (simp add: i(1) add_mult_distrib mult.assoc)
  have s: "s * csb + csb \<le> 64"
    using i(2) n mult_le_mono1 [of "Suc s" n csb] by simp
  have cur: "filled (i * csb) data ! q = take_bit (s * csb) (data ! q)"
    using q pos by (simp add: filled_def)
  have "(filled (i * csb) data)[q := take_bit (Suc s * csb) (data ! q)] = filled (Suc i * csb) data"
  proof (rule nth_equalityI)
    fix r assume r: "r < length ((filled (i * csb) data)[q := take_bit (Suc s * csb) (data ! q)])"
    consider "r < q" | "r = q" | "q < r" by linarith
    then show "(filled (i * csb) data)[q := take_bit (Suc s * csb) (data ! q)] ! r = filled (Suc i * csb) data ! r"
    proof cases
      case 1
      then have "64 \<le> i * csb - 64 * r"
        using pos by linarith
      with 1 r pos show ?thesis
        by (simp add: filled_def take_bit_word_eq_self)
    next
      case 3
      then have "Suc i * csb \<le> 64 * r"
        using pos s by simp
      with 3 r show ?thesis
        by (simp add: filled_def)
    qed (use r pos in \<open>simp add: filled_def\<close>)
  qed (simp add: filled_def)
  moreover have "chunks_of csb data ! i = take_bit csb (drop_bit (s * csb) (data ! q))"
    using assms(3) by (simp add: nth_chunks_of s_def q_def n_def)
  ultimately show ?thesis
    using q cur insert_chunk [OF assms(1) s, of "data ! q"]
    by (simp add: Let_def s_def q_def n_def filled_def)
qed

lemma unchunk_loop_chunks:
  assumes "0 < csb" "csb dvd 64" "i \<le> length data * (64 div csb)"
  shows "unchunk_loop csb (drop i (chunks_of csb data)) i (filled (i * csb) data) =
    Inr (filled (length data * 64) data)"
  using assms(3)
proof (induction "length data * (64 div csb) - i" arbitrary: i)
  case 0
  then have "i = length data * (64 div csb)"
    by simp
  then have "i * csb = length data * 64"
    using assms(2) by (simp add: mult.assoc)
  with 0 show ?case
    by simp
next
  case (Suc k)
  then have i: "i < length data * (64 div csb)"
    by simp
  then have "drop i (chunks_of csb data) = chunks_of csb data ! i # drop (Suc i) (chunks_of csb data)"
    by (simp add: Cons_nth_drop_Suc)
  then show ?case
    using filled_step [OF assms(1,2) i, of "drop (Suc i) (chunks_of csb data)"]
      Suc.hyps(1) [of "Suc i"] Suc.hyps(2) i by simp
qed

lemma fromChunks_toChunks:
  assumes "0 < chunkSizeBits p" "chunkSizeBits p dvd 64" "blkSize p = 8 * length data"
  shows "fromChunks p (chunks_of (chunkSizeBits p) data) = Inr data"
proof -
  have "filled (length data * 64) data = data"
    by (rule nth_equalityI) (simp_all add: filled_def take_bit_word_eq_self)
  moreover have "filled 0 data = replicate (length data) 0"
    by (simp add: filled_def map_replicate_const)
  ultimately show ?thesis
    using unchunk_loop_chunks [OF assms(1,2), of 0 data] assms(3) by (simp add: fromChunks_def)
qed

section \<open>Round trip of the dictionary compressors\<close>

lemma dictionary_code_all: "dictionary_code cls"
  by (cases cls)
    (simp_all add: cpack.dictionary_code_axioms fpc.dictionary_code_axioms fpcd.dictionary_code_axioms
      zeroes.dictionary_code_axioms qwords.dictionary_code_axioms deltas.dictionary_code_axioms)

text \<open>The dictionary is large enough for a block of \<open>n\<close> chunks.\<close>

fun dict_fits :: "dict_class \<Rightarrow> nat \<Rightarrow> nat \<Rightarrow> bool" where
  "dict_fits (FPC _) dsize n = True"
| "dict_fits FPCD dsize n = (2 \<le> dsize)"
| "dict_fits (BaseDelta _ _) dsize n = (n + 1 \<le> dsize)"
| "dict_fits _ dsize n = (n \<le> dsize)"

lemma resetDictionary_fits:
  "dict_fits cls dsize n \<Longrightarrow>
    \<exists>st. resetDictionary cls dsize = Inr st \<and> dict_ok dsize st \<and> room cls dsize n st"
  by (cases cls) (auto simp: resetDictionary_def dict_ok_def append_addToDictionary_def Let_def)

lemma dictionary_round_trip:
  assumes "dict_fits cls dsize (length vs)" "dsize \<le> 256"
  obtains st0 st n es where "resetDictionary cls dsize = Inr st0"
    "DictionaryCompressor_compress cls dsize vs = Inr (st, n, es)"
    "\<And>outside. decompress_values (\<lambda>i. Inr (outside i)) cls dsize es st0 = Inr (map (take_bit (8 * sizeofT cls)) vs)"
proof -
  obtain st0 where st0: "resetDictionary cls dsize = Inr st0" "dict_ok dsize st0" "room cls dsize (length vs) st0"
    using resetDictionary_fits [OF assms(1)] by blast
  obtain st n es where "compress_values cls dsize vs st0 (0, []) = Inr (st, n, [] @ es)"
      "\<forall>outside. decompress_values (\<lambda>i. Inr (outside i)) cls dsize es st0 = Inr (map (take_bit (8 * sizeofT cls)) vs)"
    using dictionary_code.compress_values_round_trip [OF dictionary_code_all st0(2) assms(2) st0(3)] by blast
  with st0(1) that show ?thesis
    by (simp add: DictionaryCompressor_compress_def)
qed

lemma RepeatedQwords_entries:
  assumes "DictionaryCompressor_compress RepeatedQwords dsize vs = Inr (st, n, es)" "vs \<noteq> []"
    "length vs \<le> dsize" "dsize \<le> 256"
  shows "1 \<le> numEntries st"
proof -
  obtain v vs' where vs: "vs = v # vs'"
    using assms(2) by (cases vs) auto
  obtain st0 where st0: "resetDictionary RepeatedQwords dsize = Inr st0" "dict_ok dsize st0"
      "room RepeatedQwords dsize (Suc (length vs')) st0"
    using resetDictionary_fits [of RepeatedQwords dsize "length vs"] assms(3) vs by auto
  obtain p st1 where st1: "compressValue RepeatedQwords dsize v st0 = Inr (p, st1)" "dict_ok dsize st1"
      "room RepeatedQwords dsize (length vs') st1"
    using qwords.compressValue_returns [OF st0(2,3), of v] by blast
  have "numEntries st0 = 0"
    using st0(1) by (auto simp: resetDictionary_def)
  then have "numEntries st1 = 1"
    using st1(1)
    by (auto simp: compressValue_def RepeatedQwords_getPattern_def isLocatedMasked_def newUncompressed_def
      append_addToDictionary_def rbind_eq_Inr assert_that_eq_Inr Let_def)
  obtain n1 q where q: "addEntry RepeatedQwords p (0, []) = (n1, [q])"
    using addEntry_same [of RepeatedQwords p 0 "[]"] by auto
  then show ?thesis
    using qwords.compress_values_round_trip [OF st1(2) assms(4) st1(3), of n1 "[q]"]
      assms(1) st0(1) st1(1) \<open>numEntries st1 = 1\<close>
    by (auto simp: DictionaryCompressor_compress_def vs)
qed

section \<open>Round trip of the compressor objects\<close>

fun compressor_ok :: "Compressor \<Rightarrow> bool" where
  "compressor_ok (DictCompressor p cls) \<longleftrightarrow>
    Compressor_params_ok p = Inr () \<and> 0 < compChunksPerCycle p \<and> 0 < decompChunksPerCycle p \<and>
    chunkSizeBits p = 8 * sizeofT cls \<and> dictionarySize p \<le> 256 \<and>
    dict_fits cls (dictionarySize p) (8 * blkSize p div chunkSizeBits p)"
| "compressor_ok (PerfectCompressor p _) \<longleftrightarrow>
    Compressor_params_ok p = Inr () \<and> 0 < compChunksPerCycle p \<and> 0 < decompChunksPerCycle p"
| "compressor_ok (MultiCompressor p _ cs) \<longleftrightarrow>
    Compressor_params_ok p = Inr () \<and> cs \<noteq> [] \<and> length cs \<le> 256 \<and>
    list_all (\<lambda>c. compressor_ok c \<and> blkSize (Compressor_params c) = blkSize p) cs"

lemma params_ok_chunks:
  "Compressor_params_ok p = Inr () \<Longrightarrow> 0 < chunkSizeBits p \<and> chunkSizeBits p dvd 64 \<and> sizeThreshold p \<le> blkSize p"
  by (auto simp: Compressor_params_ok_def fatal_if_def split: if_splits)

lemma compressor_ok_params: "compressor_ok c \<Longrightarrow> Compressor_params_ok (Compressor_params c) = Inr ()"
  by (cases c) auto

lemma latencies_return: "0 < compChunksPerCycle p \<Longrightarrow> 0 < decompChunksPerCycle p \<Longrightarrow>
    \<exists>cl dl. compress_latencies p n = Inr (cl, dl)"
  by (simp add: compress_latencies_def)

lemma dict_compress_data:
  assumes "DictionaryCompressor_compress cls (dictionarySize p) vs = Inr (st, n, es)"
    "0 < compChunksPerCycle p" "0 < decompChunksPerCycle p" "cls = RepeatedQwords \<Longrightarrow> 1 \<le> numEntries st"
  shows "\<exists>k cl dl. dict_compress p cls vs = Inr (DictData k es, cl, dl)"
  using latencies_return [OF assms(2,3), of "length vs"] assms(1,4)
  by (cases cls) (auto simp: Let_def)

definition line_round_trip :: "Compressor \<Rightarrow> 64 word list \<Rightarrow> bool" where
  "line_round_trip c data \<longleftrightarrow>
    (\<exists>cd cl dl. Compressor_compress c (chunks_of (chunkSizeBits (Compressor_params c)) data) = Inr (cd, cl, dl) \<and>
      (\<forall>outside. Compressor_decompress (\<lambda>i. Inr (outside i)) c cd = Inr data))"

lemma dict_line_round_trip:
  assumes "compressor_ok (DictCompressor p cls)" "blkSize p = 8 * length data" "data \<noteq> []"
  shows "line_round_trip (DictCompressor p cls) data"
proof -
  let ?vs = "chunks_of (8 * sizeofT cls) data"
  have csb: "chunkSizeBits p = 8 * sizeofT cls" "0 < 8 * sizeofT cls" "8 * sizeofT cls dvd 8 * 8"
    using assms(1) params_ok_chunks [of p] by auto
  then have sz: "0 < sizeofT cls" "sizeofT cls dvd 8"
    using nat_mult_dvd_cancel1 [of 8 "sizeofT cls" 8] by auto
  have len: "8 * blkSize p div chunkSizeBits p = length ?vs"
    using assms(2) csb by (simp add: div_mult_swap mult.commute)
  have "0 < length ?vs"
    using assms(3) sz by (simp add: div_greater_zero_iff dvd_imp_le)
  then have ne: "?vs \<noteq> []"
    by (rule length_greater_0_conv [THEN iffD1])
  obtain st0 st n es where round:
      "resetDictionary cls (dictionarySize p) = Inr st0"
      "DictionaryCompressor_compress cls (dictionarySize p) ?vs = Inr (st, n, es)"
      "\<And>outside. decompress_values (\<lambda>i. Inr (outside i)) cls (dictionarySize p) es st0 = Inr (map (take_bit (8 * sizeofT cls)) ?vs)"
    by (rule dictionary_round_trip [of cls "dictionarySize p" ?vs]) (use assms(1) len in simp_all)
  have "1 \<le> numEntries st" if "cls = RepeatedQwords"
    using RepeatedQwords_entries [of "dictionarySize p" ?vs] round(2) assms(1) len that ne
    by auto
  then obtain k cl dl where "dict_compress p cls ?vs = Inr (DictData k es, cl, dl)"
    using dict_compress_data [OF round(2)] assms(1) by auto
  moreover have "DictionaryCompressor_decompress (\<lambda>i. Inr (outside i)) p cls es = Inr data" for outside
    using round(1,3) concat_values_chunks [OF sz, of data] assms(2)
    by (simp add: DictionaryCompressor_decompress_def)
  ultimately show ?thesis
    using csb(1) by (auto simp: line_round_trip_def)
qed

lemma mset_push_heap: "hole < length xs \<Longrightarrow> mset (push_heap hole v xs) = mset (xs[hole := v])"
proof (induction hole v xs rule: push_heap.induct)
  case (1 hole v xs)
  let ?par = "(hole - 1) div 2"
  show ?case
  proof (cases "0 < hole \<and> ResultsComparator (xs ! ?par) v")
    case True
    then have par: "?par < hole" "?par < length xs"
      using 1(2) by linarith+
    have "mset (push_heap hole v xs) = mset (xs[hole := xs ! ?par, ?par := v])"
      using 1 True par by (subst push_heap.simps) simp
    also have "\<dots> = mset (xs[hole := v])"
      using mset_swap [of ?par "xs[hole := v]" hole] par 1(2) by (simp add: nth_list_update)
    finally show ?thesis .
  qed (subst push_heap.simps, auto)
qed

lemma length_push_heap [simp]: "length (push_heap hole v xs) = length xs"
  by (induction hole v xs rule: push_heap.induct) (subst push_heap.simps, simp)

lemma set_results_push [simp]: "set (results_push xs v) = insert v (set xs)"
proof -
  have "mset (results_push xs v) = mset (xs @ [v])"
    by (simp add: results_push_def mset_push_heap)
  then have "set (results_push xs v) = set (xs @ [v])"
    by (rule mset_eq_setD)
  then show ?thesis
    by simp
qed

lemma length_results_push [simp]: "length (results_push xs v) = Suc (length xs)"
  by (simp add: results_push_def)

lemma decompress_setSizeBits [simp]:
  "Compressor_decompress outside c (CompressionData_setSizeBits n cd) = Compressor_decompress outside c cd"
  by (cases c; cases cd) simp_all

lemma Base_compress_round_trip:
  assumes "line_round_trip c data" "compressor_ok c" "blkSize (Compressor_params c) = 8 * length data"
  shows "\<exists>cd cl dl. Base_compress (Compressor_params c) (Compressor_compress c) data = Inr (cd, cl, dl) \<and>
    (\<forall>outside. Compressor_decompress (\<lambda>i. Inr (outside i)) c cd = Inr data)"
  using assms params_ok_chunks [OF compressor_ok_params [OF assms(2)]]
  by (auto simp: Base_compress_def line_round_trip_def toChunks_eq)

lemma Results_new_fields [simp]:
  "res_index (Results_new i cd dl blk) = i" "res_compData (Results_new i cd dl blk) = cd"
  "res_decompLat (Results_new i cd dl blk) = dl"
  by (simp_all add: Results_new_def Let_def)

lemma Multi_results_good:
  assumes "\<And>c. c \<in> set cs \<Longrightarrow> \<exists>cd cl dl. Base_compress (Compressor_params c) (Compressor_compress c) data = Inr (cd, cl, dl) \<and>
      (\<forall>outside. Compressor_decompress (\<lambda>i. Inr (outside i)) c cd = Inr data)"
    and "\<forall>x\<in>set xs. res_index x < i + length cs \<and> Q x"
    and "\<And>j cd dl. j < length cs \<Longrightarrow> (\<And>outside. Compressor_decompress (\<lambda>i. Inr (outside i)) (cs ! j) cd = Inr data) \<Longrightarrow>
      Q (Results_new (i + j) cd dl blk)"
  shows "\<exists>ys m'. Multi_results blk enc data i cs (xs, m) = Inr (ys, m') \<and> length ys = length xs + length cs \<and>
    (\<forall>x\<in>set ys. res_index x < i + length cs \<and> Q x)"
  using assms
proof (induction cs arbitrary: i xs m)
  case (Cons c cs)
  obtain cd cl dl where c: "Base_compress (Compressor_params c) (Compressor_compress c) data = Inr (cd, cl, dl)"
      "\<And>outside. Compressor_decompress (\<lambda>i. Inr (outside i)) c cd = Inr data"
    using Cons.prems(1) [of c] by auto
  let ?r = "Results_new i (CompressionData_setSizeBits (CompressionData_getSizeBits cd + enc) cd) dl blk"
  have "\<forall>x\<in>set (results_push xs ?r). res_index x < Suc i + length cs \<and> Q x"
    using Cons.prems(2) Cons.prems(3) [of 0 "CompressionData_setSizeBits (CompressionData_getSizeBits cd + enc) cd" dl] c(2)
    by auto
  moreover have "Q (Results_new (Suc i + j) cd' dl' blk)"
    if "j < length cs" "\<And>outside. Compressor_decompress (\<lambda>i. Inr (outside i)) (cs ! j) cd' = Inr data" for j cd' dl'
    using Cons.prems(3) [of "Suc j" cd' dl'] that by simp
  ultimately show ?case
    using Cons.IH [of "results_push xs ?r" "Suc i" "max m cl"] Cons.prems(1) c(1) by (simp add: Let_def)
qed auto

lemma compressor_line_round_trip:
  "compressor_ok c \<Longrightarrow> blkSize (Compressor_params c) = 8 * length data \<Longrightarrow> data \<noteq> [] \<Longrightarrow> line_round_trip c data"
proof (induction c)
  case (DictCompressor p cls)
  then show ?case
    using dict_line_round_trip by simp
next
  case (PerfectCompressor p n)
  let ?vs = "chunks_of (chunkSizeBits p) data"
  obtain cl dl where "compress_latencies p (length ?vs) = Inr (cl, dl)"
    using latencies_return [of p "length ?vs"] PerfectCompressor.prems(1) by auto
  with PerfectCompressor.prems show ?case
    using params_ok_chunks [of p] by (simp add: line_round_trip_def Perfect_compress_def fromChunks_toChunks)
next
  case (MultiCompressor p tags cs)
  let ?Q = "\<lambda>x. \<forall>outside. Compressor_decompress (\<lambda>i. Inr (outside i)) (cs ! res_index x) (res_compData x) = Inr data"
  have ok: "c \<in> set cs \<Longrightarrow> compressor_ok c \<and> blkSize (Compressor_params c) = 8 * length data" for c
    using MultiCompressor.prems by (auto simp: list_all_iff)
  have subs: "c \<in> set cs \<Longrightarrow> \<exists>cd cl dl. Base_compress (Compressor_params c) (Compressor_compress c) data = Inr (cd, cl, dl) \<and>
      (\<forall>outside. Compressor_decompress (\<lambda>i. Inr (outside i)) c cd = Inr data)" for c
    using Base_compress_round_trip MultiCompressor.IH MultiCompressor.prems(3) ok by blast
  obtain ys m' where ys: "Multi_results (blkSize p) (Multi_numEncodingBits tags (length cs)) data 0 cs ([], 0) = Inr (ys, m')"
      "length ys = length cs" "\<forall>x\<in>set ys. res_index x < length cs \<and> ?Q x"
    using Multi_results_good [of cs data "[]" 0 ?Q "blkSize p" "Multi_numEncodingBits tags (length cs)" 0] subs
    by auto
  obtain best rest where best: "ys = best # rest"
    using ys(2) MultiCompressor.prems(1) by (cases ys) auto
  then have "unat (of_nat (res_index best) :: 8 word) = res_index best"
    using ys(3) MultiCompressor.prems(1) by (simp add: unat_of_nat)
  then show ?case
    using ys best params_ok_chunks [of p] MultiCompressor.prems
    by (simp add: line_round_trip_def fromChunks_toChunks Multi_select_def)
qed

section \<open>The best sub-compressor\<close>

definition rank :: "Results \<Rightarrow> int \<times> int" where
  "rank r = (int (compressionFactor r), - int (res_decompLat r))"

lemma ResultsComparator_rank: "ResultsComparator x y \<longleftrightarrow> rank x < rank y"
  by (auto simp: ResultsComparator_def rank_def less_prod_def)

text \<open>The factor of a result of so many bits on a block of \<open>blk\<close> bytes, and the bits for an index.\<close>

definition size_factor :: "nat \<Rightarrow> nat \<Rightarrow> nat" where
  "size_factor blk bits = (let sz = (bits + 7) div 8 in
    (if sz > blk then 1 else if sz = 0 then blk else 2 ^ ceillog2 (blk div sz)) mod 256)"

lemma alignToPowerOfTwo_ceillog2:
  assumes "0 < n" "n \<le> 2 ^ 63"
  shows "alignToPowerOfTwo (of_nat n) = 2 ^ ceillog2 n" "ceillog2 n \<le> 63"
proof -
  obtain k where k: "k \<le> 63" "alignToPowerOfTwo (of_nat n) = 2 ^ k" "n \<le> 2 ^ k" "\<forall>l. n \<le> 2 ^ l \<longrightarrow> k \<le> l"
    using alignToPowerOfTwo_least [OF assms] by blast
  have "ceillog2 n = k"
    using k(3,4) ceillog2_le_iff [OF assms(1), of k] le_two_power_ceillog2 [of n] by (simp add: le_antisym)
  then show "alignToPowerOfTwo (of_nat n) = 2 ^ ceillog2 n" "ceillog2 n \<le> 63"
    using k(1,2) by simp_all
qed

lemma numEncodingBits_ceillog2:
  assumes "0 < n" "n \<le> 256"
  shows "Multi_numEncodingBits tags n = (if tags then 0 else ceillog2 n)"
  using alignToPowerOfTwo_ceillog2 [of n] assms by (simp add: Multi_numEncodingBits_def findMsbSet_power)

lemma getSizeBits_setSizeBits [simp]: "CompressionData_getSizeBits (CompressionData_setSizeBits k cd) = k"
  by (cases cd) simp_all

lemma Results_new_sel [simp]:
  "res_index (Results_new i cd dl blk) = i" "res_compData (Results_new i cd dl blk) = cd" "res_decompLat (Results_new i cd dl blk) = dl"
  by (simp_all add: Results_new_def Let_def)

lemma compressionFactor_size:
  assumes "blk \<le> 2 ^ 63"
  shows "compressionFactor (Results_new i cd dl blk) = size_factor blk (CompressionData_getSizeBits cd)"
proof -
  let ?sz = "CompressionData_getSize cd"
  have "unat (alignToPowerOfTwo (of_nat (blk div ?sz))) = 2 ^ ceillog2 (blk div ?sz)" if "0 < ?sz" "?sz \<le> blk"
  proof -
    have "0 < blk div ?sz" "blk div ?sz \<le> 2 ^ 63"
      using that assms by (auto simp: div_greater_zero_iff intro: le_trans [OF div_le_dividend])
    from alignToPowerOfTwo_ceillog2 [OF this] show ?thesis
      by (simp add: unat_power_lower_64)
  qed
  then show ?thesis
    by (auto simp: Results_new_def size_factor_def CompressionData_getSize_def Let_def)
qed

definition is_heap :: "Results list \<Rightarrow> bool" where
  "is_heap xs \<longleftrightarrow> (\<forall>i<length xs. 0 < i \<longrightarrow> rank (xs ! i) \<le> rank (xs ! ((i - 1) div 2)))"

text \<open>A heap but for the position \<open>hole\<close>, into which \<open>v\<close> may sink.\<close>

definition heap_hole :: "nat \<Rightarrow> Results \<Rightarrow> Results list \<Rightarrow> bool" where
  "heap_hole hole v xs \<longleftrightarrow> hole < length xs \<and>
    (\<forall>i<length xs. 0 < i \<longrightarrow>
      (if (i - 1) div 2 = hole
       then rank (xs ! i) \<le> rank v \<and> (0 < hole \<longrightarrow> rank (xs ! i) \<le> rank (xs ! ((hole - 1) div 2)))
       else i \<noteq> hole \<longrightarrow> rank (xs ! i) \<le> rank (xs ! ((i - 1) div 2))))"

lemma heap_parent_less: "0 < i \<Longrightarrow> (i - Suc 0) div 2 < i"
  by linarith

lemma heap_hole_fill:
  assumes "heap_hole hole v xs" "0 < hole \<Longrightarrow> rank v \<le> rank (xs ! ((hole - 1) div 2))"
  shows "is_heap (xs[hole := v])"
  unfolding is_heap_def
proof (intro allI impI)
  fix i assume i: "i < length (xs[hole := v])" "0 < i"
  then have ne: "(i - 1) div 2 \<noteq> i"
    by linarith
  show "rank (xs[hole := v] ! i) \<le> rank (xs[hole := v] ! ((i - 1) div 2))"
    using assms i ne unfolding heap_hole_def
    by (cases "i = hole"; cases "(i - 1) div 2 = hole") auto
qed

lemma heap_hole_up:
  assumes "heap_hole hole v xs" "0 < hole" "rank (xs ! ((hole - 1) div 2)) < rank v"
  shows "heap_hole ((hole - 1) div 2) v (xs[hole := xs ! ((hole - 1) div 2)])"
proof -
  define par where "par = (hole - 1) div 2"
  have par: "par < hole" "hole < length xs"
    using assms by (auto simp: par_def heap_hole_def)
  have h: "i < length xs \<Longrightarrow> 0 < i \<Longrightarrow>
      (if (i - 1) div 2 = hole then rank (xs ! i) \<le> rank v \<and> rank (xs ! i) \<le> rank (xs ! par)
       else i \<noteq> hole \<longrightarrow> rank (xs ! i) \<le> rank (xs ! ((i - 1) div 2)))" for i
    using assms(1,2) unfolding heap_hole_def par_def by presburger
  have gp: "0 < par \<Longrightarrow> rank (xs ! par) \<le> rank (xs ! ((par - 1) div 2))"
    using h [of par] par by (auto split: if_splits)
  have "if (i - 1) div 2 = par
      then rank (xs[hole := xs ! par] ! i) \<le> rank v \<and>
        (0 < par \<longrightarrow> rank (xs[hole := xs ! par] ! i) \<le> rank (xs[hole := xs ! par] ! ((par - 1) div 2)))
      else i \<noteq> par \<longrightarrow> rank (xs[hole := xs ! par] ! i) \<le> rank (xs[hole := xs ! par] ! ((i - 1) div 2))"
    if i: "i < length xs" "0 < i" for i
  proof (cases "i = hole")
    case True
    then have "(i - 1) div 2 = par" "(par - 1) div 2 \<noteq> hole"
      using par by (auto simp: par_def)
    with True par gp assms(3) show ?thesis
      by (auto simp: par_def [symmetric])
  next
    case False
    have gp_ne: "(par - 1) div 2 \<noteq> hole"
      using par by linarith
    consider "(i - 1) div 2 = hole" | "(i - 1) div 2 = par" | "(i - 1) div 2 \<noteq> hole" "(i - 1) div 2 \<noteq> par"
      by blast
    then show ?thesis
    proof cases
      case 2
      with False h [OF i] par have le: "rank (xs ! i) \<le> rank (xs ! par)"
        by simp
      have "rank (xs ! i) \<le> rank v"
        using order.trans [OF le less_imp_le] assms(3) by (simp add: par_def)
      moreover have "0 < par \<Longrightarrow> rank (xs ! i) \<le> rank (xs ! ((par - 1) div 2))"
        using order.trans [OF le gp] .
      ultimately show ?thesis
        using 2 False gp_ne by simp
    qed (use False h [OF i] par in simp_all)
  qed
  then show ?thesis
    using order.strict_trans [OF par]
    unfolding par_def [symmetric] heap_hole_def length_list_update by blast
qed

lemma push_heap_is_heap: "heap_hole hole v xs \<Longrightarrow> is_heap (push_heap hole v xs)"
proof (induction hole v xs rule: push_heap.induct)
  case (1 hole v xs)
  then show ?case
    using heap_hole_up [of hole v xs] heap_hole_fill [of hole v xs]
    by (subst push_heap.simps) (auto simp: ResultsComparator_rank not_less)
qed

lemma results_push_heap:
  assumes "is_heap xs"
  shows "is_heap (results_push xs v)"
proof -
  have "rank ((xs @ [v]) ! i) \<le> rank ((xs @ [v]) ! ((i - 1) div 2))" "(i - 1) div 2 \<noteq> length xs"
    if "i < length xs" "0 < i" for i
    using assms that by (auto simp: is_heap_def nth_append)
  then have "heap_hole (length xs) v (xs @ [v])"
    by (auto simp: heap_hole_def less_Suc_eq heap_parent_less [THEN less_imp_neq])
  then show ?thesis
    by (simp add: results_push_def push_heap_is_heap)
qed

lemma heap_top:
  assumes "is_heap xs"
  shows "i < length xs \<Longrightarrow> rank (xs ! i) \<le> rank (xs ! 0)"
proof (induction i rule: less_induct)
  case (less i)
  show ?case
  proof (cases "i = 0")
    case False
    then have "(i - 1) div 2 < i" "(i - 1) div 2 < length xs"
      using less.prems by auto
    with less False assms show ?thesis
      using order.trans unfolding is_heap_def by blast
  qed simp
qed

lemma Multi_results_heap:
  "Multi_results blk enc data i cs (xs, m) = Inr (ys, m') \<Longrightarrow> is_heap xs \<Longrightarrow>
    is_heap ys \<and> set ys = set xs \<union> {x. \<exists>j<length cs. \<exists>cd cl dl.
      Base_compress (Compressor_params (cs ! j)) (Compressor_compress (cs ! j)) data = Inr (cd, cl, dl) \<and>
      x = Results_new (i + j) (CompressionData_setSizeBits (CompressionData_getSizeBits cd + enc) cd) dl blk}"
proof (induction cs arbitrary: i xs m)
  case (Cons c cs)
  from Cons.prems(1) obtain cd cl dl where
    c: "Base_compress (Compressor_params c) (Compressor_compress c) data = Inr (cd, cl, dl)" and
    tl: "Multi_results blk enc data (i + 1) cs
      (results_push xs (Results_new i (CompressionData_setSizeBits (CompressionData_getSizeBits cd + enc) cd) dl blk), max m cl) =
      Inr (ys, m')"
    by (auto simp: rbind_eq_Inr Let_def)
  from Cons.IH [OF tl] Cons.prems(2) c show ?case
    by (auto simp: results_push_heap less_Suc_eq_0_disj nth_Cons')
qed simp

lemma Multi_select_eq_Inr:
  "Multi_select p r = Inr x \<longleftrightarrow> (\<exists>best rest m. r = (best # rest, m) \<and>
    x = (MultiData (CompressionData_getSizeBits (res_compData best)) (of_nat (res_index best)) (res_compData best),
         m + compExtraLatency p, res_decompLat best + decompExtraLatency p))"
  by (cases r) (auto simp: Multi_select_def split: list.splits)

lemma getPattern_no_match: "matchLocation (getPattern cls bytes d (- 1)) = - 1"
  by (cases cls)
    (simp_all add: CPack_getPattern_def FPC_getPattern_def FPCD_getPattern_def Zero_getPattern_def
      RepeatedQwords_getPattern_def BaseDelta_getPattern_def newUncompressed_def newMasked_def
      newMaskedValue_def newRepeatedByte_def newDelta_def newSignExtended_def FPC_newZeroRun_def
      FPC_newTwoHalfwords_def)

lemma resetDictionary_length: "resetDictionary cls dsize = Inr st \<Longrightarrow> length (dictionary st) = dsize"
  by (auto simp: resetDictionary_def append_addToDictionary_def assert_that_eq_Inr Let_def split: dict_class.splits)

text \<open>The first value has no match, but for BaseDelta's base 0.\<close>

lemma first_no_match:
  assumes "resetDictionary cls dsize = Inr st" "compressValue cls dsize v st = Inr (p, st')"
    and "\<And>sz deltaSizeBits. cls = BaseDelta sz deltaSizeBits \<Longrightarrow>
      \<not> isDelta sz deltaSizeBits (toDictionaryEntry sz v) (toDictionaryEntry sz 0) 0"
  shows "matchLocation p = - 1"
proof (cases "\<exists>sz deltaSizeBits. cls = BaseDelta sz deltaSizeBits")
  case True
  then obtain sz deltaSizeBits where cls: "cls = BaseDelta sz deltaSizeBits"
    by blast
  then have "numEntries st = 1" "dictionary st ! 0 = toDictionaryEntry sz 0"
    using assms(1) by (auto simp: resetDictionary_def append_addToDictionary_def assert_that_eq_Inr Let_def)
  then have "p = getPattern cls (toDictionaryEntry sz v) (toDictionaryEntry sz 0) (- 1)"
    using assms(2) assms(3) [OF cls] cls
    by (auto simp: compressValue_def BaseDelta_getPattern_def newUncompressed_def Pattern_getSizeBits_def isDelta_def
        rbind_eq_Inr Let_def split: if_splits)
  then show ?thesis
    by (simp add: getPattern_no_match)
next
  case False
  then have "numEntries st = 0"
    using assms(1) by (auto simp: resetDictionary_def Let_def split: dict_class.splits)
  then show ?thesis
    using assms(2) by (auto simp: compressValue_def getPattern_no_match rbind_eq_Inr Let_def split: if_splits)
qed

lemma compress_values_prefix:
  "compress_values cls dsize vs st d = Inr (st', n', es') \<Longrightarrow> \<exists>r. es' = snd d @ r"
proof (induction vs arbitrary: st d)
  case (Cons v vs)
  then obtain p st1 where "compress_values cls dsize vs st1 (addEntry cls p d) = Inr (st', n', es')"
    by (auto simp: rbind_eq_Inr)
  from Cons.IH [OF this] addEntry_same [of cls p "fst d" "snd d"] show ?case
    by auto
qed auto

section \<open>Properties\<close>

definition sample_params :: "nat \<Rightarrow> comp_params" where
  "sample_params bits = \<lparr>blkSize = 16, chunkSizeBits = bits, sizeThreshold = 8, compChunksPerCycle = 1,
    compExtraLatency = 1, decompChunksPerCycle = 1, decompExtraLatency = 1, dictionarySize = 16\<rparr>"

definition sample_subs :: "Compressor list" where
  "sample_subs =
    [DictCompressor (sample_params 32) CPack, DictCompressor (sample_params 32) (FPC 3),
     DictCompressor (sample_params 64) (BaseDelta 8 8)]"

definition sample_multi :: Compressor where
  "sample_multi = MultiCompressor (sample_params 32) False sample_subs"

lemma sample_multi_ok: "compressor_ok sample_multi" "Compressor_params sample_multi = sample_params 32"
  "blkSize (sample_params b) = 16" "chunkSizeBits (sample_params b) = b"
  by (simp_all add: sample_multi_def sample_subs_def sample_params_def Compressor_params_ok_def fatal_if_def)

text \<open>
  C13: Decompressing what a compressor made of a block gives the block back, for every
  compressor whose parameters its constructor accepts and whose dictionary has room for the
  block: CPack, FPC, FPCD, Zero, RepeatedQwords, the BaseDelta family, Perfect, and Multi over
  any of them, nested or not. Compression always returns, and the size it reports never
  exceeds the block. The result does not depend on the bytes that the reads outside the dictionary yield.
\<close>

theorem compressor_round_trip:
  assumes "compressor_ok c" "blkSize (Compressor_params c) = 8 * length data" "data \<noteq> []"
  shows "\<exists>cd comp_lat decomp_lat. Compressor_compressLine c data = Inr (cd, comp_lat, decomp_lat) \<and>
    CompressionData_getSizeBits cd \<le> 8 * blkSize (Compressor_params c) \<and>
    (\<forall>outside. Compressor_decompress (\<lambda>i. Inr (outside i)) c cd = Inr data)"
proof -
  note p = params_ok_chunks [OF compressor_ok_params [OF assms(1)]]
  show ?thesis
    using compressor_line_round_trip [OF assms] p assms(2)
    by (auto simp: Compressor_compressLine_def Base_compress_def line_round_trip_def toChunks_eq)
qed

text \<open>
  C39: Decompression reads outside the dictionary. A value that matches no entry gets a pattern with match location -1, which
  \<open>getMatchLocation\<close> returns as the unsigned byte 255, and \<open>decompressValue\<close> reads the dictionary there before it
  knows whether the pattern uses the entry. So, if a read outside a vector is an error, the decompression of every block whose
  first value matches no entry ends in it, for every dictionary compressor with a dictionary of
  at most 255 entries. The first value never matches, as the dictionary is empty, except for BaseDelta, which starts with the
  base 0: there it matches if it is within the delta of 0.
\<close>

theorem no_match_reads_outside:
  assumes "DictionaryCompressor_compress cls (dictionarySize p) (v # vs) = Inr (st, n, es)" "dictionarySize p \<le> 255"
    and "\<And>sz deltaSizeBits. cls = BaseDelta sz deltaSizeBits \<Longrightarrow>
      \<not> isDelta sz deltaSizeBits (toDictionaryEntry sz v) (toDictionaryEntry sz 0) 0"
  shows "DictionaryCompressor_decompress (\<lambda>_. Inl (Undefined ''*entry_it'')) p cls es = Inl (Undefined ''*entry_it'')"
proof -
  let ?dsize = "dictionarySize p"
  obtain st0 pat st1 where run: "resetDictionary cls ?dsize = Inr st0"
      "compressValue cls ?dsize v st0 = Inr (pat, st1)"
      "compress_values cls ?dsize vs st1 (addEntry cls pat (0, [])) = Inr (st, n, es)"
    using assms(1) by (auto simp: DictionaryCompressor_compress_def rbind_eq_Inr)
  have len: "length (dictionary st0) = ?dsize"
    using resetDictionary_length [OF run(1)] .
  have "matchLocation pat = - 1"
    using first_no_match [OF run(1,2) assms(3)] .
  moreover obtain n1 q where q: "addEntry cls pat (0, []) = (n1, [q])" "same_code pat q"
    using addEntry_same [of cls pat 0 "[]"] by auto
  moreover obtain r where "es = q # r"
    using compress_values_prefix [OF run(3)] q(1) by auto
  ultimately show ?thesis
    using run(1) len assms(2)
    by (simp add: DictionaryCompressor_decompress_def decompressValue_def same_code_def Pattern_getMatchLocation_def Let_def)
qed

text \<open>
  C32: The composed compressor keeps the result of a best sub-compressor: no sub-compressor reaches a higher
  compression factor on the block, nor the same factor with a lower decompression latency. The
  factor of a result of so many bytes is 1 if it is larger than the block, the size of the block if it has no bytes, and otherwise
  the least power of two that is not below the quotient of the two sizes, and it is kept in
  a byte. The bits that tell the sub-compressors apart count as part of the size, unless they are
  in the tags.
\<close>

theorem multi_selects_best:
  assumes "Compressor_compress (MultiCompressor p tags cs) chunks = Inr (MultiData n i d, comp_lat, decomp_lat)"
    and "fromChunks p chunks = Inr data" and "length cs \<le> 256" and "blkSize p \<le> 2 ^ 63"
  shows "\<exists>d0 cl0 dl0.
      unat i < length cs \<and>
      Base_compress (Compressor_params (cs ! unat i)) (Compressor_compress (cs ! unat i)) data = Inr (d0, cl0, dl0) \<and>
      n = CompressionData_getSizeBits d0 + (if tags then 0 else ceillog2 (length cs)) \<and>
      d = CompressionData_setSizeBits n d0 \<and> decomp_lat = dl0 + decompExtraLatency p \<and>
      (\<forall>j<length cs. \<forall>d1 cl1 dl1.
        Base_compress (Compressor_params (cs ! j)) (Compressor_compress (cs ! j)) data = Inr (d1, cl1, dl1) \<longrightarrow>
        (let f = size_factor (blkSize p) n;
             f1 = size_factor (blkSize p) (CompressionData_getSizeBits d1 + (if tags then 0 else ceillog2 (length cs))) in
         f1 < f \<or> f1 = f \<and> dl0 \<le> dl1))"
proof -
  let ?enc = "if tags then 0 else ceillog2 (length cs)"
  let ?res = "\<lambda>j d1 dl. Results_new j (CompressionData_setSizeBits (CompressionData_getSizeBits d1 + ?enc) d1) dl (blkSize p)"
  obtain best rest m where run': "Multi_results (blkSize p) (Multi_numEncodingBits tags (length cs)) data 0 cs ([], 0) = Inr (best # rest, m)"
    and d: "n = CompressionData_getSizeBits d" "d = res_compData best" "i = of_nat (res_index best)"
      "decomp_lat = res_decompLat best + decompExtraLatency p"
    using assms(1,2) by (auto simp: rbind_eq_Inr Multi_select_eq_Inr)
  have "cs \<noteq> []"
    using run' by auto
  then have enc: "Multi_numEncodingBits tags (length cs) = ?enc"
    using numEncodingBits_ceillog2 [of "length cs" tags] assms(3) by simp
  have heap: "is_heap (best # rest)" and set: "set (best # rest) = {x. \<exists>j<length cs. \<exists>cd cl dl.
      Base_compress (Compressor_params (cs ! j)) (Compressor_compress (cs ! j)) data = Inr (cd, cl, dl) \<and> x = ?res j cd dl}"
    using Multi_results_heap [OF run'] unfolding enc by (simp_all add: is_heap_def)
  have top: "rank x \<le> rank best" if "x \<in> set (best # rest)" for x
    using heap_top [OF heap] that by (metis in_set_conv_nth nth_Cons_0)
  have "best \<in> set (best # rest)"
    by simp
  then obtain j d0 cl0 dl0 where j: "j < length cs"
      "Base_compress (Compressor_params (cs ! j)) (Compressor_compress (cs ! j)) data = Inr (d0, cl0, dl0)" "best = ?res j d0 dl0"
    unfolding set by blast
  have i: "unat i = j" and n: "d = CompressionData_setSizeBits (CompressionData_getSizeBits d0 + ?enc) d0"
      "n = CompressionData_getSizeBits d0 + ?enc" "decomp_lat = dl0 + decompExtraLatency p"
    using j(1,3) assms(3) d by (simp_all add: unat_of_nat)
  have "let f = size_factor (blkSize p) n; f1 = size_factor (blkSize p) (CompressionData_getSizeBits d1 + ?enc) in
      f1 < f \<or> f1 = f \<and> dl0 \<le> dl1"
    if "k < length cs" "Base_compress (Compressor_params (cs ! k)) (Compressor_compress (cs ! k)) data = Inr (d1, cl1, dl1)"
    for k d1 cl1 dl1
  proof -
    have "rank (?res k d1 dl1) \<le> rank (?res j d0 dl0)"
      using top [of "?res k d1 dl1"] that j(3) unfolding set by blast
    then show ?thesis
      using n(2) by (auto simp: rank_def less_eq_prod_def compressionFactor_size [OF assms(4)] Let_def)
  qed
  then show ?thesis
    using j(1,2) i n by (intro exI [of _ d0] exI [of _ cl0] exI [of _ dl0]) simp
qed

theorem compressor_round_trip_witness:
  "\<exists>cd comp_lat decomp_lat. Compressor_compressLine sample_multi [0x100, 0x105] = Inr (cd, comp_lat, decomp_lat) \<and>
    CompressionData_getSizeBits cd \<le> 128 \<and>
    (\<forall>outside. Compressor_decompress (\<lambda>i. Inr (outside i)) sample_multi cd = Inr [0x100, 0x105])"
  using compressor_round_trip [of sample_multi "[0x100, 0x105]"] by (simp add: sample_multi_ok)

theorem no_match_reads_outside_witness:
  "\<exists>st n es. DictionaryCompressor_compress (BaseDelta 8 8) 16 [0x1000, 5] = Inr (st, n, es) \<and>
    DictionaryCompressor_decompress (\<lambda>_. Inl (Undefined ''*entry_it'')) (sample_params 64) (BaseDelta 8 8) es =
      Inl (Undefined ''*entry_it'')"
proof -
  obtain st n es where run: "DictionaryCompressor_compress (BaseDelta 8 8) (dictionarySize (sample_params 64)) [0x1000, 5] = Inr (st, n, es)"
    by (rule dictionary_round_trip [of "BaseDelta 8 8" 16 "[0x1000, 5]"]) (simp_all add: sample_params_def)
  have "\<not> isDelta 8 8 (toDictionaryEntry 8 0x1000) (toDictionaryEntry 8 0) 0"
    by code_simp
  then show ?thesis
    using no_match_reads_outside [OF run] run by (simp add: sample_params_def)
qed

theorem multi_selects_best_witness:
  "\<exists>n i d comp_lat decomp_lat d0 cl0 dl0.
    Compressor_compress sample_multi (chunks_of 32 [0x100, 0x105]) = Inr (MultiData n i d, comp_lat, decomp_lat) \<and>
    unat i < length sample_subs \<and>
    Base_compress (Compressor_params (sample_subs ! unat i)) (Compressor_compress (sample_subs ! unat i)) [0x100, 0x105] =
      Inr (d0, cl0, dl0) \<and>
    (\<forall>j<length sample_subs. \<forall>d1 cl1 dl1.
      Base_compress (Compressor_params (sample_subs ! j)) (Compressor_compress (sample_subs ! j)) [0x100, 0x105] =
        Inr (d1, cl1, dl1) \<longrightarrow>
      (let f = size_factor 16 n; f1 = size_factor 16 (CompressionData_getSizeBits d1 + ceillog2 (length sample_subs)) in
       f1 < f \<or> f1 = f \<and> dl0 \<le> dl1))"
proof -
  let ?data = "[0x100, 0x105] :: 64 word list"
  obtain cd cl dl where run: "Compressor_compress sample_multi (chunks_of 32 ?data) = Inr (cd, cl, dl)"
      "\<And>outside. Compressor_decompress (\<lambda>i. Inr (outside i)) sample_multi cd = Inr ?data"
    using compressor_line_round_trip [of sample_multi ?data] by (auto simp: sample_multi_ok line_round_trip_def)
  obtain n i d where cd: "cd = MultiData n i d"
    using run(2) by (cases cd) (simp_all add: sample_multi_def)
  have chunks: "fromChunks (sample_params 32) (chunks_of 32 ?data) = Inr ?data"
    using fromChunks_toChunks [of "sample_params 32" ?data] by (simp add: sample_multi_ok)
  have len: "length sample_subs \<le> 256" "blkSize (sample_params 32) \<le> 2 ^ 63"
    by (simp_all add: sample_subs_def sample_params_def)
  show ?thesis
    using multi_selects_best [OF run(1) [unfolded sample_multi_def cd] chunks len] run(1) cd
    by (simp add: sample_multi_ok) blast
qed

end
