(* ===== verification/Cache_Tags.thy ===== *)
theory Cache_Tags
  imports Packet Indexing Replacement
begin

text \<open>
  Cache blocks and the set-associative tag store: \<open>mem/cache/tags/tagged_entry.hh\<close>,
  \<open>mem/cache/cache_blk.hh\<close>, \<open>mem/cache/tags/base.cc\<close> and \<open>mem/cache/tags/base_set_assoc.cc\<close>. A
  block is named by its index in the vector of blocks, which is also its replacement entry. The
  replacement policy is reached through its operations, which the functions below take as
  arguments with the policy's state; the indexing policy is the set-associative one. There is no
  partition manager. Statistics and the data array are left out.
\<close>

section \<open>Tagged entries\<close>

type_synonym KeyType = "Addr \<times> bool"

record Lock =
  lk_contextId :: int
  lowAddr :: Addr
  highAddr :: Addr

record CacheBlk =
  blk_valid :: bool
  blk_secure :: bool
  blk_tag :: Addr
  blk_set :: "32 word"
  blk_way :: "32 word"
  blk_coherence :: "32 word"
  blk_prefetched :: bool
  blk_taskId :: "32 word"
  blk_partitionId :: "64 word"
  blk_whenReady :: Tick
  blk_refCount :: "32 word"
  blk_srcRequestorId :: int
  blk_tickInserted :: Tick
  blk_lockList :: "Lock list"

definition TaggedEntry_match :: "(Addr \<Rightarrow> Addr) \<Rightarrow> KeyType \<Rightarrow> CacheBlk \<Rightarrow> bool" where
  "TaggedEntry_match extractTag key blk =
    (blk_valid blk \<and> blk_tag blk = extractTag (fst key) \<and> blk_secure blk = snd key)"

definition TaggedEntry_insert :: "(Addr \<Rightarrow> Addr) \<Rightarrow> KeyType \<Rightarrow> CacheBlk \<Rightarrow> CacheBlk result" where
  "TaggedEntry_insert extractTag key blk =
    assert_that (\<not> blk_valid blk) ''!isValid()''
      (Inr (blk\<lparr>blk_valid := True, blk_tag := extractTag (fst key),
                blk_secure := (if snd key then True else blk_secure blk)\<rparr>))"

definition TaggedEntry_invalidate :: "CacheBlk \<Rightarrow> CacheBlk" where
  "TaggedEntry_invalidate blk = blk\<lparr>blk_valid := False, blk_tag := - 1, blk_secure := False\<rparr>"

section \<open>Cache blocks\<close>

definition CacheBlk_clearCoherenceBits :: "32 word \<Rightarrow> CacheBlk \<Rightarrow> CacheBlk" where
  "CacheBlk_clearCoherenceBits bits blk = blk\<lparr>blk_coherence := blk_coherence blk AND NOT bits\<rparr>"

definition CacheBlk_setCoherenceBits :: "32 word \<Rightarrow> CacheBlk \<Rightarrow> CacheBlk result" where
  "CacheBlk_setCoherenceBits bits blk =
    assert_that (blk_valid blk) ''isValid()'' (Inr (blk\<lparr>blk_coherence := blk_coherence blk OR bits\<rparr>))"

definition CacheBlk_setWhenReady :: "Tick \<Rightarrow> CacheBlk \<Rightarrow> CacheBlk result" where
  "CacheBlk_setWhenReady tick blk =
    assert_that (tick \<ge> blk_tickInserted blk) ''tick >= _tickInserted'' (Inr (blk\<lparr>blk_whenReady := tick\<rparr>))"

text \<open>
  \<open>AllBits\<close> is 0x0E, \<open>MaxTick\<close> the largest tick, \<open>invldRequestorId\<close> the largest 16-bit number and
  the task id \<open>Unknown\<close> is 1024.
\<close>

definition CacheBlk_invalidate :: "CacheBlk \<Rightarrow> CacheBlk result" where
  "CacheBlk_invalidate blk =
    rbind (CacheBlk_setWhenReady (- 1)
      ((CacheBlk_clearCoherenceBits 0x0E ((TaggedEntry_invalidate blk)\<lparr>blk_prefetched := False\<rparr>))
        \<lparr>blk_taskId := 1024, blk_partitionId := - 1\<rparr>)) (\<lambda>b.
      Inr (b\<lparr>blk_refCount := 0, blk_srcRequestorId := 65535, blk_lockList := []\<rparr>))"

definition CacheBlk_new :: CacheBlk where
  "CacheBlk_new =
    \<lparr>blk_valid = False, blk_secure = False, blk_tag = - 1, blk_set = 0, blk_way = 0, blk_coherence = 0,
     blk_prefetched = False, blk_taskId = 1024, blk_partitionId = - 1, blk_whenReady = - 1, blk_refCount = 0,
     blk_srcRequestorId = 65535, blk_tickInserted = 0, blk_lockList = []\<rparr>"

definition CacheBlk_insert :: "Tick \<Rightarrow> (Addr \<Rightarrow> Addr) \<Rightarrow> KeyType \<Rightarrow> int \<Rightarrow> 32 word \<Rightarrow> 64 word \<Rightarrow> CacheBlk \<Rightarrow>
    CacheBlk result" where
  "CacheBlk_insert curTick extractTag key src_requestor_ID task_ID partition_id blk =
    assert_that (\<not> blk_valid blk) ''!isValid()''
      (rbind (TaggedEntry_insert extractTag key blk) (\<lambda>b.
        Inr (b\<lparr>blk_srcRequestorId := src_requestor_ID, blk_taskId := task_ID,
               blk_partitionId := partition_id, blk_tickInserted := curTick,
               blk_refCount := blk_refCount b + 1\<rparr>)))"

text \<open>The move assignment \<open>*dest = std::move(*other)\<close>: both blocks afterwards.\<close>

definition CacheBlk_moveAssign :: "Tick \<Rightarrow> (Addr \<Rightarrow> Addr) \<Rightarrow> CacheBlk \<Rightarrow> CacheBlk \<Rightarrow> (CacheBlk \<times> CacheBlk) result" where
  "CacheBlk_moveAssign curTick extractTag dest other =
    assert_that (\<not> blk_valid dest) ''!isValid()''
    (assert_that (blk_valid other) ''other.isValid()''
    (rbind (TaggedEntry_insert extractTag (blk_tag other, blk_secure other) dest) (\<lambda>d1.
     let d2 = (if blk_prefetched other then d1\<lparr>blk_prefetched := True\<rparr> else d1) in
     rbind (CacheBlk_setCoherenceBits (blk_coherence other) d2) (\<lambda>d3.
     rbind (CacheBlk_setWhenReady curTick
       (d3\<lparr>blk_taskId := blk_taskId other, blk_partitionId := blk_partitionId other\<rparr>)) (\<lambda>d4.
     let d5 = d4\<lparr>blk_refCount := blk_refCount other, blk_srcRequestorId := blk_srcRequestorId other,
                 blk_lockList := blk_lockList other\<rparr> in
     rbind (CacheBlk_invalidate (other\<lparr>blk_lockList := blk_lockList dest\<rparr>)) (\<lambda>other'.
     Inr (d5, other')))))))"

section \<open>Load-locked and store-conditional\<close>

definition lock_range :: "Request \<Rightarrow> (Addr \<times> Addr) result" where
  "lock_range req =
    rbind (Request_getPaddr req) (\<lambda>req_low.
    rbind (Request_getSize req) (\<lambda>sz. Inr (req_low, req_low + ucast sz - 1)))"

definition Lock_new :: "Request \<Rightarrow> Lock result" where
  "Lock_new req =
    rbind (Request_contextId req) (\<lambda>c.
    rbind (lock_range req) (\<lambda>(low, high). Inr \<lparr>lk_contextId = c, lowAddr = low, highAddr = high\<rparr>))"

definition Lock_matches :: "Request \<Rightarrow> Lock \<Rightarrow> bool result" where
  "Lock_matches req l =
    rbind (lock_range req) (\<lambda>(req_low, req_high).
    rbind (Request_contextId req) (\<lambda>c.
      Inr (lk_contextId l = c \<and> req_low \<ge> lowAddr l \<and> req_high \<le> highAddr l)))"

definition Lock_intersects :: "Request \<Rightarrow> Lock \<Rightarrow> bool result" where
  "Lock_intersects req l =
    rbind (lock_range req) (\<lambda>(req_low, req_high). Inr (req_low \<le> highAddr l \<and> req_high \<ge> lowAddr l))"

text \<open>A loop that erases the locks for which the test holds.\<close>

fun erase_locks :: "(Lock \<Rightarrow> bool result) \<Rightarrow> Lock list \<Rightarrow> Lock list result" where
  "erase_locks test [] = Inr []"
| "erase_locks test (l # ls) =
    rbind (test l) (\<lambda>b. rbind (erase_locks test ls) (\<lambda>ls'. Inr (if b then ls' else l # ls')))"

definition CacheBlk_trackLoadLocked :: "Packet \<Rightarrow> CacheBlk \<Rightarrow> CacheBlk result" where
  "CacheBlk_trackLoadLocked pkt blk =
    assert_that (pkt_attr IsLlsc pkt) ''pkt->isLLSC()''
      (rbind (erase_locks (Lock_intersects (pkt_req pkt)) (blk_lockList blk)) (\<lambda>ls.
       rbind (Lock_new (pkt_req pkt)) (\<lambda>l. Inr (blk\<lparr>blk_lockList := l # ls\<rparr>))))"

text \<open>The right operand of \<open>&&\<close> is evaluated only for an intersecting lock.\<close>

definition CacheBlk_clearLoadLocks :: "Request \<Rightarrow> CacheBlk \<Rightarrow> CacheBlk result" where
  "CacheBlk_clearLoadLocks req blk =
    rbind (erase_locks (\<lambda>l. rbind (Lock_intersects req l) (\<lambda>b.
        if b then rbind (Request_contextId req) (\<lambda>c. Inr (lk_contextId l \<noteq> c)) else Inr False))
      (blk_lockList blk)) (\<lambda>ls. Inr (blk\<lparr>blk_lockList := ls\<rparr>))"

fun take_lock :: "Request \<Rightarrow> Lock list \<Rightarrow> (bool \<times> Lock list) result" where
  "take_lock req [] = Inr (False, [])"
| "take_lock req (l # ls) =
    rbind (Lock_matches req l) (\<lambda>b.
      if b then Inr (True, ls) else rbind (take_lock req ls) (\<lambda>(s, ls'). Inr (s, l # ls')))"

definition CacheBlk_checkWrite :: "Packet \<Rightarrow> CacheBlk \<Rightarrow> (bool \<times> Packet \<times> CacheBlk) result" where
  "CacheBlk_checkWrite pkt blk =
    assert_that (pkt_attr IsWrite pkt) ''pkt->isWrite()''
      (if \<not> pkt_attr IsLlsc pkt \<and> blk_lockList blk = [] then Inr (True, pkt, blk)
       else if pkt_attr IsLlsc pkt then
         rbind (take_lock (pkt_req pkt) (blk_lockList blk)) (\<lambda>(success, ls).
         let req = Request_setExtraData (if success then 1 else 0) (pkt_req pkt) in
         rbind (CacheBlk_clearLoadLocks req (blk\<lparr>blk_lockList := ls\<rparr>)) (\<lambda>blk'.
           Inr (success, pkt\<lparr>pkt_req := req\<rparr>, blk')))
       else rbind (CacheBlk_clearLoadLocks (pkt_req pkt) blk) (\<lambda>blk'. Inr (True, pkt, blk')))"

section \<open>The tag store\<close>

record 's set_assoc_tags =
  blkMask :: Addr
  lookupLatency :: nat
  maxRequestors :: nat
  indexingPolicy :: indexing
  allocAssoc :: nat
  blks :: "CacheBlk list"
  replacement :: 's

abbreviation tag_of :: "'s set_assoc_tags \<Rightarrow> Addr \<Rightarrow> Addr" where
  "tag_of ts \<equiv> IndexingPolicy_extractTag (indexingPolicy ts)"

definition BaseSetAssoc_new :: "32 word \<Rightarrow> 32 word \<Rightarrow> nat \<Rightarrow> nat \<Rightarrow> nat \<Rightarrow> indexing \<Rightarrow> 's \<Rightarrow> 's set_assoc_tags result" where
  "BaseSetAssoc_new sz block_size assc tag_latency max_requestors ip repl =
    (if block_size = 0 then Inl (Undefined ''division by zero'')
     else fatal_if (block_size < 4 \<or> \<not> isPowerOf2 (ucast block_size))
       ''Block size must be at least 4 and a power of 2''
       (Inr \<lparr>blkMask = ucast (block_size - 1), lookupLatency = tag_latency, maxRequestors = max_requestors,
             indexingPolicy = ip, allocAssoc = assc,
             blks = replicate (unat (sz div block_size)) CacheBlk_new, replacement = repl\<rparr>))"

fun tagsInit_loop :: "nat list \<Rightarrow> 's set_assoc_tags \<Rightarrow> 's set_assoc_tags result" where
  "tagsInit_loop [] ts = Inr ts"
| "tagsInit_loop (i # is) ts =
    rbind (IndexingPolicy_setEntry i i (indexingPolicy ts)) (\<lambda>(ip, s, w).
      tagsInit_loop is (ts\<lparr>indexingPolicy := ip,
        blks := (blks ts)[i := (blks ts ! i)\<lparr>blk_set := of_nat s, blk_way := of_nat w\<rparr>]\<rparr>))"

definition BaseSetAssoc_tagsInit :: "'s set_assoc_tags \<Rightarrow> 's set_assoc_tags result" where
  "BaseSetAssoc_tagsInit ts = tagsInit_loop [0..<length (blks ts)] ts"

fun find_loop :: "(Addr \<Rightarrow> Addr) \<Rightarrow> KeyType \<Rightarrow> CacheBlk list \<Rightarrow> nat option list \<Rightarrow> nat option result" where
  "find_loop extractTag key bs [] = Inr None"
| "find_loop extractTag key bs (None # es) = Inl (Undefined ''null entry'')"
| "find_loop extractTag key bs (Some i # es) =
    (if TaggedEntry_match extractTag key (bs ! i) then Inr (Some i) else find_loop extractTag key bs es)"

definition BaseTags_findBlock :: "KeyType \<Rightarrow> 's set_assoc_tags \<Rightarrow> nat option result" where
  "BaseTags_findBlock key ts =
    find_loop (tag_of ts) key (blks ts) (SetAssociative_getPossibleEntries (indexingPolicy ts) (fst key))"

definition packet_key :: "Packet \<Rightarrow> KeyType result" where
  "packet_key pkt = rbind (Packet_getAddr pkt) (\<lambda>a. rbind (Packet_isSecure pkt) (\<lambda>s. Inr (a, s)))"

definition BaseTags_insertBlock :: "Tick \<Rightarrow> Packet \<Rightarrow> nat \<Rightarrow> 's set_assoc_tags \<Rightarrow> 's set_assoc_tags result" where
  "BaseTags_insertBlock curTick pkt i ts =
    (let blk = blks ts ! i; requestor_id = req_requestorId (pkt_req pkt) in
     assert_that (\<not> blk_valid blk) ''!blk->isValid()''
     (assert_that (unat requestor_id < maxRequestors ts) ''requestor_id < maxRequestors()''
     (rbind (packet_key pkt) (\<lambda>key.
      rbind (CacheBlk_insert curTick (tag_of ts) key (uint requestor_id) (req_taskId (pkt_req pkt)) 0 blk) (\<lambda>blk'.
        Inr (ts\<lparr>blks := (blks ts)[i := blk']\<rparr>))))))"

definition BaseTags_invalidate :: "nat \<Rightarrow> 's set_assoc_tags \<Rightarrow> 's set_assoc_tags result" where
  "BaseTags_invalidate i ts =
    assert_that (blk_valid (blks ts ! i)) ''blk->isValid()''
      (rbind (CacheBlk_invalidate (blks ts ! i)) (\<lambda>blk'. Inr (ts\<lparr>blks := (blks ts)[i := blk']\<rparr>)))"

definition BaseTags_moveBlock :: "Tick \<Rightarrow> nat \<Rightarrow> nat \<Rightarrow> 's set_assoc_tags \<Rightarrow> 's set_assoc_tags result" where
  "BaseTags_moveBlock curTick src dest ts =
    assert_that (\<not> blk_valid (blks ts ! dest)) ''!dest_blk->isValid()''
    (assert_that (blk_valid (blks ts ! src)) ''src_blk->isValid()''
    (rbind (CacheBlk_moveAssign curTick (tag_of ts) (blks ts ! dest) (blks ts ! src)) (\<lambda>(d, s).
     assert_that (blk_valid d) ''dest_blk->isValid()''
     (assert_that (\<not> blk_valid s) ''!src_blk->isValid()''
       (Inr (ts\<lparr>blks := (blks ts)[dest := d, src := s]\<rparr>))))))"

text \<open>The operations of the set-associative store, each with the operation of the policy it calls.\<close>

definition BaseSetAssoc_accessBlock :: "(nat \<Rightarrow> 's \<Rightarrow> 's) \<Rightarrow> Packet \<Rightarrow> 's set_assoc_tags \<Rightarrow>
    (nat option \<times> nat \<times> 's set_assoc_tags) result" where
  "BaseSetAssoc_accessBlock touch pkt ts =
    rbind (packet_key pkt) (\<lambda>key.
    rbind (BaseTags_findBlock key ts) (\<lambda>r.
      Inr (r, lookupLatency ts,
        case r of
          None \<Rightarrow> ts
        | Some i \<Rightarrow> ts\<lparr>blks := (blks ts)[i := (blks ts ! i)\<lparr>blk_refCount := blk_refCount (blks ts ! i) + 1\<rparr>],
                      replacement := touch i (replacement ts)\<rparr>)))"

definition BaseSetAssoc_findVictim :: "('s \<Rightarrow> entry list \<Rightarrow> ('s \<times> entry) result) \<Rightarrow> KeyType \<Rightarrow>
    's set_assoc_tags \<Rightarrow> (nat option \<times> 's set_assoc_tags) result" where
  "BaseSetAssoc_findVictim getVictim key ts =
    (let entries = SetAssociative_getPossibleEntries (indexingPolicy ts) (fst key) in
     if entries = [] then Inr (None, ts)
     else if None \<in> set entries then Inl (Undefined ''null entry'')
     else rbind (getVictim (replacement ts) (map the entries)) (\<lambda>(repl, v).
       Inr (Some v, ts\<lparr>replacement := repl\<rparr>)))"

definition BaseSetAssoc_insertBlock :: "(nat \<Rightarrow> 's \<Rightarrow> 's) \<Rightarrow> Tick \<Rightarrow> Packet \<Rightarrow> nat \<Rightarrow> 's set_assoc_tags \<Rightarrow>
    's set_assoc_tags result" where
  "BaseSetAssoc_insertBlock reset curTick pkt i ts =
    rbind (BaseTags_insertBlock curTick pkt i ts) (\<lambda>ts'. Inr (ts'\<lparr>replacement := reset i (replacement ts')\<rparr>))"

definition BaseSetAssoc_invalidate :: "(nat \<Rightarrow> 's \<Rightarrow> 's) \<Rightarrow> nat \<Rightarrow> 's set_assoc_tags \<Rightarrow> 's set_assoc_tags result" where
  "BaseSetAssoc_invalidate invalidate i ts =
    rbind (BaseTags_invalidate i ts) (\<lambda>ts'. Inr (ts'\<lparr>replacement := invalidate i (replacement ts')\<rparr>))"

definition BaseSetAssoc_moveBlock :: "(nat \<Rightarrow> 's \<Rightarrow> 's) \<Rightarrow> (nat \<Rightarrow> 's \<Rightarrow> 's) \<Rightarrow> Tick \<Rightarrow> nat \<Rightarrow> nat \<Rightarrow>
    's set_assoc_tags \<Rightarrow> 's set_assoc_tags result" where
  "BaseSetAssoc_moveBlock invalidate reset curTick src dest ts =
    rbind (BaseTags_moveBlock curTick src dest ts) (\<lambda>ts'.
      Inr (ts'\<lparr>replacement := reset dest (invalidate src (replacement ts'))\<rparr>))"

definition BaseSetAssoc_setWayAllocationMax :: "int \<Rightarrow> 's set_assoc_tags \<Rightarrow> 's set_assoc_tags result" where
  "BaseSetAssoc_setWayAllocationMax ways ts =
    fatal_if (ways < 1) ''Allocation limit must be greater than zero'' (Inr (ts\<lparr>allocAssoc := nat ways\<rparr>))"

definition BaseSetAssoc_regenerateBlkAddr :: "nat \<Rightarrow> 's set_assoc_tags \<Rightarrow> Addr" where
  "BaseSetAssoc_regenerateBlkAddr i ts =
    SetAssociative_regenerateAddr (indexingPolicy ts) (blk_tag (blks ts ! i)) (blk_set (blks ts ! i))"

section \<open>Use by a cache\<close>

text \<open>
  The calls \<open>BaseCache\<close> makes to its tag store for an access that allocates on a miss, and for an
  invalidation. As in \<open>BaseCache::allocateBlock\<close>, the victim is looked for, evicted if it is valid
  and replaced; there is no compressor, and no transaction is in flight for the victim, so that
  \<open>handleEvictions\<close> does not give up.
\<close>

datatype cache_op = Reference Tick Packet | Invalidation KeyType

definition tags_allocate :: "('s \<Rightarrow> entry list \<Rightarrow> ('s \<times> entry) result) \<Rightarrow> (Tick \<Rightarrow> nat \<Rightarrow> 's \<Rightarrow> 's) \<Rightarrow> (nat \<Rightarrow> 's \<Rightarrow> 's) \<Rightarrow>
    Tick \<Rightarrow> Packet \<Rightarrow> 's set_assoc_tags \<Rightarrow> 's set_assoc_tags result" where
  "tags_allocate getVictim reset invalidate curTick pkt ts =
    rbind (packet_key pkt) (\<lambda>key.
    rbind (BaseSetAssoc_findVictim getVictim key ts) (\<lambda>(victim, ts1).
      case victim of
        None \<Rightarrow> Inr ts1
      | Some v \<Rightarrow>
          rbind (if blk_valid (blks ts1 ! v) then BaseSetAssoc_invalidate invalidate v ts1 else Inr ts1)
            (BaseSetAssoc_insertBlock (reset curTick) curTick pkt v)))"

fun tags_do :: "('s \<Rightarrow> entry list \<Rightarrow> ('s \<times> entry) result) \<Rightarrow> (Tick \<Rightarrow> nat \<Rightarrow> 's \<Rightarrow> 's) \<Rightarrow> (Tick \<Rightarrow> nat \<Rightarrow> 's \<Rightarrow> 's) \<Rightarrow>
    (nat \<Rightarrow> 's \<Rightarrow> 's) \<Rightarrow> cache_op \<Rightarrow> 's set_assoc_tags \<Rightarrow> 's set_assoc_tags result" where
  "tags_do getVictim touch reset invalidate (Reference curTick pkt) ts =
    rbind (BaseSetAssoc_accessBlock (touch curTick) pkt ts) (\<lambda>(blk, lat, ts').
      if blk = None then tags_allocate getVictim reset invalidate curTick pkt ts' else Inr ts')"
| "tags_do getVictim touch reset invalidate (Invalidation key) ts =
    rbind (BaseTags_findBlock key ts) (\<lambda>r.
      case r of None \<Rightarrow> Inr ts | Some i \<Rightarrow> BaseSetAssoc_invalidate invalidate i ts)"

fun tags_run :: "('s \<Rightarrow> entry list \<Rightarrow> ('s \<times> entry) result) \<Rightarrow> (Tick \<Rightarrow> nat \<Rightarrow> 's \<Rightarrow> 's) \<Rightarrow> (Tick \<Rightarrow> nat \<Rightarrow> 's \<Rightarrow> 's) \<Rightarrow>
    (nat \<Rightarrow> 's \<Rightarrow> 's) \<Rightarrow> cache_op list \<Rightarrow> 's set_assoc_tags \<Rightarrow> 's set_assoc_tags result" where
  "tags_run getVictim touch reset invalidate [] ts = Inr ts"
| "tags_run getVictim touch reset invalidate (c # cs) ts =
    rbind (tags_do getVictim touch reset invalidate c ts) (tags_run getVictim touch reset invalidate cs)"

text \<open>The search of the two policies that leave their state alone, as the store calls it.\<close>

definition LRU_victim :: "(entry \<Rightarrow> lru_data) \<Rightarrow> entry list \<Rightarrow> ((entry \<Rightarrow> lru_data) \<times> entry) result" where
  "LRU_victim d cs = rbind (LRU_getVictim d cs) (\<lambda>v. Inr (d, v))"

definition MRU_victim :: "(entry \<Rightarrow> lru_data) \<Rightarrow> entry list \<Rightarrow> ((entry \<Rightarrow> lru_data) \<times> entry) result" where
  "MRU_victim d cs = rbind (MRU_getVictim d cs) (\<lambda>v. Inr (d, v))"

text \<open>What can happen to the locks of a block, in any order.\<close>

datatype lock_event = LoadLocked Packet | Store Packet | BlockInvalidated

fun lock_do :: "lock_event \<Rightarrow> CacheBlk \<Rightarrow> CacheBlk result" where
  "lock_do (LoadLocked pkt) blk = CacheBlk_trackLoadLocked pkt blk"
| "lock_do (Store pkt) blk = rbind (CacheBlk_checkWrite pkt blk) (\<lambda>(success, pkt', blk'). Inr blk')"
| "lock_do BlockInvalidated blk = CacheBlk_invalidate blk"

fun lock_run :: "lock_event list \<Rightarrow> CacheBlk \<Rightarrow> CacheBlk result" where
  "lock_run [] blk = Inr blk"
| "lock_run (e # es) blk = rbind (lock_do e blk) (lock_run es)"

end
