(* ===== verification/Cache_Tags_Correct.thy ===== *)
theory Cache_Tags_Correct
  imports Cache_Tags Packet_Correct Indexing_Correct Replacement_Correct
begin

text \<open>
  Correctness of the set-associative tag store with its indexing and replacement policies. The
  store represents a map from the lines (block address and security) that it holds to the ticks of their last
  uses; a lookup hits exactly these lines, and the accesses and invalidations of a cache act on the map as they
  should. What the store needs of a replacement policy is the locale \<open>tag_policy\<close>. The second part
  is about the load-locked lists of a block.
\<close>

section \<open>What a tag store needs of its replacement policy\<close>

text \<open>
  \<open>ok U s\<close>: the state \<open>s\<close> is one in which exactly the entries in the domain of \<open>U\<close> hold a block, last used at the
  tick \<open>U\<close> gives. A victim is chosen by these ticks alone: \<open>choice x X\<close> says that an entry with \<open>x\<close>
  may be given up when the candidates have \<open>X\<close>, with \<open>None\<close> for an entry that holds no block.
\<close>

locale tag_policy =
  fixes getVictim :: "'s \<Rightarrow> entry list \<Rightarrow> ('s \<times> entry) result"
    and touch reset :: "Tick \<Rightarrow> entry \<Rightarrow> 's \<Rightarrow> 's" and invalidate :: "entry \<Rightarrow> 's \<Rightarrow> 's"
    and ok :: "(entry \<rightharpoonup> Tick) \<Rightarrow> 's \<Rightarrow> bool" and choice :: "Tick option \<Rightarrow> Tick option set \<Rightarrow> bool"
  assumes victim: "ok U s \<Longrightarrow> cs \<noteq> [] \<Longrightarrow>
      \<exists>s' v. getVictim s cs = Inr (s', v) \<and> v \<in> set cs \<and> ok U s' \<and> choice (U v) (U ` set cs)"
    and no_victim: "getVictim s [] = Inl (AssertFail ''candidates.size() > 0'')"
    and touch_ok: "ok U s \<Longrightarrow> e \<in> dom U \<Longrightarrow> ok (U(e \<mapsto> t)) (touch t e s)"
    and reset_ok: "ok U s \<Longrightarrow> ok (U(e \<mapsto> t)) (reset t e s)"
    and invalidate_ok: "ok U s \<Longrightarrow> ok (U(e := None)) (invalidate e s)"

sublocale tag_policy \<subseteq> rp: replacement_policy getVictim "ok U" for U
  by unfold_locales (use victim no_victim in blast)+

section \<open>The table of the store\<close>

definition tags_table :: "indexing \<Rightarrow> bool" where
  "tags_table ip \<longleftrightarrow> 0 < assoc ip \<and>
     sets ip = map (\<lambda>s. map (\<lambda>w. Some (s * assoc ip + w)) [0..<assoc ip]) [0..<unat (numSets ip)]"

definition tags_line :: "'s set_assoc_tags \<Rightarrow> nat \<Rightarrow> Addr \<times> bool" where
  "tags_line ts i = (BaseSetAssoc_regenerateBlkAddr i ts, blk_secure (blks ts ! i))"

definition occupied :: "'s set_assoc_tags \<Rightarrow> nat set" where
  "occupied ts = {i. i < length (blks ts) \<and> blk_valid (blks ts ! i)}"

definition resident :: "'s set_assoc_tags \<Rightarrow> (Addr \<times> bool) set" where
  "resident ts = tags_line ts ` occupied ts"

definition line_of :: "'s set_assoc_tags \<Rightarrow> KeyType \<Rightarrow> Addr \<times> bool" where
  "line_of ts key = (block_align (setShift (indexingPolicy ts)) (fst key), snd key)"

text \<open>A valid block has the tag and the set of some address; an invalid one is not secure.\<close>

definition blk_ok :: "indexing \<Rightarrow> nat \<Rightarrow> CacheBlk \<Rightarrow> bool" where
  "blk_ok ip i b \<longleftrightarrow> blk_set b = of_nat (i div assoc ip) \<and>
     (if blk_valid b then \<exists>a. blk_tag b = IndexingPolicy_extractTag ip a \<and> SetAssociative_extractSet ip a = blk_set b
      else \<not> blk_secure b)"

definition tags_ok :: "'s set_assoc_tags \<Rightarrow> bool" where
  "tags_ok ts \<longleftrightarrow> set_assoc_ok (indexingPolicy ts) \<and> tags_table (indexingPolicy ts) \<and>
     length (blks ts) = unat (numSets (indexingPolicy ts)) * assoc (indexingPolicy ts) \<and>
     (\<forall>i < length (blks ts). blk_ok (indexingPolicy ts) i (blks ts ! i)) \<and> inj_on (tags_line ts) (occupied ts)"

lemma blk_ok_nth: "tags_ok ts \<Longrightarrow> i < length (blks ts) \<Longrightarrow> blk_ok (indexingPolicy ts) i (blks ts ! i)"
  unfolding tags_ok_def by blast

lemma extractSet_less:
  assumes "set_assoc_ok ip"
  shows "unat (SetAssociative_extractSet ip a) < unat (numSets ip)"
proof -
  obtain l where l: "indexing_ok l ip" "l < 32" "numSets ip = 2 ^ l"
    using assms by (auto simp: set_assoc_ok_def indexing_ok_def)
  have "take_bit l (SetAssociative_extractSet ip a) = SetAssociative_extractSet ip a"
    by (rule bit_word_eqI) (auto simp: bit_take_bit_iff bit_setassoc_set [OF l(1)])
  then have "unat (SetAssociative_extractSet ip a) < 2 ^ l"
    by (metis unsigned_take_bit_eq take_bit_nat_less_exp)
  then show ?thesis
    using l unat_power_32 by simp
qed

definition ways_of :: "indexing \<Rightarrow> Addr \<Rightarrow> nat list" where
  "ways_of ip a = map (\<lambda>w. unat (SetAssociative_extractSet ip a) * assoc ip + w) [0..<assoc ip]"

lemma getPossibleEntries_ways:
  "set_assoc_ok ip \<Longrightarrow> tags_table ip \<Longrightarrow> SetAssociative_getPossibleEntries ip a = map Some (ways_of ip a)"
  using extractSet_less [of ip a]
  by (simp add: SetAssociative_getPossibleEntries_def tags_table_def ways_of_def)

lemma in_ways_of:
  assumes "0 < assoc ip"
  shows "i \<in> set (ways_of ip a) \<longleftrightarrow> i div assoc ip = unat (SetAssociative_extractSet ip a)"
proof
  assume "i \<in> set (ways_of ip a)"
  then obtain w where "w < assoc ip" "i = w + unat (SetAssociative_extractSet ip a) * assoc ip"
    unfolding ways_of_def set_map by (auto simp only: set_upt atLeastLessThan_iff add.commute)
  then show "i div assoc ip = unat (SetAssociative_extractSet ip a)"
    by simp
next
  assume "i div assoc ip = unat (SetAssociative_extractSet ip a)"
  then have "i = unat (SetAssociative_extractSet ip a) * assoc ip + i mod assoc ip"
    by (metis div_mult_mod_eq)
  then show "i \<in> set (ways_of ip a)"
    using mod_less_divisor [OF assms, of i] unfolding ways_of_def set_map by (intro image_eqI [of _ _ "i mod assoc ip"]) simp_all
qed

lemma ways_of_not_Nil: "tags_table ip \<Longrightarrow> ways_of ip a \<noteq> []"
  by (simp add: ways_of_def tags_table_def)

lemma ways_of_less:
  assumes "tags_ok ts" "i \<in> set (ways_of (indexingPolicy ts) a)"
  shows "i < length (blks ts)"
proof -
  let ?ip = "indexingPolicy ts"
  have "0 < assoc ?ip" "i div assoc ?ip < unat (numSets ?ip)"
    using assms extractSet_less [of ?ip a] in_ways_of [of ?ip i a] by (auto simp: tags_ok_def tags_table_def)
  then show ?thesis
    using assms(1) by (simp add: tags_ok_def div_less_iff_less_mult)
qed

text \<open>The test of the lookup loop, on the entries of the set, is equality of lines.\<close>

lemma match_iff_line:
  assumes "tags_ok ts" "i < length (blks ts)"
  shows "i \<in> set (ways_of (indexingPolicy ts) (fst key)) \<and> TaggedEntry_match (tag_of ts) key (blks ts ! i) \<longleftrightarrow>
    i \<in> occupied ts \<and> tags_line ts i = line_of ts key"
proof (cases "blk_valid (blks ts ! i)")
  case True
  let ?ip = "indexingPolicy ts" and ?b = "blks ts ! i"
  have ok: "set_assoc_ok ?ip" "0 < assoc ?ip" "blk_ok ?ip i ?b"
    using assms blk_ok_nth [OF assms] by (simp_all add: tags_ok_def tags_table_def)
  then obtain b where b: "blk_tag ?b = tag_of ts b" "SetAssociative_extractSet ?ip b = blk_set ?b"
    using True by (auto simp: blk_ok_def)
  have "i div assoc ?ip < unat (numSets ?ip)"
    using assms ok(2) by (simp add: tags_ok_def div_less_iff_less_mult)
  moreover have "unat (numSets ?ip) < 2 ^ 32"
    using unsigned_less [of "numSets ?ip", where 'a = nat] by simp
  ultimately have "unat (blk_set ?b) = i div assoc ?ip"
    using ok(3) by (simp add: blk_ok_def unat_of_nat)
  then have "i \<in> set (ways_of ?ip (fst key)) \<longleftrightarrow> SetAssociative_extractSet ?ip b = SetAssociative_extractSet ?ip (fst key)"
    using in_ways_of [OF ok(2), of i "fst key"] b(2) by (auto simp: word_unat_eq_iff)
  moreover have "tags_line ts i = (block_align (setShift ?ip) b, blk_secure ?b)"
    using set_assoc.regenerate [OF ok(1), of b] b by (simp add: tags_line_def BaseSetAssoc_regenerateBlkAddr_def)
  ultimately show ?thesis
    using set_assoc.hit_iff_same_block [OF ok(1), of b "fst key"] b(1) True assms(2)
    by (auto simp: TaggedEntry_match_def line_of_def occupied_def)
qed (simp add: TaggedEntry_match_def occupied_def)

section \<open>Lookup\<close>

lemma find_loop_find:
  "find_loop ext key bs (map Some is) = Inr (find (\<lambda>i. TaggedEntry_match ext key (bs ! i)) is)"
  by (induction "is") auto

lemma findBlock_spec:
  assumes "tags_ok ts"
  shows "\<exists>r. BaseTags_findBlock key ts = Inr r \<and>
    (case r of None \<Rightarrow> line_of ts key \<notin> resident ts
     | Some i \<Rightarrow> i \<in> occupied ts \<and> tags_line ts i = line_of ts key)"
proof -
  let ?m = "\<lambda>i. TaggedEntry_match (tag_of ts) key (blks ts ! i)" and ?ws = "ways_of (indexingPolicy ts) (fst key)"
  have eq: "BaseTags_findBlock key ts = Inr (find ?m ?ws)"
    using assms by (simp add: BaseTags_findBlock_def tags_ok_def getPossibleEntries_ways find_loop_find)
  show ?thesis
  proof (cases "find ?m ?ws")
    case None
    then have "\<forall>i \<in> set ?ws. \<not> ?m i"
      by (auto simp: find_None_iff)
    then have "tags_line ts i \<noteq> line_of ts key" if "i \<in> occupied ts" for i
      using match_iff_line [OF assms, of i key] that by (auto simp: occupied_def)
    then have "line_of ts key \<notin> resident ts"
      by (metis imageE resident_def)
    then show ?thesis
      using eq None by simp
  next
    case (Some i)
    then have "i \<in> set ?ws" "?m i"
      by (auto simp: find_Some_iff)
    then show ?thesis
      using eq Some match_iff_line [OF assms, of i key] ways_of_less [OF assms, of i "fst key"] by auto
  qed
qed

text \<open>The ticks of the last uses, by line.\<close>

definition line_ticks :: "'s set_assoc_tags \<Rightarrow> (entry \<rightharpoonup> Tick) \<Rightarrow> (Addr \<times> bool) \<rightharpoonup> Tick" where
  "line_ticks ts U l = (if l \<in> resident ts then U (the_inv_into (occupied ts) (tags_line ts) l) else None)"

lemma line_ticks_at: "tags_ok ts \<Longrightarrow> i \<in> occupied ts \<Longrightarrow> line_ticks ts U (tags_line ts i) = U i"
  by (simp add: line_ticks_def resident_def tags_ok_def the_inv_into_f_f)

lemma line_ticks_None: "l \<notin> resident ts \<Longrightarrow> line_ticks ts U l = None"
  by (simp add: line_ticks_def)

lemma line_ticks_eqI:
  assumes "tags_ok ts" "\<And>i. i \<in> occupied ts \<Longrightarrow> M (tags_line ts i) = U i" "\<And>l. l \<notin> resident ts \<Longrightarrow> M l = None"
  shows "line_ticks ts U = M"
proof
  fix l
  show "line_ticks ts U l = M l"
  proof (cases "l \<in> resident ts")
    case True
    then obtain i where "i \<in> occupied ts" "l = tags_line ts i"
      by (auto simp: resident_def)
    then show ?thesis
      using line_ticks_at [OF assms(1)] assms(2) by simp
  qed (simp add: line_ticks_None assms(3))
qed

lemma line_ticks_dom:
  assumes "tags_ok ts" "dom U = occupied ts"
  shows "dom (line_ticks ts U) = resident ts"
proof -
  have "line_ticks ts U l \<noteq> None" if l: "l \<in> resident ts" for l
  proof -
    obtain i where "i \<in> dom U" "l = tags_line ts i"
      using l assms(2) by (auto simp: resident_def)
    then show ?thesis
      using line_ticks_at [OF assms(1), of i U] assms(2) by auto
  qed
  then show ?thesis
    using line_ticks_None [of _ ts U] by (metis domIff set_eqI)
qed

lemma line_ticks_upd:
  assumes "tags_ok ts" "i \<in> occupied ts"
  shows "line_ticks ts (U(i \<mapsto> t)) = (line_ticks ts U)(tags_line ts i \<mapsto> t)"
proof (rule line_ticks_eqI [OF assms(1)])
  show "((line_ticks ts U)(tags_line ts i \<mapsto> t)) (tags_line ts j) = (U(i \<mapsto> t)) j" if "j \<in> occupied ts" for j
    using that assms line_ticks_at [OF assms(1), of j U] by (auto simp: tags_ok_def inj_on_def)
  show "((line_ticks ts U)(tags_line ts i \<mapsto> t)) l = None" if "l \<notin> resident ts" for l
    using that assms(2) by (auto simp: line_ticks_None resident_def)
qed

section \<open>Changes of one block\<close>

definition with_block :: "nat \<Rightarrow> CacheBlk \<Rightarrow> 's \<Rightarrow> 's set_assoc_tags \<Rightarrow> 's set_assoc_tags" where
  "with_block i b repl ts = ts\<lparr>blks := (blks ts)[i := b], replacement := repl\<rparr>"

lemma with_block_sel [simp]:
  "indexingPolicy (with_block i b repl ts) = indexingPolicy ts"
  "length (blks (with_block i b repl ts)) = length (blks ts)"
  "replacement (with_block i b repl ts) = repl" "maxRequestors (with_block i b repl ts) = maxRequestors ts"
  by (simp_all add: with_block_def)

lemma with_block_nth:
  "i < length (blks ts) \<Longrightarrow> blks (with_block i b repl ts) ! j = (if j = i then b else blks ts ! j)"
  by (simp add: with_block_def)

lemma tags_line_with_block:
  "i < length (blks ts) \<Longrightarrow> tags_line (with_block i b repl ts) j =
     (if j = i then (SetAssociative_regenerateAddr (indexingPolicy ts) (blk_tag b) (blk_set b), blk_secure b) else tags_line ts j)"
  by (simp add: tags_line_def BaseSetAssoc_regenerateBlkAddr_def with_block_nth)

lemma occupied_with_block:
  "i < length (blks ts) \<Longrightarrow>
     occupied (with_block i b repl ts) = (if blk_valid b then insert i (occupied ts) else occupied ts - {i})"
  by (auto simp: occupied_def with_block_nth split: if_splits)

lemma line_of_with_block [simp]: "line_of (with_block i b repl ts) key = line_of ts key"
  by (simp add: line_of_def)

lemma tags_ok_with_block:
  assumes "tags_ok ts" "i < length (blks ts)" "blk_ok (indexingPolicy ts) i b"
    "inj_on (tags_line (with_block i b repl ts)) (occupied (with_block i b repl ts))"
  shows "tags_ok (with_block i b repl ts)"
proof -
  have "\<forall>j < length (blks ts). blk_ok (indexingPolicy ts) j (blks (with_block i b repl ts) ! j)"
    using assms(2,3) blk_ok_nth [OF assms(1)] by (simp add: with_block_nth)
  then show ?thesis
    using assms(1,4) unfolding tags_ok_def by (simp only: with_block_sel)
qed

text \<open>A change that leaves validity, security, tag and position as they are.\<close>

lemma with_block_same:
  assumes "tags_ok ts" "i < length (blks ts)" "blk_valid b = blk_valid (blks ts ! i)" "blk_secure b = blk_secure (blks ts ! i)"
    "blk_tag b = blk_tag (blks ts ! i)" "blk_set b = blk_set (blks ts ! i)"
  shows "tags_ok (with_block i b repl ts)" "occupied (with_block i b repl ts) = occupied ts"
    "resident (with_block i b repl ts) = resident ts" "line_ticks (with_block i b repl ts) U = line_ticks ts U"
proof -
  have line: "tags_line (with_block i b repl ts) = tags_line ts"
    using assms(2,4-6) by (auto simp: fun_eq_iff tags_line_with_block)
      (simp_all add: tags_line_def BaseSetAssoc_regenerateBlkAddr_def)
  show occ: "occupied (with_block i b repl ts) = occupied ts"
    using assms(2,3) by (auto simp: occupied_with_block) (simp_all add: occupied_def)
  have "blk_ok (indexingPolicy ts) i b"
    using blk_ok_nth [OF assms(1,2)] unfolding blk_ok_def assms(3-6) .
  moreover have "inj_on (tags_line ts) (occupied ts)"
    using assms(1) by (simp add: tags_ok_def)
  ultimately show "tags_ok (with_block i b repl ts)"
    using tags_ok_with_block [OF assms(1,2)] by (simp add: line occ)
  show "resident (with_block i b repl ts) = resident ts" "line_ticks (with_block i b repl ts) U = line_ticks ts U"
    by (simp_all add: fun_eq_iff line_ticks_def resident_def line occ)
qed

lemma with_block_remove:
  assumes "tags_ok ts" "i \<in> occupied ts" "\<not> blk_valid b" "\<not> blk_secure b" "blk_set b = blk_set (blks ts ! i)"
  shows "tags_ok (with_block i b repl ts)" "occupied (with_block i b repl ts) = occupied ts - {i}"
    "resident (with_block i b repl ts) = resident ts - {tags_line ts i}"
    "line_ticks (with_block i b repl ts) (U(i := None)) = (line_ticks ts U)(tags_line ts i := None)"
proof -
  have i: "i < length (blks ts)"
    using assms(2) by (simp add: occupied_def)
  show occ: "occupied (with_block i b repl ts) = occupied ts - {i}"
    using i assms(3) by (simp add: occupied_with_block)
  have line: "tags_line (with_block i b repl ts) j = tags_line ts j" if "j \<in> occupied ts - {i}" for j
    using i that by (simp add: tags_line_with_block)
  have inj: "inj_on (tags_line ts) (occupied ts)"
    using assms(1) by (simp add: tags_ok_def)
  then have "inj_on (tags_line (with_block i b repl ts)) (occupied ts - {i})"
    using line by (metis (no_types, lifting) Diff_subset inj_on_cong inj_on_subset)
  moreover have "blk_ok (indexingPolicy ts) i b"
    using blk_ok_nth [OF assms(1) i] assms(3-5) by (simp add: blk_ok_def)
  ultimately show ok: "tags_ok (with_block i b repl ts)"
    using tags_ok_with_block [OF assms(1) i] by (simp add: occ)
  show res: "resident (with_block i b repl ts) = resident ts - {tags_line ts i}"
  proof -
    have "resident (with_block i b repl ts) = tags_line ts ` (occupied ts - {i})"
      unfolding resident_def occ using line by (rule image_cong [OF refl])
    then show ?thesis
      using inj_on_image_set_diff [OF inj, of "occupied ts" "{i}"] assms(2) by (simp add: resident_def)
  qed
  have "((line_ticks ts U)(tags_line ts i := None)) (tags_line ts j) = (U(i := None)) j" if "j \<in> occupied ts - {i}" for j
    using that inj assms(2) line_ticks_at [OF assms(1), of j U] by (auto simp: inj_on_def)
  then show "line_ticks (with_block i b repl ts) (U(i := None)) = (line_ticks ts U)(tags_line ts i := None)"
    using line by (intro line_ticks_eqI [OF ok]) (auto simp: occ res line_ticks_None)
qed

lemma with_block_add:
  assumes "tags_ok ts" "i \<in> set (ways_of (indexingPolicy ts) (fst key))" "i \<notin> occupied ts" "line_of ts key \<notin> resident ts"
    "blk_valid b" "blk_secure b = snd key" "blk_tag b = tag_of ts (fst key)" "blk_set b = blk_set (blks ts ! i)"
  shows "tags_ok (with_block i b repl ts)" "occupied (with_block i b repl ts) = insert i (occupied ts)"
    "resident (with_block i b repl ts) = insert (line_of ts key) (resident ts)"
    "line_ticks (with_block i b repl ts) (U(i \<mapsto> t)) = (line_ticks ts U)(line_of ts key \<mapsto> t)"
proof -
  let ?ip = "indexingPolicy ts"
  have i: "i < length (blks ts)"
    by (rule ways_of_less [OF assms(1,2)])
  have ok: "set_assoc_ok ?ip" "0 < assoc ?ip" "blk_set b = of_nat (i div assoc ?ip)"
    using assms(1,8) blk_ok_nth [OF assms(1) i] by (simp_all add: tags_ok_def tags_table_def blk_ok_def)
  then have set': "blk_set b = SetAssociative_extractSet ?ip (fst key)"
    using in_ways_of [of ?ip i "fst key"] assms(2) by simp
  have line_i: "tags_line (with_block i b repl ts) i = line_of ts key"
    using i set_assoc.regenerate [OF ok(1), of "fst key"] assms(6,7) set' by (simp add: tags_line_with_block line_of_def)
  have line: "tags_line (with_block i b repl ts) j = tags_line ts j" if "j \<in> occupied ts" for j
    using i that assms(3) by (auto simp: tags_line_with_block)
  show occ: "occupied (with_block i b repl ts) = insert i (occupied ts)"
    using i assms(5) by (simp add: occupied_with_block)
  show res: "resident (with_block i b repl ts) = insert (line_of ts key) (resident ts)"
    using line line_i by (auto simp: resident_def occ)
  have "inj_on (tags_line (with_block i b repl ts)) (insert i (occupied ts))"
  proof -
    have "inj_on (tags_line (with_block i b repl ts)) (occupied ts)"
      using assms(1) line by (metis inj_on_cong tags_ok_def)
    moreover have "tags_line (with_block i b repl ts) ` occupied ts = resident ts"
      unfolding resident_def using line by (rule image_cong [OF refl])
    ultimately show ?thesis
      using assms(3,4) line_i by simp
  qed
  moreover have "blk_ok ?ip i b"
    unfolding blk_ok_def using ok(3) set' assms(5,7) by metis
  ultimately show ok': "tags_ok (with_block i b repl ts)"
    using tags_ok_with_block [OF assms(1) i] by (simp add: occ)
  have "((line_ticks ts U)(line_of ts key \<mapsto> t)) (tags_line (with_block i b repl ts) j) = (U(i \<mapsto> t)) j"
    if "j \<in> insert i (occupied ts)" for j
  proof (cases "j = i")
    case False
    then have j: "j \<in> occupied ts"
      using that by simp
    then have "tags_line ts j \<noteq> line_of ts key"
      using assms(4) by (metis imageI resident_def)
    then show ?thesis
      using False line [OF j] line_ticks_at [OF assms(1) j, of U] by simp
  qed (simp add: line_i)
  then show "line_ticks (with_block i b repl ts) (U(i \<mapsto> t)) = (line_ticks ts U)(line_of ts key \<mapsto> t)"
    by (intro line_ticks_eqI [OF ok']) (auto simp: occ res line_ticks_None)
qed

section \<open>The abstract cache\<close>

definition same_set :: "indexing \<Rightarrow> Addr \<Rightarrow> (Addr \<times> bool) set \<Rightarrow> (Addr \<times> bool) set" where
  "same_set ip a R = {l \<in> R. SetAssociative_extractSet ip (fst l) = SetAssociative_extractSet ip a}"

definition op_line :: "indexing \<Rightarrow> cache_op \<Rightarrow> Addr \<times> bool" where
  "op_line ip c = (case c of
     Reference t pkt \<Rightarrow> (block_align (setShift ip) (pkt_addr pkt), pkt_isSecure pkt)
   | Invalidation key \<Rightarrow> (block_align (setShift ip) (fst key), snd key))"

text \<open>
  The lines with the ticks of their last uses, before and after an operation. A reference brings its
  line in, into a free way of its set or in place of a line of the set that the policy may give up.
\<close>

definition cache_spec :: "indexing \<Rightarrow> (Tick option \<Rightarrow> Tick option set \<Rightarrow> bool) \<Rightarrow> cache_op \<Rightarrow>
    ((Addr \<times> bool) \<rightharpoonup> Tick) \<Rightarrow> ((Addr \<times> bool) \<rightharpoonup> Tick) \<Rightarrow> bool" where
  "cache_spec ip choice c M M' = (let l = op_line ip c in case c of
     Invalidation key \<Rightarrow> M' = M(l := None)
   | Reference t pkt \<Rightarrow>
       if l \<in> dom M then M' = M(l \<mapsto> t)
       else (let S = same_set ip (fst l) (dom M); X = M ` S \<union> (if card S < assoc ip then {None} else {}) in
         card S < assoc ip \<and> choice None X \<and> M' = M(l \<mapsto> t) \<or>
         (\<exists>w \<in> S. choice (M w) X \<and> M' = M(w := None, l \<mapsto> t))))"

definition op_fits :: "nat \<Rightarrow> cache_op \<Rightarrow> bool" where
  "op_fits requestors c = (case c of
     Invalidation key \<Rightarrow> True
   | Reference t pkt \<Rightarrow> Flags_isSet (pkt_flags pkt) VALID_ADDR \<and> unat (req_requestorId (pkt_req pkt)) < requestors)"

lemma packet_key_fits:
  "op_fits n (Reference t pkt) \<Longrightarrow> packet_key pkt = Inr (pkt_addr pkt, pkt_isSecure pkt)"
  by (simp add: op_fits_def packet_key_def Packet_getAddr_def Packet_isSecure_def rbind_def assert_that_def)

text \<open>The lines of a set are those of the occupied ways.\<close>

lemma same_set_resident:
  assumes "tags_ok ts"
  shows "same_set (indexingPolicy ts) a (resident ts) = tags_line ts ` (set (ways_of (indexingPolicy ts) a) \<inter> occupied ts)"
proof -
  let ?ip = "indexingPolicy ts"
  have ok: "set_assoc_ok ?ip" "0 < assoc ?ip"
    using assms by (simp_all add: tags_ok_def tags_table_def)
  have "SetAssociative_extractSet ?ip (fst (tags_line ts i)) = SetAssociative_extractSet ?ip a \<longleftrightarrow> i \<in> set (ways_of ?ip a)"
    if i: "i \<in> occupied ts" for i
  proof -
    obtain b where b: "blk_tag (blks ts ! i) = tag_of ts b" "SetAssociative_extractSet ?ip b = blk_set (blks ts ! i)"
      using blk_ok_nth [OF assms, of i] i by (auto simp: blk_ok_def occupied_def)
    let ?key = "(b, blk_secure (blks ts ! i))"
    have "fst (tags_line ts i) = block_align (setShift ?ip) b"
      using set_assoc.regenerate [OF ok(1), of b] b by (simp add: tags_line_def BaseSetAssoc_regenerateBlkAddr_def)
    then have "SetAssociative_extractSet ?ip (fst (tags_line ts i)) = SetAssociative_extractSet ?ip b" "tags_line ts i = line_of ts ?key"
      using set_assoc.per_block [OF ok(1), of b] by (simp_all add: line_of_def tags_line_def)
    moreover have "i \<in> set (ways_of ?ip b)"
      using match_iff_line [OF assms, of i ?key] i calculation(2) by (simp add: occupied_def)
    ultimately show ?thesis
      using in_ways_of [OF ok(2)] by (simp add: word_unat_eq_iff)
  qed
  then show ?thesis
    by (auto simp: same_set_def resident_def)
qed

lemma card_same_set:
  assumes "tags_ok ts"
  shows "card (same_set (indexingPolicy ts) a (resident ts)) = card (set (ways_of (indexingPolicy ts) a) \<inter> occupied ts)"
  unfolding same_set_resident [OF assms] using assms
  by (intro card_image) (auto simp: tags_ok_def intro: inj_on_subset)

lemma card_ways_of: "card (set (ways_of ip a)) = assoc ip"
proof -
  have "distinct (ways_of ip a)"
    by (simp add: ways_of_def distinct_map inj_on_def)
  then show ?thesis
    by (simp add: distinct_card) (simp add: ways_of_def)
qed

lemma same_set_full:
  assumes "tags_ok ts"
  shows "card (same_set (indexingPolicy ts) a (resident ts)) < assoc (indexingPolicy ts) \<longleftrightarrow>
    \<not> set (ways_of (indexingPolicy ts) a) \<subseteq> occupied ts"
proof -
  let ?W = "set (ways_of (indexingPolicy ts) a)"
  have "card (?W \<inter> occupied ts) < card ?W \<longleftrightarrow> \<not> ?W \<subseteq> occupied ts"
    by (metis List.finite_set inf.absorb_iff1 inf_le1 order_less_irrefl psubsetI psubset_card_mono)
  then show ?thesis
    unfolding card_same_set [OF assms] by (simp only: card_ways_of)
qed

lemma same_set_op_line:
  assumes "tags_ok ts"
  shows "same_set (indexingPolicy ts) (fst (op_line (indexingPolicy ts) (Reference t pkt))) R =
    same_set (indexingPolicy ts) (pkt_addr pkt) R"
  using assms set_assoc.per_block [of "indexingPolicy ts" "pkt_addr pkt"] by (simp add: same_set_def op_line_def tags_ok_def)

fun runs_by :: "('c \<Rightarrow> 'm \<Rightarrow> 'm \<Rightarrow> bool) \<Rightarrow> 'c list \<Rightarrow> 'm \<Rightarrow> 'm \<Rightarrow> bool" where
  "runs_by spec [] M M' = (M' = M)"
| "runs_by spec (c # cs) M M' = (\<exists>M1. spec c M M1 \<and> runs_by spec cs M1 M')"

lemma runs_by_mono: "(\<And>c M M'. spec c M M' \<Longrightarrow> spec' c M M') \<Longrightarrow> runs_by spec cs M M' \<Longrightarrow> runs_by spec' cs M M'"
  by (induction cs arbitrary: M) (simp, fastforce)

section \<open>Operations on the store\<close>

lemma with_replacement [simp]:
  "occupied (ts\<lparr>replacement := repl\<rparr>) = occupied ts" "tags_line (ts\<lparr>replacement := repl\<rparr>) = tags_line ts"
  "resident (ts\<lparr>replacement := repl\<rparr>) = resident ts" "line_of (ts\<lparr>replacement := repl\<rparr>) key = line_of ts key"
  "tags_ok (ts\<lparr>replacement := repl\<rparr>) = tags_ok ts" "line_ticks (ts\<lparr>replacement := repl\<rparr>) = line_ticks ts"
proof -
  show *: "occupied (ts\<lparr>replacement := repl\<rparr>) = occupied ts" "tags_line (ts\<lparr>replacement := repl\<rparr>) = tags_line ts"
    by (simp_all add: occupied_def fun_eq_iff tags_line_def BaseSetAssoc_regenerateBlkAddr_def)
  then show "resident (ts\<lparr>replacement := repl\<rparr>) = resident ts" "tags_ok (ts\<lparr>replacement := repl\<rparr>) = tags_ok ts"
    by (simp_all add: resident_def tags_ok_def)
  then show "line_ticks (ts\<lparr>replacement := repl\<rparr>) = line_ticks ts"
    using * by (intro ext) (simp add: line_ticks_def)
qed (simp add: line_of_def)

lemma CacheBlk_invalidate_spec:
  "\<exists>b. CacheBlk_invalidate blk = Inr b \<and> \<not> blk_valid b \<and> \<not> blk_secure b \<and> blk_set b = blk_set blk \<and> blk_lockList b = []"
  by (simp add: CacheBlk_invalidate_def CacheBlk_setWhenReady_def CacheBlk_clearCoherenceBits_def
      TaggedEntry_invalidate_def rbind_def assert_that_def)

lemma BaseSetAssoc_invalidate_block:
  assumes "blk_valid (blks ts ! i)"
  shows "\<exists>b. BaseSetAssoc_invalidate inval i ts = Inr (with_block i b (inval i (replacement ts)) ts) \<and>
    \<not> blk_valid b \<and> \<not> blk_secure b \<and> blk_set b = blk_set (blks ts ! i)"
  using CacheBlk_invalidate_spec [of "blks ts ! i"] assms
  by (auto simp: BaseSetAssoc_invalidate_def BaseTags_invalidate_def with_block_def rbind_def assert_that_def)

lemma CacheBlk_insert_spec:
  "\<not> blk_valid blk \<Longrightarrow> \<exists>b. CacheBlk_insert t ext key rq task part blk = Inr b \<and> blk_valid b \<and>
     blk_secure b = (snd key \<or> blk_secure blk) \<and> blk_tag b = ext (fst key) \<and> blk_set b = blk_set blk"
  by (simp add: CacheBlk_insert_def TaggedEntry_insert_def rbind_def assert_that_def)

lemma BaseSetAssoc_insertBlock_block:
  assumes "\<not> blk_valid (blks ts ! i)" "op_fits (maxRequestors ts) (Reference t pkt)"
  shows "\<exists>b. BaseSetAssoc_insertBlock rst t pkt i ts = Inr (with_block i b (rst i (replacement ts)) ts) \<and>
    blk_valid b \<and> blk_secure b = (pkt_isSecure pkt \<or> blk_secure (blks ts ! i)) \<and>
    blk_tag b = tag_of ts (pkt_addr pkt) \<and> blk_set b = blk_set (blks ts ! i)"
  using CacheBlk_insert_spec [OF assms(1), of t "tag_of ts" "(pkt_addr pkt, pkt_isSecure pkt)"
      "uint (req_requestorId (pkt_req pkt))" "req_taskId (pkt_req pkt)" 0] assms packet_key_fits [OF assms(2)]
  by (auto simp: BaseSetAssoc_insertBlock_def BaseTags_insertBlock_def with_block_def rbind_def assert_that_def Let_def
      op_fits_def)

context tag_policy
begin

definition tags_inv :: "(entry \<rightharpoonup> Tick) \<Rightarrow> 's set_assoc_tags \<Rightarrow> bool" where
  "tags_inv U ts \<longleftrightarrow> tags_ok ts \<and> dom U = occupied ts \<and> ok U (replacement ts)"

lemma tags_invD: "tags_inv U ts \<Longrightarrow> tags_ok ts" "tags_inv U ts \<Longrightarrow> dom U = occupied ts" "tags_inv U ts \<Longrightarrow> ok U (replacement ts)"
  by (simp_all add: tags_inv_def)

lemma tags_inv_dom: "tags_inv U ts \<Longrightarrow> dom (line_ticks ts U) = resident ts"
  by (simp add: tags_inv_def line_ticks_dom)

lemma invalidate_step:
  assumes "tags_inv U ts" "i \<in> occupied ts"
  shows "\<exists>ts'. BaseSetAssoc_invalidate invalidate i ts = Inr ts' \<and> tags_inv (U(i := None)) ts' \<and> occupied ts' = occupied ts - {i} \<and>
    line_ticks ts' (U(i := None)) = (line_ticks ts U)(tags_line ts i := None) \<and>
    indexingPolicy ts' = indexingPolicy ts \<and> maxRequestors ts' = maxRequestors ts"
proof -
  obtain b where b: "BaseSetAssoc_invalidate invalidate i ts = Inr (with_block i b (invalidate i (replacement ts)) ts)"
      "\<not> blk_valid b" "\<not> blk_secure b" "blk_set b = blk_set (blks ts ! i)"
    using BaseSetAssoc_invalidate_block [of ts i invalidate] assms(2) by (auto simp: occupied_def)
  note ok = tags_invD [OF assms(1)]
  note upd = with_block_remove [OF ok(1) assms(2) b(2-4), of "invalidate i (replacement ts)"]
  then show ?thesis
    using b(1) ok(2) invalidate_ok [OF ok(3), of i] by (simp add: tags_inv_def)
qed

lemma insert_step:
  assumes "tags_inv U ts" "op_fits (maxRequestors ts) (Reference t pkt)" "i \<in> set (ways_of (indexingPolicy ts) (pkt_addr pkt))"
    "i \<notin> occupied ts" "line_of ts (pkt_addr pkt, pkt_isSecure pkt) \<notin> resident ts"
  shows "\<exists>ts'. BaseSetAssoc_insertBlock (reset t) t pkt i ts = Inr ts' \<and> tags_inv (U(i \<mapsto> t)) ts' \<and>
    line_ticks ts' (U(i \<mapsto> t)) = (line_ticks ts U)(line_of ts (pkt_addr pkt, pkt_isSecure pkt) \<mapsto> t) \<and>
    indexingPolicy ts' = indexingPolicy ts \<and> maxRequestors ts' = maxRequestors ts"
proof -
  note ok = tags_invD [OF assms(1)]
  have i: "i < length (blks ts)"
    by (rule ways_of_less [OF ok(1) assms(3)])
  then have "\<not> blk_valid (blks ts ! i)"
    using assms(4) by (simp add: occupied_def)
  then obtain b where b: "BaseSetAssoc_insertBlock (reset t) t pkt i ts = Inr (with_block i b (reset t i (replacement ts)) ts)"
      "blk_valid b" "blk_secure b = pkt_isSecure pkt" "blk_tag b = tag_of ts (pkt_addr pkt)" "blk_set b = blk_set (blks ts ! i)"
    using BaseSetAssoc_insertBlock_block [OF _ assms(2), of i "reset t"] blk_ok_nth [OF ok(1) i] by (auto simp: blk_ok_def)
  note upd = with_block_add [OF ok(1), of i "(pkt_addr pkt, pkt_isSecure pkt)" b "reset t i (replacement ts)"]
  then show ?thesis
    using b ok(2) assms(3-5) reset_ok [OF ok(3), of i t] by (simp add: tags_inv_def)
qed

lemma victim_step:
  assumes "tags_inv U ts"
  shows "\<exists>v repl. BaseSetAssoc_findVictim getVictim key ts = Inr (Some v, ts\<lparr>replacement := repl\<rparr>) \<and>
    v \<in> set (ways_of (indexingPolicy ts) (fst key)) \<and> ok U repl \<and>
    choice (U v) (U ` set (ways_of (indexingPolicy ts) (fst key)))"
proof -
  let ?ws = "ways_of (indexingPolicy ts) (fst key)"
  have ip: "set_assoc_ok (indexingPolicy ts)" "tags_table (indexingPolicy ts)"
    using assms by (simp_all add: tags_inv_def tags_ok_def)
  obtain repl v where "getVictim (replacement ts) ?ws = Inr (repl, v)" "v \<in> set ?ws" "ok U repl" "choice (U v) (U ` set ?ws)"
    using victim [of U "replacement ts" ?ws] assms ways_of_not_Nil [OF ip(2)] by (auto simp: tags_inv_def)
  moreover have "map (the \<circ> Some) ?ws = ?ws"
    by (simp add: comp_def)
  ultimately show ?thesis
    using ways_of_not_Nil [OF ip(2), of "fst key"]
    by (auto simp: BaseSetAssoc_findVictim_def getPossibleEntries_ways [OF ip] Let_def rbind_def)
qed

text \<open>The ticks of the ways of a set are those of its lines, and \<open>None\<close> if a way is free.\<close>

lemma ticks_of_set:
  assumes "tags_inv U ts"
  shows "U ` set (ways_of (indexingPolicy ts) a) = (let S = same_set (indexingPolicy ts) a (resident ts) in
    line_ticks ts U ` S \<union> (if card S < assoc (indexingPolicy ts) then {None} else {}))"
proof -
  let ?W = "set (ways_of (indexingPolicy ts) a)"
  note ok = tags_invD [OF assms]
  have "line_ticks ts U ` same_set (indexingPolicy ts) a (resident ts) = U ` (?W \<inter> occupied ts)"
    unfolding same_set_resident [OF ok(1)] image_image using line_ticks_at [OF ok(1)] by (intro image_cong) auto
  moreover have "U x = None" if "x \<notin> occupied ts" for x
    using that ok(2) by (metis domIff)
  then have "U ` (?W - occupied ts) = (if ?W \<subseteq> occupied ts then {} else {None})"
    by (auto intro!: rev_image_eqI)
  moreover have "U ` ?W = U ` (?W \<inter> occupied ts) \<union> U ` (?W - occupied ts)"
    by (metis Int_Diff_Un image_Un)
  ultimately show ?thesis
    using same_set_full [OF ok(1), of a] by (simp add: Let_def)
qed

lemma allocate_step:
  assumes "tags_inv U ts" "op_fits (maxRequestors ts) (Reference t pkt)"
    "op_line (indexingPolicy ts) (Reference t pkt) \<notin> resident ts"
  shows "\<exists>ts' U'. tags_allocate getVictim reset invalidate t pkt ts = Inr ts' \<and> tags_inv U' ts' \<and>
    cache_spec (indexingPolicy ts) choice (Reference t pkt) (line_ticks ts U) (line_ticks ts' U') \<and>
    indexingPolicy ts' = indexingPolicy ts \<and> maxRequestors ts' = maxRequestors ts"
proof -
  let ?ip = "indexingPolicy ts" and ?key = "(pkt_addr pkt, pkt_isSecure pkt)" and ?M = "line_ticks ts U"
  let ?ws = "ways_of ?ip (pkt_addr pkt)" and ?l = "op_line ?ip (Reference t pkt)"
  define S where "S = same_set ?ip (fst ?l) (resident ts)"
  define X where "X = ?M ` S \<union> (if card S < assoc ?ip then {None} else {})"
  note tok = tags_invD [OF assms(1)]
  have l: "?l = line_of ts ?key"
    by (simp add: op_line_def line_of_def)
  have S: "S = same_set ?ip (pkt_addr pkt) (resident ts)"
    unfolding S_def by (rule same_set_op_line [OF tok(1)])
  obtain v repl where v: "BaseSetAssoc_findVictim getVictim ?key ts = Inr (Some v, ts\<lparr>replacement := repl\<rparr>)"
      "v \<in> set ?ws" "ok U repl" "choice (U v) X"
    using victim_step [OF assms(1), of ?key] ticks_of_set [OF assms(1), of "pkt_addr pkt"]
    by (auto simp: X_def S Let_def)
  let ?ts = "ts\<lparr>replacement := repl\<rparr>"
  have inv: "tags_inv U ?ts"
    using tok v(3) by (simp add: tags_inv_def)
  have valid: "blk_valid (blks ?ts ! v) \<longleftrightarrow> v \<in> occupied ts"
    using ways_of_less [OF tok(1) v(2)] by (simp add: occupied_def)
  have run: "tags_allocate getVictim reset invalidate t pkt ts =
      rbind (if v \<in> occupied ts then BaseSetAssoc_invalidate invalidate v ?ts else Inr ?ts)
        (BaseSetAssoc_insertBlock (reset t) t pkt v)"
    using v(1) valid packet_key_fits [OF assms(2)] by (simp add: tags_allocate_def rbind_def)
  have spec: "cache_spec ?ip choice (Reference t pkt) ?M M' \<longleftrightarrow>
      card S < assoc ?ip \<and> choice None X \<and> M' = ?M(?l \<mapsto> t) \<or> (\<exists>w \<in> S. choice (?M w) X \<and> M' = ?M(w := None, ?l \<mapsto> t))" for M'
    using assms(3) by (simp add: cache_spec_def Let_def tags_inv_dom [OF assms(1)] X_def S_def)
  show ?thesis
  proof (cases "v \<in> occupied ts")
    case True
    obtain ts1 where ts1: "BaseSetAssoc_invalidate invalidate v ?ts = Inr ts1" "tags_inv (U(v := None)) ts1" "occupied ts1 = occupied ts - {v}"
        "line_ticks ts1 (U(v := None)) = ?M(tags_line ts v := None)" "indexingPolicy ts1 = ?ip" "maxRequestors ts1 = maxRequestors ts"
      using invalidate_step [OF inv, of v] True by auto
    have "resident ts1 \<subseteq> resident ts"
      unfolding tags_inv_dom [OF ts1(2), symmetric] tags_inv_dom [OF assms(1), symmetric] ts1(4) by auto
    then obtain ts2 where ts2: "BaseSetAssoc_insertBlock (reset t) t pkt v ts1 = Inr ts2" "tags_inv (U(v := None, v \<mapsto> t)) ts2"
        "line_ticks ts2 (U(v := None, v \<mapsto> t)) = ?M(tags_line ts v := None, ?l \<mapsto> t)"
        "indexingPolicy ts2 = ?ip" "maxRequestors ts2 = maxRequestors ts"
      using insert_step [OF ts1(2), of t pkt v] ts1(3-6) assms(2,3) v(2) by (auto simp: op_line_def line_of_def)
    have "tags_line ts v \<in> S"
      using True v(2) same_set_resident [OF tok(1), of "pkt_addr pkt"] S by auto
    moreover have "choice (?M (tags_line ts v)) X"
      using v(4) line_ticks_at [OF tok(1) True] by simp
    ultimately have "cache_spec ?ip choice (Reference t pkt) ?M (line_ticks ts2 (U(v := None, v \<mapsto> t)))"
      unfolding spec ts2(3) by blast
    then show ?thesis
      using run True ts1(1) ts2(1,2,4,5) by (intro exI [of _ ts2]) (auto simp: rbind_def)
  next
    case False
    obtain ts2 where ts2: "BaseSetAssoc_insertBlock (reset t) t pkt v ?ts = Inr ts2" "tags_inv (U(v \<mapsto> t)) ts2"
        "line_ticks ts2 (U(v \<mapsto> t)) = ?M(?l \<mapsto> t)" "indexingPolicy ts2 = ?ip" "maxRequestors ts2 = maxRequestors ts"
      using insert_step [OF inv, of t pkt v] assms(2,3) v(2) l False by auto
    have "card S < assoc ?ip" "U v = None"
      using same_set_full [OF tok(1), of "pkt_addr pkt"] S v(2) False tok(2) by auto
    then have "cache_spec ?ip choice (Reference t pkt) ?M (line_ticks ts2 (U(v \<mapsto> t)))"
      unfolding spec ts2(3) using v(4) by simp
    then show ?thesis
      using run False ts2(1,2,4,5) by (intro exI [of _ ts2]) (auto simp: rbind_def)
  qed
qed

lemma reference_step:
  assumes "tags_inv U ts" "op_fits (maxRequestors ts) c" and Reference: "c = Reference t pkt"
  shows "\<exists>ts' U'. tags_do getVictim touch reset invalidate c ts = Inr ts' \<and> tags_inv U' ts' \<and>
    cache_spec (indexingPolicy ts) choice c (line_ticks ts U) (line_ticks ts' U') \<and>
    indexingPolicy ts' = indexingPolicy ts \<and> maxRequestors ts' = maxRequestors ts"
proof -
  let ?key = "(pkt_addr pkt, pkt_isSecure pkt)"
  note ok = tags_invD [OF assms(1)]
  have key: "packet_key pkt = Inr ?key" "op_line (indexingPolicy ts) c = line_of ts ?key"
    using packet_key_fits assms(2) Reference by (auto simp: op_line_def line_of_def)
  obtain r where r: "BaseTags_findBlock ?key ts = Inr r"
      "case r of None \<Rightarrow> line_of ts ?key \<notin> resident ts | Some i \<Rightarrow> i \<in> occupied ts \<and> tags_line ts i = line_of ts ?key"
    using findBlock_spec [OF ok(1)] by blast
  show ?thesis
  proof (cases r)
    case None
    then show ?thesis
      using allocate_step [OF assms(1), of t pkt] assms(2) r key Reference
      by (simp add: BaseSetAssoc_accessBlock_def rbind_def)
  next
    case (Some i)
    let ?b = "(blks ts ! i)\<lparr>blk_refCount := blk_refCount (blks ts ! i) + 1\<rparr>"
    let ?ts = "with_block i ?b (touch t i (replacement ts)) ts"
    have i: "i \<in> occupied ts" "tags_line ts i = line_of ts ?key" "i < length (blks ts)"
      using r(2) Some by (auto simp: occupied_def)
    note upd = with_block_same [OF ok(1) i(3), of ?b "touch t i (replacement ts)"]
    have "tags_do getVictim touch reset invalidate c ts = Inr ?ts"
      using r(1) key(1) Some Reference by (simp add: BaseSetAssoc_accessBlock_def rbind_def with_block_def)
    moreover have "tags_inv (U(i \<mapsto> t)) ?ts"
      using upd(1,2) touch_ok [OF ok(3), of i t] i(1) ok(2) by (auto simp: tags_inv_def)
    moreover have "line_of ts ?key \<in> resident ts"
      using i(1,2) unfolding resident_def by (metis imageI)
    then have "cache_spec (indexingPolicy ts) choice c (line_ticks ts U) (line_ticks ?ts (U(i \<mapsto> t)))"
      using upd(4) line_ticks_upd [OF ok(1) i(1), of U t] i(2) key(2) Reference tags_inv_dom [OF assms(1)]
      by (simp add: cache_spec_def Let_def)
    ultimately show ?thesis
      by (intro exI [of _ ?ts] exI [of _ "U(i \<mapsto> t)"]) simp
  qed
qed

lemma invalidation_step:
  assumes "tags_inv U ts" and Invalidation: "c = Invalidation key"
  shows "\<exists>ts' U'. tags_do getVictim touch reset invalidate c ts = Inr ts' \<and> tags_inv U' ts' \<and>
    cache_spec (indexingPolicy ts) choice c (line_ticks ts U) (line_ticks ts' U') \<and>
    indexingPolicy ts' = indexingPolicy ts \<and> maxRequestors ts' = maxRequestors ts"
proof -
  have l: "op_line (indexingPolicy ts) c = line_of ts key"
    using Invalidation by (simp add: op_line_def line_of_def)
  obtain r where r: "BaseTags_findBlock key ts = Inr r"
      "case r of None \<Rightarrow> line_of ts key \<notin> resident ts | Some i \<Rightarrow> i \<in> occupied ts \<and> tags_line ts i = line_of ts key"
    using findBlock_spec [OF tags_invD(1) [OF assms(1)]] by blast
  show ?thesis
  proof (cases r)
    case None
    then have "(line_ticks ts U)(line_of ts key := None) = line_ticks ts U"
      using r(2) by (simp add: fun_upd_idem line_ticks_None)
    then show ?thesis
      using r assms(1) l Invalidation None by (intro exI [of _ ts] exI [of _ U]) (simp add: rbind_def cache_spec_def)
  next
    case (Some i)
    then obtain ts' where "BaseSetAssoc_invalidate invalidate i ts = Inr ts'" "tags_inv (U(i := None)) ts'"
        "line_ticks ts' (U(i := None)) = (line_ticks ts U)(line_of ts key := None)"
        "indexingPolicy ts' = indexingPolicy ts" "maxRequestors ts' = maxRequestors ts"
      using r(2) invalidate_step [OF assms(1), of i] by auto
    then show ?thesis
      using r(1) l Invalidation Some
      by (intro exI [of _ ts'] exI [of _ "U(i := None)"]) (simp add: rbind_def cache_spec_def)
  qed
qed

lemma tags_do_step:
  assumes "tags_inv U ts" "op_fits (maxRequestors ts) c"
  shows "\<exists>ts' U'. tags_do getVictim touch reset invalidate c ts = Inr ts' \<and> tags_inv U' ts' \<and>
    cache_spec (indexingPolicy ts) choice c (line_ticks ts U) (line_ticks ts' U') \<and>
    indexingPolicy ts' = indexingPolicy ts \<and> maxRequestors ts' = maxRequestors ts"
  using reference_step [OF assms] invalidation_step [OF assms(1)] by (cases c) blast+

lemma tags_run_refines:
  assumes "tags_inv U ts" "list_all (op_fits (maxRequestors ts)) cs"
  shows "\<exists>ts' U'. tags_run getVictim touch reset invalidate cs ts = Inr ts' \<and> tags_inv U' ts' \<and>
    runs_by (cache_spec (indexingPolicy ts) choice) cs (line_ticks ts U) (line_ticks ts' U') \<and>
    indexingPolicy ts' = indexingPolicy ts"
  using assms
proof (induction cs arbitrary: U ts)
  case (Cons c cs)
  then obtain ts1 U1 where ts1: "tags_do getVictim touch reset invalidate c ts = Inr ts1" "tags_inv U1 ts1"
      "cache_spec (indexingPolicy ts) choice c (line_ticks ts U) (line_ticks ts1 U1)" "indexingPolicy ts1 = indexingPolicy ts"
      "maxRequestors ts1 = maxRequestors ts"
    using tags_do_step [of U ts c] by auto
  then show ?case
    using Cons.IH [of U1 ts1] Cons.prems(2) by (auto simp: rbind_def)
qed auto

end

section \<open>Initialisation\<close>

definition init_upto :: "indexing \<Rightarrow> nat \<Rightarrow> 's set_assoc_tags \<Rightarrow> bool" where
  "init_upto ip k ts \<longleftrightarrow>
     (\<exists>T. indexingPolicy ts = ip\<lparr>sets := T\<rparr> \<and> length T = unat (numSets ip) \<and>
       (\<forall>s < unat (numSets ip). length (T ! s) = assoc ip \<and>
         (\<forall>w < assoc ip. s * assoc ip + w < k \<longrightarrow> T ! s ! w = Some (s * assoc ip + w)))) \<and>
     (\<forall>i < length (blks ts). \<not> blk_valid (blks ts ! i) \<and> \<not> blk_secure (blks ts ! i) \<and>
       (i < k \<longrightarrow> blk_set (blks ts ! i) = of_nat (i div assoc ip)))"

lemma init_upto_step:
  assumes "init_upto ip k ts" "0 < assoc ip" "k < length (blks ts)"
    "IndexingPolicy_setEntry k k (indexingPolicy ts) = Inr (ip', s, w)"
  shows "init_upto ip (Suc k) (ts\<lparr>indexingPolicy := ip',
    blks := (blks ts)[k := (blks ts ! k)\<lparr>blk_set := of_nat s, blk_way := of_nat w\<rparr>]\<rparr>)" "k div assoc ip < unat (numSets ip)"
proof -
  let ?A = "assoc ip"
  obtain T where T: "indexingPolicy ts = ip\<lparr>sets := T\<rparr>" "length T = unat (numSets ip)"
      "\<forall>s < unat (numSets ip). length (T ! s) = ?A"
      "\<forall>s < unat (numSets ip). \<forall>w < ?A. s * ?A + w < k \<longrightarrow> T ! s ! w = Some (s * ?A + w)"
    using assms(1) by (auto simp: init_upto_def)
  then have e: "s = k div ?A" "w = k mod ?A" "ip' = ip\<lparr>sets := T[s := (T ! s)[w := Some k]]\<rparr>" "k div ?A < unat (numSets ip)"
    using assms(4) by (auto simp: IndexingPolicy_setEntry_def Let_def assert_that_def split: if_splits)
  then show "k div assoc ip < unat (numSets ip)"
    by simp
  have entry: "T[s := (T ! s)[w := Some k]] ! s' ! w' = Some (s' * ?A + w')"
    if "s' < unat (numSets ip)" "w' < ?A" "s' * ?A + w' < Suc k" for s' w'
  proof (cases "s' * ?A + w' = k")
    case True
    then have "s' = s" "w' = w"
      using that(2) e(1,2) by auto
    then show ?thesis
      using True that T(2,3) by simp
  next
    case False
    then have "\<not> (s' = s \<and> w' = w)"
      using e(1,2) by (metis div_mult_mod_eq)
    then show ?thesis
      using False that T(2-4) by (cases "s' = s") (auto simp: nth_list_update)
  qed
  have "\<forall>s' < unat (numSets ip). length (T[s := (T ! s)[w := Some k]] ! s') = ?A"
    using T(2,3) e(1,4) by (auto simp: nth_list_update)
  then show "init_upto ip (Suc k) (ts\<lparr>indexingPolicy := ip',
      blks := (blks ts)[k := (blks ts ! k)\<lparr>blk_set := of_nat s, blk_way := of_nat w\<rparr>]\<rparr>)"
    using assms(1,3) entry e(1,3) T(2) unfolding init_upto_def
    by (intro conjI exI [of _ "T[s := (T ! s)[w := Some k]]"]) (auto simp: nth_list_update less_Suc_eq)
qed

lemma tagsInit_loop_upto:
  assumes "init_upto ip k ts" "0 < assoc ip" "k \<le> length (blks ts)" "tagsInit_loop [k..<length (blks ts)] ts = Inr ts'"
    "k \<le> unat (numSets ip) * assoc ip"
  shows "init_upto ip (length (blks ts)) ts' \<and> length (blks ts') = length (blks ts) \<and> replacement ts' = replacement ts \<and>
    maxRequestors ts' = maxRequestors ts \<and> length (blks ts) \<le> unat (numSets ip) * assoc ip"
  using assms
proof (induction "length (blks ts) - k" arbitrary: k ts)
  case (Suc n)
  then have k: "k < length (blks ts)"
    by simp
  then obtain ip' s w where e: "IndexingPolicy_setEntry k k (indexingPolicy ts) = Inr (ip', s, w)"
    and rest: "tagsInit_loop [Suc k..<length (blks ts)] (ts\<lparr>indexingPolicy := ip',
      blks := (blks ts)[k := (blks ts ! k)\<lparr>blk_set := of_nat s, blk_way := of_nat w\<rparr>]\<rparr>) = Inr ts'"
    using Suc.prems(4) by (auto simp: upt_conv_Cons rbind_eq_Inr)
  note step = init_upto_step [OF Suc.prems(1,2) k e]
  have "Suc k \<le> unat (numSets ip) * assoc ip"
    using step(2) Suc.prems(2) by (simp add: div_less_iff_less_mult Suc_le_eq)
  then show ?case
    using Suc.hyps(1) [OF _ step(1)] Suc.hyps(2) Suc.prems(2) k rest by simp
qed simp

text \<open>The store that the constructors and \<open>tagsInit\<close> build.\<close>

definition built :: "nat \<Rightarrow> 32 word \<Rightarrow> 32 word \<Rightarrow> nat \<Rightarrow> nat \<Rightarrow> nat \<Rightarrow> 's \<Rightarrow> 's set_assoc_tags result" where
  "built assc sz block_size set_shift tag_latency max_requestors repl =
    rbind (IndexingPolicy_new assc (sz div block_size) set_shift) (\<lambda>ip.
    rbind (BaseSetAssoc_new sz block_size assc tag_latency max_requestors ip repl) BaseSetAssoc_tagsInit)"

lemma unat_div_of_nat: "assc < 2 ^ 32 \<Longrightarrow> unat ((n :: 32 word) div of_nat assc) = unat n div assc"
  by (simp add: unat_div unat_of_nat)

lemma tags_ok_init:
  assumes "init_upto ip (length (blks ts)) ts" "set_assoc_ok ip" "0 < assoc ip"
    "length (blks ts) = unat (numSets ip) * assoc ip"
  shows "tags_ok ts" "occupied ts = {}"
proof -
  obtain T where T: "indexingPolicy ts = ip\<lparr>sets := T\<rparr>" "length T = unat (numSets ip)"
      "\<forall>s < unat (numSets ip). length (T ! s) = assoc ip"
      "\<forall>s < unat (numSets ip). \<forall>w < assoc ip. s * assoc ip + w < length (blks ts) \<longrightarrow> T ! s ! w = Some (s * assoc ip + w)"
    using assms(1) by (auto simp: init_upto_def)
  show occ: "occupied ts = {}"
    using assms(1) by (auto simp: init_upto_def occupied_def)
  have "s * assoc ip + w < length (blks ts)" if "s < unat (numSets ip)" "w < assoc ip" for s w
  proof -
    have "s * assoc ip + w < Suc s * assoc ip"
      using that(2) by simp
    also have "\<dots> \<le> unat (numSets ip) * assoc ip"
      using that(1) by (intro mult_le_mono1) simp
    finally show ?thesis
      using assms(4) by simp
  qed
  then have "T = map (\<lambda>s. map (\<lambda>w. Some (s * assoc ip + w)) [0..<assoc ip]) [0..<unat (numSets ip)]"
    using T(2-4) by (intro nth_equalityI) (auto intro!: nth_equalityI)
  moreover have "set_assoc_ok (ip\<lparr>sets := T\<rparr>)"
    using assms(2) by (simp add: set_assoc_ok_def indexing_ok_def)
  moreover have "\<forall>i < length (blks ts). blk_ok (ip\<lparr>sets := T\<rparr>) i (blks ts ! i)"
    using assms(1) by (simp add: init_upto_def blk_ok_def)
  ultimately show "tags_ok ts"
    using assms(3,4) occ T(1) by (simp add: tags_ok_def tags_table_def)
qed

lemma built_ok:
  assumes "built assc sz block_size set_shift lat n repl = Inr ts" "assc < 2 ^ 32" "tagShift (indexingPolicy ts) \<le> 32"
  shows "tags_ok ts" "occupied ts = {}" "replacement ts = repl" "maxRequestors ts = n" "setShift (indexingPolicy ts) = set_shift"
proof -
  obtain ip ts0 where ip: "IndexingPolicy_new assc (sz div block_size) set_shift = Inr ip"
    and ts0: "BaseSetAssoc_new sz block_size assc lat n ip repl = Inr ts0" "BaseSetAssoc_tagsInit ts0 = Inr ts"
    using assms(1) by (auto simp: built_def rbind_eq_Inr)
  have fields: "assoc ip = assc" "0 < assc" "numSets ip = sz div block_size div of_nat assc"
      "sets ip = replicate (unat (numSets ip)) (replicate assc None)"
    using ip by (auto simp: IndexingPolicy_new_def Let_def result_eq_Inr fatal_if_def split: if_splits)
  have t0: "indexingPolicy ts0 = ip" "blks ts0 = replicate (unat (sz div block_size)) CacheBlk_new" "replacement ts0 = repl"
      "maxRequestors ts0 = n"
    using ts0(1) by (auto simp: BaseSetAssoc_new_def fatal_if_def split: if_splits)
  have "init_upto ip 0 ts0"
    unfolding init_upto_def using t0 fields by (intro conjI exI [of _ "sets ip"]) (auto simp: CacheBlk_new_def)
  then have loop: "init_upto ip (length (blks ts0)) ts" "length (blks ts) = length (blks ts0)" "replacement ts = repl"
      "maxRequestors ts = n" "length (blks ts0) \<le> unat (numSets ip) * assc"
    using tagsInit_loop_upto [of ip 0 ts0 ts] ts0(2) fields(1,2) t0 by (auto simp: BaseSetAssoc_tagsInit_def)
  have len: "length (blks ts) = unat (numSets ip) * assoc ip"
    using loop(2,5) t0(2) fields(1,3) unat_div_of_nat [OF assms(2), of "sz div block_size"]
      div_times_less_eq_dividend [of "unat (sz div block_size)" assc] by simp
  have "tagShift (indexingPolicy ts) = tagShift ip" and shift: "setShift (indexingPolicy ts) = setShift ip"
    using loop(1) by (auto simp: init_upto_def)
  then have ok: "set_assoc_ok ip" "setShift ip = set_shift"
    using IndexingPolicy_new_ok [OF ip] assms(3) by (auto simp: set_assoc_ok_def)
  show "tags_ok ts" "occupied ts = {}"
    using tags_ok_init [of ip ts] loop(1,2) ok(1) fields(1,2) len by simp_all
  show "replacement ts = repl" "maxRequestors ts = n" "setShift (indexingPolicy ts) = set_shift"
    using loop(3,4) shift ok(2) by simp_all
qed

section \<open>LRU and MRU as policies of a store\<close>

text \<open>A block that is not in use has tick 0, and so has one that was last used at tick 0.\<close>

definition stamp :: "Tick option \<Rightarrow> Tick" where
  "stamp x = (case x of None \<Rightarrow> 0 | Some t \<Rightarrow> t)"

definition stamped :: "(entry \<rightharpoonup> Tick) \<Rightarrow> (entry \<Rightarrow> lru_data) \<Rightarrow> bool" where
  "stamped U d \<longleftrightarrow> (\<forall>e. lastTouchTick (d e) = stamp (U e))"

definition lru_choice :: "Tick option \<Rightarrow> Tick option set \<Rightarrow> bool" where
  "lru_choice x X \<longleftrightarrow> (\<forall>y \<in> X. stamp x \<le> stamp y)"

definition mru_choice :: "Tick option \<Rightarrow> Tick option set \<Rightarrow> bool" where
  "mru_choice x X \<longleftrightarrow> stamp x = 0 \<or> (\<forall>y \<in> X. stamp y \<noteq> 0 \<and> stamp y \<le> stamp x)"

interpretation lru_tags: tag_policy LRU_victim LRU_touch LRU_reset LRU_invalidate stamped lru_choice
proof unfold_locales
  fix U d and cs :: "entry list"
  assume U: "stamped U d" "cs \<noteq> []"
  obtain v where v: "LRU_getVictim d cs = Inr v" "v \<in> set cs" "\<forall>c \<in> set cs. lastTouchTick (d v) \<le> lastTouchTick (d c)"
    using lru.victim_min [OF U(2)] by blast
  then show "\<exists>s' v. LRU_victim d cs = Inr (s', v) \<and> v \<in> set cs \<and> stamped U s' \<and> lru_choice (U v) (U ` set cs)"
    using U(1) by (auto simp: LRU_victim_def rbind_def stamped_def lru_choice_def)
qed (auto simp: LRU_victim_def lru.no_candidates rbind_def stamped_def stamp_def LRU_touch_def LRU_reset_def LRU_invalidate_def)

interpretation mru_tags: tag_policy MRU_victim LRU_touch LRU_reset LRU_invalidate stamped mru_choice
proof unfold_locales
  fix U d and cs :: "entry list"
  assume U: "stamped U d" "cs \<noteq> []"
  let ?v = "MRU_scan d cs (cs ! 0)"
  have "MRU_victim d cs = Inr (d, ?v)" "?v \<in> set cs"
    using U(2) MRU_scan_props [of d cs "cs ! 0"] by (auto simp: MRU_victim_def MRU_getVictim_def rbind_def assert_that_def)
  moreover have "mru_choice (U ?v) (U ` set cs)"
    using MRU_scan_props [of d cs "cs ! 0"] U(1) by (auto simp: mru_choice_def stamped_def split: if_splits)
  ultimately show "\<exists>s' v. MRU_victim d cs = Inr (s', v) \<and> v \<in> set cs \<and> stamped U s' \<and> mru_choice (U v) (U ` set cs)"
    using U(1) by auto
qed (auto simp: MRU_victim_def MRU_getVictim_def assert_that_def rbind_def stamped_def stamp_def LRU_touch_def LRU_reset_def LRU_invalidate_def)

text \<open>
  What a cache with LRU replacement does to the lines it holds. A line is given up for a line of
  the same set, and it is a least recently used one of the set; it is given up while a way of the set is free
  only if its last use was at tick 0.
\<close>

definition lru_cache_spec :: "indexing \<Rightarrow> cache_op \<Rightarrow> ((Addr \<times> bool) \<rightharpoonup> Tick) \<Rightarrow> ((Addr \<times> bool) \<rightharpoonup> Tick) \<Rightarrow> bool" where
  "lru_cache_spec ip c M M' = (let l = op_line ip c in case c of
     Invalidation key \<Rightarrow> M' = M(l := None)
   | Reference t pkt \<Rightarrow>
       if l \<in> dom M then M' = M(l \<mapsto> t)
       else (let S = same_set ip (fst l) (dom M) in
         card S < assoc ip \<and> M' = M(l \<mapsto> t) \<or>
         (\<exists>w \<in> S. (\<forall>x \<in> S. the (M w) \<le> the (M x)) \<and> (card S < assoc ip \<longrightarrow> M w = Some 0) \<and> M' = M(w := None, l \<mapsto> t))))"

lemma cache_spec_lru:
  assumes "cache_spec ip lru_choice c M M'"
  shows "lru_cache_spec ip c M M'"
proof (cases c)
  case (Reference t pkt)
  define l where "l = op_line ip c"
  define S where "S = same_set ip (fst l) (dom M)"
  define X where "X = M ` S \<union> (if card S < assoc ip then {None} else {})"
  have some: "\<exists>t. M w = Some t" if "w \<in> S" for w
    using that by (auto simp: S_def same_set_def)
  have ch: "(\<forall>x \<in> S. the (M w) \<le> the (M x)) \<and> (card S < assoc ip \<longrightarrow> M w = Some 0)" if w: "w \<in> S" "lru_choice (M w) X" for w
  proof -
    have "stamp (M x) = the (M x)" if "x \<in> S" for x
      using some [OF that] by (auto simp: stamp_def)
    moreover have "\<forall>x \<in> S. stamp (M w) \<le> stamp (M x)" "card S < assoc ip \<longrightarrow> stamp (M w) = 0"
      using w(2) by (auto simp: lru_choice_def stamp_def X_def)
    ultimately show ?thesis
      using some [OF w(1)] w(1) by auto
  qed
  have "if l \<in> dom M then M' = M(l \<mapsto> t)
      else card S < assoc ip \<and> lru_choice None X \<and> M' = M(l \<mapsto> t) \<or> (\<exists>w \<in> S. lru_choice (M w) X \<and> M' = M(w := None, l \<mapsto> t))"
    using assms unfolding cache_spec_def Let_def X_def S_def l_def Reference by simp
  then have "if l \<in> dom M then M' = M(l \<mapsto> t)
      else card S < assoc ip \<and> M' = M(l \<mapsto> t) \<or> (\<exists>w \<in> S. (\<forall>x \<in> S. the (M w) \<le> the (M x)) \<and>
        (card S < assoc ip \<longrightarrow> M w = Some 0) \<and> M' = M(w := None, l \<mapsto> t))"
    using ch by metis
  then show ?thesis
    unfolding lru_cache_spec_def Let_def S_def l_def Reference by simp
qed (use assms in \<open>simp add: cache_spec_def lru_cache_spec_def\<close>)

section \<open>Moving a block\<close>

lemma moveAssign_spec:
  assumes "\<not> blk_valid dest" "blk_valid other" "blk_tickInserted dest \<le> t"
  shows "\<exists>d s. CacheBlk_moveAssign t ext dest other = Inr (d, s) \<and> blk_valid d \<and> \<not> blk_valid s \<and> blk_tag d = ext (blk_tag other)"
  using assms CacheBlk_invalidate_spec [of "other\<lparr>blk_lockList := blk_lockList dest\<rparr>"]
  by (auto simp: CacheBlk_moveAssign_def TaggedEntry_insert_def CacheBlk_setCoherenceBits_def CacheBlk_setWhenReady_def
      rbind_def assert_that_def Let_def)

section \<open>Load-locked lists\<close>

lemma erase_locks_filter:
  "erase_locks test ls = Inr ls' \<Longrightarrow> ls' = filter (\<lambda>l. test l = Inr False) ls \<and> (\<forall>l \<in> set ls. \<exists>b. test l = Inr b)"
  by (induction ls arbitrary: ls') (auto simp: rbind_eq_Inr)

lemma take_lock_spec:
  "take_lock req ls = Inr (s, ls') \<Longrightarrow>
     if s then \<exists>xs l ys. ls = xs @ l # ys \<and> ls' = xs @ ys \<and> Lock_matches req l = Inr True
     else ls' = ls \<and> (\<forall>l \<in> set ls. Lock_matches req l = Inr False)"
proof (induction ls arbitrary: s ls')
  case (Cons l ls)
  show ?case
  proof (cases "Lock_matches req l")
    case (Inr b)
    show ?thesis
    proof (cases b)
      case True
      then show ?thesis
        using Cons.prems Inr by (auto simp: rbind_def intro!: exI [of _ "[]"])
    next
      case False
      then obtain ls1 where ls1: "take_lock req ls = Inr (s, ls1)" "ls' = l # ls1"
        using Cons.prems Inr by (auto simp: rbind_eq_Inr)
      show ?thesis
        using Cons.IH [OF ls1(1)] ls1(2) False Inr by (auto split: if_splits) (metis append_Cons)
    qed
  qed (use Cons.prems in \<open>simp add: rbind_def\<close>)
qed simp

definition overlap :: "Lock \<Rightarrow> Lock \<Rightarrow> bool" where
  "overlap l l' \<longleftrightarrow> lowAddr l \<le> highAddr l' \<and> highAddr l \<ge> lowAddr l'"

text \<open>A request whose range does not wrap around the address space.\<close>

definition proper_range :: "Request \<Rightarrow> bool" where
  "proper_range req = (case lock_range req of Inl _ \<Rightarrow> False | Inr (low, high) \<Rightarrow> low \<le> high)"

text \<open>The event leaves the lock of a context alone.\<close>

fun spares :: "Lock \<Rightarrow> lock_event \<Rightarrow> bool" where
  "spares l (LoadLocked q) = (Lock_intersects (pkt_req q) l = Inr False)"
| "spares l (Store q) =
    ((\<exists>b. Lock_intersects (pkt_req q) l = Inr b \<and> (b \<longrightarrow> Request_contextId (pkt_req q) = Inr (lk_contextId l))) \<and>
     (pkt_attr IsLlsc q \<and> proper_range (pkt_req q) \<longrightarrow> Lock_matches (pkt_req q) l \<noteq> Inr True))"
| "spares l BlockInvalidated = False"

definition supported :: "lock_event list \<Rightarrow> Lock \<Rightarrow> bool" where
  "supported es l \<longleftrightarrow> (\<exists>es1 p es2. es = es1 @ LoadLocked p # es2 \<and> Lock_new (pkt_req p) = Inr l \<and> (\<forall>e \<in> set es2. spares l e))"

definition lock_inv :: "lock_event list \<Rightarrow> CacheBlk \<Rightarrow> bool" where
  "lock_inv es blk \<longleftrightarrow> list_all (supported es) (blk_lockList blk) \<and> sorted_wrt (\<lambda>l l'. \<not> overlap l l') (blk_lockList blk)"

lemma supported_snoc:
  assumes "supported es l" "spares l e"
  shows "supported (es @ [e]) l"
proof -
  obtain es1 p es2 where "es = es1 @ LoadLocked p # es2" "Lock_new (pkt_req p) = Inr l" "\<forall>e \<in> set es2. spares l e"
    using assms(1) by (auto simp: supported_def)
  then have "es @ [e] = es1 @ LoadLocked p # (es2 @ [e])" "\<forall>e \<in> set (es2 @ [e]). spares l e"
    using assms(2) by simp_all
  then show ?thesis
    unfolding supported_def using \<open>Lock_new (pkt_req p) = Inr l\<close> by blast
qed

lemma supported_new: "Lock_new (pkt_req p) = Inr l \<Longrightarrow> supported (es @ [LoadLocked p]) l"
  unfolding supported_def by (intro exI [of _ es] exI [of _ p] exI [of _ "[]"]) simp

lemma matches_overlap:
  assumes "proper_range req" "Lock_matches req l = Inr True" "Lock_matches req l' = Inr True"
  shows "overlap l l'"
  using assms by (auto simp: proper_range_def Lock_matches_def overlap_def rbind_eq_Inr split: sum.splits)

lemma setExtraData_locks:
  "lock_range (Request_setExtraData x req) = lock_range req" "Request_contextId (Request_setExtraData x req) = Request_contextId req"
  by (simp_all add: lock_range_def Request_setExtraData_def Request_getPaddr_def Request_getSize_def Request_contextId_def
      Request_hasContextId_def Request_hasPaddr_def Request_hasSize_def Flags_isSet_def Flags_set_def bit.conj_disj_distrib2)

lemma new_lock_overlap:
  "Lock_new req = Inr n \<Longrightarrow> Lock_intersects req l = Inr b \<Longrightarrow> b = overlap n l"
  by (auto simp: Lock_new_def Lock_intersects_def overlap_def rbind_eq_Inr)

lemma trackLoadLocked_inv:
  assumes "lock_inv es blk" "CacheBlk_trackLoadLocked p blk = Inr blk'"
  shows "lock_inv (es @ [LoadLocked p]) blk'"
proof -
  obtain ls n where ls: "erase_locks (Lock_intersects (pkt_req p)) (blk_lockList blk) = Inr ls"
    and n: "Lock_new (pkt_req p) = Inr n" and blk': "blk_lockList blk' = n # ls"
    using assms(2) by (auto simp: CacheBlk_trackLoadLocked_def result_eq_Inr)
  have eq: "ls = filter (\<lambda>l. Lock_intersects (pkt_req p) l = Inr False) (blk_lockList blk)"
    using erase_locks_filter [OF ls] by blast
  then have "list_all (supported (es @ [LoadLocked p])) ls" "\<forall>l \<in> set ls. \<not> overlap n l"
    using assms(1) new_lock_overlap [OF n] by (auto simp: lock_inv_def list_all_iff intro!: supported_snoc)
  then show ?thesis
    using assms(1) supported_new [OF n] eq blk' by (auto simp: lock_inv_def sorted_wrt_filter)
qed

lemma clearLoadLocks_filter:
  assumes "CacheBlk_clearLoadLocks req blk = Inr blk'"
  shows "\<exists>P. blk_lockList blk' = filter P (blk_lockList blk) \<and>
    (\<forall>l. P l \<longrightarrow> (\<exists>b. Lock_intersects req l = Inr b \<and> (b \<longrightarrow> Request_contextId req = Inr (lk_contextId l))))"
proof -
  let ?test = "\<lambda>l. rbind (Lock_intersects req l) (\<lambda>b.
    if b then rbind (Request_contextId req) (\<lambda>c. Inr (lk_contextId l \<noteq> c)) else Inr False)"
  obtain ls where "erase_locks ?test (blk_lockList blk) = Inr ls" "blk_lockList blk' = ls"
    using assms unfolding CacheBlk_clearLoadLocks_def rbind_eq_Inr [of "erase_locks ?test (blk_lockList blk)"] by auto
  then have "blk_lockList blk' = filter (\<lambda>l. ?test l = Inr False) (blk_lockList blk)"
    using erase_locks_filter [of ?test] by blast
  then show ?thesis
    by (intro exI conjI) (auto simp: rbind_eq_Inr)
qed

text \<open>The lock a store-conditional takes is the only one it matches, unless its range wraps.\<close>

lemma take_lock_spares:
  assumes "take_lock req ls = Inr (s, ls')" "sorted_wrt (\<lambda>l l'. \<not> overlap l l') ls"
  shows "set ls' \<subseteq> set ls \<and> sorted_wrt (\<lambda>l l'. \<not> overlap l l') ls' \<and>
    (s \<longrightarrow> (\<exists>l \<in> set ls. Lock_matches req l = Inr True)) \<and>
    (\<forall>l \<in> set ls'. proper_range req \<longrightarrow> Lock_matches req l \<noteq> Inr True)"
proof (cases s)
  case True
  then obtain xs l ys where l: "ls = xs @ l # ys" "ls' = xs @ ys" "Lock_matches req l = Inr True"
    using take_lock_spec [OF assms(1)] by auto
  then have "\<not> overlap x l" if "x \<in> set xs" for x
    using assms(2) that by (auto simp: sorted_wrt_append)
  moreover have "\<not> overlap l y" if "y \<in> set ys" for y
    using assms(2) l that by (auto simp: sorted_wrt_append)
  ultimately show ?thesis
    using l True assms(2) matches_overlap [of req] by (auto simp: sorted_wrt_append)
qed (use take_lock_spec [OF assms(1)] assms(2) in auto)

lemma checkWrite_locks:
  assumes "CacheBlk_checkWrite pkt blk = Inr (success, pkt', blk')" "sorted_wrt (\<lambda>l l'. \<not> overlap l l') (blk_lockList blk)"
  shows "set (blk_lockList blk') \<subseteq> set (blk_lockList blk) \<and> sorted_wrt (\<lambda>l l'. \<not> overlap l l') (blk_lockList blk') \<and>
    (\<forall>l \<in> set (blk_lockList blk'). spares l (Store pkt)) \<and>
    (pkt_attr IsLlsc pkt \<and> success \<longrightarrow> (\<exists>l \<in> set (blk_lockList blk). Lock_matches (pkt_req pkt) l = Inr True))"
proof (cases "pkt_attr IsLlsc pkt")
  case True
  let ?req = "\<lambda>s. Request_setExtraData (if s then 1 else 0) (pkt_req pkt)"
  obtain ls where ls: "take_lock (pkt_req pkt) (blk_lockList blk) = Inr (success, ls)"
    and clear: "CacheBlk_clearLoadLocks (?req success) (blk\<lparr>blk_lockList := ls\<rparr>) = Inr blk'"
    using assms(1) True by (auto simp: CacheBlk_checkWrite_def Let_def result_eq_Inr)
  have same: "Lock_intersects (?req s) l = Lock_intersects (pkt_req pkt) l" for s l
    by (simp add: Lock_intersects_def setExtraData_locks)
  obtain P where P: "blk_lockList blk' = filter P ls"
      "\<forall>l. P l \<longrightarrow> (\<exists>b. Lock_intersects (pkt_req pkt) l = Inr b \<and>
        (b \<longrightarrow> Request_contextId (pkt_req pkt) = Inr (lk_contextId l)))"
    using clearLoadLocks_filter [OF clear] by (auto simp: same setExtraData_locks)
  show ?thesis
    using take_lock_spares [OF ls assms(2)] P True by (auto simp: sorted_wrt_filter)
next
  case False
  show ?thesis
  proof (cases "blk_lockList blk = []")
    case True
    then show ?thesis
      using assms(1) False by (auto simp: CacheBlk_checkWrite_def result_eq_Inr)
  next
    case ne: False
    then have clear: "CacheBlk_clearLoadLocks (pkt_req pkt) blk = Inr blk'"
      using assms(1) False by (auto simp: CacheBlk_checkWrite_def result_eq_Inr)
    then show ?thesis
      using clearLoadLocks_filter [OF clear] False assms(2) by (auto simp: sorted_wrt_filter)
  qed
qed

lemma lock_do_inv:
  assumes "lock_inv es blk" "lock_do e blk = Inr blk'"
  shows "lock_inv (es @ [e]) blk'"
proof (cases e)
  case (LoadLocked p)
  then show ?thesis
    using trackLoadLocked_inv [OF assms(1), of p] assms(2) by simp
next
  case (Store p)
  then obtain success p' where "CacheBlk_checkWrite p blk = Inr (success, p', blk')"
    using assms(2) by (auto simp: rbind_eq_Inr)
  then show ?thesis
    using checkWrite_locks [of p blk success p' blk'] assms(1) Store
    by (auto simp del: spares.simps simp: lock_inv_def list_all_iff intro!: supported_snoc)
next
  case BlockInvalidated
  then show ?thesis
    using CacheBlk_invalidate_spec [of blk] assms(2) by (auto simp: lock_inv_def)
qed

lemma lock_run_inv: "lock_inv es blk \<Longrightarrow> lock_run es' blk = Inr blk' \<Longrightarrow> lock_inv (es @ es') blk'"
proof (induction es' arbitrary: es blk)
  case (Cons e es')
  then obtain b where b: "lock_do e blk = Inr b" "lock_run es' b = Inr blk'"
    by (auto simp: rbind_eq_Inr)
  then show ?case
    using Cons.IH [OF lock_do_inv [OF Cons.prems(1) b(1)]] by simp
qed simp

text \<open>The same in terms of the requests: the bytes they are for and their contexts.\<close>

definition req_bytes :: "Request \<Rightarrow> Addr set" where
  "req_bytes req = {req_paddr req .. req_paddr req + ucast (req_size req) - 1}"

fun leaves_reservation :: "Request \<Rightarrow> lock_event \<Rightarrow> bool" where
  "leaves_reservation r (LoadLocked q) = (req_bytes (pkt_req q) \<inter> req_bytes r = {})"
| "leaves_reservation r (Store q) =
    ((req_bytes (pkt_req q) \<inter> req_bytes r \<noteq> {} \<longrightarrow> req_contextId (pkt_req q) = req_contextId r) \<and>
     \<not> (pkt_attr IsLlsc q \<and> req_bytes (pkt_req q) \<noteq> {} \<and> req_bytes (pkt_req q) \<subseteq> req_bytes r))"
| "leaves_reservation r BlockInvalidated = False"

lemma lock_range_bytes: "lock_range req = Inr (low, high) \<Longrightarrow> req_bytes req = {low..high}"
  by (auto simp: lock_range_def Request_getPaddr_def Request_getSize_def req_bytes_def result_eq_Inr)

lemma Lock_new_request:
  "Lock_new req = Inr l \<Longrightarrow> lk_contextId l = req_contextId req \<and> req_bytes req = {lowAddr l..highAddr l}"
  by (auto simp: Lock_new_def Request_contextId_def result_eq_Inr dest: lock_range_bytes)

lemma Lock_matches_request:
  assumes "Lock_new r = Inr l" "Lock_matches req l = Inr True"
  shows "req_contextId req = req_contextId r" "req_bytes req \<subseteq> req_bytes r"
  using assms Lock_new_request [OF assms(1)]
  by (auto simp: Lock_matches_def Request_contextId_def result_eq_Inr dest!: lock_range_bytes)

lemma Lock_intersects_request:
  assumes "Lock_new r = Inr l" "Lock_intersects req l = Inr b"
  shows "req_bytes req \<inter> req_bytes r \<noteq> {} \<Longrightarrow> b"
  using assms(2) Lock_new_request [OF assms(1)]
  by (auto simp: Lock_intersects_def result_eq_Inr dest!: lock_range_bytes)

lemma not_matches_request:
  assumes "Lock_new r = Inr l" "Lock_intersects req l = Inr b" "Request_contextId req = Inr (lk_contextId l)"
    "Lock_matches req l \<noteq> Inr True"
  shows "req_bytes req = {} \<or> \<not> req_bytes req \<subseteq> req_bytes r"
proof -
  obtain low high where "lock_range req = Inr (low, high)" "req_bytes req = {low..high}"
    using assms(2) lock_range_bytes by (auto simp: Lock_intersects_def result_eq_Inr)
  then show ?thesis
    using assms(3,4) Lock_new_request [OF assms(1)] by (auto simp: Lock_matches_def)
qed

lemma proper_range_bytes: "lock_range req = Inr x \<Longrightarrow> proper_range req \<longleftrightarrow> req_bytes req \<noteq> {}"
  by (cases x) (simp add: proper_range_def lock_range_bytes)

lemma spares_reservation:
  assumes "Lock_new r = Inr l" "spares l e"
  shows "leaves_reservation r e"
proof (cases e)
  case (LoadLocked q)
  then show ?thesis
    using assms Lock_intersects_request [OF assms(1), of "pkt_req q" False] by auto
next
  case (Store q)
  then obtain b where b: "Lock_intersects (pkt_req q) l = Inr b" "b \<longrightarrow> Request_contextId (pkt_req q) = Inr (lk_contextId l)"
    using assms(2) by auto
  then obtain x where "lock_range (pkt_req q) = Inr x"
    by (auto simp: Lock_intersects_def result_eq_Inr)
  then have "\<not> (pkt_attr IsLlsc q \<and> req_bytes (pkt_req q) \<noteq> {} \<and> req_bytes (pkt_req q) \<subseteq> req_bytes r)"
    using b not_matches_request [OF assms(1) b(1)] Lock_intersects_request [OF assms(1) b(1)] assms(2) Store
      proper_range_bytes [of "pkt_req q" x] by auto
  moreover have "req_contextId (pkt_req q) = req_contextId r" if "req_bytes (pkt_req q) \<inter> req_bytes r \<noteq> {}"
    using Lock_intersects_request [OF assms(1) b(1) that] b(2) Lock_new_request [OF assms(1)]
    by (auto simp: Request_contextId_def result_eq_Inr)
  ultimately show ?thesis
    using Store by simp
qed (use assms(2) in simp)

section \<open>Properties\<close>

definition tag_pkt :: "Command \<Rightarrow> Addr \<Rightarrow> int \<Rightarrow> Packet" where
  "tag_pkt cmd a ctx = (pkt_set_flags VALID_ADDR (Packet_blank
     (Request_default\<lparr>req_paddr := a, req_size := 8, req_requestorId := 0, req_contextId := ctx, req_privateFlags := 0x23\<rparr>) cmd))
     \<lparr>pkt_addr := a\<rparr>"

abbreviation ex_store :: "(entry \<Rightarrow> lru_data) set_assoc_tags result" where
  "ex_store \<equiv> built 2 256 64 6 1 1 (\<lambda>_. LRU_instantiateEntry)"

abbreviation ex_refs :: "cache_op list" where
  "ex_refs \<equiv> [Reference 0 (tag_pkt ReadReq 0 0), Reference 2 (tag_pkt ReadReq 128 0), Reference 3 (tag_pkt ReadReq 256 0)]"

text \<open>A line last used at tick 0 is given up while the other way of its set is free.\<close>

lemma LRU_gives_up_tick_0:
  "rbind (rbind ex_store (tags_run LRU_victim LRU_touch LRU_reset LRU_invalidate
     [Reference 0 (tag_pkt ReadReq 0 0), Reference 5 (tag_pkt ReadReq 128 0)])) (BaseTags_findBlock (0, False)) = Inr None"
  by code_simp

text \<open>
  C6: A set-associative tag store with LRU replacement, as the constructors and \<open>tagsInit\<close> build it,
  serves every sequence of references and invalidations, at any ticks, without an error. A reference is
  a packet with an address, from a requestor that the store knows; the tag starts at bit 32 of the address
  or below, as the set number is shifted in 32 bits. The store implements a map from the lines
  it holds to the ticks of their last uses: a reference brings its line in or renews its tick; if the set is
  full it gives up one line, of the same set and with the least tick; if a way of the set is free it takes that
  way or, as the code cannot tell the two apart, gives up a line of the set last used at tick
  0. An invalidation removes its line and no other. Afterwards \<open>findBlock\<close> finds exactly the lines of the map, each
  in an entry with its tick.
\<close>

theorem tag_store_refines:
  assumes "built assc sz block_size set_shift lat n (\<lambda>_. LRU_instantiateEntry) = Inr ts" "assc < 2 ^ 32"
    "tagShift (indexingPolicy ts) \<le> 32" "list_all (op_fits n) cs"
  shows "\<exists>ts' M. tags_run LRU_victim LRU_touch LRU_reset LRU_invalidate cs ts = Inr ts' \<and>
    runs_by (lru_cache_spec (indexingPolicy ts)) cs Map.empty M \<and>
    (\<forall>key. \<exists>r. BaseTags_findBlock key ts' = Inr r \<and>
      map_option (\<lambda>i. lastTouchTick (replacement ts' i)) r = M (block_align set_shift (fst key), snd key))"
proof -
  note b = built_ok [OF assms(1-3)]
  have "lru_tags.tags_inv Map.empty ts" "line_ticks ts Map.empty = Map.empty"
    using b by (simp_all add: fun_eq_iff lru_tags.tags_inv_def line_ticks_def stamped_def stamp_def LRU_instantiateEntry_def)
  then obtain ts' U where ts': "tags_run LRU_victim LRU_touch LRU_reset LRU_invalidate cs ts = Inr ts'" "lru_tags.tags_inv U ts'"
      "runs_by (cache_spec (indexingPolicy ts) lru_choice) cs Map.empty (line_ticks ts' U)" "indexingPolicy ts' = indexingPolicy ts"
    using lru_tags.tags_run_refines [of Map.empty ts cs] b(4) assms(4) by auto
  note inv = lru_tags.tags_invD [OF ts'(2)]
  have tick: "U i = Some (lastTouchTick (replacement ts' i))" if "i \<in> occupied ts'" for i
    using that inv(2,3) by (auto simp: stamped_def stamp_def dom_def split: option.splits)
  have "\<exists>r. BaseTags_findBlock key ts' = Inr r \<and> map_option (\<lambda>i. lastTouchTick (replacement ts' i)) r =
      line_ticks ts' U (block_align set_shift (fst key), snd key)" for key
  proof -
    obtain r where r: "BaseTags_findBlock key ts' = Inr r"
        "case r of None \<Rightarrow> line_of ts' key \<notin> resident ts' | Some i \<Rightarrow> i \<in> occupied ts' \<and> tags_line ts' i = line_of ts' key"
      using findBlock_spec [OF inv(1)] by blast
    have "line_of ts' key = (block_align set_shift (fst key), snd key)"
      using ts'(4) b(5) by (simp add: line_of_def)
    then have "map_option (\<lambda>i. lastTouchTick (replacement ts' i)) r = line_ticks ts' U (block_align set_shift (fst key), snd key)"
      using r(2) tick line_ticks_at [OF inv(1), of "the r" U] by (cases r) (auto simp: line_ticks_None)
    then show ?thesis
      using r(1) by blast
  qed
  moreover have "runs_by (lru_cache_spec (indexingPolicy ts)) cs Map.empty (line_ticks ts' U)"
    using ts'(3) by (rule runs_by_mono [rotated]) (rule cache_spec_lru)
  ultimately show ?thesis
    using ts'(1) by blast
qed

theorem tag_store_refines_witness:
  "\<exists>ts ts' M. ex_store = Inr ts \<and> tags_run LRU_victim LRU_touch LRU_reset LRU_invalidate ex_refs ts = Inr ts' \<and>
     runs_by (lru_cache_spec (indexingPolicy ts)) ex_refs Map.empty M"
proof -
  have "case ex_store of Inl _ \<Rightarrow> False | Inr ts \<Rightarrow> tagShift (indexingPolicy ts) \<le> 32"
    by code_simp
  then obtain ts where ts: "ex_store = Inr ts" "tagShift (indexingPolicy ts) \<le> 32"
    by (auto split: sum.splits)
  have "list_all (op_fits 1) ex_refs"
    by code_simp
  then show ?thesis
    using tag_store_refines [OF ts(1) _ ts(2), of ex_refs] ts(1) by auto
qed

text \<open>
  C8: Load-locked and store-conditional: after any sequence of load-locked accesses, writes and
  invalidations of a block, a store-conditional succeeds only if the same context has done a
  load-locked whose bytes include those of the store, and since then the block has not been
  invalidated, no load-locked has touched one of these bytes, no other context has written to or attempted a
  store-conditional on one of them, and no store-conditional inside them has been done, which would have used
  the load-locked up. A request is for the bytes from its physical address on, as many as its size.
\<close>

theorem store_conditional_safe:
  assumes "lock_run es CacheBlk_new = Inr blk" "pkt_attr IsLlsc pkt" "CacheBlk_checkWrite pkt blk = Inr (True, pkt', blk')"
  shows "\<exists>es1 p es2. es = es1 @ LoadLocked p # es2 \<and> req_contextId (pkt_req p) = req_contextId (pkt_req pkt) \<and>
    req_bytes (pkt_req pkt) \<subseteq> req_bytes (pkt_req p) \<and> (\<forall>e \<in> set es2. leaves_reservation (pkt_req p) e)"
proof -
  have "lock_inv [] CacheBlk_new"
    by (simp add: lock_inv_def CacheBlk_new_def)
  then have inv: "lock_inv es blk"
    using lock_run_inv [of "[]" CacheBlk_new es blk] assms(1) by simp
  then obtain l where l: "l \<in> set (blk_lockList blk)" "Lock_matches (pkt_req pkt) l = Inr True"
    using checkWrite_locks [OF assms(3)] assms(2) by (auto simp: lock_inv_def)
  then obtain es1 p es2 where "es = es1 @ LoadLocked p # es2" and p: "Lock_new (pkt_req p) = Inr l"
    and "\<forall>e \<in> set es2. spares l e"
    using inv by (auto simp: lock_inv_def list_all_iff supported_def)
  then show ?thesis
    using Lock_matches_request [OF p l(2)] spares_reservation [OF p] by metis
qed

theorem store_conditional_safe_witness:
  "\<exists>es1 p es2. [LoadLocked (tag_pkt LoadLockedReq 64 1), Store (tag_pkt WriteReq 72 2)] = es1 @ LoadLocked p # es2 \<and>
     req_contextId (pkt_req p) = req_contextId (pkt_req (tag_pkt StoreCondReq 64 1)) \<and>
     req_bytes (pkt_req (tag_pkt StoreCondReq 64 1)) \<subseteq> req_bytes (pkt_req p) \<and> (\<forall>e \<in> set es2. leaves_reservation (pkt_req p) e)"
proof -
  let ?es = "[LoadLocked (tag_pkt LoadLockedReq 64 1), Store (tag_pkt WriteReq 72 2)]" and ?sc = "tag_pkt StoreCondReq 64 1"
  have "case lock_run ?es CacheBlk_new of Inl _ \<Rightarrow> False | Inr blk \<Rightarrow>
      (case CacheBlk_checkWrite ?sc blk of Inl _ \<Rightarrow> False | Inr (success, _, _) \<Rightarrow> success)"
    by code_simp
  then obtain blk pkt' blk' where "lock_run ?es CacheBlk_new = Inr blk" "CacheBlk_checkWrite ?sc blk = Inr (True, pkt', blk')"
    by (auto split: sum.splits prod.splits)
  moreover have "pkt_attr IsLlsc ?sc"
    by code_simp
  ultimately show ?thesis
    using store_conditional_safe by blast
qed

text \<open>
  C36: \<open>moveBlock\<close> loses a block: the move assignment of a cache block inserts the old tag as if it
  were an address, so that the tag is extracted a second time. Unless the tag is its own tag,
  the block that was found at an address before the move is not found there after it.
\<close>

theorem moveBlock_loses_line:
  assumes "tags_ok ts" "BaseTags_findBlock key ts = Inr (Some src)" "tag_of ts (blk_tag (blks ts ! src)) \<noteq> blk_tag (blks ts ! src)"
    "dest \<in> set (ways_of (indexingPolicy ts) (fst key))" "\<not> blk_valid (blks ts ! dest)" "blk_tickInserted (blks ts ! dest) \<le> t"
  shows "\<exists>ts'. BaseSetAssoc_moveBlock inval rst t src dest ts = Inr ts' \<and> BaseTags_findBlock key ts' = Inr None"
proof -
  let ?d = "blks ts ! dest" and ?s = "blks ts ! src" and ?ws = "ways_of (indexingPolicy ts) (fst key)"
  have src: "src \<in> occupied ts" "tags_line ts src = line_of ts key" "src < length (blks ts)"
    using findBlock_spec [OF assms(1), of key] assms(2) by (auto simp: occupied_def)
  have tag: "blk_tag ?s = tag_of ts (fst key)" "blk_valid ?s"
    using match_iff_line [OF assms(1) src(3), of key] src(1,2) by (auto simp: TaggedEntry_match_def)
  have dest: "dest < length (blks ts)" "dest \<noteq> src"
    using ways_of_less [OF assms(1,4)] assms(5) tag(2) by auto
  obtain d s' where mv: "CacheBlk_moveAssign t (tag_of ts) ?d ?s = Inr (d, s')" "blk_valid d" "\<not> blk_valid s'"
      "blk_tag d = tag_of ts (blk_tag ?s)"
    using moveAssign_spec [OF assms(5) tag(2) assms(6), of "tag_of ts"] by blast
  let ?ts = "ts\<lparr>blks := (blks ts)[dest := d, src := s'], replacement := rst dest (inval src (replacement ts))\<rparr>"
  have "BaseSetAssoc_moveBlock inval rst t src dest ts = Inr ?ts"
    using mv assms(5) tag(2) by (simp add: BaseSetAssoc_moveBlock_def BaseTags_moveBlock_def rbind_def assert_that_def)
  moreover have "\<not> TaggedEntry_match (tag_of ts) key (blks ?ts ! i)" if "i \<in> set ?ws" for i
  proof -
    have "TaggedEntry_match (tag_of ts) key (blks ts ! i) \<Longrightarrow> i = src"
      using match_iff_line [OF assms(1) ways_of_less [OF assms(1) that], of key] that src(1,2) assms(1)
      by (auto simp: tags_ok_def inj_on_def)
    then show ?thesis
      using mv(3,4) tag(1) assms(3) dest src(3) by (auto simp: nth_list_update TaggedEntry_match_def)
  qed
  then have "BaseTags_findBlock key ?ts = Inr None"
    using assms(1) by (simp add: BaseTags_findBlock_def tags_ok_def getPossibleEntries_ways find_loop_find find_None_iff)
  ultimately show ?thesis
    by blast
qed

theorem moveBlock_loses_line_witness:
  "\<exists>ts ts'. BaseTags_findBlock (384, False) ts = Inr (Some 0) \<and>
     BaseSetAssoc_moveBlock LRU_invalidate (LRU_reset 2) 2 0 1 ts = Inr ts' \<and> BaseTags_findBlock (384, False) ts' = Inr None"
proof -
  let ?run = "tags_run LRU_victim LRU_touch LRU_reset LRU_invalidate [Reference 1 (tag_pkt ReadReq 384 0)]"
  have "case ex_store of Inl _ \<Rightarrow> False | Inr ts0 \<Rightarrow> tagShift (indexingPolicy ts0) \<le> 32 \<and>
      (case ?run ts0 of Inl _ \<Rightarrow> False | Inr ts \<Rightarrow>
        BaseTags_findBlock (384, False) ts = Inr (Some 0) \<and> tag_of ts (blk_tag (blks ts ! 0)) \<noteq> blk_tag (blks ts ! 0) \<and>
        1 \<in> set (ways_of (indexingPolicy ts) 384) \<and> \<not> blk_valid (blks ts ! 1) \<and> blk_tickInserted (blks ts ! 1) \<le> 2)"
    by code_simp
  then obtain ts0 ts where ts0: "ex_store = Inr ts0" "tagShift (indexingPolicy ts0) \<le> 32" and ts: "?run ts0 = Inr ts"
      "BaseTags_findBlock (384, False) ts = Inr (Some 0)" "tag_of ts (blk_tag (blks ts ! 0)) \<noteq> blk_tag (blks ts ! 0)"
      "1 \<in> set (ways_of (indexingPolicy ts) 384)" "\<not> blk_valid (blks ts ! 1)" "blk_tickInserted (blks ts ! 1) \<le> 2"
    by (auto simp del: tags_run.simps split: sum.splits)
  have "lru_tags.tags_inv Map.empty ts0" "maxRequestors ts0 = 1"
    using built_ok [OF ts0(1) _ ts0(2)] by (simp_all add: lru_tags.tags_inv_def stamped_def stamp_def LRU_instantiateEntry_def)
  moreover have "list_all (op_fits 1) [Reference 1 (tag_pkt ReadReq 384 0)]"
    by code_simp
  ultimately have "tags_ok ts"
    using lru_tags.tags_run_refines [of Map.empty ts0 "[Reference 1 (tag_pkt ReadReq 384 0)]"] ts(1) by (auto simp del: tags_run.simps simp: lru_tags.tags_inv_def)
  then show ?thesis
    using moveBlock_loses_line [of ts "(384, False)" 0 1 2 LRU_invalidate "LRU_reset 2"] ts(2-) by auto
qed

end
