(* ===== verification/Stack_Dist.thy ===== *)
theory Stack_Dist
  imports Bitfield
begin

text \<open>
  The stack distance calculator, \<open>mem/stack_dist_calc.hh\<close> and \<open>mem/stack_dist_calc.cc\<close>: the number of
  distinct addresses used since the last use of an address. The tree is a vector of layers, each a
  map from indices to nodes; layer 0 has a leaf per live access, and a node above it has the
  numbers of live leaves below its two children. A node is named by its layer and index, and its
  parent by the index in the layer above, where the code puts every parent. Following a
  pointer to a node that is not there is undefined behaviour. The counters are natural
  numbers: the shift of an \<open>int\<close> by the number of a layer is undefined long before they could
  wrap. The distances that are returned are 64-bit words, with \<open>Infinity\<close> the largest. Printing is
  left out.
\<close>

section \<open>Data\<close>

record SDNode =
  sumLeft :: nat
  sumRight :: nat
  discardLeft :: bool
  discardRight :: bool
  nodeIndex :: nat
  parent :: "nat option"
  isLeftNode :: bool
  isMarked :: bool

definition SDNode_new :: SDNode where
  "SDNode_new = \<lparr>sumLeft = 0, sumRight = 0, discardLeft = False, discardRight = False, nodeIndex = 0,
     parent = None, isLeftNode = True, isMarked = False\<rparr>"

record StackDistCalc =
  sd_index :: nat
  sd_tree :: "(nat \<rightharpoonup> SDNode) list"
  aiMap :: "Addr \<rightharpoonup> nat"
  nextIndex :: "nat list"
  sd_stack :: "Addr list"
  verifyStack :: bool

abbreviation SD_Infinity :: "64 word" where
  "SD_Infinity \<equiv> - 1"

definition StackDistCalc_new :: "bool \<Rightarrow> StackDistCalc" where
  "StackDistCalc_new verify_stack =
    \<lparr>sd_index = 0, sd_tree = [Map.empty, [0 \<mapsto> SDNode_new]], aiMap = Map.empty, nextIndex = [0, 1],
     sd_stack = [], verifyStack = verify_stack\<rparr>"

abbreviation getTreeDepth :: "StackDistCalc \<Rightarrow> nat" where
  "getTreeDepth s \<equiv> length (sd_tree s) - 1"

text \<open>Reading a node through a pointer, writing it, and erasing it from its layer.\<close>

definition node_at :: "nat \<Rightarrow> nat \<Rightarrow> StackDistCalc \<Rightarrow> SDNode result" where
  "node_at l j s =
    (if l < length (sd_tree s) then
       (case (sd_tree s ! l) j of None \<Rightarrow> Inl (Undefined ''no such node'') | Some n \<Rightarrow> Inr n)
     else Inl (Undefined ''no such layer''))"

definition put_node :: "nat \<Rightarrow> nat \<Rightarrow> SDNode \<Rightarrow> StackDistCalc \<Rightarrow> StackDistCalc" where
  "put_node l j n s = s\<lparr>sd_tree := (sd_tree s)[l := (sd_tree s ! l)(j \<mapsto> n)]\<rparr>"

definition erase_node :: "nat \<Rightarrow> nat \<Rightarrow> StackDistCalc \<Rightarrow> StackDistCalc" where
  "erase_node l j s = s\<lparr>sd_tree := (sd_tree s)[l := (sd_tree s ! l)(j := None)]\<rparr>"

section \<open>Sums\<close>

lemma rbind_cong [fundef_cong]:
  "m = m' \<Longrightarrow> (\<And>x. m' = Inr x \<Longrightarrow> f x = g x) \<Longrightarrow> rbind m f = rbind m' g"
  by (cases m') auto

text \<open>
  \<open>1 << i\<close> shifts an \<open>int\<close>: by 31 it gives the least one, which the comparison and the remainder
  below take as a 64-bit unsigned number, and a shift by more is undefined.
\<close>

definition int_shift :: "nat \<Rightarrow> nat result" where
  "int_shift i =
    (if i < 31 then Inr (2 ^ i) else if i = 31 then Inr (2 ^ 64 - 2 ^ 31) else Inl (Undefined ''shift''))"

lemma int_shift_small [simp]: "i < 31 \<Longrightarrow> int_shift i = Inr (2 ^ i)"
  by (simp add: int_shift_def)

text \<open>The sanity check on the sums of a node in the given layer.\<close>

definition check_sums :: "nat \<Rightarrow> SDNode \<Rightarrow> StackDistCalc \<Rightarrow> unit result" where
  "check_sums level node s =
    (if \<not> verifyStack s then Inr ()
     else rbind (int_shift (level - 1)) (\<lambda>most.
       panic_if (sumLeft node > most) ''Error in sum left''
         (panic_if (sumRight node > most) ''Error in sum right'' (Inr ()))))"

text \<open>The node and the two discard flags after the update from below.\<close>

definition updated_node :: "bool \<Rightarrow> nat \<Rightarrow> bool \<Rightarrow> SDNode \<Rightarrow> SDNode" where
  "updated_node from_left sum_from_below discard_node node =
    (let n1 = (if from_left then node\<lparr>sumLeft := sum_from_below\<rparr> else node\<lparr>sumRight := sum_from_below\<rparr>) in
     if discard_node \<and> sum_from_below = 0 then
       (if from_left then n1\<lparr>discardLeft := True\<rparr> else n1\<lparr>discardRight := True\<rparr>)
     else n1)"

function updateSum :: "nat \<Rightarrow> bool \<Rightarrow> nat \<Rightarrow> nat \<Rightarrow> nat \<Rightarrow> bool \<Rightarrow> StackDistCalc \<Rightarrow> (nat \<times> StackDistCalc) result" where
  "updateSum j from_left sum_from_below level stack_dist discard_node s =
    rbind (node_at (level + 1) j s) (\<lambda>node.
    rbind (check_sums (level + 1) node s) (\<lambda>_.
      let stack_dist' = (if from_left then stack_dist + sumRight node else stack_dist);
          node' = updated_node from_left sum_from_below discard_node node;
          gone = (discardLeft node' \<and> discardRight node' \<and> discard_node \<and> parent node \<noteq> None \<and> sum_from_below = 0);
          s' = (if gone then erase_node (level + 1) (nodeIndex node) (put_node (level + 1) j node' s)
                else put_node (level + 1) j node' s) in
      case parent node of
        None \<Rightarrow> Inr (stack_dist', s')
      | Some p \<Rightarrow> updateSum p (isLeftNode node) (sumLeft node' + sumRight node') (level + 1) stack_dist' gone s'))"
  by pat_completeness auto
termination
  by (relation "measure (\<lambda>(j, fl, b, level, d, dis, s). length (sd_tree s) - level)")
    (auto simp: node_at_def put_node_def erase_node_def split: if_splits)

definition updateSumsLeavesToRoot :: "nat \<Rightarrow> bool \<Rightarrow> StackDistCalc \<Rightarrow> (64 word \<times> StackDistCalc) result" where
  "updateSumsLeavesToRoot k is_new_leaf s =
    rbind (node_at 0 k s) (\<lambda>node.
    case parent node of
      None \<Rightarrow> Inl (Undefined ''null parent'')
    | Some p \<Rightarrow>
        if is_new_leaf then
          rbind (updateSum p (isLeftNode node) 1 0 0 False (put_node 0 k (node\<lparr>sumLeft := 1\<rparr>) s)) (\<lambda>(_, s').
            Inr (SD_Infinity, s'))
        else
          rbind (updateSum p (isLeftNode node) 0 0 0 True (put_node 0 k (node\<lparr>sumLeft := 0\<rparr>) s)) (\<lambda>(d, s').
            Inr (of_nat d, s')))"

function getSum :: "nat \<Rightarrow> bool \<Rightarrow> nat \<Rightarrow> nat \<Rightarrow> StackDistCalc \<Rightarrow> nat result" where
  "getSum j from_left stack_dist level s =
    rbind (node_at (level + 1) j s) (\<lambda>node.
      let stack_dist' = (if from_left then stack_dist + sumRight node else stack_dist) in
      case parent node of
        None \<Rightarrow> Inr stack_dist'
      | Some p \<Rightarrow> getSum p (isLeftNode node) stack_dist' (level + 1) s)"
  by pat_completeness auto
termination
  by (relation "measure (\<lambda>(j, fl, d, level, s). length (sd_tree s) - level)")
    (auto simp: node_at_def split: if_splits)

definition getSumsLeavesToRoot :: "nat \<Rightarrow> StackDistCalc \<Rightarrow> 64 word result" where
  "getSumsLeavesToRoot k s =
    rbind (node_at 0 k s) (\<lambda>node.
    case parent node of
      None \<Rightarrow> Inl (Undefined ''null parent'')
    | Some p \<Rightarrow> rbind (getSum p (isLeftNode node) 0 0 s) (\<lambda>d. Inr (of_nat d)))"

section \<open>Growing the tree\<close>

text \<open>The last node of a layer, null if it is not there.\<close>

definition last_node :: "nat \<Rightarrow> StackDistCalc \<Rightarrow> nat option" where
  "last_node l s = (let k = nextIndex s ! l - 1 in if (sd_tree s ! l) k = None then None else Some k)"

definition add_inode :: "nat \<Rightarrow> StackDistCalc \<Rightarrow> StackDistCalc" where
  "add_inode i s =
    (let k = nextIndex s ! i in
     put_node i k (SDNode_new\<lparr>isLeftNode := (k mod 2 = 0), parent := last_node (i + 1) s, nodeIndex := k\<rparr>)
       (s\<lparr>nextIndex := (nextIndex s)[i := k + 1]\<rparr>))"

fun new_chain :: "nat \<Rightarrow> StackDistCalc \<Rightarrow> StackDistCalc" where
  "new_chain 0 s = s"
| "new_chain (Suc i) s = new_chain i (add_inode (Suc i) s)"

fun new_inodes :: "nat \<Rightarrow> StackDistCalc \<Rightarrow> StackDistCalc result" where
  "new_inodes 0 s = Inr s"
| "new_inodes (Suc i) s =
    rbind (int_shift (Suc i)) (\<lambda>width.
      new_inodes i (if sd_index s mod width = 0 then add_inode (Suc i) s else s))"

definition new_root :: "StackDistCalc \<Rightarrow> StackDistCalc result" where
  "new_root s =
    (let d = getTreeDepth s in
     rbind (node_at d 0 s) (\<lambda>old.
       let root = SDNode_new\<lparr>sumLeft := sumRight old + sumLeft old, discardLeft := (discardLeft old \<and> discardRight old)\<rparr> in
       Inr (put_node d 0 (old\<lparr>parent := Some 0\<rparr>)
         (s\<lparr>sd_tree := sd_tree s @ [[0 \<mapsto> root]], nextIndex := nextIndex s @ [1]\<rparr>))))"

definition updateTree :: "StackDistCalc \<Rightarrow> StackDistCalc result" where
  "updateTree s =
    (if isPowerOf2 (of_nat (sd_index s))
     then rbind (new_root s) (\<lambda>s'. Inr (new_chain (getTreeDepth s' - 1) s'))
     else new_inodes (getTreeDepth s - 1) s)"

section \<open>Verification by a naive stack\<close>

text \<open>\<open>next_up\<close>, in layer \<open>l\<close>, is taken up \<open>n\<close> times.\<close>

fun sanity_climb :: "nat \<Rightarrow> nat \<Rightarrow> nat option \<Rightarrow> StackDistCalc \<Rightarrow> (nat \<times> nat option) result" where
  "sanity_climb 0 l next_up s = Inr (l, next_up)"
| "sanity_climb (Suc n) l next_up s =
    (case next_up of
       None \<Rightarrow> Inl (Undefined ''null node'')
     | Some j \<Rightarrow> rbind (node_at l j s) (\<lambda>node.
         panic_if (parent node = None) ''Sanity check failed'' (sanity_climb n (l + 1) (parent node) s)))"

definition sanityCheckTree :: "nat \<Rightarrow> StackDistCalc \<Rightarrow> unit result" where
  "sanityCheckTree k s =
    rbind (node_at 0 k s) (\<lambda>leaf.
    rbind (sanity_climb (getTreeDepth s - 1) 1 (parent leaf) s) (\<lambda>(l, next_up).
      case next_up of
        None \<Rightarrow> Inl (Undefined ''null node'')
      | Some j \<Rightarrow> rbind (node_at l j s) (\<lambda>node. panic_if (parent node \<noteq> None) ''Sanity check failed'' (Inr ()))))"

fun stack_scan :: "Addr \<Rightarrow> Addr list \<Rightarrow> nat option" where
  "stack_scan a [] = None"
| "stack_scan a (x # xs) = (if x = a then Some 0 else map_option Suc (stack_scan a xs))"

definition verifyStackDist :: "Addr \<Rightarrow> bool \<Rightarrow> Addr list \<Rightarrow> 64 word \<times> Addr list" where
  "verifyStackDist a update_stack st =
    (let r = stack_scan a (rev st);
         st1 = (case r of
             None \<Rightarrow> st
           | Some d \<Rightarrow> if update_stack then take (length st - 1 - d) st @ drop (length st - d) st else st) in
     (case r of None \<Rightarrow> SD_Infinity | Some d \<Rightarrow> of_nat d, if update_stack then st1 @ [a] else st1))"

definition check_stack :: "Addr \<Rightarrow> bool \<Rightarrow> 64 word \<Rightarrow> StackDistCalc \<Rightarrow> StackDistCalc result" where
  "check_stack a update_stack stack_dist s =
    (let (d, st) = verifyStackDist a update_stack (sd_stack s) in
     panic_if (d \<noteq> stack_dist) ''Expected stack-distance'' (Inr (s\<lparr>sd_stack := st\<rparr>)))"

section \<open>The interface\<close>

text \<open>The first half takes the old leaf out, the second adds the new one.\<close>

definition take_leaf :: "Addr \<Rightarrow> bool \<Rightarrow> StackDistCalc \<Rightarrow> ((64 word \<times> bool) \<times> StackDistCalc) result" where
  "take_leaf a addNewNode s =
    (case aiMap s a of
       Some r_index \<Rightarrow>
         rbind (updateSumsLeavesToRoot r_index False
             (s\<lparr>aiMap := (if addNewNode then (aiMap s)(a \<mapsto> sd_index s) else (aiMap s)(a := None))\<rparr>)) (\<lambda>(stack_dist, s1).
         rbind (node_at 0 r_index s1) (\<lambda>leaf.
           Inr ((stack_dist, isMarked leaf), erase_node 0 r_index s1)))
     | None \<Rightarrow> Inr ((SD_Infinity, False), if addNewNode then s\<lparr>aiMap := (aiMap s)(a \<mapsto> sd_index s)\<rparr> else s))"

definition add_leaf :: "StackDistCalc \<Rightarrow> StackDistCalc result" where
  "add_leaf s =
    rbind (if sd_index s mod 2 = 0 then updateTree s else Inr s) (\<lambda>s1.
    let k = sd_index s1;
        leaf = SDNode_new\<lparr>nodeIndex := k, isLeftNode := (k mod 2 = 0), parent := last_node 1 s1\<rparr> in
    rbind (updateSumsLeavesToRoot k True
      (put_node 0 k leaf (s1\<lparr>nextIndex := (nextIndex s1)[0 := nextIndex s1 ! 0 + 1]\<rparr>))) (\<lambda>(_, s2). Inr s2))"

definition calcStackDistAndUpdate :: "Addr \<Rightarrow> bool \<Rightarrow> StackDistCalc \<Rightarrow> ((64 word \<times> bool) \<times> StackDistCalc) result" where
  "calcStackDistAndUpdate a addNewNode s =
    rbind (take_leaf a addNewNode s) (\<lambda>((stack_dist, mark), s1).
    if addNewNode then
      rbind (add_leaf s1) (\<lambda>s2.
      rbind (if verifyStack s2
             then rbind (sanityCheckTree (sd_index s2) s2) (\<lambda>_. check_stack a True stack_dist s2)
             else Inr s2) (\<lambda>s3.
        Inr ((stack_dist, mark), s3\<lparr>sd_index := sd_index s3 + 1\<rparr>)))
    else Inr ((stack_dist, mark), s1))"

definition calcStackDist :: "Addr \<Rightarrow> bool \<Rightarrow> StackDistCalc \<Rightarrow> ((64 word \<times> bool) \<times> StackDistCalc) result" where
  "calcStackDist a mark s =
    rbind (case aiMap s a of
        Some r_index \<Rightarrow>
          rbind (node_at 0 r_index s) (\<lambda>leaf.
          let s1 = put_node 0 r_index (leaf\<lparr>isMarked := mark\<rparr>) s in
          rbind (getSumsLeavesToRoot r_index s1) (\<lambda>d. Inr ((d, isMarked leaf), s1)))
      | None \<Rightarrow> Inr ((SD_Infinity, False), s)) (\<lambda>((stack_dist, m), s1).
    rbind (if verifyStack s1 then check_stack a False stack_dist s1 else Inr s1) (\<lambda>s2.
      Inr ((stack_dist, m), s2)))"

text \<open>Sequences of calls.\<close>

datatype sd_op = Update Addr bool | Query Addr bool

fun sd_do :: "sd_op \<Rightarrow> StackDistCalc \<Rightarrow> ((64 word \<times> bool) \<times> StackDistCalc) result" where
  "sd_do (Update a addNewNode) s = calcStackDistAndUpdate a addNewNode s"
| "sd_do (Query a mark) s = calcStackDist a mark s"

fun sd_run :: "sd_op list \<Rightarrow> StackDistCalc \<Rightarrow> ((64 word \<times> bool) list \<times> StackDistCalc) result" where
  "sd_run [] s = Inr ([], s)"
| "sd_run (c # cs) s =
    rbind (sd_do c s) (\<lambda>(r, s1). rbind (sd_run cs s1) (\<lambda>(rs, s2). Inr (r # rs, s2)))"

end
