(* ===== verification/Stack_Dist_Correct.thy ===== *)
theory Stack_Dist_Correct
  imports Stack_Dist
begin

text \<open>
  Correctness of the stack distance calculator. Every node holds the numbers of live leaves under its
  two children, a node is discarded only when the leaves under it have all been added and taken out,
  and the walk from a leaf to the root counts the live leaves to its right. The calculator refines
  a list of addresses in the order of their last use.
\<close>

section \<open>Counting leaves\<close>

declare power_Suc [simp del]

definition cnt :: "nat set \<Rightarrow> nat \<Rightarrow> nat \<Rightarrow> nat" where
  "cnt L l j = card {m \<in> L. m div 2 ^ l = j}"

lemma div_Suc_pow: "m div 2 ^ Suc l = m div 2 ^ l div (2 :: nat)"
  by (simp only: power_Suc mult.commute [of 2] div_mult2_eq)

lemma double_width: "(j + 1) * 2 ^ Suc l = (2 * j + 2) * (2 ^ l :: nat)"
  by (simp add: power_Suc)

lemma half_cases: "x div 2 = j \<longleftrightarrow> x = 2 * j \<or> x = 2 * j + (1 :: nat)"
  by presburger

lemma cnt_Suc:
  assumes "finite L"
  shows "cnt L (Suc l) j = cnt L l (2 * j) + cnt L l (2 * j + 1)"
proof -
  have "{m \<in> L. m div 2 ^ Suc l = j} = {m \<in> L. m div 2 ^ l = 2 * j} \<union> {m \<in> L. m div 2 ^ l = 2 * j + 1}"
    by (auto simp: div_Suc_pow half_cases)
  then show ?thesis
    using assms by (simp add: cnt_def card_Un_disjoint disjoint_iff)
qed

lemma cnt_0: "cnt L 0 j = (if j \<in> L then 1 else 0)"
proof -
  have "{m \<in> L. m = j} = (if j \<in> L then {j} else {})"
    by auto
  then show ?thesis
    by (simp add: cnt_def)
qed

lemma cnt_le: "cnt L l j \<le> 2 ^ l"
proof -
  have "{m \<in> L. m div 2 ^ l = j} \<subseteq> {j * 2 ^ l..<j * 2 ^ l + 2 ^ l}"
    by (auto simp: div_nat_eqI dividend_less_times_div) (simp add: dividend_less_div_times add.commute)
  then have "card {m \<in> L. m div 2 ^ l = j} \<le> card {j * 2 ^ l..<j * 2 ^ l + 2 ^ l}"
    by (intro card_mono) auto
  then show ?thesis
    by (simp add: cnt_def)
qed

text \<open>The leaf \<open>k\<close> is taken out, or added as the next one, number \<open>n\<close>.\<close>

definition differ_at :: "nat \<Rightarrow> nat \<Rightarrow> nat set \<Rightarrow> nat set \<Rightarrow> bool" where
  "differ_at n k L L' \<longleftrightarrow> (\<forall>m. m \<noteq> k \<longrightarrow> (m \<in> L \<longleftrightarrow> m \<in> L')) \<and> (k \<in> L' \<longrightarrow> k \<in> L \<or> n \<le> k)"

lemma cnt_differ: "differ_at n k L L' \<Longrightarrow> j \<noteq> k div 2 ^ l \<Longrightarrow> cnt L' l j = cnt L l j"
  unfolding cnt_def differ_at_def by (intro arg_cong [where f = card]) auto

lemma cnt_outside:
  assumes "\<And>m. m \<in> L \<Longrightarrow> m < n" "n \<le> j * 2 ^ l"
  shows "cnt L l j = 0"
proof -
  have "m div 2 ^ l \<noteq> j" if "m \<in> L" for m
    using assms(1) [OF that] assms(2) by (metis div_times_less_eq_dividend leD order_trans)
  then have "{m \<in> L. m div 2 ^ l = j} = {}"
    by blast
  then show ?thesis
    by (simp only: cnt_def card.empty)
qed

lemma sibling: "c \<le> x \<Longrightarrow> x \<noteq> c \<longleftrightarrow> even c \<and> x = c + 1 \<or> x div 2 \<noteq> c div (2 :: nat)"
  by presburger

lemma cnt_complete:
  assumes "differ_at n k L L'" "(j + 1) * 2 ^ l \<le> n" "cnt L l j = 0" "finite L"
  shows "cnt L' l j = 0"
proof -
  have less: "m < n" if "m div 2 ^ l = j" for m
    using assms(2) dividend_less_div_times [of "2 ^ l" m] that by simp
  have "m \<in> L" if "m \<in> L'" "m div 2 ^ l = j" for m
    using assms(1) less [OF that(2)] that(1) by (cases "m = k") (auto simp: differ_at_def)
  then have "{m \<in> L'. m div 2 ^ l = j} \<subseteq> {m \<in> L. m div 2 ^ l = j}"
    by blast
  moreover have "{m \<in> L. m div 2 ^ l = j} = {}"
    using assms(3,4) card_0_eq [of "{m \<in> L. m div 2 ^ l = j}"] by (auto simp: cnt_def)
  ultimately show ?thesis
    unfolding cnt_def by (metis card.empty subset_empty)
qed

text \<open>The leaves to the right of \<open>k\<close> outside its subtree at height \<open>l\<close>.\<close>

definition right_of :: "nat set \<Rightarrow> nat \<Rightarrow> nat \<Rightarrow> nat" where
  "right_of L k l = card {m \<in> L. k < m \<and> m div 2 ^ l \<noteq> k div 2 ^ l}"

lemma right_of_0: "right_of L k 0 = card {m \<in> L. k < m}"
  unfolding right_of_def by (intro arg_cong [where f = card]) auto

lemma right_of_top: "(\<And>m. m \<in> L \<Longrightarrow> m < 2 ^ d) \<Longrightarrow> k < 2 ^ d \<Longrightarrow> right_of L k d = 0"
  unfolding right_of_def by (auto simp: card_eq_0_iff)

lemma right_of_step:
  assumes "finite L"
  shows "right_of L k l = (if even (k div 2 ^ l) then cnt L l (k div 2 ^ l + 1) else 0) + right_of L k (Suc l)"
proof -
  let ?c = "k div 2 ^ l"
  let ?A = "{m \<in> L. even ?c \<and> m div 2 ^ l = ?c + 1}" and ?B = "{m \<in> L. k < m \<and> m div 2 ^ Suc l \<noteq> k div 2 ^ Suc l}"
  have mono: "k < m \<Longrightarrow> ?c \<le> m div 2 ^ l" and less: "?c < m div 2 ^ l \<Longrightarrow> k < m" for m
    using div_le_mono [of k m "2 ^ l"] div_le_mono [of m k "2 ^ l"] by linarith+
  have "k < m \<and> m div 2 ^ l \<noteq> ?c \<longleftrightarrow>
      even ?c \<and> m div 2 ^ l = ?c + 1 \<or> k < m \<and> m div 2 ^ l div 2 \<noteq> ?c div 2" for m
    using mono [of m] less [of m] sibling [of ?c "m div 2 ^ l"] by auto
  then have "{m \<in> L. k < m \<and> m div 2 ^ l \<noteq> ?c} = ?A \<union> ?B"
    unfolding div_Suc_pow by auto
  moreover have "?A \<inter> ?B = {}"
    unfolding div_Suc_pow by auto
  moreover have "card ?A = (if even ?c then cnt L l (?c + 1) else 0)"
    by (simp add: cnt_def)
  ultimately show ?thesis
    using assms by (simp add: right_of_def card_Un_disjoint)
qed

section \<open>The layers\<close>

text \<open>A node above the leaves, in a tree of depth \<open>D\<close> with \<open>n\<close> leaves added so far and \<open>L\<close> alive.\<close>

definition node_ok :: "nat \<Rightarrow> nat \<Rightarrow> nat set \<Rightarrow> nat \<Rightarrow> nat \<Rightarrow> SDNode \<Rightarrow> bool" where
  "node_ok D n L l j nd \<longleftrightarrow>
     nodeIndex nd = j \<and> isLeftNode nd = even j \<and> parent nd = (if Suc l < D then Some (j div 2) else None) \<and>
     sumLeft nd = cnt L l (2 * j) \<and> sumRight nd = cnt L l (2 * j + 1) \<and>
     (discardLeft nd \<longrightarrow> cnt L l (2 * j) = 0 \<and> (2 * j + 1) * 2 ^ l \<le> n) \<and>
     (discardRight nd \<longrightarrow> cnt L l (2 * j + 1) = 0 \<and> (2 * j + 2) * 2 ^ l \<le> n)"

type_synonym layers = "(nat \<rightharpoonup> SDNode) list"

definition layers_ok :: "nat \<Rightarrow> nat \<Rightarrow> nat set \<Rightarrow> nat \<Rightarrow> layers \<Rightarrow> bool" where
  "layers_ok D n L lo T \<longleftrightarrow> (\<forall>l j nd. lo \<le> l \<longrightarrow> l < D \<longrightarrow> (T ! Suc l) j = Some nd \<longrightarrow> node_ok D n L l j nd)"

definition path_ok :: "nat \<Rightarrow> nat \<Rightarrow> nat \<Rightarrow> layers \<Rightarrow> bool" where
  "path_ok D k lo T \<longleftrightarrow> (\<forall>l. lo < l \<longrightarrow> l \<le> D \<longrightarrow> (T ! l) (k div 2 ^ l) \<noteq> None)"

text \<open>A node that the code may not have discarded.\<close>

definition needed :: "nat \<Rightarrow> nat \<Rightarrow> nat set \<Rightarrow> nat \<Rightarrow> nat \<Rightarrow> bool" where
  "needed D n L l j \<longleftrightarrow> 0 < cnt L l j \<or> n < (j + 1) * 2 ^ l \<or> l = D"

lemma node_at_Some: "length (sd_tree s) = Suc D \<Longrightarrow> l \<le> D \<Longrightarrow> (sd_tree s ! l) j = Some nd \<Longrightarrow> node_at l j s = Inr nd"
  by (simp add: node_at_def)

lemma check_sums_ok:
  assumes "node_ok D n L l j nd" "verifyStack s \<longrightarrow> D \<le> 31" "l < D"
  shows "check_sums (Suc l) nd s = Inr ()"
  using assms cnt_le [of L l "2 * j"] cnt_le [of L l "2 * j + 1"] by (auto simp: check_sums_def node_ok_def panic_if_def)

text \<open>The node on the path, after the update.\<close>

lemma updated_node_ok:
  assumes "node_ok D n L l (c div 2) nd" "differ_at n k L L'" "c = k div 2 ^ l" "finite L"
    "dis \<Longrightarrow> cnt L' l c = 0 \<and> (c + 1) * 2 ^ l \<le> n"
  shows "node_ok D n L' l (c div 2) (updated_node (even c) (cnt L' l c) dis nd)"
proof (cases "even c")
  case True
  then have "2 * (c div 2) = c" "cnt L' l (c + 1) = cnt L l (c + 1)"
    using cnt_differ [OF assms(2), of "c + 1" l] assms(3) by simp_all
  then show ?thesis
    using assms(1,5) cnt_complete [OF assms(2), of c l] assms(4) True by (auto simp: node_ok_def updated_node_def Let_def)
next
  case False
  then have "Suc (2 * (c div 2)) = c"
    by presburger
  moreover have "cnt L' l (2 * (c div 2)) = cnt L l (2 * (c div 2))"
    using cnt_differ [OF assms(2), of "2 * (c div 2)" l] assms(3) calculation by (metis n_not_Suc_n)
  ultimately show ?thesis
    using assms(1,5) cnt_complete [OF assms(2), of c l] assms(4) False by (auto simp: node_ok_def updated_node_def Let_def)
qed

lemma node_ok_differ:
  assumes "node_ok D n L l j nd" "differ_at n k L L'" "j \<noteq> k div 2 ^ Suc l"
  shows "node_ok D n L' l j nd"
proof -
  have "2 * j \<noteq> k div 2 ^ l" "2 * j + 1 \<noteq> k div 2 ^ l"
    using assms(3) unfolding div_Suc_pow by auto
  then show ?thesis
    using assms(1) cnt_differ [OF assms(2)] by (simp add: node_ok_def)
qed

section \<open>The walk to the root\<close>

text \<open>One step of the walk, from child \<open>c\<close> in layer \<open>l\<close> to its parent.\<close>

lemma step_layers:
  assumes "layers_ok D n L l T" "length T = Suc D" "l < D" "differ_at n k L L'"
    "(T ! Suc l) (k div 2 ^ Suc l) = Some nd" "node_ok D n L' l (k div 2 ^ Suc l) nd'"
    and T': "T' = T[Suc l := (T ! Suc l)(k div 2 ^ Suc l := (if gone then None else Some nd'))]"
  shows "layers_ok D n L (Suc l) T'"
    "\<And>j nd. (T' ! Suc l) j = Some nd \<Longrightarrow> node_ok D n L' l j nd"
proof -
  show "layers_ok D n L (Suc l) T'"
    using assms(1,2,3) unfolding layers_ok_def T' by simp
  show "node_ok D n L' l j nd" if "(T' ! Suc l) j = Some nd" for j nd
  proof (cases "j = k div 2 ^ Suc l")
    case True
    then show ?thesis
      using that assms(2,3,6) by (simp add: T' split: if_splits)
  next
    case False
    then have "(T ! Suc l) j = Some nd"
      using that assms(2,3) by (simp add: T')
    then have "node_ok D n L l j nd"
      using assms(1,3) by (simp add: layers_ok_def)
    then show ?thesis
      by (rule node_ok_differ [OF _ assms(4) False])
  qed
qed

definition walk_done :: "nat \<Rightarrow> nat \<Rightarrow> nat set \<Rightarrow> nat \<Rightarrow> nat \<Rightarrow> layers \<Rightarrow> layers \<Rightarrow> bool" where
  "walk_done D n L' k l T T' \<longleftrightarrow> length T' = Suc D \<and> (\<forall>i \<le> l. T' ! i = T ! i) \<and> layers_ok D n L' l T' \<and>
     (\<forall>i j. l < i \<longrightarrow> i \<le> D \<longrightarrow> (T ! i) j \<noteq> None \<longrightarrow> j \<noteq> k div 2 ^ i \<or> needed D n L' i j \<longrightarrow> (T' ! i) j \<noteq> None) \<and>
     (\<forall>i j. l < i \<longrightarrow> i \<le> D \<longrightarrow> (T ! i) j = None \<longrightarrow> (T' ! i) j = None)"

lemma walk_done_root: "length T = Suc D \<Longrightarrow> walk_done D n L' k D T T"
  by (simp add: walk_done_def layers_ok_def)

lemma walk_done_step:
  assumes "walk_done D n L' k (Suc l) T1 T'" "\<forall>i \<le> l. T1 ! i = T ! i" "\<forall>i > Suc l. T1 ! i = T ! i"
    and "\<And>j nd. (T1 ! Suc l) j = Some nd \<Longrightarrow> node_ok D n L' l j nd"
    and "\<And>j. (T ! Suc l) j \<noteq> None \<Longrightarrow> j \<noteq> k div 2 ^ Suc l \<or> needed D n L' (Suc l) j \<Longrightarrow> (T1 ! Suc l) j \<noteq> None"
    and "\<And>j. (T ! Suc l) j = None \<Longrightarrow> (T1 ! Suc l) j = None"
  shows "walk_done D n L' k l T T'"
proof -
  have T': "length T' = Suc D" "\<forall>i \<le> Suc l. T' ! i = T1 ! i" "layers_ok D n L' (Suc l) T'"
    "\<forall>i j. Suc l < i \<longrightarrow> i \<le> D \<longrightarrow> (T1 ! i) j \<noteq> None \<longrightarrow> j \<noteq> k div 2 ^ i \<or> needed D n L' i j \<longrightarrow> (T' ! i) j \<noteq> None"
    "\<forall>i j. Suc l < i \<longrightarrow> i \<le> D \<longrightarrow> (T1 ! i) j = None \<longrightarrow> (T' ! i) j = None"
    using assms(1) unfolding walk_done_def by blast+
  have "node_ok D n L' i j nd" if "l \<le> i" "i < D" "(T' ! Suc i) j = Some nd" for i j nd
    using that T'(2,3) assms(4) [of j nd] by (cases "i = l") (auto simp: layers_ok_def)
  moreover have "(T' ! i) j \<noteq> None"
    if "l < i" "i \<le> D" "(T ! i) j \<noteq> None" "j \<noteq> k div 2 ^ i \<or> needed D n L' i j" for i j
  proof (cases "i = Suc l")
    case True
    then show ?thesis
      using assms(5) [of j] that(3,4) T'(2) by simp
  next
    case False
    then show ?thesis
      using that T'(4) assms(3) by simp
  qed
  moreover have "(T' ! i) j = None" if "l < i" "i \<le> D" "(T ! i) j = None" for i j
  proof (cases "i = Suc l")
    case True
    then show ?thesis
      using assms(6) [of j] that(3) T'(2) by simp
  next
    case False
    then show ?thesis
      using that T'(5) assms(3) by simp
  qed
  ultimately show ?thesis
    using T'(1,2) assms(2) by (simp add: walk_done_def layers_ok_def)
qed

lemma updateSum_spec:
  assumes "length (sd_tree s) = Suc D" "l < D" "layers_ok D n L l (sd_tree s)" "path_ok D k l (sd_tree s)"
    and "differ_at n k L L'" "finite L" "finite L'" "k < 2 ^ D" "\<And>m. m \<in> L \<Longrightarrow> m < 2 ^ D" "verifyStack s \<longrightarrow> D \<le> 31"
    and "dis \<longrightarrow> cnt L' l (k div 2 ^ l) = 0 \<and> (k div 2 ^ l + 1) * 2 ^ l \<le> n"
  shows "\<exists>T'. updateSum (k div 2 ^ Suc l) (even (k div 2 ^ l)) (cnt L' l (k div 2 ^ l)) l d dis s =
      Inr (d + right_of L k l, s\<lparr>sd_tree := T'\<rparr>) \<and> walk_done D n L' k l (sd_tree s) T'"
  using assms
proof (induction "D - l" arbitrary: l s d dis)
  case (Suc x)
  let ?c = "k div 2 ^ l" and ?j = "k div 2 ^ Suc l" and ?T = "sd_tree s"
  have j: "?j = ?c div 2"
    by (rule div_Suc_pow)
  obtain nd where nd: "(?T ! Suc l) ?j = Some nd"
    using Suc.prems(2,4) by (auto simp: path_ok_def)
  have ok: "node_ok D n L l ?j nd"
    using Suc.prems(2,3) nd by (simp add: layers_ok_def)
  let ?nd = "updated_node (even ?c) (cnt L' l ?c) dis nd"
  have ok': "node_ok D n L' l ?j ?nd"
    using updated_node_ok [OF _ Suc.prems(5) refl, of D l nd dis] ok Suc.prems(6,11) by (simp add: j)
  define gone where "gone = (discardLeft ?nd \<and> discardRight ?nd \<and> dis \<and> parent nd \<noteq> None \<and> cnt L' l ?c = 0)"
  define T1 where "T1 = ?T[Suc l := (?T ! Suc l)(?j := (if gone then None else Some ?nd))]"
  define d1 where "d1 = (if even ?c then d + sumRight nd else d)"
  have "even ?c \<Longrightarrow> 2 * ?j = ?c"
    by (simp add: j)
  then have d1: "d1 + right_of L k (Suc l) = d + right_of L k l"
    using ok right_of_step [OF Suc.prems(6), of k l] by (simp add: d1_def node_ok_def)
  have at: "node_at (l + 1) ?j s = Inr nd" "check_sums (l + 1) nd s = Inr ()"
    using node_at_Some [OF Suc.prems(1), of "Suc l" ?j nd] nd check_sums_ok [OF ok Suc.prems(10,2)] Suc.prems(2)
    by simp_all
  have s1: "(if gone then erase_node (l + 1) (nodeIndex nd) (put_node (l + 1) ?j ?nd s) else put_node (l + 1) ?j ?nd s) =
      s\<lparr>sd_tree := T1\<rparr>"
    using ok Suc.prems(1,2) by (simp add: T1_def put_node_def erase_node_def node_ok_def)
  have step: "updateSum ?j (even ?c) (cnt L' l ?c) l d dis s =
      (case parent nd of None \<Rightarrow> Inr (d1, s\<lparr>sd_tree := T1\<rparr>)
       | Some p \<Rightarrow> updateSum p (isLeftNode nd) (sumLeft ?nd + sumRight ?nd) (l + 1) d1 gone (s\<lparr>sd_tree := T1\<rparr>))"
    by (subst updateSum.simps) (simp only: at rbind_Inr Let_def flip: gone_def d1_def, simp only: s1)
  note lay = step_layers [OF Suc.prems(3,1,2,5) nd ok' T1_def]
  have T1: "length T1 = Suc D" "\<forall>i \<le> l. T1 ! i = ?T ! i" "\<forall>i > Suc l. T1 ! i = ?T ! i"
    using Suc.prems(1) by (simp_all add: T1_def)
  have sum: "sumLeft ?nd + sumRight ?nd = cnt L' (Suc l) ?j"
    using ok' cnt_Suc [OF Suc.prems(7), of l ?j] by (simp add: node_ok_def)
  have dis': "gone \<longrightarrow> cnt L' (Suc l) ?j = 0 \<and> (?j + 1) * 2 ^ Suc l \<le> n"
    using ok' sum unfolding double_width [of ?j] by (auto simp: gone_def node_ok_def)
  have keep: "(T1 ! Suc l) j \<noteq> None" if "(?T ! Suc l) j \<noteq> None" "j \<noteq> ?j \<or> needed D n L' (Suc l) j" for j
    using that dis' ok Suc.prems(1,2) by (auto simp: T1_def needed_def gone_def node_ok_def split: if_splits)
  have none: "(T1 ! Suc l) j = None" if "(?T ! Suc l) j = None" for j
    using that nd Suc.prems(1,2) by (auto simp: T1_def)
  show ?case
  proof (cases "Suc l < D")
    case False
    then have "Suc l = D" "parent nd = None"
      using Suc.prems(2) ok by (simp_all add: node_ok_def)
    moreover have "right_of L k (Suc l) = 0"
      using right_of_top [of L "Suc l" k] Suc.prems(8,9) \<open>Suc l = D\<close> by simp
    moreover have "walk_done D n L' k l ?T T1"
      by (rule walk_done_step [OF _ T1(2,3) lay(2) keep none]) (use walk_done_root [OF T1(1)] \<open>Suc l = D\<close> in auto)
    ultimately show ?thesis
      using step d1 by auto
  next
    case True
    have path: "path_ok D k (Suc l) T1"
      using Suc.prems(4) T1(3) by (simp add: path_ok_def)
    have "x = D - Suc l"
      using Suc.hyps(2) by simp
    then obtain T' where T': "updateSum (k div 2 ^ Suc (Suc l)) (even ?j) (cnt L' (Suc l) ?j) (Suc l) d1 gone (s\<lparr>sd_tree := T1\<rparr>) =
        Inr (d1 + right_of L k (Suc l), s\<lparr>sd_tree := T1, sd_tree := T'\<rparr>)" "walk_done D n L' k (Suc l) T1 T'"
      using Suc.hyps(1) [of "Suc l" "s\<lparr>sd_tree := T1\<rparr>" gone d1] T1(1) True lay(1) path Suc.prems(5-10) dis' by auto
    have "parent nd = Some (k div 2 ^ Suc (Suc l))" "isLeftNode nd = even ?j"
      using ok True by (simp_all add: node_ok_def div_Suc_pow [of k "Suc l"])
    then have "updateSum ?j (even ?c) (cnt L' l ?c) l d dis s = Inr (d + right_of L k l, s\<lparr>sd_tree := T'\<rparr>)"
      using step T'(1) d1 sum by simp
    moreover have "walk_done D n L' k l ?T T'"
      by (rule walk_done_step [OF T'(2) T1(2,3) lay(2) keep none])
    ultimately show ?thesis
      by blast
  qed
qed simp

lemma getSum_spec:
  assumes "length (sd_tree s) = Suc D" "l < D" "layers_ok D n L l (sd_tree s)" "path_ok D k l (sd_tree s)"
    and "finite L" "k < 2 ^ D" "\<And>m. m \<in> L \<Longrightarrow> m < 2 ^ D"
  shows "getSum (k div 2 ^ Suc l) (even (k div 2 ^ l)) d l s = Inr (d + right_of L k l)"
  using assms
proof (induction "D - l" arbitrary: l d)
  case (Suc x)
  let ?c = "k div 2 ^ l" and ?j = "k div 2 ^ Suc l"
  obtain nd where nd: "(sd_tree s ! Suc l) ?j = Some nd"
    using Suc.prems(2,4) by (auto simp: path_ok_def)
  have ok: "node_ok D n L l ?j nd"
    using Suc.prems(2,3) nd by (simp add: layers_ok_def)
  have "even ?c \<Longrightarrow> 2 * ?j = ?c"
    by (simp add: div_Suc_pow)
  then have d: "(if even ?c then d + sumRight nd else d) + right_of L k (Suc l) = d + right_of L k l"
    using ok right_of_step [OF Suc.prems(5), of k l] by (simp add: node_ok_def)
  have at: "node_at (l + 1) ?j s = Inr nd"
    using node_at_Some [OF Suc.prems(1), of "Suc l" ?j nd] nd Suc.prems(2) by simp
  show ?case
  proof (cases "Suc l < D")
    case False
    then have "Suc l = D" "parent nd = None"
      using Suc.prems(2) ok by (simp_all add: node_ok_def)
    moreover have "right_of L k (Suc l) = 0"
      using right_of_top [of L "Suc l" k] Suc.prems(6,7) \<open>Suc l = D\<close> by simp
    ultimately have "parent nd = None" "right_of L k (Suc l) = 0"
      by simp_all
    then show ?thesis
      by (subst getSum.simps) (use at d in \<open>simp add: Let_def\<close>)
  next
    case True
    have "parent nd = Some (k div 2 ^ Suc (Suc l))" "isLeftNode nd = even ?j"
      using ok True by (simp_all add: node_ok_def div_Suc_pow [of k "Suc l"])
    moreover have "layers_ok D n L (Suc l) (sd_tree s)" "path_ok D k (Suc l) (sd_tree s)"
      using Suc.prems(3,4) by (simp_all add: layers_ok_def path_ok_def)
    moreover have "x = D - Suc l"
      using Suc.hyps(2) by simp
    ultimately show ?thesis
      by (subst getSum.simps) (use at d True Suc.hyps(1) [of "Suc l"] Suc.prems(1,5-7) in \<open>simp add: Let_def\<close>)
  qed
qed simp

section \<open>The invariant\<close>

text \<open>
  The tree with \<open>n\<close> leaves added and the leaves \<open>L\<close> alive, each with its mark. The counters of the
  layers are \<open>ni\<close>.
\<close>

definition leaf_ok :: "nat \<Rightarrow> SDNode \<Rightarrow> bool" where
  "leaf_ok k nd \<longleftrightarrow> parent nd = Some (k div 2) \<and> isLeftNode nd = even k"

definition leaves_ok :: "(nat \<rightharpoonup> bool) \<Rightarrow> layers \<Rightarrow> bool" where
  "leaves_ok M T \<longleftrightarrow> (\<forall>k. map_option isMarked ((T ! 0) k) = M k) \<and> (\<forall>k nd. (T ! 0) k = Some nd \<longrightarrow> leaf_ok k nd)"

definition shape_ok :: "nat \<Rightarrow> nat \<Rightarrow> (nat \<rightharpoonup> bool) \<Rightarrow> StackDistCalc \<Rightarrow> bool" where
  "shape_ok D n M s \<longleftrightarrow> 0 < D \<and> sd_index s = n \<and> length (sd_tree s) = Suc D \<and> length (nextIndex s) = Suc D \<and>
     nextIndex s ! 0 = n \<and> dom M \<subseteq> {..<n} \<and> leaves_ok M (sd_tree s) \<and> layers_ok D n (dom M) 0 (sd_tree s) \<and>
     (\<forall>j. j \<noteq> 0 \<longrightarrow> (sd_tree s ! D) j = None)"

definition have_nodes :: "nat \<Rightarrow> nat \<Rightarrow> nat set \<Rightarrow> nat \<Rightarrow> StackDistCalc \<Rightarrow> bool" where
  "have_nodes D n L hi s \<longleftrightarrow>
     (\<forall>l j. 0 < l \<longrightarrow> l \<le> hi \<longrightarrow> j < nextIndex s ! l \<longrightarrow> needed D n L l j \<longrightarrow> (sd_tree s ! l) j \<noteq> None)"

definition tree_inv :: "nat \<Rightarrow> nat \<Rightarrow> (nat \<rightharpoonup> bool) \<Rightarrow> StackDistCalc \<Rightarrow> bool" where
  "tree_inv D n M s \<longleftrightarrow> shape_ok D n M s \<and> n \<le> 2 ^ D \<and> (D = 1 \<or> 2 ^ (D - 1) < n) \<and>
     (\<forall>l. 0 < l \<longrightarrow> l \<le> D \<longrightarrow> nextIndex s ! l = (n - 1) div 2 ^ l + 1) \<and> have_nodes D n (dom M) D s"

lemma tree_inv_new: "tree_inv 1 0 Map.empty (StackDistCalc_new v)"
  by (auto simp: tree_inv_def shape_ok_def have_nodes_def leaves_ok_def layers_ok_def node_ok_def StackDistCalc_new_def
      SDNode_new_def cnt_def less_Suc_eq le_Suc_eq split: if_splits)

lemma finite_live: "shape_ok D n M s \<Longrightarrow> finite (dom M)"
  by (auto simp: shape_ok_def intro: finite_subset)

text \<open>The path from a live leaf to the root is there.\<close>

lemma live_path:
  assumes "tree_inv D n M s" "k \<in> dom M"
  shows "path_ok D k 0 (sd_tree s)"
proof -
  have k: "k < n" "finite (dom M)"
    using assms finite_live by (auto simp: tree_inv_def shape_ok_def)
  have "(sd_tree s ! l) (k div 2 ^ l) \<noteq> None" if l: "0 < l" "l \<le> D" for l
  proof -
    have "k div 2 ^ l < nextIndex s ! l"
      using assms(1) l k(1) div_le_mono [of k "n - 1" "2 ^ l"] by (auto simp: tree_inv_def less_Suc_eq_le)
    moreover have "k \<in> {m \<in> dom M. m div 2 ^ l = k div 2 ^ l}"
      using assms(2) by simp
    then have "0 < cnt (dom M) l (k div 2 ^ l)"
      using k(2) unfolding cnt_def by (auto simp: card_gt_0_iff)
    ultimately show ?thesis
      using assms(1) l by (simp add: tree_inv_def have_nodes_def needed_def)
  qed
  then show ?thesis
    by (simp add: path_ok_def)
qed

section \<open>Taking a leaf out and looking at one\<close>

lemma leaf_at:
  assumes "shape_ok D n M s" "M k = Some m"
  shows "\<exists>nd. (sd_tree s ! 0) k = Some nd \<and> node_at 0 k s = Inr nd \<and> isMarked nd = m \<and> leaf_ok k nd"
proof -
  have "map_option isMarked ((sd_tree s ! 0) k) = Some m"
    using assms by (simp add: shape_ok_def leaves_ok_def)
  then obtain nd where "(sd_tree s ! 0) k = Some nd" "isMarked nd = m"
    by auto
  then show ?thesis
    using assms(1) by (auto simp: shape_ok_def leaves_ok_def node_at_def)
qed

lemma layers_ok_mono:
  assumes "layers_ok D n L lo T" "n \<le> n'"
  shows "layers_ok D n' L lo T"
proof -
  have "node_ok D n' L l j nd" if "node_ok D n L l j nd" for l j nd
    using that order_trans [OF _ assms(2)] unfolding node_ok_def by blast
  then show ?thesis
    using assms(1) by (simp add: layers_ok_def)
qed

lemma walk_done_keeps:
  "walk_done D n L' k l T T' \<Longrightarrow> l < i \<Longrightarrow> i \<le> D \<Longrightarrow> (T ! i) j \<noteq> None \<Longrightarrow> needed D n L' i j \<Longrightarrow> (T' ! i) j \<noteq> None"
  unfolding walk_done_def by blast

text \<open>The tree after the walk from a leaf, and after the leaf layer is set to \<open>T0\<close>.\<close>

lemma shape_walk:
  assumes "shape_ok D n M s" "walk_done D n (dom M') k 0 T T'" "\<forall>l > 0. T ! l = sd_tree s ! l" "dom M' \<subseteq> {..<n'}" "n \<le> n'"
    "leaves_ok M' (T'[0 := T0])" "sd_tree s' = T'[0 := T0]" "sd_index s' = n'" "length (nextIndex s') = Suc D" "nextIndex s' ! 0 = n'"
  shows "shape_ok D n' M' s'"
proof -
  have "layers_ok D n (dom M') 0 T'"
    using assms(2) by (simp add: walk_done_def)
  then have "layers_ok D n' (dom M') 0 T'"
    by (rule layers_ok_mono [OF _ assms(5)])
  then have "layers_ok D n' (dom M') 0 (T'[0 := T0])"
    by (simp add: layers_ok_def)
  moreover have "(T' ! D) j = None" if "j \<noteq> 0" for j
  proof -
    have "0 < D" "(T ! D) j = None"
      using assms(1,3) that by (simp_all add: shape_ok_def)
    then show ?thesis
      using assms(2) unfolding walk_done_def by blast
  qed
  ultimately show ?thesis
    using assms by (simp add: shape_ok_def walk_done_def)
qed

lemma take_out:
  assumes inv: "tree_inv D n M s" and k: "M k = Some m" and v: "verifyStack s \<longrightarrow> D \<le> 31"
  shows "\<exists>s1 nd. updateSumsLeavesToRoot k False s = Inr (of_nat (card {m \<in> dom M. k < m}), s1) \<and>
    node_at 0 k s1 = Inr nd \<and> isMarked nd = m \<and> tree_inv D n (M(k := None)) (erase_node 0 k s1) \<and>
    erase_node 0 k s1 = s\<lparr>sd_tree := sd_tree (erase_node 0 k s1)\<rparr>"
proof -
  have shape: "shape_ok D n M s"
    using inv by (simp add: tree_inv_def)
  obtain nd where nd: "(sd_tree s ! 0) k = Some nd" "node_at 0 k s = Inr nd" "isMarked nd = m" "leaf_ok k nd"
    using leaf_at [OF shape k] by blast
  let ?M = "M(k := None)" and ?s = "put_node 0 k (nd\<lparr>sumLeft := 0\<rparr>) s"
  let ?T = "sd_tree ?s"
  have len: "length ?T = Suc D" "length (sd_tree s) = Suc D" and T: "\<forall>l > 0. ?T ! l = sd_tree s ! l"
    "?T ! 0 = (sd_tree s ! 0)(k \<mapsto> nd\<lparr>sumLeft := 0\<rparr>)"
    using shape by (simp_all add: put_node_def shape_ok_def)
  have lay: "layers_ok D n (dom M) 0 ?T" "path_ok D k 0 ?T"
    using shape live_path [OF inv, of k] k T(1) by (auto simp: shape_ok_def layers_ok_def path_ok_def)
  have D: "0 < D" "k < n" "k < 2 ^ D" "\<And>m. m \<in> dom M \<Longrightarrow> m < 2 ^ D"
    using inv k by (auto simp: tree_inv_def shape_ok_def subset_iff dest: less_le_trans)
  have diff: "differ_at n k (dom M) (dom ?M)" "finite (dom M)" "finite (dom ?M)"
    using finite_live [OF shape] by (auto simp: differ_at_def)
  have "cnt (dom ?M) 0 k = 0"
    by (simp add: cnt_0)
  then obtain T' where T': "updateSum (k div 2) (even k) 0 0 0 True ?s = Inr (right_of (dom M) k 0, ?s\<lparr>sd_tree := T'\<rparr>)"
      "walk_done D n (dom ?M) k 0 ?T T'"
    using updateSum_spec [OF len(1) D(1) lay diff D(3,4), of True 0] v D(2) by (auto simp: put_node_def power_Suc)
  let ?s1 = "s\<lparr>sd_tree := T'\<rparr>" and ?s2 = "s\<lparr>sd_tree := T'[0 := (T' ! 0)(k := None)]\<rparr>"
  have T0: "T' ! 0 = (sd_tree s ! 0)(k \<mapsto> nd\<lparr>sumLeft := 0\<rparr>)" "length T' = Suc D"
    using T'(2) T(2) by (simp_all add: walk_done_def)
  have "updateSumsLeavesToRoot k False s = Inr (of_nat (card {m \<in> dom M. k < m}), ?s1)"
    using nd(2,4) T'(1) by (simp add: updateSumsLeavesToRoot_def leaf_ok_def right_of_0 put_node_def)
  moreover have "node_at 0 k ?s1 = Inr (nd\<lparr>sumLeft := 0\<rparr>)"
    using T0 by (simp add: node_at_def)
  moreover have "shape_ok D n ?M ?s2"
  proof (rule shape_walk [OF shape T'(2) T(1)])
    show "leaves_ok ?M (T'[0 := (T' ! 0)(k := None)])"
      using shape T0 by (auto simp: shape_ok_def leaves_ok_def)
  qed (use shape in \<open>auto simp: shape_ok_def\<close>)
  moreover have "have_nodes D n (dom ?M) D ?s2"
    unfolding have_nodes_def
  proof (intro allI impI)
    fix l j
    assume l: "0 < l" "l \<le> D" "j < nextIndex ?s2 ! l" "needed D n (dom ?M) l j"
    have "cnt (dom ?M) l j \<le> cnt (dom M) l j"
      unfolding cnt_def using diff(2) by (intro card_mono) auto
    then have "needed D n (dom M) l j"
      using l(4) by (auto simp: needed_def)
    then have "(?T ! l) j \<noteq> None"
      using inv l T(1) by (simp add: tree_inv_def have_nodes_def)
    then show "(sd_tree ?s2 ! l) j \<noteq> None"
      using walk_done_keeps [OF T'(2) l(1,2) _ l(4)] l(1) by simp
  qed
  ultimately show ?thesis
    using inv nd(3) T0(2) by (auto simp: tree_inv_def erase_node_def)
qed

lemma look_at:
  assumes inv: "tree_inv D n M s" and k: "M k = Some m"
  shows "\<exists>nd. node_at 0 k s = Inr nd \<and> isMarked nd = m \<and>
    getSumsLeavesToRoot k (put_node 0 k (nd\<lparr>isMarked := b\<rparr>) s) = Inr (of_nat (card {m \<in> dom M. k < m})) \<and>
    tree_inv D n (M(k \<mapsto> b)) (put_node 0 k (nd\<lparr>isMarked := b\<rparr>) s)"
proof -
  have shape: "shape_ok D n M s"
    using inv by (simp add: tree_inv_def)
  obtain nd where nd: "(sd_tree s ! 0) k = Some nd" "node_at 0 k s = Inr nd" "isMarked nd = m" "leaf_ok k nd"
    using leaf_at [OF shape k] by blast
  let ?s = "put_node 0 k (nd\<lparr>isMarked := b\<rparr>) s"
  have dom: "dom (M(k \<mapsto> b)) = dom M"
    using k by auto
  have len: "length (sd_tree ?s) = Suc D" and T: "\<forall>l > 0. sd_tree ?s ! l = sd_tree s ! l"
    "sd_tree ?s ! 0 = (sd_tree s ! 0)(k \<mapsto> nd\<lparr>isMarked := b\<rparr>)"
    using shape by (simp_all add: put_node_def shape_ok_def)
  have lay: "layers_ok D n (dom M) 0 (sd_tree ?s)" "path_ok D k 0 (sd_tree ?s)"
    using shape live_path [OF inv, of k] k T(1) by (auto simp: shape_ok_def layers_ok_def path_ok_def)
  have D: "0 < D" "k < 2 ^ D" "\<And>m. m \<in> dom M \<Longrightarrow> m < 2 ^ D"
    using inv k by (auto simp: tree_inv_def shape_ok_def subset_iff dest: less_le_trans)
  have "getSum (k div 2) (even k) 0 0 ?s = Inr (card {m \<in> dom M. k < m})"
    using getSum_spec [OF len D(1) lay finite_live [OF shape] D(2,3), of 0] by (simp add: right_of_0 power_Suc)
  moreover have "node_at 0 k ?s = Inr (nd\<lparr>isMarked := b\<rparr>)"
    using len T(2) by (simp add: node_at_def)
  moreover have "leaves_ok (M(k \<mapsto> b)) (sd_tree ?s)"
    using shape nd(4) T(2) by (auto simp: shape_ok_def leaves_ok_def leaf_ok_def)
  then have "tree_inv D n (M(k \<mapsto> b)) ?s"
    using inv lay(1) len T(1) unfolding tree_inv_def shape_ok_def have_nodes_def dom by (simp add: put_node_def)
  ultimately show ?thesis
    using nd(2-4) by (auto simp: getSumsLeavesToRoot_def leaf_ok_def)
qed

section \<open>Growing the tree\<close>

text \<open>Layers above \<open>i\<close> are ready for leaf \<open>n\<close>, the others as they were for the leaf before it.\<close>

definition growing :: "nat \<Rightarrow> nat \<Rightarrow> nat \<Rightarrow> (nat \<rightharpoonup> bool) \<Rightarrow> StackDistCalc \<Rightarrow> bool" where
  "growing i D n M s \<longleftrightarrow> shape_ok D n M s \<and> have_nodes D n (dom M) D s \<and> i < D \<and>
     (\<forall>l. i < l \<longrightarrow> l \<le> D \<longrightarrow> nextIndex s ! l = n div 2 ^ l + 1) \<and>
     (\<forall>l. 0 < l \<longrightarrow> l \<le> i \<longrightarrow> nextIndex s ! l = (n - 1) div 2 ^ l + 1)"

lemma pred_div: "0 < n \<Longrightarrow> (n - 1) div 2 ^ l + 1 = (if 2 ^ l dvd n then n div 2 ^ l else n div 2 ^ l + (1 :: nat))"
proof -
  assume "0 < n"
  then have "n div 2 ^ l = (if 2 ^ l dvd n then Suc ((n - 1) div 2 ^ l) else (n - 1) div 2 ^ l)"
    using div_Suc [of "n - 1" "2 ^ l"] by (simp add: dvd_eq_mod_eq_0)
  then show ?thesis
    by auto
qed

lemma last_node_ready:
  assumes "growing i D n M s" "i < l" "l \<le> D"
  shows "last_node l s = Some (n div 2 ^ l)"
proof -
  have "n < (n div 2 ^ l + 1) * 2 ^ l"
    using dividend_less_div_times [of "2 ^ l" n] by simp
  then have "needed D n (dom M) l (n div 2 ^ l)"
    by (simp add: needed_def)
  then show ?thesis
    using assms by (auto simp: growing_def have_nodes_def last_node_def Let_def)
qed

lemma new_inode_ok:
  assumes "growing i D n M s" "0 < i" "2 ^ i dvd n"
  shows "node_ok D n (dom M) (i - 1) (n div 2 ^ i)
    (SDNode_new\<lparr>isLeftNode := even (n div 2 ^ i), parent := last_node (i + 1) s, nodeIndex := n div 2 ^ i\<rparr>)"
proof -
  let ?k = "n div 2 ^ i"
  have i: "i < D" "Suc (i - 1) = i" "\<And>m. m \<in> dom M \<Longrightarrow> m < n"
    using assms(1,2) by (auto simp: growing_def shape_ok_def)
  have "2 * ?k * 2 ^ (i - 1) = ?k * 2 ^ i"
    using power_Suc [of "2 :: nat" "i - 1"] unfolding i(2) by simp
  then have "2 * ?k * 2 ^ (i - 1) = n"
    using assms(3) by simp
  then have "n \<le> 2 * ?k * 2 ^ (i - 1)" "n \<le> (2 * ?k + 1) * 2 ^ (i - 1)"
    by (simp_all add: algebra_simps)
  then have "cnt (dom M) (i - 1) (2 * ?k) = 0" "cnt (dom M) (i - 1) (2 * ?k + 1) = 0"
    using cnt_outside [of "dom M" n] i(3) by blast+
  moreover have "last_node (i + 1) s = Some (?k div 2)"
    using last_node_ready [OF assms(1), of "Suc i"] i(1) by (simp add: div_Suc_pow)
  ultimately show ?thesis
    using i(1,2) by (simp add: node_ok_def SDNode_new_def)
qed

lemma layers_ok_put:
  assumes "layers_ok D n L 0 T" "length T = Suc D" "i < D" "node_ok D n L i j nd"
  shows "layers_ok D n L 0 (T[Suc i := (T ! Suc i)(j \<mapsto> nd)])"
  using assms by (auto simp: layers_ok_def nth_list_update split: if_splits)

lemma add_inode_grows:
  assumes "growing i D n M s" "0 < i" "0 < n" "2 ^ i dvd n"
  shows "growing (i - 1) D n M (add_inode i s)"
proof -
  have g: "shape_ok D n M s" "have_nodes D n (dom M) D s" "i < D" "nextIndex s ! i = n div 2 ^ i"
      "\<forall>l. i < l \<longrightarrow> l \<le> D \<longrightarrow> nextIndex s ! l = n div 2 ^ l + 1"
      "\<forall>l. 0 < l \<longrightarrow> l < i \<longrightarrow> nextIndex s ! l = (n - 1) div 2 ^ l + 1"
    using assms pred_div [OF assms(3), of i] by (auto simp: growing_def)
  define nd where "nd = SDNode_new\<lparr>isLeftNode := even (n div 2 ^ i), parent := last_node (i + 1) s, nodeIndex := n div 2 ^ i\<rparr>"
  have add: "add_inode i s = s\<lparr>nextIndex := (nextIndex s)[i := n div 2 ^ i + 1],
      sd_tree := (sd_tree s)[i := (sd_tree s ! i)(n div 2 ^ i \<mapsto> nd)]\<rparr>"
    using g(4) by (simp add: add_inode_def put_node_def Let_def nd_def even_iff_mod_2_eq_zero)
  have "layers_ok D n (dom M) 0 (sd_tree (add_inode i s))"
    using layers_ok_put [of D n "dom M" "sd_tree s" "i - 1"] new_inode_ok [OF assms(1,2,4)] g(1,3) assms(2)
    by (simp add: add shape_ok_def nd_def)
  then have "shape_ok D n M (add_inode i s)"
    using g(1,3) assms(2) by (simp add: add shape_ok_def leaves_ok_def)
  moreover have "have_nodes D n (dom M) D (add_inode i s)"
    using g(1-4) assms(2) by (auto simp: add have_nodes_def shape_ok_def nth_list_update less_Suc_eq split: if_splits)
  moreover have "nextIndex (add_inode i s) ! l = n div 2 ^ l + 1" if "i - 1 < l" "l \<le> D" for l
    using that g(1,3,5) assms(2) by (cases "l = i") (auto simp: add shape_ok_def)
  ultimately show ?thesis
    using g(3,6) assms(2) by (auto simp: growing_def add)
qed

lemma skip_inode_grows:
  assumes "growing i D n M s" "0 < i" "0 < n" "\<not> 2 ^ i dvd n"
  shows "growing (i - 1) D n M s"
proof -
  have "nextIndex s ! l = n div 2 ^ l + 1" if "i - 1 < l" "l \<le> D" for l
    using that assms pred_div [OF assms(3), of i] by (cases "l = i") (auto simp: growing_def)
  then show ?thesis
    using assms(1,2) by (auto simp: growing_def)
qed

text \<open>What the growth leaves alone.\<close>

definition same_rest :: "StackDistCalc \<Rightarrow> StackDistCalc \<Rightarrow> bool" where
  "same_rest s s' \<longleftrightarrow> sd_index s' = sd_index s \<and> aiMap s' = aiMap s \<and> sd_stack s' = sd_stack s \<and> verifyStack s' = verifyStack s"

lemma same_rest_add_inode: "same_rest s (add_inode i s)"
  by (simp add: same_rest_def add_inode_def put_node_def Let_def)

lemma same_rest_trans: "same_rest s s' \<Longrightarrow> same_rest s' s'' \<Longrightarrow> same_rest s s''"
  by (simp add: same_rest_def)

lemma new_chain_grows:
  "growing i D n M s \<Longrightarrow> 0 < n \<Longrightarrow> 2 ^ i dvd n \<Longrightarrow> growing 0 D n M (new_chain i s) \<and> same_rest s (new_chain i s)"
proof (induction i arbitrary: s)
  case (Suc i)
  then have "growing i D n M (add_inode (Suc i) s)" "2 ^ i dvd n"
    using add_inode_grows [of "Suc i" D n M s] power_le_dvd [of 2 "Suc i" n i] by auto
  then show ?case
    using Suc.IH [of "add_inode (Suc i) s"] Suc.prems(2) same_rest_trans [OF same_rest_add_inode] by auto
qed (simp add: same_rest_def)

lemma new_inodes_grows:
  "growing i D n M s \<Longrightarrow> 0 < n \<Longrightarrow> i < 31 \<Longrightarrow> \<exists>s'. new_inodes i s = Inr s' \<and> growing 0 D n M s' \<and> same_rest s s'"
proof (induction i arbitrary: s)
  case (Suc i)
  let ?s = "if sd_index s mod 2 ^ Suc i = 0 then add_inode (Suc i) s else s"
  have n: "sd_index s = n"
    using Suc.prems(1) by (simp add: growing_def shape_ok_def)
  have "growing i D n M ?s"
    using add_inode_grows [of "Suc i" D n M s] skip_inode_grows [of "Suc i" D n M s] Suc.prems(1,2) n
    by (auto simp: dvd_eq_mod_eq_0)
  moreover have "same_rest s ?s"
    using same_rest_add_inode by (simp add: same_rest_def)
  ultimately show ?case
    using Suc.IH [of ?s] Suc.prems(2,3) same_rest_trans [of s ?s] by auto
qed (simp add: same_rest_def)

lemma new_root_grows:
  assumes inv: "tree_inv D n M s" and n: "n = 2 ^ D"
  shows "\<exists>s'. new_root s = Inr s' \<and> growing D (Suc D) n M s' \<and> same_rest s s' \<and> length (sd_tree s') = Suc (Suc D)"
proof -
  have shape: "shape_ok D n M s" "0 < D" "length (sd_tree s) = Suc D" "length (nextIndex s) = Suc D"
    using inv by (simp_all add: tree_inv_def shape_ok_def)
  have "0 < nextIndex s ! D"
    using inv shape(2) by (simp add: tree_inv_def)
  then obtain old where old: "(sd_tree s ! D) 0 = Some old"
    using inv shape(2) by (force simp: tree_inv_def have_nodes_def needed_def)
  have ok: "node_ok D n (dom M) (D - 1) 0 old"
    using shape(1,2) old unfolding shape_ok_def layers_ok_def by (metis Suc_pred' diff_less le0 zero_less_one)
  define root where "root = SDNode_new\<lparr>sumLeft := sumRight old + sumLeft old, discardLeft := (discardLeft old \<and> discardRight old)\<rparr>"
  define s' where "s' = s\<lparr>sd_tree := (sd_tree s @ [[0 \<mapsto> root]])[D := (sd_tree s ! D)(0 \<mapsto> old\<lparr>parent := Some 0\<rparr>)],
    nextIndex := nextIndex s @ [1]\<rparr>"
  have run: "new_root s = Inr s'"
    using shape(3) old by (simp add: new_root_def node_at_def put_node_def s'_def root_def Let_def nth_append)
  have live: "\<And>m. m \<in> dom M \<Longrightarrow> m < 1 * 2 ^ D"
    using shape(1) n by (auto simp: shape_ok_def)
  have "cnt (dom M) D 0 = cnt (dom M) (D - 1) 0 + cnt (dom M) (D - 1) 1" "2 * 2 ^ (D - 1) = (2 ^ D :: nat)"
    using cnt_Suc [OF finite_live [OF shape(1)], of "D - 1" 0] power_Suc [of "2 :: nat" "D - 1"] shape(2) by simp_all
  moreover have "cnt (dom M) D 1 = 0"
    using cnt_outside [of "dom M" "1 * 2 ^ D" 1 D] live by simp
  ultimately have root: "node_ok (Suc D) n (dom M) D 0 root"
    using ok n by (auto simp: node_ok_def root_def SDNode_new_def)
  have T: "sd_tree s' ! Suc D = [0 \<mapsto> root]" "sd_tree s' ! D = [0 \<mapsto> old\<lparr>parent := Some 0\<rparr>]"
      "\<And>l. l < D \<Longrightarrow> sd_tree s' ! l = sd_tree s ! l"
    using shape(1,3) by (auto simp: s'_def nth_append nth_list_update shape_ok_def fun_eq_iff)
  have "layers_ok (Suc D) n (dom M) 0 (sd_tree s')"
    unfolding layers_ok_def
  proof (intro allI impI)
    fix l j nd
    assume l: "l < Suc D" and nd: "(sd_tree s' ! Suc l) j = Some nd"
    consider "l = D" | "Suc l = D" | "Suc l < D"
      using l by linarith
    then show "node_ok (Suc D) n (dom M) l j nd"
    proof cases
      case 3
      then have "node_ok D n (dom M) l j nd"
        using nd T(3) shape(1) by (simp add: shape_ok_def layers_ok_def)
      then show ?thesis
        using 3 by (simp add: node_ok_def)
    qed (use nd T root ok in \<open>auto simp: node_ok_def split: if_splits\<close>)
  qed
  then have "shape_ok (Suc D) n M s'"
    using shape T(1,3) by (simp add: shape_ok_def leaves_ok_def) (simp add: s'_def nth_append)
  moreover have "have_nodes (Suc D) n (dom M) (Suc D) s'"
    unfolding have_nodes_def
  proof (intro allI impI)
    fix l j
    assume l: "0 < l" "l \<le> Suc D" "j < nextIndex s' ! l" "needed (Suc D) n (dom M) l j"
    have one: "nextIndex s ! D = 1"
      using inv shape(2) n by (simp add: tree_inv_def)
    consider "l = Suc D" | "l = D" | "l < D"
      using l(2) by linarith
    then show "(sd_tree s' ! l) j \<noteq> None"
    proof cases
      case 3
      then have "needed D n (dom M) l j" "j < nextIndex s ! l"
        using l(3,4) shape(4) by (auto simp: needed_def s'_def nth_append)
      then show ?thesis
        using 3 l(1) inv T(3) by (simp add: tree_inv_def have_nodes_def)
    qed (use l(3) T shape(4) one in \<open>auto simp: s'_def nth_append\<close>)
  qed
  moreover have "nextIndex s' ! l = (n - 1) div 2 ^ l + 1" if "0 < l" "l \<le> D" for l
    using that inv shape(4) by (simp add: tree_inv_def s'_def nth_append)
  moreover have "nextIndex s' ! Suc D = n div 2 ^ Suc D + 1"
    using shape(4) n by (simp add: s'_def nth_append power_Suc)
  ultimately have "growing D (Suc D) n M s'"
    by (auto simp: growing_def le_Suc_eq)
  then show ?thesis
    using run shape(3) by (auto simp: same_rest_def s'_def)
qed

lemma isPowerOf2_of_nat: "n < 2 ^ 64 \<Longrightarrow> isPowerOf2 (of_nat n) \<longleftrightarrow> (\<exists>k. n = 2 ^ k)"
proof
  assume n: "n < 2 ^ 64" and "isPowerOf2 (of_nat n)"
  then obtain k where "k < 64" "(of_nat n :: 64 word) = 2 ^ k"
    by (auto simp: isPowerOf2_iff)
  then have "unat (of_nat n :: 64 word) = 2 ^ k"
    using unat_power_lower_64 by simp
  then show "\<exists>k. n = 2 ^ k"
    using n by (auto simp: unat_of_nat)
next
  assume n: "n < 2 ^ 64" and "\<exists>k. n = 2 ^ k"
  then obtain k where k: "n = 2 ^ k"
    by blast
  then have "k < 64"
    using n power_less_imp_less_exp [of "2 :: nat" k 64] by simp
  then show "isPowerOf2 (of_nat n)"
    using isPowerOf2_power k by simp
qed

text \<open>A new layer is due exactly when the tree is full.\<close>

lemma full_tree:
  assumes "n \<le> (2 ^ D :: nat)" "D = 1 \<or> 2 ^ (D - 1) < n" "0 < D" "even n"
  shows "(\<exists>k. n = 2 ^ k) \<longleftrightarrow> n = 2 ^ D"
proof
  assume "\<exists>k. n = 2 ^ k"
  then obtain k where k: "n = 2 ^ k" ..
  then have "k \<le> D" "k \<noteq> 0"
    using assms(1,4) by (auto simp: power_increasing_iff)
  moreover have "D - 1 < k" if "D \<noteq> 1"
    using assms(2) that k by (simp add: power_strict_increasing_iff)
  ultimately have "k = D"
    using assms(3) by (cases "D = 1") auto
  then show "n = 2 ^ D"
    using k by simp
qed blast

lemma updateTree_grows:
  assumes inv: "tree_inv D n M s" and n: "n < 2 ^ 31" "even n"
  shows "\<exists>D' s'. updateTree s = Inr s' \<and> growing 0 D' n M s' \<and> same_rest s s' \<and> n < 2 ^ D' \<and> (D' = 1 \<or> 2 ^ (D' - 1) \<le> n)"
proof -
  have D: "n \<le> 2 ^ D" "D = 1 \<or> 2 ^ (D - 1) < n" "0 < D" "sd_index s = n" "length (sd_tree s) = Suc D"
    using inv by (simp_all add: tree_inv_def shape_ok_def)
  have pow: "isPowerOf2 (of_nat n) \<longleftrightarrow> n = 2 ^ D"
    using isPowerOf2_of_nat [of n] full_tree [OF D(1-3) n(2)] n(1) by simp
  show ?thesis
  proof (cases "n = 2 ^ D")
    case True
    then obtain s1 where s1: "new_root s = Inr s1" "growing D (Suc D) n M s1" "same_rest s s1" "length (sd_tree s1) = Suc (Suc D)"
      using new_root_grows [OF inv] by auto
    then have "growing 0 (Suc D) n M (new_chain D s1)" "same_rest s (new_chain D s1)"
      using new_chain_grows [OF s1(2)] True same_rest_trans [OF s1(3)] by auto
    moreover have "updateTree s = Inr (new_chain D s1)"
      using s1(1,4) pow True D(4) by (simp add: updateTree_def)
    ultimately show ?thesis
      using True by (intro exI [of _ "Suc D"] exI [of _ "new_chain D s1"]) (simp add: power_Suc)
  next
    case False
    then have less: "n < 2 ^ D" and run: "updateTree s = new_inodes (D - 1) s"
      using D(1,4,5) pow by (simp_all add: updateTree_def)
    have g: "growing (D - 1) D n M s"
    proof -
      have "nextIndex s ! l = n div 2 ^ l + 1" if "D - 1 < l" "l \<le> D" for l
      proof -
        have "l = D" "nextIndex s ! D = (n - 1) div 2 ^ D + 1"
          using that inv D(3) by (auto simp: tree_inv_def)
        then show ?thesis
          using less by simp
      qed
      then show ?thesis
        using inv D(3) unfolding tree_inv_def growing_def by (meson diff_le_self diff_less le_trans zero_less_one)
    qed
    have "D - 1 < 31"
      using D(2) n(1) power_less_imp_less_exp [of "2 :: nat" "D - 1" 31] by (cases "D = 1") auto
    moreover have "n = 0 \<Longrightarrow> D - 1 = 0"
      using D(2) by auto
    ultimately obtain s' where "new_inodes (D - 1) s = Inr s'" "growing 0 D n M s'" "same_rest s s'"
      using new_inodes_grows [OF g] g by (cases "n = 0") (auto simp: same_rest_def)
    then show ?thesis
      using run less D(2) by (auto intro!: exI [of _ D])
  qed
qed

section \<open>Adding a leaf\<close>

text \<open>After an odd number of leaves the nodes for the next one are there already.\<close>

lemma odd_grows:
  assumes inv: "tree_inv D n M s" and n: "odd n"
  shows "growing 0 D n M s \<and> n < 2 ^ D \<and> (D = 1 \<or> 2 ^ (D - 1) \<le> n)"
proof -
  have D: "n \<le> 2 ^ D" "0 < D" "0 < n" "D = 1 \<or> 2 ^ (D - 1) < n"
    using inv n by (auto simp: tree_inv_def shape_ok_def odd_pos)
  have nd: "\<not> 2 ^ l dvd n" if "0 < l" for l
    using n that dvd_trans [of 2 "2 ^ l" n] by (auto simp: dvd_power)
  have "n \<noteq> 2 ^ D"
    using nd [OF D(2)] by auto
  moreover have "nextIndex s ! l = n div 2 ^ l + 1" if "0 < l" "l \<le> D" for l
    using that inv nd [OF that(1)] pred_div [OF D(3), of l] by (simp add: tree_inv_def)
  ultimately show ?thesis
    using inv D by (auto simp: growing_def tree_inv_def)
qed

lemma depth_bound: "D = 1 \<or> 2 ^ (D - 1) \<le> n \<Longrightarrow> n < 2 ^ 31 \<Longrightarrow> D \<le> 31" for n :: nat
  using power_less_imp_less_exp [of "2 :: nat" "D - 1" 31] by (cases "D = 1") auto

lemma grown_path: "growing 0 D n M s \<Longrightarrow> path_ok D n 0 (sd_tree s)"
  using last_node_ready [of 0 D n M s] unfolding path_ok_def last_node_def Let_def
  by (metis not_None_eq option.inject)

lemma put_leaf:
  assumes g: "growing 0 D n M s" and n: "n < 2 ^ D" "D = 1 \<or> 2 ^ (D - 1) \<le> n" "n < 2 ^ 31"
    and leaf: "leaf = SDNode_new\<lparr>nodeIndex := n, isLeftNode := even n, parent := last_node 1 s\<rparr>"
    and s0: "s0 = put_node 0 n leaf (s\<lparr>nextIndex := (nextIndex s)[0 := n + 1]\<rparr>)"
  shows "\<exists>T'. updateSumsLeavesToRoot n True s0 = Inr (SD_Infinity, s0\<lparr>sd_tree := T'\<rparr>) \<and>
    tree_inv D (n + 1) (M(n \<mapsto> False)) (s0\<lparr>sd_tree := T', sd_index := n + 1\<rparr>)"
proof -
  have shape: "shape_ok D n M s" "0 < D" "length (sd_tree s) = Suc D" "\<And>m. m \<in> dom M \<Longrightarrow> m < n"
    using g by (auto simp: growing_def shape_ok_def)
  let ?M = "M(n \<mapsto> False)" and ?s = "put_node 0 n (leaf\<lparr>sumLeft := 1\<rparr>) s0"
  let ?T = "sd_tree ?s"
  have par: "last_node 1 s = Some (n div 2)"
    using last_node_ready [OF g, of 1] shape(2) by simp
  have T: "length ?T = Suc D" "\<forall>l > 0. ?T ! l = sd_tree s ! l" "?T ! 0 = (sd_tree s ! 0)(n \<mapsto> leaf\<lparr>sumLeft := 1\<rparr>)"
    using shape(3) by (simp_all add: s0 put_node_def)
  have lay: "layers_ok D n (dom M) 0 ?T" "path_ok D n 0 ?T"
    using shape(1) grown_path [OF g] T(2) by (auto simp: shape_ok_def layers_ok_def path_ok_def)
  have L: "differ_at n n (dom M) (dom ?M)" "finite (dom M)" "finite (dom ?M)" "\<And>m. m \<in> dom M \<Longrightarrow> m < 2 ^ D"
    using finite_live [OF shape(1)] shape(4) n(1) by (auto simp: differ_at_def dest: less_trans)
  have "cnt (dom ?M) 0 n = 1"
    by (simp add: cnt_0)
  then obtain T' where T': "updateSum (n div 2) (even n) 1 0 0 False ?s = Inr (right_of (dom M) n 0, ?s\<lparr>sd_tree := T'\<rparr>)"
      "walk_done D n (dom ?M) n 0 ?T T'"
    using updateSum_spec [OF T(1) shape(2) lay L(1-3) n(1) L(4), of False 0] depth_bound [OF n(2,3)]
    by (auto simp: power_Suc)
  have at: "node_at 0 n s0 = Inr leaf"
    using shape(3) by (simp add: node_at_def s0 put_node_def)
  have run: "updateSumsLeavesToRoot n True s0 = Inr (SD_Infinity, s0\<lparr>sd_tree := T'\<rparr>)"
    using at T'(1) par leaf by (simp add: updateSumsLeavesToRoot_def put_node_def)
  let ?s' = "s0\<lparr>sd_tree := T', sd_index := n + 1\<rparr>"
  have T0: "T' ! 0 = ?T ! 0" "length T' = Suc D"
    using T'(2) by (simp_all add: walk_done_def)
  have ni: "nextIndex s0 = (nextIndex s)[0 := n + 1]"
    by (simp add: s0 put_node_def)
  have "shape_ok D (n + 1) ?M ?s'"
  proof (rule shape_walk [OF shape(1) T'(2) T(2)])
    show "leaves_ok ?M (T'[0 := T' ! 0])"
      using shape(1) T(3) T0 leaf par by (auto simp: shape_ok_def leaves_ok_def leaf_ok_def SDNode_new_def)
  qed (use shape(1) ni in \<open>auto simp: shape_ok_def\<close>)
  moreover have next': "nextIndex ?s' ! l = n div 2 ^ l + 1" if "0 < l" "l \<le> D" for l
    using that g ni by (simp add: growing_def)
  moreover have "have_nodes D (n + 1) (dom ?M) D ?s'"
    unfolding have_nodes_def
  proof (intro allI impI)
    fix l j
    assume l: "0 < l" "l \<le> D" "j < nextIndex ?s' ! l" "needed D (n + 1) (dom ?M) l j"
    have j: "j < nextIndex s ! l"
      using l(1,2,3) next' g by (simp add: growing_def)
    show "(sd_tree ?s' ! l) j \<noteq> None"
    proof (cases "j = n div 2 ^ l")
      case True
      then have "needed D n (dom ?M) l j"
        using dividend_less_div_times [of "2 ^ l" n] by (simp add: needed_def)
      then show ?thesis
        using walk_done_keeps [OF T'(2) l(1,2)] True grown_path [OF g] T(2) l(1,2) by (auto simp: path_ok_def)
    next
      case False
      then have "needed D n (dom M) l j"
        using l(4) cnt_differ [OF L(1) False] by (auto simp: needed_def)
      then have "(?T ! l) j \<noteq> None"
        using g l(1,2) j T(2) by (simp add: growing_def have_nodes_def)
      then show ?thesis
        using T'(2) l(1,2) False unfolding walk_done_def by auto
    qed
  qed
  ultimately have "tree_inv D (n + 1) ?M ?s'"
    using n(1,2) by (auto simp: tree_inv_def)
  then show ?thesis
    using run by blast
qed

lemma add_leaf_spec:
  assumes inv: "tree_inv D n M s" and n: "n < 2 ^ 31"
  shows "\<exists>D' s'. add_leaf s = Inr s' \<and> tree_inv D' (n + 1) (M(n \<mapsto> False)) (s'\<lparr>sd_index := n + 1\<rparr>) \<and> same_rest s s'"
proof -
  have idx: "sd_index s = n"
    using inv by (simp add: tree_inv_def shape_ok_def)
  obtain D' s1 where s1: "(if sd_index s mod 2 = 0 then updateTree s else Inr s) = Inr s1" "growing 0 D' n M s1" "same_rest s s1"
      "n < 2 ^ D'" "D' = 1 \<or> 2 ^ (D' - 1) \<le> n"
    using updateTree_grows [OF inv n] odd_grows [OF inv] idx
    by (cases "even n") (auto simp: same_rest_def even_iff_mod_2_eq_zero odd_iff_mod_2_eq_one)
  then have i1: "sd_index s1 = n" "nextIndex s1 ! 0 = n"
    using idx by (simp_all add: same_rest_def growing_def shape_ok_def)
  define leaf where "leaf = SDNode_new\<lparr>nodeIndex := n, isLeftNode := even n, parent := last_node 1 s1\<rparr>"
  define s0 where "s0 = put_node 0 n leaf (s1\<lparr>nextIndex := (nextIndex s1)[0 := n + 1]\<rparr>)"
  obtain T' where T': "updateSumsLeavesToRoot n True s0 = Inr (SD_Infinity, s0\<lparr>sd_tree := T'\<rparr>)"
      "tree_inv D' (n + 1) (M(n \<mapsto> False)) (s0\<lparr>sd_tree := T', sd_index := n + 1\<rparr>)"
    using put_leaf [OF s1(2,4,5) n leaf_def s0_def] by blast
  have "add_leaf s = Inr (s0\<lparr>sd_tree := T'\<rparr>)"
    unfolding add_leaf_def s1(1)
    using T'(1) i1 by (simp add: Let_def s0_def leaf_def even_iff_mod_2_eq_zero)
  moreover have "same_rest s (s0\<lparr>sd_tree := T'\<rparr>)"
    using s1(3) by (simp add: same_rest_def s0_def put_node_def)
  ultimately show ?thesis
    using T'(2) by blast
qed

section \<open>The sanity check\<close>

lemma sanity_climb_spec:
  assumes "length (sd_tree s) = Suc D" "layers_ok D n L 0 (sd_tree s)" "path_ok D k 0 (sd_tree s)"
  shows "0 < l \<Longrightarrow> l + i \<le> D \<Longrightarrow> sanity_climb i l (Some (k div 2 ^ l)) s = Inr (l + i, Some (k div 2 ^ (l + i)))"
proof (induction i arbitrary: l)
  case (Suc i)
  have "l \<le> D"
    using Suc.prems(2) by simp
  then obtain nd where nd: "(sd_tree s ! l) (k div 2 ^ l) = Some nd"
    using assms(3) Suc.prems(1) by (auto simp: path_ok_def)
  have "node_ok D n L (l - 1) (k div 2 ^ l) nd"
    using assms(2) nd Suc.prems unfolding layers_ok_def by (metis Suc_pred' add_Suc_right add_leD1 le0 less_le_trans lessI)
  then have "parent nd = Some (k div 2 ^ Suc l)"
    using Suc.prems by (simp add: node_ok_def div_Suc_pow)
  then show ?case
    using nd node_at_Some [OF assms(1), of l] Suc.prems Suc.IH [of "Suc l"] by simp
qed simp

lemma sanity_ok:
  assumes "tree_inv D n M s" "M k = Some m"
  shows "sanityCheckTree k s = Inr ()"
proof -
  have T: "length (sd_tree s) = Suc D" "layers_ok D n (dom M) 0 (sd_tree s)" "path_ok D k 0 (sd_tree s)" "0 < D"
    using assms live_path [OF assms(1)] by (auto simp: tree_inv_def shape_ok_def)
  obtain leaf where leaf: "node_at 0 k s = Inr leaf" "leaf_ok k leaf"
    using leaf_at [of D n M s k m] assms by (auto simp: tree_inv_def)
  obtain root where root: "(sd_tree s ! D) (k div 2 ^ D) = Some root"
    using T(3,4) by (auto simp: path_ok_def)
  have "node_ok D n (dom M) (D - 1) (k div 2 ^ D) root"
    using T(2,4) root unfolding layers_ok_def by (metis Suc_pred' diff_less le0 zero_less_one)
  then have "parent root = None"
    using T(4) by (simp add: node_ok_def)
  moreover have "sanity_climb (D - 1) 1 (Some (k div 2)) s = Inr (D, Some (k div 2 ^ D))"
    using sanity_climb_spec [OF T(1-3), of 1 "D - 1"] T(4) by simp
  ultimately show ?thesis
    using leaf root T(1) node_at_Some [OF T(1), of D] by (simp add: sanityCheckTree_def leaf_ok_def)
qed

lemma node_at_index: "node_at l j (s\<lparr>sd_index := x\<rparr>) = node_at l j s"
  by (simp add: node_at_def)

lemma sanity_index: "sanityCheckTree k (s\<lparr>sd_index := x\<rparr>) = sanityCheckTree k s"
proof -
  have "sanity_climb i l p (s\<lparr>sd_index := x\<rparr>) = sanity_climb i l p s" for i l p
    by (induction i arbitrary: l p) (auto simp: node_at_index split: option.splits)
  then show ?thesis
    by (simp add: sanityCheckTree_def node_at_index cong: option.case_cong)
qed

section \<open>The list of last uses\<close>

text \<open>The entries carry the address, the mark and the number of the leaf, the latest first.\<close>

type_synonym uses = "(Addr \<times> bool \<times> nat) list"

definition marks :: "uses \<Rightarrow> nat \<rightharpoonup> bool" where
  "marks X = map_of (map (\<lambda>(a, m, k). (k, m)) X)"

definition last_use :: "uses \<Rightarrow> Addr \<rightharpoonup> nat" where
  "last_use X = map_of (map (\<lambda>(a, m, k). (a, k)) X)"

definition uses_ok :: "uses \<Rightarrow> bool" where
  "uses_ok X \<longleftrightarrow> distinct (map fst X) \<and> sorted_wrt (\<lambda>x y. snd (snd y) < snd (snd x)) X"

definition others :: "Addr \<Rightarrow> uses \<Rightarrow> uses" where
  "others a X = filter (\<lambda>x. fst x \<noteq> a) X"

lemma uses_split:
  assumes "uses_ok X" "last_use X a = Some k"
  obtains xs m ys where "X = xs @ (a, m, k) # ys" "others a X = xs @ ys" "stack_scan a (map fst X) = Some (length xs)"
    "\<forall>x \<in> set xs. k < snd (snd x)" "\<forall>y \<in> set ys. snd (snd y) < k"
proof -
  obtain m where "(a, m, k) \<in> set X"
    using map_of_SomeD [OF assms(2) [unfolded last_use_def]] by auto
  then obtain xs ys where X: "X = xs @ (a, m, k) # ys"
    by (meson split_list)
  have notin: "a \<notin> fst ` set xs" "a \<notin> fst ` set ys"
    using assms(1) X by (auto simp: uses_ok_def)
  then have "filter (\<lambda>x. fst x \<noteq> a) xs = xs" "filter (\<lambda>x. fst x \<noteq> a) ys = ys"
    by (auto simp: filter_id_conv)
  moreover have "stack_scan a (map fst xs @ a # zs) = Some (length xs)" for zs
    using notin(1) by (induction xs) auto
  ultimately show ?thesis
    using that [OF X] assms(1) X by (auto simp: others_def uses_ok_def sorted_wrt_append)
qed

lemma scan_None: "stack_scan a xs = None \<longleftrightarrow> a \<notin> set xs"
  by (induction xs) auto

lemma last_use_None: "last_use X a = None \<longleftrightarrow> a \<notin> set (map fst X)"
  by (force simp: last_use_def map_of_eq_None_iff)

lemma others_None: "last_use X a = None \<Longrightarrow> others a X = X"
  by (auto simp: last_use_None others_def filter_id_conv)

lemma dom_marks: "dom (marks X) = (\<lambda>x. snd (snd x)) ` set X"
  by (force simp: marks_def dom_map_of_conv_image_fst image_image split_def)

lemma marks_split:
  assumes "uses_ok X" "last_use X a = Some k"
  shows "\<exists>m. marks X k = Some m \<and> map_of (map (\<lambda>(a, m, k). (a, m)) X) a = Some m \<and> marks (others a X) = (marks X)(k := None) \<and>
    last_use (others a X) = (last_use X)(a := None) \<and>
    (\<exists>d. stack_scan a (map fst X) = Some d \<and> card {i \<in> dom (marks X). k < i} = d)"
  using assms
proof (rule uses_split)
  fix xs m ys
  assume X: "X = xs @ (a, m, k) # ys" "others a X = xs @ ys" "stack_scan a (map fst X) = Some (length xs)"
    and o: "\<forall>x \<in> set xs. k < snd (snd x)" "\<forall>y \<in> set ys. snd (snd y) < k"
  let ?k = "\<lambda>x. snd (snd (x :: Addr \<times> bool \<times> nat))"
  have "k \<notin> dom (marks xs)" "k \<notin> dom (marks ys)"
    using o unfolding dom_marks by auto
  then have no: "marks xs k = None" "marks ys k = None"
    by (simp_all only: domIff not_not)
  have app: "marks (Y @ Z) i = (case marks Y i of None \<Rightarrow> marks Z i | Some b \<Rightarrow> Some b)" for Y Z i
    by (simp add: marks_def map_add_def split: option.splits)
  have M: "marks X k = Some m" "marks (others a X) = (marks X)(k := None)"
    using no unfolding X(2) unfolding X(1) fun_eq_iff app by (auto simp: marks_def split: option.splits)
  have dist: "a \<notin> fst ` set xs" "a \<notin> fst ` set ys"
    using assms(1) X(1) by (auto simp: uses_ok_def)
  have "{i \<in> dom (marks X). k < i} = ?k ` set xs"
    using o unfolding dom_marks X(1) by auto
  moreover have "sorted_wrt (\<lambda>x y. ?k y < ?k x) xs"
    using assms(1) X(1) by (simp add: uses_ok_def sorted_wrt_append)
  then have "distinct (map ?k xs)"
    by (induction xs) auto
  then have "card (?k ` set xs) = length xs"
    by (metis distinct_card length_map list.set_map)
  moreover have "map_of (map (\<lambda>(a, m, k). (a, m)) xs) a = None" "map_of (map (\<lambda>(a, m, k). (a, k)) xs) a = None"
      "map_of (map (\<lambda>(a, m, k). (a, k)) ys) a = None"
    using dist by (force simp: map_of_eq_None_iff)+
  ultimately show ?thesis
    using M X(3) unfolding X(2) unfolding X(1) last_use_def by (auto simp: fun_eq_iff map_add_def split: option.splits)
qed

section \<open>The calculator implements the list\<close>

text \<open>The tree stands for a list of last uses; so does the naive stack, as long as nothing has been deleted.\<close>

definition tree_rep :: "uses \<Rightarrow> StackDistCalc \<Rightarrow> bool" where
  "tree_rep X s \<longleftrightarrow> (\<exists>D. tree_inv D (sd_index s) (marks X) s) \<and> aiMap s = last_use X \<and> uses_ok X"

definition sd_rep :: "uses \<Rightarrow> StackDistCalc \<Rightarrow> bool" where
  "sd_rep X s \<longleftrightarrow> tree_rep X s \<and> (verifyStack s \<longrightarrow> sd_stack s = rev (map fst X))"

definition abs_uses :: "uses \<Rightarrow> (Addr \<times> bool) list" where
  "abs_uses X = map (\<lambda>(a, m, k). (a, m)) X"

definition spec_dist :: "(Addr \<times> bool) list \<Rightarrow> Addr \<Rightarrow> 64 word" where
  "spec_dist S a = (case stack_scan a (map fst S) of None \<Rightarrow> SD_Infinity | Some d \<Rightarrow> of_nat d)"

fun sd_spec :: "sd_op \<Rightarrow> (Addr \<times> bool) list \<Rightarrow> (64 word \<times> bool) \<times> (Addr \<times> bool) list" where
  "sd_spec (Update a addNewNode) S =
    ((spec_dist S a, map_of S a = Some True), (if addNewNode then [(a, False)] else []) @ filter (\<lambda>x. fst x \<noteq> a) S)"
| "sd_spec (Query a mark) S =
    ((spec_dist S a, map_of S a = Some True), map (\<lambda>(b, m). (b, if b = a then mark else m)) S)"

fun spec_run :: "sd_op list \<Rightarrow> (Addr \<times> bool) list \<Rightarrow> (64 word \<times> bool) list" where
  "spec_run [] S = []"
| "spec_run (c # cs) S = (let (r, S') = sd_spec c S in r # spec_run cs S')"

lemma abs_uses_fst: "map fst (abs_uses X) = map fst X"
  by (simp add: abs_uses_def comp_def split_def)

lemma abs_others: "abs_uses (others a X) = filter (\<lambda>x. fst x \<noteq> a) (abs_uses X)"
  by (simp add: abs_uses_def others_def filter_map comp_def split_def)

lemma inv_depth: "tree_inv D n M s \<Longrightarrow> n \<le> 2 ^ 31 \<Longrightarrow> D \<le> 31"
  using power_less_imp_less_exp [of "2 :: nat" "D - 1" 31] by (cases "D = 1") (auto simp: tree_inv_def)

lemma take_leaf_spec:
  assumes rep: "tree_rep X s" and n: "sd_index s \<le> 2 ^ 31"
  shows "\<exists>D s1. take_leaf a addNew s = Inr ((spec_dist (abs_uses X) a, map_of (abs_uses X) a = Some True), s1) \<and>
    tree_inv D (sd_index s) (marks (others a X)) s1 \<and> same_rest (s\<lparr>aiMap := aiMap s1\<rparr>) s1 \<and>
    aiMap s1 = (if addNew then (last_use (others a X))(a \<mapsto> sd_index s) else last_use (others a X))"
proof -
  obtain D where inv: "tree_inv D (sd_index s) (marks X) s"
    using rep by (auto simp: tree_rep_def)
  have ai: "aiMap s = last_use X" "uses_ok X"
    using rep by (simp_all add: tree_rep_def)
  define s' where "s' = s\<lparr>aiMap := (if addNew then (aiMap s)(a \<mapsto> sd_index s) else (aiMap s)(a := None))\<rparr>"
  have inv': "tree_inv D (sd_index s) (marks X) s'"
    using inv by (simp add: s'_def tree_inv_def shape_ok_def have_nodes_def)
  show ?thesis
  proof (cases "last_use X a")
    case None
    then have "stack_scan a (map fst X) = None" "map_of (abs_uses X) a = None"
      by (force simp: last_use_None scan_None abs_uses_def map_of_eq_None_iff)+
    moreover have "tree_inv D (sd_index s) (marks X) (if addNew then s\<lparr>aiMap := (aiMap s)(a \<mapsto> sd_index s)\<rparr> else s)"
      using inv inv' by (cases addNew) (simp_all add: s'_def)
    ultimately show ?thesis
      using None ai by (auto simp: take_leaf_def spec_dist_def abs_uses_fst others_None same_rest_def)
  next
    case (Some k)
    then obtain m d where m: "marks X k = Some m" "map_of (abs_uses X) a = Some m" "marks (others a X) = (marks X)(k := None)"
        "last_use (others a X) = (last_use X)(a := None)" "stack_scan a (map fst X) = Some d" "card {i \<in> dom (marks X). k < i} = d"
      using marks_split [OF ai(2)] unfolding abs_uses_def by blast
    obtain s1 nd where s1: "updateSumsLeavesToRoot k False s' = Inr (of_nat d, s1)" "node_at 0 k s1 = Inr nd" "isMarked nd = m"
        "tree_inv D (sd_index s) (marks (others a X)) (erase_node 0 k s1)"
        "erase_node 0 k s1 = s'\<lparr>sd_tree := sd_tree (erase_node 0 k s1)\<rparr>"
      using take_out [OF inv' m(1)] inv_depth [OF inv n] m(3,6) by auto
    have "same_rest s' (erase_node 0 k s1)"
      by (subst s1(5)) (simp add: same_rest_def)
    then show ?thesis
      using s1 m Some ai by (auto simp: take_leaf_def spec_dist_def abs_uses_fst same_rest_def s'_def)
  qed
qed

lemma verifyStackDist_rev:
  assumes "distinct xs"
  shows "verifyStackDist a upd (rev xs) =
    (case stack_scan a xs of None \<Rightarrow> SD_Infinity | Some d \<Rightarrow> of_nat d,
     if upd then rev (a # filter (\<lambda>x. x \<noteq> a) xs) else rev xs)"
proof (cases "stack_scan a xs")
  case None
  then have "filter (\<lambda>x. x \<noteq> a) xs = xs"
    by (auto simp: scan_None filter_id_conv)
  then show ?thesis
    using None by (simp add: verifyStackDist_def Let_def)
next
  case (Some d)
  have "d < length xs \<and> take d xs @ drop (Suc d) xs = filter (\<lambda>x. x \<noteq> a) xs"
    using Some assms
  proof (induction xs arbitrary: d)
    case (Cons x xs)
    then show ?case
      by (cases d) (auto split: if_splits, metis (mono_tags, lifting) filter_True)
  qed simp
  then have "take (length xs - 1 - d) (rev xs) @ drop (length xs - d) (rev xs) = rev (filter (\<lambda>x. x \<noteq> a) xs)" "d < length xs"
    by (auto simp: take_rev drop_rev Suc_diff_Suc simp flip: rev_append)
  then show ?thesis
    using Some by (simp add: verifyStackDist_def Let_def)
qed

text \<open>The comparison of a distance with a naive stack that holds \<open>xs\<close>, the latest first.\<close>

lemma check_stack_rev:
  assumes "sd_stack s = rev xs" "distinct xs"
  shows "check_stack a upd d s =
    (if (case stack_scan a xs of None \<Rightarrow> SD_Infinity | Some k \<Rightarrow> of_nat k) = d
     then Inr (s\<lparr>sd_stack := if upd then rev (a # filter (\<lambda>x. x \<noteq> a) xs) else rev xs\<rparr>)
     else Inl (Panic ''Expected stack-distance''))"
  using verifyStackDist_rev [OF assms(2), of a upd] assms(1) by (simp add: check_stack_def panic_if_def)

lemma marks_Cons: "marks ((a, m, k) # X) = (marks X)(k \<mapsto> m)"
  by (simp add: marks_def)

lemma others_fst: "map fst (others a X) = filter (\<lambda>x. x \<noteq> a) (map fst X)"
  by (simp add: others_def filter_map comp_def)

lemma others_new:
  assumes "uses_ok X" "dom (marks X) \<subseteq> {..<n}"
  shows "uses_ok ((a, m, n) # others a X)" "uses_ok (others a X)" "last_use ((a, m, n) # others a X) = (last_use (others a X))(a \<mapsto> n)"
proof -
  have "snd (snd x) < n" if "x \<in> set X" for x
    using that assms(2) unfolding dom_marks by auto
  then show "uses_ok ((a, m, n) # others a X)" "uses_ok (others a X)"
    using assms(1) by (auto simp: uses_ok_def others_def sorted_wrt_filter distinct_map_filter)
qed (simp add: last_use_def)

lemma tree_rep_others:
  assumes "tree_rep X s"
  shows "uses_ok X" "dom (marks X) \<subseteq> {..<sd_index s}"
  using assms by (auto simp: tree_rep_def tree_inv_def shape_ok_def)

lemma Delete_tree:
  assumes rep: "tree_rep X s" and n: "sd_index s \<le> 2 ^ 31"
  shows "\<exists>s'. calcStackDistAndUpdate a False s = Inr ((spec_dist (abs_uses X) a, map_of (abs_uses X) a = Some True), s') \<and>
    tree_rep (others a X) s' \<and> verifyStack s' = verifyStack s \<and> sd_stack s' = sd_stack s \<and> sd_index s' = sd_index s"
proof -
  obtain D s1 where "take_leaf a False s = Inr ((spec_dist (abs_uses X) a, map_of (abs_uses X) a = Some True), s1)"
      "tree_inv D (sd_index s) (marks (others a X)) s1" "same_rest (s\<lparr>aiMap := aiMap s1\<rparr>) s1" "aiMap s1 = last_use (others a X)"
    using take_leaf_spec [OF rep n, of a False] by auto
  then show ?thesis
    using others_new(2) [OF tree_rep_others [OF rep]] by (auto simp: calcStackDistAndUpdate_def tree_rep_def same_rest_def)
qed

text \<open>What adding a use does up to the comparison with the naive stack.\<close>

lemma Add_tree:
  assumes rep: "tree_rep X s" and n: "sd_index s < 2 ^ 31"
  shows "\<exists>s2. calcStackDistAndUpdate a True s =
      rbind (if verifyStack s then check_stack a True (spec_dist (abs_uses X) a) s2 else Inr s2) (\<lambda>s3.
        Inr ((spec_dist (abs_uses X) a, map_of (abs_uses X) a = Some True), s3\<lparr>sd_index := sd_index s3 + 1\<rparr>)) \<and>
    tree_rep ((a, False, sd_index s) # others a X) (s2\<lparr>sd_index := sd_index s + 1\<rparr>) \<and>
    sd_index s2 = sd_index s \<and> verifyStack s2 = verifyStack s \<and> sd_stack s2 = sd_stack s"
proof -
  obtain D s1 where s1: "take_leaf a True s = Inr ((spec_dist (abs_uses X) a, map_of (abs_uses X) a = Some True), s1)"
      "tree_inv D (sd_index s) (marks (others a X)) s1" "same_rest (s\<lparr>aiMap := aiMap s1\<rparr>) s1"
      "aiMap s1 = (last_use (others a X))(a \<mapsto> sd_index s)"
    using take_leaf_spec [OF rep, of a True] n by auto
  note new = others_new [OF tree_rep_others [OF rep]]
  let ?X = "(a, False, sd_index s) # others a X"
  obtain D' s2 where s2: "add_leaf s1 = Inr s2"
      "tree_inv D' (sd_index s + 1) (marks ?X) (s2\<lparr>sd_index := sd_index s + 1\<rparr>)" "same_rest s1 s2"
    using add_leaf_spec [OF s1(2)] n by (auto simp: marks_Cons)
  have eq: "sd_index s2 = sd_index s" "verifyStack s2 = verifyStack s" "sd_stack s2 = sd_stack s" "aiMap s2 = last_use ?X"
    using s1(3,4) s2(3) new(3) by (simp_all add: same_rest_def)
  have "sanityCheckTree (sd_index s) s2 = Inr ()"
    using sanity_ok [OF s2(2), of "sd_index s" False] by (simp add: marks_Cons sanity_index)
  then have "calcStackDistAndUpdate a True s =
      rbind (if verifyStack s then check_stack a True (spec_dist (abs_uses X) a) s2 else Inr s2) (\<lambda>s3.
        Inr ((spec_dist (abs_uses X) a, map_of (abs_uses X) a = Some True), s3\<lparr>sd_index := sd_index s3 + 1\<rparr>))"
    using s1(1) s2(1) eq(1,2) by (simp add: calcStackDistAndUpdate_def)
  moreover have "tree_rep ?X (s2\<lparr>sd_index := sd_index s + 1\<rparr>)"
    using s2(2) eq(4) new(1) by (auto simp: tree_rep_def)
  ultimately show ?thesis
    using eq by blast
qed

lemma Update_spec:
  assumes rep: "sd_rep X s" and n: "sd_index s \<le> 2 ^ 31" "addNew \<longrightarrow> sd_index s < 2 ^ 31" and v: "verifyStack s \<longrightarrow> addNew"
  shows "\<exists>X' s'. calcStackDistAndUpdate a addNew s = Inr (fst (sd_spec (Update a addNew) (abs_uses X)), s') \<and> sd_rep X' s' \<and>
    abs_uses X' = snd (sd_spec (Update a addNew) (abs_uses X)) \<and> verifyStack s' = verifyStack s \<and>
    sd_index s' = (if addNew then sd_index s + 1 else sd_index s)"
proof (cases addNew)
  case False
  then show ?thesis
    using Delete_tree [of X s a] rep n(1) v by (auto simp: sd_rep_def simp flip: abs_others)
next
  case True
  let ?X = "(a, False, sd_index s) # others a X" and ?d = "spec_dist (abs_uses X) a"
  have tree: "tree_rep X s" and stack: "verifyStack s \<Longrightarrow> sd_stack s = rev (map fst X)" and X: "distinct (map fst X)"
    using rep by (auto simp: sd_rep_def tree_rep_def uses_ok_def)
  obtain s2 where s2: "calcStackDistAndUpdate a True s =
      rbind (if verifyStack s then check_stack a True ?d s2 else Inr s2) (\<lambda>s3.
        Inr ((?d, map_of (abs_uses X) a = Some True), s3\<lparr>sd_index := sd_index s3 + 1\<rparr>))"
      "tree_rep ?X (s2\<lparr>sd_index := sd_index s + 1\<rparr>)"
      "sd_index s2 = sd_index s" "verifyStack s2 = verifyStack s" "sd_stack s2 = sd_stack s"
    using Add_tree [OF tree, of a] n(2) True by blast
  define s3 where "s3 = (if verifyStack s then s2\<lparr>sd_stack := rev (map fst ?X)\<rparr> else s2)"
  have "(if verifyStack s then check_stack a True ?d s2 else Inr s2) = Inr s3"
    using check_stack_rev [of s2 "map fst X" a True ?d] stack X s2(5) by (simp add: s3_def spec_dist_def abs_uses_fst others_fst)
  then have "calcStackDistAndUpdate a addNew s = Inr ((?d, map_of (abs_uses X) a = Some True), s3\<lparr>sd_index := sd_index s + 1\<rparr>)"
    using s2(1,3) True by (simp add: s3_def)
  moreover have "sd_rep ?X (s3\<lparr>sd_index := sd_index s + 1\<rparr>)"
    using s2(2,4) by (simp add: sd_rep_def s3_def tree_rep_def tree_inv_def shape_ok_def have_nodes_def)
  ultimately show ?thesis
    using True s2(4) by (intro exI [of _ ?X] exI [of _ "s3\<lparr>sd_index := sd_index s + 1\<rparr>"])
      (simp add: s3_def abs_others abs_uses_def others_def [symmetric] filter_map comp_def split_def)
qed

definition set_mark :: "Addr \<Rightarrow> bool \<Rightarrow> uses \<Rightarrow> uses" where
  "set_mark a b X = map (\<lambda>(c, m, k). (c, if c = a then b else m, k)) X"

lemma set_mark_uses:
  assumes "uses_ok X"
  shows "uses_ok (set_mark a b X)" "last_use (set_mark a b X) = last_use X" "map fst (set_mark a b X) = map fst X"
    "abs_uses (set_mark a b X) = map (\<lambda>(c, m). (c, if c = a then b else m)) (abs_uses X)"
    "marks (set_mark a b X) = (case last_use X a of None \<Rightarrow> marks X | Some k \<Rightarrow> (marks X)(k \<mapsto> b))"
proof -
  show fst: "map fst (set_mark a b X) = map fst X"
    by (simp add: set_mark_def comp_def split_def)
  show "last_use (set_mark a b X) = last_use X"
    by (simp add: set_mark_def last_use_def comp_def split_def)
  show "abs_uses (set_mark a b X) = map (\<lambda>(c, m). (c, if c = a then b else m)) (abs_uses X)"
    by (simp add: set_mark_def abs_uses_def comp_def split_def)
  show "uses_ok (set_mark a b X)"
    using assms fst by (simp add: uses_ok_def) (simp add: set_mark_def sorted_wrt_map split_def)
  show "marks (set_mark a b X) = (case last_use X a of None \<Rightarrow> marks X | Some k \<Rightarrow> (marks X)(k \<mapsto> b))"
    using assms
  proof (induction X)
    case (Cons x X)
    obtain c m k where x: "x = (c, m, k)"
      by (cases x) auto
    have ok: "uses_ok X" "c \<notin> set (map fst X)" "\<forall>y \<in> set X. snd (snd y) < k"
      using Cons.prems x by (auto simp: uses_ok_def)
    have mk: "set_mark a b (x # X) = (c, if c = a then b else m, k) # set_mark a b X"
      by (simp add: set_mark_def x)
    have "j < k" if "last_use X a = Some j" for j
      using that ok(3) map_of_SomeD [of "map (\<lambda>(a, m, k). (a, k)) X" a j] by (force simp: last_use_def)
    moreover have "last_use (x # X) = (last_use X)(c \<mapsto> k)"
      by (simp add: last_use_def x)
    moreover have "c = a \<Longrightarrow> last_use X a = None"
      using ok(2) last_use_None [of X a] by simp
    ultimately show ?case
      using Cons.IH [OF ok(1)] unfolding mk unfolding x marks_Cons by (auto simp: fun_upd_twist split: option.splits)
  qed (simp add: marks_def set_mark_def last_use_def)
qed

text \<open>What a query does up to the comparison with the naive stack.\<close>

lemma Query_tree:
  assumes rep: "tree_rep X s"
  shows "\<exists>s'. calcStackDist a b s =
      rbind (if verifyStack s then check_stack a False (spec_dist (abs_uses X) a) s' else Inr s') (\<lambda>s2.
        Inr ((spec_dist (abs_uses X) a, map_of (abs_uses X) a = Some True), s2)) \<and>
    tree_rep (set_mark a b X) s' \<and> same_rest s s'"
proof -
  obtain D where inv: "tree_inv D (sd_index s) (marks X) s" and ai: "aiMap s = last_use X" "uses_ok X"
    using rep by (auto simp: tree_rep_def)
  note mark = set_mark_uses [OF ai(2), of a b]
  let ?r = "((spec_dist (abs_uses X) a, map_of (abs_uses X) a = Some True))"
  obtain s' where s': "(case aiMap s a of
        Some r_index \<Rightarrow> rbind (node_at 0 r_index s) (\<lambda>leaf.
          let s1 = put_node 0 r_index (leaf\<lparr>isMarked := b\<rparr>) s in
          rbind (getSumsLeavesToRoot r_index s1) (\<lambda>d. Inr ((d, isMarked leaf), s1)))
      | None \<Rightarrow> Inr ((SD_Infinity, False), s)) = Inr (?r, s')"
    "tree_inv D (sd_index s) (marks (set_mark a b X)) s'" "same_rest s s'"
  proof (cases "last_use X a")
    case None
    then have "stack_scan a (map fst X) = None" "map_of (abs_uses X) a = None"
      by (force simp: last_use_None scan_None abs_uses_def map_of_eq_None_iff)+
    then show ?thesis
      using that [of s] None ai(1) inv mark(5) by (simp add: spec_dist_def abs_uses_fst same_rest_def)
  next
    case (Some k)
    then obtain m d where m: "marks X k = Some m" "map_of (abs_uses X) a = Some m"
        "stack_scan a (map fst X) = Some d" "card {i \<in> dom (marks X). k < i} = d"
      using marks_split [OF ai(2)] unfolding abs_uses_def by blast
    obtain nd where nd: "node_at 0 k s = Inr nd" "isMarked nd = m"
        "getSumsLeavesToRoot k (put_node 0 k (nd\<lparr>isMarked := b\<rparr>) s) = Inr (of_nat d)"
        "tree_inv D (sd_index s) ((marks X)(k \<mapsto> b)) (put_node 0 k (nd\<lparr>isMarked := b\<rparr>) s)"
      using look_at [OF inv m(1), of b] m(4) by auto
    show ?thesis
      by (rule that [of "put_node 0 k (nd\<lparr>isMarked := b\<rparr>) s"])
        (use nd m Some ai(1) mark(5) in \<open>auto simp: spec_dist_def abs_uses_fst same_rest_def put_node_def Let_def\<close>)
  qed
  have "tree_rep (set_mark a b X) s'"
    using s'(2,3) ai mark(1,2) by (auto simp: tree_rep_def same_rest_def)
  then show ?thesis
    unfolding calcStackDist_def s'(1) using s'(3) by (intro exI [of _ s']) (simp add: same_rest_def)
qed

lemma Query_spec:
  assumes rep: "sd_rep X s"
  shows "\<exists>X' s'. calcStackDist a b s = Inr (fst (sd_spec (Query a b) (abs_uses X)), s') \<and> sd_rep X' s' \<and>
    abs_uses X' = snd (sd_spec (Query a b) (abs_uses X)) \<and> verifyStack s' = verifyStack s \<and> sd_index s' = sd_index s"
proof -
  have tree: "tree_rep X s" and stack: "verifyStack s \<Longrightarrow> sd_stack s = rev (map fst X)" and X: "uses_ok X"
    using rep by (auto simp: sd_rep_def tree_rep_def)
  note mark = set_mark_uses [OF X, of a b]
  obtain s' where s': "calcStackDist a b s =
      rbind (if verifyStack s then check_stack a False (spec_dist (abs_uses X) a) s' else Inr s') (\<lambda>s2.
        Inr ((spec_dist (abs_uses X) a, map_of (abs_uses X) a = Some True), s2))"
      "tree_rep (set_mark a b X) s'" "same_rest s s'"
    using Query_tree [OF tree, of a b] by blast
  have "(if verifyStack s then check_stack a False (spec_dist (abs_uses X) a) s' else Inr s') = Inr s'"
    using check_stack_rev [of s' "map fst X" a False "spec_dist (abs_uses X) a"] stack X s'(3)
    by (auto simp: same_rest_def uses_ok_def spec_dist_def abs_uses_fst)
  moreover have "sd_rep (set_mark a b X) s'"
    using s'(2,3) stack mark(3) by (auto simp: sd_rep_def same_rest_def)
  ultimately show ?thesis
    using s'(1,3) mark(4) by (intro exI [of _ "set_mark a b X"] exI [of _ s']) (simp add: same_rest_def)
qed

lemma sd_rep_new: "sd_rep [] (StackDistCalc_new v)"
  using tree_inv_new [of v]
  by (auto simp: sd_rep_def tree_rep_def marks_def last_use_def uses_ok_def StackDistCalc_new_def)

definition adds :: "sd_op list \<Rightarrow> nat" where
  "adds cs = length (filter (\<lambda>c. case c of Update a addNew \<Rightarrow> addNew | Query a m \<Rightarrow> False) cs)"

definition deletes :: "sd_op \<Rightarrow> bool" where
  "deletes c = (case c of Update a addNew \<Rightarrow> \<not> addNew | Query a m \<Rightarrow> False)"

lemma sd_do_spec:
  assumes "sd_rep X s" "sd_index s + adds [c] \<le> 2 ^ 31" "verifyStack s \<longrightarrow> \<not> deletes c"
  shows "\<exists>X' s'. sd_do c s = Inr (fst (sd_spec c (abs_uses X)), s') \<and> sd_rep X' s' \<and> abs_uses X' = snd (sd_spec c (abs_uses X)) \<and>
    verifyStack s' = verifyStack s \<and> sd_index s' = sd_index s + adds [c]"
proof (cases c)
  case (Update a addNew)
  then show ?thesis
    using Update_spec [OF assms(1), of addNew a] assms(2,3) by (auto simp: adds_def deletes_def)
next
  case (Query a m)
  then show ?thesis
    using Query_spec [OF assms(1), of a m] by (simp add: adds_def)
qed

text \<open>The list after a sequence of calls.\<close>

fun spec_after :: "sd_op list \<Rightarrow> (Addr \<times> bool) list \<Rightarrow> (Addr \<times> bool) list" where
  "spec_after [] S = S"
| "spec_after (c # cs) S = spec_after cs (snd (sd_spec c S))"

lemma sd_run_spec:
  assumes "sd_rep X s" "sd_index s + adds cs \<le> 2 ^ 31" "verifyStack s \<longrightarrow> list_all (\<lambda>c. \<not> deletes c) cs"
  shows "\<exists>X' s'. sd_run cs s = Inr (spec_run cs (abs_uses X), s') \<and> sd_rep X' s' \<and> abs_uses X' = spec_after cs (abs_uses X) \<and>
    verifyStack s' = verifyStack s \<and> sd_index s' = sd_index s + adds cs"
  using assms
proof (induction cs arbitrary: X s)
  case (Cons c cs)
  have ad: "adds (c # cs) = adds [c] + adds cs"
    by (simp add: adds_def)
  then obtain X1 s1 where s1: "sd_do c s = Inr (fst (sd_spec c (abs_uses X)), s1)" "sd_rep X1 s1"
      "abs_uses X1 = snd (sd_spec c (abs_uses X))" "verifyStack s1 = verifyStack s" "sd_index s1 = sd_index s + adds [c]"
    using sd_do_spec [OF Cons.prems(1), of c] Cons.prems(2,3) by auto
  then obtain X2 s2 where "sd_run cs s1 = Inr (spec_run cs (abs_uses X1), s2)" "sd_rep X2 s2"
      "abs_uses X2 = spec_after cs (abs_uses X1)" "verifyStack s2 = verifyStack s1" "sd_index s2 = sd_index s1 + adds cs"
    using Cons.IH [OF s1(2)] Cons.prems(2,3) ad by auto
  then show ?case
    using s1 ad by (auto simp: split_def Let_def)
qed (auto simp: adds_def)

section \<open>Deletion and the self-check\<close>

lemma sd_run_append:
  "sd_run (cs @ ds) s = rbind (sd_run cs s) (\<lambda>(rs, s1). rbind (sd_run ds s1) (\<lambda>(rs', s2). Inr (rs @ rs', s2)))"
proof (induction cs arbitrary: s)
  case (Cons c cs)
  then show ?case
    by (cases "sd_do c s") (auto simp: split_def rbind_def split: sum.splits)
qed (auto simp: rbind_def split: sum.splits)

lemma spec_run_append: "spec_run (cs @ ds) S = spec_run cs S @ spec_run ds (spec_after cs S)"
  by (induction cs arbitrary: S) (auto simp: Let_def split_def)

lemma stack_scan_less: "stack_scan a xs = Some d \<Longrightarrow> d < length xs"
  by (induction xs arbitrary: d) (auto split: if_splits)

lemma stack_scan_append:
  "a \<notin> set xs \<Longrightarrow> stack_scan a (xs @ ys) = map_option (\<lambda>d. length xs + d) (stack_scan a ys)"
proof (induction xs)
  case Nil
  then show ?case by (cases "stack_scan a ys") simp_all
next
  case (Cons x xs)
  then show ?case by (cases "stack_scan a ys") auto
qed

lemma uses_length:
  assumes "tree_rep X s"
  shows "length X \<le> sd_index s"
proof -
  have "sorted_wrt (\<lambda>x y. snd (snd y) < snd (snd x)) X"
    using tree_rep_others(1) [OF assms] by (simp add: uses_ok_def)
  then have "distinct (map (\<lambda>x. snd (snd x)) X)"
    by (induction X) auto
  then have "length X = card (dom (marks X))"
    unfolding dom_marks using distinct_card by (metis length_map set_map)
  also have "\<dots> \<le> sd_index s"
    using card_mono [OF _ tree_rep_others(2) [OF assms]] by simp
  finally show ?thesis .
qed

text \<open>Without \<open>b\<close>, the distance of \<open>b\<close> and of the addresses older than \<open>b\<close> is another.\<close>

lemma distance_differs:
  assumes "map fst X = newer @ b # older" "distinct (map fst X)" "length X \<le> 2 ^ 31" "a = b \<or> a \<in> set older"
  shows "(case stack_scan a (map fst X) of None \<Rightarrow> SD_Infinity | Some d \<Rightarrow> of_nat d) \<noteq>
    spec_dist (abs_uses (others b X)) a"
proof -
  have "filter (\<lambda>x. x \<noteq> b) newer = newer" "filter (\<lambda>x. x \<noteq> b) older = older"
    using assms(1,2) by (auto simp: filter_id_conv)
  then have fst: "map fst (abs_uses (others b X)) = newer @ older"
    using assms(1) by (simp add: abs_uses_fst others_fst)
  have small: "(of_nat i :: 64 word) = of_nat j \<longleftrightarrow> i = j" "(of_nat i :: 64 word) \<noteq> SD_Infinity"
    if "i < 2 ^ 32" "j < 2 ^ 32" for i j
    using that by (simp_all add: word_unat_eq_iff unat_of_nat unsigned_minus_1_eq_mask mask_eq_exp_minus_1)
  have len: "length newer + length older < 2 ^ 31"
    using arg_cong [OF assms(1), of length] assms(3) by simp
  show ?thesis
  proof (cases "a = b")
    case True
    then have "stack_scan a (map fst X) = Some (length newer)" "stack_scan a (newer @ older) = None"
      using assms(1,2) by (simp_all add: stack_scan_append scan_None)
    then show ?thesis
      using small(2) [of "length newer" 0] len by (simp add: spec_dist_def fst)
  next
    case False
    then have a: "a \<in> set older" "a \<notin> set newer"
      using assms(1,2,4) by auto
    then obtain d where d: "stack_scan a older = Some d"
      using scan_None [of a older] by auto
    then have "stack_scan a (map fst X) = Some (length newer + Suc d)" "stack_scan a (newer @ older) = Some (length newer + d)"
      using a(2) False assms(1) by (simp_all add: stack_scan_append)
    then show ?thesis
      using small(1) [of "length newer + Suc d" "length newer + d"] len stack_scan_less [OF d] by (simp add: spec_dist_def fst)
  qed
qed

lemma check_fails:
  assumes "tree_rep (others b X) s" "verifyStack s" "sd_stack s = rev (map fst X)" "sd_index s < 2 ^ 31"
    "distinct (map fst X)" "length X \<le> 2 ^ 31" "map fst X = newer @ b # older" "a = b \<or> a \<in> set older"
    "c = Query a mark \<or> c = Update a True"
  shows "sd_do c s = Inl (Panic ''Expected stack-distance'')"
proof -
  note differs = distance_differs [OF assms(7,5,6,8)]
  have "check_stack a upd (spec_dist (abs_uses (others b X)) a) s' = Inl (Panic ''Expected stack-distance'')"
    if "sd_stack s' = sd_stack s" for upd s'
    using check_stack_rev [of s' "map fst X" a upd] differs that assms(3,5) by simp
  then show ?thesis
    using assms(2,9) Query_tree [OF assms(1), of a mark] Add_tree [OF assms(1,4), of a] by (auto simp: same_rest_def)
qed

section \<open>Properties\<close>

text \<open>
  C9: The stack distance calculator computes stack distances. For every sequence of calls that
  adds at most \<open>2 ^ 31\<close> nodes it returns, for every call, the number of distinct addresses used since
  the last use of the address and the mark of that use, or \<open>Infinity\<close> if the address is not in
  the stack. With self-checking switched on and no call that deletes an address, the same holds: none
  of the sanity checks on the tree fires and the tree always agrees with the naive stack.
\<close>

theorem stack_distance_correct:
  assumes "adds cs \<le> 2 ^ 31" "verify \<longrightarrow> list_all (\<lambda>c. \<not> deletes c) cs"
  shows "\<exists>s. sd_run cs (StackDistCalc_new verify) = Inr (spec_run cs [], s)"
  using sd_run_spec [OF sd_rep_new, of verify cs] assms by (auto simp: StackDistCalc_new_def abs_uses_def)

theorem stack_distance_correct_witness:
  "\<exists>s. sd_run [Update 1 True, Update 2 True, Update 3 True, Query 1 True, Update 1 True] (StackDistCalc_new True) =
     Inr ([(SD_Infinity, False), (SD_Infinity, False), (SD_Infinity, False), (2, False), (2, True)], s)"
proof -
  let ?cs = "[Update 1 True, Update 2 True, Update 3 True, Query 1 True, Update 1 True]"
  have "adds ?cs \<le> 2 ^ 31" "list_all (\<lambda>c. \<not> deletes c) ?cs"
    by (simp_all add: adds_def deletes_def)
  moreover have "spec_run ?cs [] = [(SD_Infinity, False), (SD_Infinity, False), (SD_Infinity, False), (2, False), (2, True)]"
    by (simp add: spec_dist_def Let_def)
  ultimately show ?thesis
    using stack_distance_correct [of ?cs True] by simp
qed

text \<open>
  C37: The self-check of the stack distance calculator is wrong about deleted addresses. A call of
  \<open>calcStackDistAndUpdate\<close> that adds no node takes the address out of the tree but not out of the naive
  stack. With checking switched on, after any sequence of calls without a deletion, the deletion of any address in the
  stack returns the right distance, and the next call, a query or an update, for that address or for any
  address last used before it panics. With checking switched off the same calls
  return the right distances.
\<close>

theorem self_check_rejects_deletion:
  assumes "adds cs < 2 ^ 31" "list_all (\<lambda>c. \<not> deletes c) cs" "spec_after cs [] = newer @ (b, m) # older"
    "a = b \<or> a \<in> fst ` set older" "c = Query a mark \<or> c = Update a True"
  shows "(\<exists>s. sd_run (cs @ [Update b False]) (StackDistCalc_new True) = Inr (spec_run (cs @ [Update b False]) [], s)) \<and>
    sd_run (cs @ [Update b False, c]) (StackDistCalc_new True) = Inl (Panic ''Expected stack-distance'') \<and>
    (\<exists>s. sd_run (cs @ [Update b False, c]) (StackDistCalc_new False) = Inr (spec_run (cs @ [Update b False, c]) [], s))"
proof -
  obtain X s where s: "sd_run cs (StackDistCalc_new True) = Inr (spec_run cs [], s)" "sd_rep X s"
      "abs_uses X = newer @ (b, m) # older" "verifyStack s" "sd_index s = adds cs"
    using sd_run_spec [OF sd_rep_new, of True cs] assms(1-3) by (auto simp: StackDistCalc_new_def abs_uses_def)
  have tree: "tree_rep X s" and stack: "sd_stack s = rev (map fst X)" and dist: "distinct (map fst X)"
    using s(2,4) by (auto simp: sd_rep_def tree_rep_def uses_ok_def)
  obtain s1 where s1: "calcStackDistAndUpdate b False s = Inr ((spec_dist (abs_uses X) b, map_of (abs_uses X) b = Some True), s1)"
      "tree_rep (others b X) s1" "verifyStack s1" "sd_stack s1 = rev (map fst X)" "sd_index s1 = adds cs"
    using Delete_tree [OF tree, of b] s(4,5) stack assms(1) by auto
  have "map fst X = map fst newer @ b # map fst older"
    using arg_cong [OF s(3), of "map fst"] by (simp add: abs_uses_fst)
  then have "sd_do c s1 = Inl (Panic ''Expected stack-distance'')"
    using check_fails [OF s1(2-4), of "map fst newer" "map fst older" a c mark] s1(5) assms(1,4,5) dist uses_length [OF tree] s(5)
    by simp
  moreover have "\<exists>s. sd_run (cs @ [Update b False, c]) (StackDistCalc_new False) = Inr (spec_run (cs @ [Update b False, c]) [], s)"
    using sd_run_spec [OF sd_rep_new, of False "cs @ [Update b False, c]"] assms(1,5)
    by (auto simp: StackDistCalc_new_def abs_uses_def adds_def)
  ultimately show ?thesis
    using s(1,3) s1(1) assms(3) by (simp add: sd_run_append spec_run_append)
qed

theorem self_check_rejects_deletion_witness:
  "sd_run [Update 1 True, Update 2 True, Update 2 False, Query 1 False] (StackDistCalc_new True) =
     Inl (Panic ''Expected stack-distance'') \<and>
   (\<exists>s. sd_run [Update 1 True, Update 2 True, Update 2 False, Query 1 False] (StackDistCalc_new False) =
     Inr ([(SD_Infinity, False), (SD_Infinity, False), (0, False), (0, False)], s))"
  using self_check_rejects_deletion [of "[Update 1 True, Update 2 True]" "[]" 2 False "[(1, False)]" 1 "Query 1 False" False]
  by (simp add: adds_def deletes_def spec_dist_def Let_def)

end
