(* ===== verification/Sim_Loop.thy ===== *)
theory Sim_Loop
  imports Event_Queue
begin

text \<open>
  The main loop of the simulator, \<open>sim/simulate.cc\<close>, with the global events of
  \<open>sim/global_event.cc\<close> and \<open>sim/sim_events.cc\<close> that end it, for one main event queue, number 0:
  there is no further thread, a barrier is passed at once, and a global event has a single
  local event, by which it is named. \<open>clean()\<close> of the last exit event, which \<open>simulate\<close> calls first, does nothing and is
  left out. The handlers of events other than exit events, the service of the
  poll queue, the memory that \<open>new\<close> gives and the signals that arrive while the loop runs are arguments.
\<close>

section \<open>Exit events\<close>

abbreviation "MaxTick \<equiv> (- 1 :: Tick)"
abbreviation "Sim_Exit_Pri \<equiv> (100 :: 8 word)"
abbreviation "Stat_Event_Pri \<equiv> (90 :: 8 word)"

abbreviation curTick :: "sim_state \<Rightarrow> Tick" where
  "curTick s \<equiv> eq_curTick (sim_queues s 0)"

record GlobalSimLoopExitEvent =
  exit_cause :: string
  exit_code :: int
  exit_repeat :: Tick

type_synonym exits = "eptr \<rightharpoonup> GlobalSimLoopExitEvent"

definition BaseGlobalEvent_reschedule :: "eptr \<Rightarrow> Tick \<Rightarrow> sim_state \<Rightarrow> sim_state result" where
  "BaseGlobalEvent_reschedule e when s =
    (if Event_scheduled (sim_heap s e) then EventQueue_reschedule 0 e when False s
     else EventQueue_schedule 0 e when True s)"

definition GlobalEvent_new :: "eptr \<Rightarrow> Tick \<Rightarrow> 8 word \<Rightarrow> 16 word \<Rightarrow> sim_state \<Rightarrow> sim_state result" where
  "GlobalEvent_new p when prio f s =
    rbind (Event_new prio f) (\<lambda>e. EventQueue_schedule 0 p when True (set_heap ((sim_heap s)(p := e)) s))"

definition GlobalSimLoopExitEvent_process :: "GlobalSimLoopExitEvent \<Rightarrow> process" where
  "GlobalSimLoopExitEvent_process g e s =
    (if exit_repeat g \<noteq> 0 then EventQueue_schedule 0 e (curTick s + exit_repeat g) True s else Inr s)"

text \<open>\<open>process()\<close> of an event: that of an exit event, or the handler.\<close>

definition sim_process :: "exits \<Rightarrow> process \<Rightarrow> process" where
  "sim_process ex handler e s =
    (case ex e of Some g \<Rightarrow> GlobalSimLoopExitEvent_process g e s | None \<Rightarrow> handler e s)"

section \<open>The simulator and what surrounds it\<close>

record async_flags =
  async_event :: bool
  async_statdump :: bool
  async_statreset :: bool
  async_io :: bool
  async_exit :: bool
  async_exception :: bool

text \<open>The state of the event queues, the exit events by their local event, and the global variables;
  \<open>sw_news\<close> counts the events that have been allocated.\<close>

record sim_world =
  sw_sim :: sim_state
  sw_exits :: exits
  sw_async :: async_flags
  simulate_limit_event :: "eptr option"
  sw_news :: nat

text \<open>
  What surrounds the loop: the quantum, the handlers, the poll queue, the pointers that \<open>new\<close> gives, in
  their order, and the flags that signals raise before each round.
\<close>

record sim_env =
  simQuantum :: Tick
  env_handler :: process
  env_poll :: "sim_state \<Rightarrow> sim_state result"
  env_new :: "nat \<Rightarrow> eptr"
  env_signals :: "nat \<Rightarrow> async_flags"

definition GlobalSimLoopExitEvent_new ::
    "sim_env \<Rightarrow> Tick \<Rightarrow> string \<Rightarrow> int \<Rightarrow> Tick \<Rightarrow> sim_world \<Rightarrow> (eptr \<times> sim_world) result" where
  "GlobalSimLoopExitEvent_new env when cause c r w =
    (let p = env_new env (sw_news w) in
     rbind (GlobalEvent_new p when Sim_Exit_Pri IsExitEvent (sw_sim w)) (\<lambda>s.
       Inr (p, w\<lparr>sw_sim := s, sw_exits := (sw_exits w)(p \<mapsto> \<lparr>exit_cause = cause, exit_code = c, exit_repeat = r\<rparr>),
         sw_news := Suc (sw_news w)\<rparr>)))"

definition exitSimLoop :: "sim_env \<Rightarrow> string \<Rightarrow> int \<Rightarrow> Tick \<Rightarrow> Tick \<Rightarrow> sim_world \<Rightarrow> sim_world result" where
  "exitSimLoop env message code when repeat w =
    rbind (GlobalSimLoopExitEvent_new env (when + simQuantum env) message code repeat w) (\<lambda>(_, w'). Inr w')"

definition schedStatEvent :: "sim_env \<Rightarrow> Tick \<Rightarrow> sim_world \<Rightarrow> sim_world result" where
  "schedStatEvent env when w =
    rbind (GlobalEvent_new (env_new env (sw_news w)) (when + simQuantum env) Stat_Event_Pri 0 (sw_sim w)) (\<lambda>s.
      Inr (w\<lparr>sw_sim := s, sw_news := Suc (sw_news w)\<rparr>))"

text \<open>Signals raise flags; the loop serves the requests in turn and says whether it is to return null.\<close>

definition raise_async :: "async_flags \<Rightarrow> async_flags \<Rightarrow> async_flags" where
  "raise_async a b =
    \<lparr>async_event = (async_event a \<or> async_event b), async_statdump = (async_statdump a \<or> async_statdump b),
     async_statreset = (async_statreset a \<or> async_statreset b), async_io = (async_io a \<or> async_io b),
     async_exit = (async_exit a \<or> async_exit b), async_exception = (async_exception a \<or> async_exception b)\<rparr>"

definition service_async :: "sim_env \<Rightarrow> sim_world \<Rightarrow> (bool \<times> sim_world) result" where
  "service_async env w =
    (let fl = sw_async w in
     rbind (if async_statdump fl \<or> async_statreset fl then schedStatEvent env (curTick (sw_sim w)) w else Inr w) (\<lambda>w1.
     rbind (if async_io fl then rbind (env_poll env (sw_sim w1)) (\<lambda>s. Inr (w1\<lparr>sw_sim := s\<rparr>)) else Inr w1) (\<lambda>w2.
     rbind (if async_exit fl then exitSimLoop env ''user interrupt received'' 0 (curTick (sw_sim w2)) 0 w2 else Inr w2) (\<lambda>w3.
       Inr (async_exception fl,
         w3\<lparr>sw_async := \<lparr>async_event = False, async_statdump = False, async_statreset = False, async_io = False,
           async_exit = False, async_exception = False\<rparr>\<rparr>)))))"

section \<open>The loop\<close>

text \<open>A round of the loop returns, with an event or null, or goes on.\<close>

definition doSimLoop_step :: "sim_env \<Rightarrow> sim_world \<Rightarrow> (eptr option option \<times> sim_world) result" where
  "doSimLoop_step env w =
    assert_that (\<not> EventQueue_empty 0 (sw_sim w)) ''!eventq->empty()''
    (rbind (EventQueue_nextTick 0 (sw_sim w)) (\<lambda>t.
     assert_that (curTick (sw_sim w) \<le> t) ''event scheduled in the past''
    (rbind (if async_event (sw_async w) then service_async env w else Inr (False, w)) (\<lambda>(null, w1).
     if null then Inr (Some None, w1)
     else rbind (EventQueue_serviceOne (sim_process (sw_exits w1) (env_handler env)) 0 (sw_sim w1)) (\<lambda>(s', exit_event).
       Inr (map_option Some exit_event, w1\<lparr>sw_sim := s'\<rparr>))))))"

partial_function (option) doSimLoop_loop ::
    "sim_env \<Rightarrow> nat \<Rightarrow> sim_world \<Rightarrow> (eptr option \<times> sim_world) result option" where
  "doSimLoop_loop env n w =
    (case doSimLoop_step env (w\<lparr>sw_async := raise_async (sw_async w) (env_signals env n)\<rparr>) of
       Inl e \<Rightarrow> Some (Inl e)
     | Inr r \<Rightarrow> (case fst r of
         Some ret \<Rightarrow> Some (Inr (ret, snd r))
       | None \<Rightarrow> doSimLoop_loop env (Suc n) (snd r)))"

declare doSimLoop_loop.simps [code]

definition doSimLoop :: "sim_env \<Rightarrow> sim_world \<Rightarrow> (eptr option \<times> sim_world) result" where
  "doSimLoop env w =
    rbind (EventQueue_handleAsyncInsertions 0 ((sw_sim w)\<lparr>curEventQueue := Some 0\<rparr>)) (\<lambda>s.
    rbind (returned ''doSimLoop'' (doSimLoop_loop env 0 (w\<lparr>sw_sim := s\<rparr>))) id)"

definition set_max_tick :: "sim_env \<Rightarrow> Tick \<Rightarrow> sim_world \<Rightarrow> sim_world result" where
  "set_max_tick env tick w =
    rbind (case simulate_limit_event w of
        Some e \<Rightarrow> Inr (e, w)
      | None \<Rightarrow> rbind (GlobalSimLoopExitEvent_new env (curTick (sw_sim w)) ''simulate() limit reached'' 0 0 w)
          (\<lambda>(e, w1). Inr (e, w1\<lparr>simulate_limit_event := Some e\<rparr>))) (\<lambda>(e, w1).
    rbind (BaseGlobalEvent_reschedule e tick (sw_sim w1)) (\<lambda>s. Inr (w1\<lparr>sw_sim := s\<rparr>)))"

definition get_max_tick :: "sim_world \<Rightarrow> Tick" where
  "get_max_tick w =
    (case simulate_limit_event w of None \<Rightarrow> MaxTick | Some e \<Rightarrow> ev_when (sim_heap (sw_sim w) e))"

definition simulate :: "sim_env \<Rightarrow> Tick \<Rightarrow> sim_world \<Rightarrow> (eptr \<times> sim_world) result" where
  "simulate env num_cycles w =
    rbind (if simulate_limit_event w = None then set_max_tick env MaxTick w else Inr w) (\<lambda>w1.
    rbind (if num_cycles \<noteq> - 1
           then set_max_tick env (if num_cycles < MaxTick - curTick (sw_sim w1)
                                then curTick (sw_sim w1) + num_cycles else MaxTick) w1
           else Inr w1) (\<lambda>w2.
    rbind (doSimLoop env w2) (\<lambda>(local_event, w3).
    case local_event of
      None \<Rightarrow> Inl (AssertFail ''local_event'')
    | Some e \<Rightarrow>
        assert_that (sw_exits w3 e \<noteq> None) ''global_event''
          (Inr (e, w3\<lparr>sw_sim := (sw_sim w3)\<lparr>inParallelMode := False\<rparr>\<rparr>)))))"

end
