(* ===== verification/Sim_Loop_Correct.thy ===== *)
theory Sim_Loop_Correct
  imports Sim_Loop Event_Queue_Correct
begin

text \<open>
  Correctness of the main loop. Handlers are programs of calls to the event queue; whatever calls they
  make, the queue stays well formed or an assertion stops the call. If a handler schedules events only
  for later ticks and leaves the limit event alone, the loop ends, no later than at the limit.
\<close>

section \<open>What a call to the queue changes\<close>

text \<open>An event keeps being no exit event, and an exit event keeps being unmanaged.\<close>

definition flags_kept :: "16 word \<Rightarrow> 16 word \<Rightarrow> bool" where
  "flags_kept fl fl' \<longleftrightarrow>
    (Flags_isSet fl' IsExitEvent \<longrightarrow> Flags_isSet fl IsExitEvent \<and> (Flags_isSet fl' Managed \<longrightarrow> Flags_isSet fl Managed))"

lemma flags_kept_trans: "flags_kept a b \<Longrightarrow> flags_kept b c \<Longrightarrow> flags_kept a c"
  by (auto simp: flags_kept_def)

lemma flags_kept_simps [simp]:
  "flags_kept fl fl" "flags_kept fl 0" "flags_kept fl (Flags_set fl Scheduled)" "flags_kept fl (Flags_set fl Squashed)"
  "flags_kept fl (Flags_clear fl Scheduled)" "flags_kept fl (Flags_clear fl Squashed)"
  by (simp_all add: flags_kept_def Flags_isSet_set Flags_isSet_clear_disjoint) (simp_all add: Flags_isSet_def)

definition only_event :: "eptr \<Rightarrow> sim_state \<Rightarrow> sim_state \<Rightarrow> bool" where
  "only_event e s s' \<longleftrightarrow>
    (\<forall>x. x \<noteq> e \<longrightarrow> ev_flags (sim_heap s' x) = ev_flags (sim_heap s x) \<and> ev_when (sim_heap s' x) = ev_when (sim_heap s x) \<and>
       ev_queue (sim_heap s' x) = ev_queue (sim_heap s x)) \<and>
    flags_kept (ev_flags (sim_heap s e)) (ev_flags (sim_heap s' e)) \<and>
    eq_curTick (sim_queues s' 0) = eq_curTick (sim_queues s 0) \<and>
    async_queue (sim_queues s' 0) = async_queue (sim_queues s 0) \<and> inParallelMode s' = inParallelMode s"

lemma only_event_trans: "only_event e s s1 \<Longrightarrow> only_event e s1 s2 \<Longrightarrow> only_event e s s2"
  by (auto simp: only_event_def intro: flags_kept_trans)

lemma only_eventD:
  assumes "only_event e s s'"
  shows "curTick s' = curTick s" "x \<noteq> e \<Longrightarrow> ev_when (sim_heap s' x) = ev_when (sim_heap s x)"
    "x \<noteq> e \<Longrightarrow> owned_by 0 s' x = owned_by 0 s x" "x \<noteq> e \<Longrightarrow> Event_scheduled (sim_heap s' x) = Event_scheduled (sim_heap s x)"
    "x \<noteq> e \<Longrightarrow> Event_initialized (sim_heap s' x) = Event_initialized (sim_heap s x)"
    "x \<noteq> e \<Longrightarrow> Event_squashed (sim_heap s' x) = Event_squashed (sim_heap s x)"
    "x \<noteq> e \<Longrightarrow> Event_isExitEvent (sim_heap s' x) = Event_isExitEvent (sim_heap s x)"
  using assms
  by (auto simp: only_event_def owned_by_def Event_scheduled_def Event_initialized_def Event_squashed_def Event_isExitEvent_def)

lemma only_event_refl [simp]: "only_event e s s"
  by (simp add: only_event_def)

lemma only_event_step: "queue_step 0 s s' \<Longrightarrow> only_event e s s'"
  by (auto simp: only_event_def queue_stepD dest!: queue_stepD(1) simp: links_only_def)

lemma only_event_flags:
  "only_event e s0 s \<Longrightarrow> flags_kept (ev_flags (sim_heap s e)) (f (ev_flags (sim_heap s e))) \<Longrightarrow>
   only_event e s0 (upd_flags e f s)"
  by (erule only_event_trans) (auto simp: only_event_def)

lemma only_event_setWhen: "only_event e s (set_heap (upd_ev e (Event_setWhen w q) (sim_heap s)) s)"
  by (auto simp: only_event_def upd_ev_def Event_setWhen_def set_heap_def)

lemma only_event_release: "Event_release e s = Inr s' \<Longrightarrow> only_event e s s'"
  by (drule Event_release_cases) (auto simp: only_event_def)

text \<open>
  The invariant of the simulator: the queue is well formed and holds every event that is scheduled on it,
  nothing waits to be inserted, and every exit event is an unmanaged global exit event.
\<close>

definition sim_inv :: "exits \<Rightarrow> sim_state \<Rightarrow> eptr list \<Rightarrow> bool" where
  "sim_inv ex s l \<longleftrightarrow> queue_inv 0 s l \<and>
    (\<forall>x. Event_scheduled (sim_heap s x) \<longrightarrow> owned_by 0 s x \<longrightarrow> x \<in> set l) \<and>
    async_queue (sim_queues s 0) = [] \<and> \<not> inParallelMode s \<and>
    (\<forall>x. Event_isExitEvent (sim_heap s x) \<longrightarrow> \<not> Event_isManaged (sim_heap s x) \<and> ex x \<noteq> None)"

lemma sim_invI:
  assumes "sim_inv ex s l" "queue_inv 0 s' l'" "only_event e s s'"
    and "Event_scheduled (sim_heap s' e) \<Longrightarrow> owned_by 0 s' e \<Longrightarrow> e \<in> set l'" "set l - {e} \<subseteq> set l'"
  shows "sim_inv ex s' l'"
  unfolding sim_inv_def
proof (intro conjI allI impI)
  fix x
  show "x \<in> set l'" if "Event_scheduled (sim_heap s' x)" "owned_by 0 s' x"
    using that assms unfolding sim_inv_def only_event_def Event_scheduled_def owned_by_def
    by (metis DiffI insertE subsetD singletonD)
  assume exit: "Event_isExitEvent (sim_heap s' x)"
  have "flags_kept (ev_flags (sim_heap s x)) (ev_flags (sim_heap s' x))"
    using assms(3) by (cases "x = e") (auto simp: only_event_def)
  then have "Event_isExitEvent (sim_heap s x)" "Event_isManaged (sim_heap s' x) \<longrightarrow> Event_isManaged (sim_heap s x)"
    using exit by (auto simp: flags_kept_def Event_isExitEvent_def Event_isManaged_def)
  then show "\<not> Event_isManaged (sim_heap s' x)" "ex x \<noteq> None"
    using assms(1) by (auto simp: sim_inv_def)
qed (use assms in \<open>auto simp: sim_inv_def only_event_def\<close>)

section \<open>Calls to the queue\<close>

text \<open>The assertions that stop a call that the state does not allow.\<close>

definition client_asserts :: "string set" where
  "client_asserts = {''when >= getCurTick()'', ''!event->scheduled()'', ''event->initialized()'', ''event->scheduled()'',
     ''event->queue == this'', ''always || event->scheduled()''}"

text \<open>The errors of a set that are such assertions.\<close>

definition fails :: "gem5_error set \<Rightarrow> gem5_error set" where
  "fails E = E \<inter> AssertFail ` client_asserts"

text \<open>A call on event \<open>e\<close> fails by such an assertion, or succeeds with the given postcondition.\<close>

definition call_result :: "exits \<Rightarrow> eptr \<Rightarrow> sim_state \<Rightarrow> sim_state result \<Rightarrow> (sim_state \<Rightarrow> eptr set \<Rightarrow> bool) \<Rightarrow> bool" where
  "call_result ex e s r post \<longleftrightarrow>
    (case r of
       Inl err \<Rightarrow> err \<in> fails UNIV
     | Inr s' \<Rightarrow> \<exists>l'. sim_inv ex s' l' \<and> only_event e s s' \<and> post s' (set l'))"

lemma call_result_Inl [simp]: "call_result ex e s (Inl (AssertFail m)) post \<longleftrightarrow> m \<in> client_asserts"
  by (auto simp: call_result_def fails_def)

lemma call_result_assert:
  "call_result ex e s (assert_that c m r) post \<longleftrightarrow> (if c then call_result ex e s r post else m \<in> client_asserts)"
  by simp

lemma sim_inv_ticks: "sim_inv ex s l \<Longrightarrow> x \<in> set l \<Longrightarrow> curTick s \<le> ev_when (sim_heap s x)"
  unfolding sim_inv_def queue_inv_def by blast

lemma sim_inv_head: "sim_inv ex s l \<Longrightarrow> l \<noteq> [] \<Longrightarrow> eq_head (sim_queues s 0) = Some (hd l)"
  using queue_rep_pop(1) [of 0 s "hd l" "tl l"] by (simp add: sim_inv_def queue_inv_def)

lemma schedule_ok:
  assumes inv: "sim_inv ex s l"
    and True: "curTick s \<le> w \<and> \<not> Event_scheduled (sim_heap s e) \<and> Event_initialized (sim_heap s e)"
  shows "\<exists>s' l'. EventQueue_schedule 0 e w g s = Inr s' \<and> sim_inv ex s' l' \<and> only_event e s s' \<and> set l' = insert e (set l) \<and>
    e \<notin> set l \<and> ev_when (sim_heap s' e) = w \<and> ev_flags (sim_heap s' e) = Flags_set (ev_flags (sim_heap s e)) Scheduled"
proof -
  have q: "queue_inv 0 s l" and serial: "\<not> inParallelMode s" using inv by (auto simp: sim_inv_def)
  have new: "e \<notin> set l" using q True by (auto simp: queue_inv_def)
  obtain s' where s': "EventQueue_schedule 0 e w g s = Inr s'" "queue_inv 0 s' (ins_ev (sim_key s') e l)"
    "ev_when (sim_heap s' e) = w"
    using EventQueue_schedule_inv [OF q, of w e g] True serial by auto
  let ?s1 = "set_heap (upd_ev e (Event_setWhen w 0) (sim_heap s)) s"
  obtain s2 where s2: "EventQueue_insert 0 e ?s1 = Inr s2" "queue_step 0 ?s1 s2"
    and eq: "s' = upd_flags e (\<lambda>fl. Flags_set fl Scheduled) s2"
  proof -
    have "queue_rep 0 ?s1 l"
      by (rule queue_rep_cong [where s = s]) (use q new in \<open>auto simp: queue_inv_def ev_key_def upd_ev_def\<close>)
    then obtain s2 where "EventQueue_insert 0 e ?s1 = Inr s2" "queue_step 0 ?s1 s2" using queue_rep_insert new by blast
    moreover have "s' = upd_flags e (\<lambda>fl. Flags_set fl Scheduled) s2"
      using s'(1) serial True calculation(1) by (simp add: EventQueue_schedule_def Let_def Event_acquire_def)
    ultimately show ?thesis using that by blast
  qed
  have same: "only_event e s s2"
    by (rule only_event_trans [OF only_event_setWhen only_event_step [OF s2(2)]])
  then have only: "only_event e s s'"
    unfolding eq by (rule only_event_flags) simp
  have "ev_flags (sim_heap s2 e) = ev_flags (sim_heap s e)"
    using queue_step_flags [OF s2(2), of e] by (simp add: upd_ev_def Event_setWhen_def)
  then have "ev_flags (sim_heap s' e) = Flags_set (ev_flags (sim_heap s e)) Scheduled"
    by (simp add: eq)
  moreover have "sim_inv ex s' (ins_ev (sim_key s') e l)"
    by (rule sim_invI [OF inv s'(2) only]) auto
  ultimately show ?thesis
    using s' only new by (intro exI [of _ s'] exI [of _ "ins_ev (sim_key s') e l"]) simp
qed

lemma schedule_call:
  assumes inv: "sim_inv ex s l"
  shows "call_result ex e s (EventQueue_schedule 0 e w g s)
    (\<lambda>s' L. L = insert e (set l) \<and> e \<notin> set l \<and> ev_when (sim_heap s' e) = w \<and> curTick s \<le> w \<and>
       ev_flags (sim_heap s' e) = Flags_set (ev_flags (sim_heap s e)) Scheduled)"
proof (cases "curTick s \<le> w \<and> \<not> Event_scheduled (sim_heap s e) \<and> Event_initialized (sim_heap s e)")
  case False
  then show ?thesis
    by (auto simp: EventQueue_schedule_def call_result_assert client_asserts_def)
next
  case True
  from schedule_ok [OF inv this, of g] True show ?thesis by (auto simp: call_result_def)
qed

lemma deschedule_call:
  assumes inv: "sim_inv ex s l" and l: "l \<noteq> []"
  shows "call_result ex e s (EventQueue_deschedule 0 e s) (\<lambda>s' L. L = set l - {e})"
proof (cases "Event_scheduled (sim_heap s e) \<and> Event_initialized (sim_heap s e) \<and> owned_by 0 s e")
  case False
  obtain hp where "eq_head (sim_queues s 0) = Some hp" using sim_inv_head [OF inv l] by blast
  with False inv show ?thesis
    by (auto simp: EventQueue_deschedule_def EventQueue_remove_def call_result_assert owned_by_def sim_inv_def client_asserts_def)
next
  case True
  have q: "queue_inv 0 s l" and serial: "\<not> inParallelMode s" using inv by (auto simp: sim_inv_def)
  have e: "e \<in> set l" using True inv by (auto simp: sim_inv_def)
  have d: "distinct l" using q by (auto simp: queue_inv_def queue_rep_distinct)
  obtain s' where s': "EventQueue_deschedule 0 e s = Inr s'" "queue_inv 0 s' (remove1 e l)"
    "\<not> Event_scheduled (sim_heap s' e)"
    using EventQueue_deschedule_inv [OF q e] serial by auto
  obtain s1 where s1: "EventQueue_remove 0 e s = Inr s1" "queue_step 0 s s1"
    using queue_rep_remove [of 0 s l e] q e by (auto simp: queue_inv_def)
  let ?s2 = "upd_flags e (\<lambda>fl. Flags_clear fl Scheduled) (upd_flags e (\<lambda>fl. Flags_clear fl Squashed) s1)"
  have rel: "Event_release e ?s2 = Inr s'"
    using s'(1) s1(1) True serial by (simp add: EventQueue_deschedule_def)
  have "only_event e s ?s2"
    by (intro only_event_flags only_event_step [OF s1(2)]) simp_all
  then have only: "only_event e s s'" by (rule only_event_trans) (rule only_event_release [OF rel])
  have "sim_inv ex s' (remove1 e l)"
    by (rule sim_invI [OF inv s'(2) only]) (use s'(3) d in auto)
  with s'(1) only d show ?thesis by (auto simp: call_result_def intro!: exI [of _ "remove1 e l"])
qed

lemma queue_inv_insert:
  assumes q: "queue_inv 0 s l" and rep: "queue_rep 0 s' l'" and only: "only_event e s s'" and l': "set l' = insert e (set l)"
    and e: "owned_by 0 s' e" "Event_scheduled (sim_heap s' e)" "Event_initialized (sim_heap s' e)" "curTick s \<le> ev_when (sim_heap s' e)"
  shows "queue_inv 0 s' l'"
  unfolding queue_inv_def only_eventD(1) [OF only]
proof (intro conjI rep ballI)
  fix x assume x: "x \<in> set l'"
  have "owned_by 0 s' x \<and> Event_scheduled (sim_heap s' x) \<and> Event_initialized (sim_heap s' x) \<and> curTick s \<le> ev_when (sim_heap s' x)"
  proof (cases "x = e")
    case False
    with x l' q have "owned_by 0 s x \<and> Event_scheduled (sim_heap s x) \<and> Event_initialized (sim_heap s x) \<and>
        curTick s \<le> ev_when (sim_heap s x)"
      by (simp add: queue_inv_def)
    then show ?thesis by (simp only: only_eventD [OF only] False not_False_eq_True)
  qed (use e in simp)
  then show "owned_by 0 s' x" "Event_scheduled (sim_heap s' x)" "Event_initialized (sim_heap s' x)"
    "curTick s \<le> ev_when (sim_heap s' x)"
    by blast+
qed

lemma reschedule_ok:
  assumes inv: "sim_inv ex s l"
    and True: "curTick s \<le> w \<and> (always \<or> Event_scheduled (sim_heap s e)) \<and> Event_initialized (sim_heap s e) \<and>
      (Event_scheduled (sim_heap s e) \<longrightarrow> owned_by 0 s e)"
  shows "\<exists>s' l'. EventQueue_reschedule 0 e w always s = Inr s' \<and> sim_inv ex s' l' \<and> only_event e s s' \<and>
    set l' = insert e (set l) \<and> ev_when (sim_heap s' e) = w \<and>
    ev_flags (sim_heap s' e) = Flags_set (Flags_clear (ev_flags (sim_heap s e)) Squashed) Scheduled"
proof -
  have q: "queue_inv 0 s l" and serial: "\<not> inParallelMode s" using inv by (auto simp: sim_inv_def)
  have d: "distinct l" using q by (auto simp: queue_inv_def queue_rep_distinct)
  have mem: "e \<in> set l \<longleftrightarrow> Event_scheduled (sim_heap s e)"
    using inv True by (auto simp: sim_inv_def queue_inv_def)
  obtain s1 where s1: "(if Event_scheduled (sim_heap s e) then EventQueue_remove 0 e s else Inr (Event_acquire e s)) = Inr s1"
    "only_event e s s1" "queue_rep 0 s1 (remove1 e l)" "sim_key s1 = sim_key s" "ev_flags (sim_heap s1 e) = ev_flags (sim_heap s e)"
  proof (cases "Event_scheduled (sim_heap s e)")
    case True
    then obtain s1 where s1: "EventQueue_remove 0 e s = Inr s1" "queue_step 0 s s1" "queue_rep 0 s1 (remove1 e l)"
      using queue_rep_remove [of 0 s l e] q mem by (auto simp: queue_inv_def)
    then show ?thesis
      using that True queue_step_flags [OF s1(2), of e] by (simp add: only_event_step queue_stepD(2))
  next
    case False
    then show ?thesis using that q mem by (simp add: Event_acquire_def queue_inv_def remove1_idem)
  qed
  let ?s2 = "set_heap (upd_ev e (Event_setWhen w 0) (sim_heap s1)) s1"
  have new: "e \<notin> set (remove1 e l)" using d by simp
  have "queue_rep 0 ?s2 (remove1 e l)"
    by (rule queue_rep_cong [OF s1(3)]) (use new in \<open>auto simp: ev_key_def upd_ev_def\<close>)
  then obtain s3 where s3: "EventQueue_insert 0 e ?s2 = Inr s3" "queue_step 0 ?s2 s3"
    "queue_rep 0 s3 (ins_ev (sim_key ?s2) e (remove1 e l))"
    using queue_rep_insert new by blast
  let ?s' = "upd_flags e (\<lambda>fl. Flags_set fl Scheduled) (upd_flags e (\<lambda>fl. Flags_clear fl Squashed) s3)"
  let ?l = "ins_ev (sim_key ?s2) e (remove1 e l)"
  have run: "EventQueue_reschedule 0 e w always s = Inr ?s'"
    using True serial s1(1) s3(1) by (simp add: EventQueue_reschedule_def)
  have o3: "only_event e s s3"
    by (rule only_event_trans [OF s1(2) only_event_trans [OF only_event_setWhen only_event_step [OF s3(2)]]])
  then have only: "only_event e s ?s'" by (intro only_event_flags) simp_all
  have fl: "ev_flags (sim_heap s3 e) = ev_flags (sim_heap s e)" "ev_when (sim_heap s3 e) = w" "owned_by 0 s3 e"
    using queue_step_flags [OF s3(2), of e] s1(5) queue_step_owned [OF s3(2), of 0]
    by (simp_all add: upd_ev_def Event_setWhen_def owned_by_def fun_eq_iff)
  have sets: "set ?l = insert e (set l)" using d by auto
  have "queue_inv 0 ?s' ?l"
    by (rule queue_inv_insert [OF q _ only sets])
      (use s3(3) fl True in \<open>auto simp: Event_scheduled_def Event_initialized_def intro!: queue_rep_upd_flags\<close>)
  then have "sim_inv ex ?s' ?l"
    by (rule sim_invI [OF inv _ only]) (use sets in auto)
  with run only sets fl(1,2) show ?thesis by (intro exI [of _ ?s'] exI [of _ ?l]) simp
qed

lemma reschedule_call:
  assumes inv: "sim_inv ex s l" and l: "l \<noteq> []"
  shows "call_result ex e s (EventQueue_reschedule 0 e w always s)
    (\<lambda>s' L. L = insert e (set l) \<and> ev_when (sim_heap s' e) = w \<and> curTick s \<le> w)"
proof (cases "curTick s \<le> w \<and> (always \<or> Event_scheduled (sim_heap s e)) \<and> Event_initialized (sim_heap s e) \<and>
    (Event_scheduled (sim_heap s e) \<longrightarrow> owned_by 0 s e)")
  case False
  obtain hp where "eq_head (sim_queues s 0) = Some hp" using sim_inv_head [OF inv l] by blast
  with False inv show ?thesis
    by (auto simp: EventQueue_reschedule_def EventQueue_remove_def call_result_assert owned_by_def sim_inv_def client_asserts_def)
next
  case True
  from reschedule_ok [OF inv this] True show ?thesis by (auto simp: call_result_def)
qed

lemma squash_call:
  assumes inv: "sim_inv ex s l"
  shows "call_result ex e s (Inr (upd_flags e (\<lambda>fl. Flags_set fl Squashed) s))
    (\<lambda>s' L. L = set l \<and> ev_when (sim_heap s' e) = ev_when (sim_heap s e))"
proof -
  let ?s' = "upd_flags e (\<lambda>fl. Flags_set fl Squashed) s"
  have only: "only_event e s ?s'" by (rule only_event_flags) simp_all
  have fl: "Flags_isSet (Flags_set f Squashed) Scheduled = Flags_isSet f Scheduled"
    "Flags_set f Squashed AND InitMask = f AND InitMask" for f :: "16 word"
    by (simp_all add: Flags_isSet_def Flags_set_def bit.conj_disj_distrib2)
  have same: "Event_scheduled (sim_heap ?s' x) = Event_scheduled (sim_heap s x)"
    "Event_initialized (sim_heap ?s' x) = Event_initialized (sim_heap s x)" for x
    by (cases "x = e"; simp add: Event_scheduled_def Event_initialized_def fl)+
  have q: "queue_inv 0 ?s' l"
    using inv same by (auto simp: sim_inv_def queue_inv_def intro: queue_rep_upd_flags)
  have "sim_inv ex ?s' l"
    by (rule sim_invI [OF inv q only]) (use inv same in \<open>auto simp: sim_inv_def\<close>)
  with only show ?thesis by (auto simp: call_result_def)
qed

section \<open>Programs of calls\<close>

text \<open>The calls that event handlers make to the queue.\<close>

datatype queue_call =
    QSchedule eptr Tick
  | QDeschedule eptr
  | QReschedule eptr Tick bool
  | QSquash eptr

fun call_target :: "queue_call \<Rightarrow> eptr" where
  "call_target (QSchedule e w) = e"
| "call_target (QDeschedule e) = e"
| "call_target (QReschedule e w always) = e"
| "call_target (QSquash e) = e"

fun call_do :: "queue_call \<Rightarrow> sim_state \<Rightarrow> sim_state result" where
  "call_do (QSchedule e w) s = EventQueue_schedule 0 e w False s"
| "call_do (QDeschedule e) s = EventQueue_deschedule 0 e s"
| "call_do (QReschedule e w always) s = EventQueue_reschedule 0 e w always s"
| "call_do (QSquash e) s = Inr (set_heap (upd_ev e Event_squash (sim_heap s)) s)"

fun calls_do :: "queue_call list \<Rightarrow> sim_state \<Rightarrow> sim_state result" where
  "calls_do [] s = Inr s"
| "calls_do (c # cs) s = rbind (call_do c s) (calls_do cs)"

text \<open>A call that adds nothing at or before the given tick.\<close>

fun later_call :: "Tick \<Rightarrow> queue_call \<Rightarrow> bool" where
  "later_call t (QSchedule e w) = (t < w)"
| "later_call t (QReschedule e w always) = (t < w)"
| "later_call t c = True"

text \<open>The limit event is in the queue, at tick \<open>T\<close>.\<close>

definition lim_inv :: "exits \<Rightarrow> eptr \<Rightarrow> Tick \<Rightarrow> sim_state \<Rightarrow> eptr list \<Rightarrow> bool" where
  "lim_inv ex lim T s l \<longleftrightarrow> sim_inv ex s l \<and> lim \<in> set l \<and> ev_when (sim_heap s lim) = T \<and>
    Event_isExitEvent (sim_heap s lim) \<and> \<not> Event_squashed (sim_heap s lim) \<and> (\<exists>g. ex lim = Some g \<and> exit_repeat g = 0)"

definition due_now :: "sim_state \<Rightarrow> eptr set \<Rightarrow> eptr set" where
  "due_now s L = {x \<in> L. ev_when (sim_heap s x) \<le> curTick s}"

lemma lim_inv_only:
  "lim_inv ex lim T s l \<Longrightarrow> sim_inv ex s' l' \<Longrightarrow> only_event e s s' \<Longrightarrow> e \<noteq> lim \<Longrightarrow> lim \<in> set l' \<Longrightarrow> lim_inv ex lim T s' l'"
  by (auto simp: lim_inv_def only_eventD [of e s s'])

lemma due_now_mono:
  assumes only: "only_event e s s'" and L: "L \<subseteq> insert e K"
    and e: "e \<in> L \<Longrightarrow> curTick s < ev_when (sim_heap s' e) \<or> (e \<in> K \<and> ev_when (sim_heap s' e) = ev_when (sim_heap s e))"
  shows "due_now s' L \<subseteq> due_now s K"
proof
  fix x assume x: "x \<in> due_now s' L"
  show "x \<in> due_now s K"
  proof (cases "x = e")
    case True
    with x e show ?thesis by (auto simp: due_now_def only_eventD(1) [OF only])
  next
    case False
    with x L show ?thesis by (auto simp: due_now_def only_eventD(1,2) [OF only])
  qed
qed

lemma call_spec:
  assumes "sim_inv ex s l" "l \<noteq> []"
  shows "call_result ex (call_target c) s (call_do c s) (\<lambda>s' L. set l - {call_target c} \<subseteq> L \<and> L \<subseteq> insert (call_target c) (set l) \<and>
    (later_call (curTick s) c \<longrightarrow> due_now s' L \<subseteq> due_now s (set l)))"
proof -
  have weaken: "call_result ex e s r post'" if "call_result ex e s r post"
    "\<And>s' L. only_event e s s' \<Longrightarrow> post s' L \<Longrightarrow> post' s' L" for e r post post'
    using that by (auto simp: call_result_def split: sum.splits)
  have sq: "set_heap (upd_ev e Event_squash (sim_heap s)) s = upd_flags e (\<lambda>fl. Flags_set fl Squashed) s" for e
    by (simp add: upd_flags_def Event_squash_def upd_ev_def)
  have fin: "set l - {e} \<subseteq> L \<and> L \<subseteq> insert e (set l) \<and> (P \<longrightarrow> due_now s' L \<subseteq> due_now s (set l))"
    if "only_event e s s'" "set l - {e} \<subseteq> L" "L \<subseteq> insert e (set l)"
      "P \<Longrightarrow> e \<in> L \<Longrightarrow> curTick s < ev_when (sim_heap s' e) \<or> (e \<in> set l \<and> ev_when (sim_heap s' e) = ev_when (sim_heap s e))"
    for e s' L P
    using that due_now_mono [OF that(1,3)] by blast
  show ?thesis
  proof (cases c)
    case (QSchedule e w)
    show ?thesis unfolding QSchedule call_do.simps call_target.simps
      by (rule weaken [OF schedule_call [OF assms(1)]], erule fin) auto
  next
    case (QDeschedule e)
    show ?thesis unfolding QDeschedule call_do.simps call_target.simps
      by (rule weaken [OF deschedule_call [OF assms]], erule fin) auto
  next
    case (QReschedule e w always)
    show ?thesis unfolding QReschedule call_do.simps call_target.simps
      by (rule weaken [OF reschedule_call [OF assms]], erule fin) auto
  next
    case (QSquash e)
    show ?thesis unfolding QSquash call_do.simps call_target.simps sq
      by (rule weaken [OF squash_call [OF assms(1)]], erule fin) auto
  qed
qed

text \<open>The outcome of a program of calls that leaves the limit event alone.\<close>

definition lim_result :: "gem5_error set \<Rightarrow> exits \<Rightarrow> eptr \<Rightarrow> Tick \<Rightarrow> sim_state result \<Rightarrow> (sim_state \<Rightarrow> eptr set \<Rightarrow> bool) \<Rightarrow> bool" where
  "lim_result E ex lim T r post \<longleftrightarrow>
    (case r of
       Inl err \<Rightarrow> err \<in> fails E
     | Inr s' \<Rightarrow> \<exists>l'. lim_inv ex lim T s' l' \<and> post s' (set l'))"

lemma lim_result_mono:
  "lim_result E ex lim T r post \<Longrightarrow> (\<And>s' L. post s' L \<Longrightarrow> post' s' L) \<Longrightarrow> lim_result E ex lim T r post'"
  by (auto simp: lim_result_def split: sum.splits)

lemma lim_result_Inr: "lim_inv ex lim T s' l' \<Longrightarrow> post s' (set l') \<Longrightarrow> lim_result E ex lim T (Inr s') post"
  by (auto simp: lim_result_def)

lemma lim_result_errors:
  "lim_result UNIV ex lim T r post \<Longrightarrow> (\<And>err. r = Inl err \<Longrightarrow> err \<in> E) \<Longrightarrow> lim_result E ex lim T r post"
  by (auto simp: lim_result_def fails_def split: sum.splits)

lemma lim_result_call:
  assumes inv: "lim_inv ex lim T s l" "e \<noteq> lim" and r: "call_result ex e s r post"
    and lim: "\<And>s' L. post s' L \<Longrightarrow> lim \<in> L"
  shows "lim_result UNIV ex lim T r (\<lambda>s' L. only_event e s s' \<and> post s' L)"
proof (cases r)
  case (Inr s')
  then obtain l' where l': "sim_inv ex s' l'" "only_event e s s'" "post s' (set l')" using r by (auto simp: call_result_def)
  with lim_inv_only [OF inv(1) l'(1,2) inv(2) lim [OF l'(3)]] Inr show ?thesis by (auto simp: lim_result_def)
qed (use r in \<open>simp add: call_result_def lim_result_def\<close>)

lemma call_lim:
  assumes "lim_inv ex lim T s l" "call_target c \<in> A" "lim \<notin> A"
  shows "lim_result UNIV ex lim T (call_do c s) (\<lambda>s' L. curTick s' = curTick s \<and> L \<subseteq> set l \<union> A \<and>
    (later_call (curTick s) c \<longrightarrow> due_now s' L \<subseteq> due_now s (set l)))"
proof -
  have l: "sim_inv ex s l" "l \<noteq> []" "lim \<in> set l" using assms(1) by (auto simp: lim_inv_def)
  have other: "call_target c \<noteq> lim" using assms by blast
  show ?thesis
    by (rule lim_result_mono [OF lim_result_call [OF assms(1) other call_spec [OF l(1,2)]]])
      (use assms(2) l(3) other in \<open>auto simp: only_eventD(1)\<close>)
qed

lemma calls_lim:
  assumes "lim_inv ex lim T s l" "list_all (\<lambda>c. call_target c \<in> A) cs" "lim \<notin> A"
  shows "lim_result UNIV ex lim T (calls_do cs s) (\<lambda>s' L. curTick s' = curTick s \<and> L \<subseteq> set l \<union> A \<and>
    (list_all (later_call (curTick s)) cs \<longrightarrow> due_now s' L \<subseteq> due_now s (set l)))"
  using assms
proof (induction cs arbitrary: s l)
  case Nil
  then show ?case by (auto simp: lim_result_def)
next
  case (Cons c cs)
  show ?case
  proof (cases "call_do c s")
    case (Inl err)
    then show ?thesis using call_lim [OF Cons.prems(1), of c A] Cons.prems(2,3) by (simp add: lim_result_def)
  next
    case (Inr s1)
    then obtain l1 where l1: "lim_inv ex lim T s1 l1" "curTick s1 = curTick s" "set l1 \<subseteq> set l \<union> A"
      "later_call (curTick s) c \<longrightarrow> due_now s1 (set l1) \<subseteq> due_now s (set l)"
      using call_lim [OF Cons.prems(1), of c A] Cons.prems(2,3) by (auto simp: lim_result_def)
    have IH: "lim_result UNIV ex lim T (calls_do cs s1) (\<lambda>s' L. curTick s' = curTick s1 \<and> L \<subseteq> set l1 \<union> A \<and>
        (list_all (later_call (curTick s1)) cs \<longrightarrow> due_now s' L \<subseteq> due_now s1 (set l1)))"
      using Cons.IH [OF l1(1) _ Cons.prems(3)] Cons.prems(2) by simp
    show ?thesis
      by (simp only: calls_do.simps Inr rbind_Inr, rule lim_result_mono [OF IH]) (use l1(2-4) in auto)
  qed
qed

section \<open>New events\<close>

lemma new_event_inv:
  assumes inv: "sim_inv ex s l" and p: "p \<notin> set l" and e: "\<not> Event_scheduled e"
    and ex: "\<And>x. x \<noteq> p \<Longrightarrow> ex x \<noteq> None \<Longrightarrow> ex' x \<noteq> None"
    and exit: "Event_isExitEvent e \<Longrightarrow> \<not> Event_isManaged e \<and> ex' p \<noteq> None"
  shows "sim_inv ex' (set_heap ((sim_heap s)(p := e)) s) l"
proof -
  let ?s = "set_heap ((sim_heap s)(p := e)) s"
  have same: "sim_heap ?s x = sim_heap s x" if "x \<noteq> p" for x using that by (simp add: set_heap_def)
  have "queue_rep 0 ?s l"
    by (rule queue_rep_cong [of 0 s]) (use inv p in \<open>auto simp: sim_inv_def queue_inv_def set_heap_def ev_key_def\<close>)
  then have "queue_inv 0 ?s l"
    using inv p same by (auto simp: sim_inv_def queue_inv_def owned_by_def set_heap_def)
  then show ?thesis
    using inv e ex exit same unfolding sim_inv_def
    by (auto simp: set_heap_def owned_by_def split: if_splits)
qed

abbreviation tick_error :: gem5_error where
  "tick_error \<equiv> AssertFail ''when >= getCurTick()''"

lemma lim_result_schedule:
  assumes inv: "lim_inv ex lim T s l" "e \<noteq> lim" and e: "\<not> Event_scheduled (sim_heap s e)" "Event_initialized (sim_heap s e)"
    and E: "\<not> curTick s \<le> w \<Longrightarrow> tick_error \<in> E"
  shows "lim_result E ex lim T (EventQueue_schedule 0 e w g s) (\<lambda>s' L. curTick s' = curTick s \<and> L \<subseteq> insert e (set l) \<and>
    ev_when (sim_heap s' e) = w \<and> curTick s \<le> w \<and> only_event e s s')"
proof (cases "curTick s \<le> w")
  case False
  with E show ?thesis by (simp add: EventQueue_schedule_def lim_result_def fails_def client_asserts_def)
next
  case True
  have l: "sim_inv ex s l" "lim \<in> set l" using inv(1) by (auto simp: lim_inv_def)
  obtain s' l' where s': "EventQueue_schedule 0 e w g s = Inr s'" "sim_inv ex s' l'" "only_event e s s'"
    "set l' = insert e (set l)" "ev_when (sim_heap s' e) = w"
    using schedule_ok [OF l(1), of w e g] True e by auto
  have "lim_inv ex lim T s' l'" using lim_inv_only [OF inv(1) s'(2,3) inv(2)] s'(4) l(2) by simp
  then show ?thesis
    unfolding s'(1) by (rule lim_result_Inr) (use s' True only_eventD(1) [OF s'(3)] in simp)
qed

lemma GlobalEvent_new_schedule:
  assumes inv: "sim_inv ex s l" and p: "p \<notin> set l"
    and ex: "\<And>x. x \<noteq> p \<Longrightarrow> ex' x = ex x" and f: "f = 0 \<and> ex' = ex \<or> f = IsExitEvent \<and> ex' p \<noteq> None"
  shows "\<exists>s1. GlobalEvent_new p w prio f s = EventQueue_schedule 0 p w True s1 \<and> sim_inv ex' s1 l \<and>
    sim_queues s1 = sim_queues s \<and> (\<forall>x. x \<noteq> p \<longrightarrow> sim_heap s1 x = sim_heap s x) \<and> ev_flags (sim_heap s1 p) = Initialized OR f"
proof -
  obtain e where e: "Event_new prio f = Inr e" "ev_flags e = Initialized OR f"
    using f by (auto simp: Event_new_def Flags_noneSet_def)
  let ?s = "set_heap ((sim_heap s)(p := e)) s"
  have "sim_inv ex' ?s l"
  proof (rule new_event_inv [OF inv p])
    show "\<not> Event_scheduled e" using f e(2) by (auto simp: Event_scheduled_def Flags_isSet_def)
    show "\<not> Event_isManaged e \<and> ex' p \<noteq> None" if "Event_isExitEvent e"
      using f e(2) that by (auto simp: Event_isExitEvent_def Event_isManaged_def Flags_isSet_def)
  qed (use ex in auto)
  moreover have "GlobalEvent_new p w prio f s = EventQueue_schedule 0 p w True ?s"
    using e(1) by (simp add: GlobalEvent_new_def)
  ultimately show ?thesis using e(2) by (intro exI [of _ ?s]) (simp add: set_heap_def)
qed

lemma GlobalEvent_new_lim:
  assumes inv: "lim_inv ex lim T s l" and p: "p \<notin> set l"
    and ex: "\<And>x. x \<noteq> p \<Longrightarrow> ex' x = ex x" and f: "f = 0 \<and> ex' = ex \<or> f = IsExitEvent \<and> ex' p \<noteq> None"
    and E: "\<not> curTick s \<le> w \<Longrightarrow> tick_error \<in> E"
  shows "lim_result E ex' lim T (GlobalEvent_new p w prio f s) (\<lambda>s' L. curTick s' = curTick s \<and> L \<subseteq> insert p (set l))"
proof -
  have si: "sim_inv ex s l" and lim: "lim \<in> set l" "lim \<noteq> p" using inv p by (auto simp: lim_inv_def)
  obtain s1 where s1: "GlobalEvent_new p w prio f s = EventQueue_schedule 0 p w True s1" "sim_inv ex' s1 l"
    "sim_queues s1 = sim_queues s" "\<forall>x. x \<noteq> p \<longrightarrow> sim_heap s1 x = sim_heap s x" "ev_flags (sim_heap s1 p) = Initialized OR f"
    using GlobalEvent_new_schedule [OF si p ex f, of w prio] by blast
  have inv': "lim_inv ex' lim T s1 l" using inv lim ex s1(2,4) by (auto simp: lim_inv_def)
  have fl: "\<not> Event_scheduled (sim_heap s1 p)" "Event_initialized (sim_heap s1 p)"
    using f s1(5) by (auto simp: Event_scheduled_def Event_initialized_def Flags_isSet_def)
  show ?thesis
    unfolding s1(1)
    by (rule lim_result_mono [OF lim_result_schedule [OF inv' lim(2) [symmetric] fl E]]) (simp_all add: s1(3))
qed

section \<open>The surroundings of the loop\<close>

text \<open>
  Handlers call the queue for their own events, the set \<open>A\<close>, and for later ticks only; the poll queue
  calls it for these events too. In a state with a well-formed queue they fail with errors of \<open>E\<close> only, to which the
  failed test of a tick belongs if there is a quantum that could make a tick wrap around. \<open>new\<close> never gives the same memory twice nor that of an event in use; and
  from round \<open>N\<close> on no signal arrives.
\<close>

definition env_ok :: "sim_env \<Rightarrow> gem5_error set \<Rightarrow> eptr set \<Rightarrow> nat \<Rightarrow> bool" where
  "env_ok env E A N \<longleftrightarrow>
    (\<forall>e s. \<exists>cs. env_handler env e s = calls_do cs s \<and> list_all (\<lambda>c. call_target c \<in> A \<and> later_call (curTick s) c) cs) \<and>
    (\<forall>s. \<exists>cs. env_poll env s = calls_do cs s \<and> list_all (\<lambda>c. call_target c \<in> A) cs) \<and>
    (\<forall>ex s l e err. sim_inv ex s l \<longrightarrow> e \<notin> set l \<longrightarrow> (env_handler env e s = Inl err \<or> env_poll env s = Inl err) \<longrightarrow> err \<in> E) \<and>
    (simQuantum env \<noteq> 0 \<longrightarrow> tick_error \<in> E) \<and>
    inj (env_new env) \<and> range (env_new env) \<inter> A = {} \<and> (\<forall>n \<ge> N. \<not> async_event (env_signals env n))"

lemma env_ok_new: "env_ok env E A N \<Longrightarrow> env_new env n \<notin> A"
  unfolding env_ok_def by blast

text \<open>If an exit event repeats, its tick may wrap around.\<close>

definition repeats :: "gem5_error set \<Rightarrow> exits \<Rightarrow> bool" where
  "repeats E ex \<longleftrightarrow> (\<forall>e g. ex e = Some g \<longrightarrow> exit_repeat g \<noteq> 0 \<longrightarrow> tick_error \<in> E)"

definition world_inv :: "sim_env \<Rightarrow> gem5_error set \<Rightarrow> eptr \<Rightarrow> Tick \<Rightarrow> sim_world \<Rightarrow> eptr list \<Rightarrow> bool" where
  "world_inv env E lim T w l \<longleftrightarrow> lim_inv (sw_exits w) lim T (sw_sim w) l \<and>
    repeats E (sw_exits w) \<and> (\<forall>n \<ge> sw_news w. env_new env n \<notin> set l)"

text \<open>The outcome of an action on the world.\<close>

definition world_result :: "sim_env \<Rightarrow> gem5_error set \<Rightarrow> eptr \<Rightarrow> Tick \<Rightarrow> sim_world \<Rightarrow> sim_world result \<Rightarrow> bool" where
  "world_result env E lim T w r \<longleftrightarrow>
    (case r of
       Inl err \<Rightarrow> err \<in> fails E
     | Inr w' \<Rightarrow> (\<exists>l'. world_inv env E lim T w' l') \<and> curTick (sw_sim w') = curTick (sw_sim w) \<and>
         simulate_limit_event w' = simulate_limit_event w)"

lemma rbind_assoc: "rbind (rbind m f) g = rbind m (\<lambda>x. rbind (f x) g)"
  by (cases m) simp_all

lemma world_result_bind:
  assumes "world_result env E lim T w m" and "\<And>w1 l1. world_inv env E lim T w1 l1 \<Longrightarrow> world_result env E lim T w1 (f w1)"
  shows "world_result env E lim T w (rbind m f)"
  using assms by (cases m) (fastforce simp: world_result_def split: sum.splits)+

lemma world_result_refl: "world_inv env E lim T w l \<Longrightarrow> world_result env E lim T w (Inr w)"
  by (auto simp: world_result_def)

lemma world_result_sim:
  assumes r: "lim_result E ex lim T r (\<lambda>s' L. curTick s' = curTick (sw_sim w) \<and> L \<subseteq> K)"
    and new: "\<And>n. k \<le> n \<Longrightarrow> env_new env n \<notin> K" and rep: "repeats E ex"
  shows "world_result env E lim T w (rbind r (\<lambda>s. Inr (w\<lparr>sw_sim := s, sw_exits := ex, sw_news := k\<rparr>)))"
proof (cases r)
  case (Inl err)
  then show ?thesis using r by (simp add: lim_result_def world_result_def)
next
  case (Inr s')
  then obtain l' where l': "lim_inv ex lim T s' l'" "curTick s' = curTick (sw_sim w)" "set l' \<subseteq> K"
    using r by (auto simp: lim_result_def)
  then have "world_inv env E lim T (w\<lparr>sw_sim := s', sw_exits := ex, sw_news := k\<rparr>) l'"
    using new rep by (auto simp: world_inv_def)
  with Inr l'(2) show ?thesis by (auto simp: world_result_def)
qed

lemma world_invD:
  assumes "world_inv env E lim T w l" "inj (env_new env)"
  shows "lim_inv (sw_exits w) lim T (sw_sim w) l" "env_new env (sw_news w) \<notin> set l"
    "Suc (sw_news w) \<le> n \<Longrightarrow> env_new env n \<notin> insert (env_new env (sw_news w)) (set l)"
    "repeats E (sw_exits w)"
  using assms by (auto simp: world_inv_def dest: injD)

lemma GlobalSimLoopExitEvent_new_world:
  assumes w: "world_inv env E lim T w l" and env: "inj (env_new env)" and r: "r = 0"
    and E: "\<not> curTick (sw_sim w) \<le> when \<Longrightarrow> tick_error \<in> E"
  shows "world_result env E lim T w (rbind (GlobalSimLoopExitEvent_new env when cause c r w) (\<lambda>(_, w'). Inr w'))"
proof -
  let ?p = "env_new env (sw_news w)" and ?g = "\<lparr>exit_cause = cause, exit_code = c, exit_repeat = r\<rparr>"
  note wd = world_invD [OF w env]
  have res: "lim_result E ((sw_exits w)(?p \<mapsto> ?g)) lim T (GlobalEvent_new ?p when Sim_Exit_Pri IsExitEvent (sw_sim w))
      (\<lambda>s' L. curTick s' = curTick (sw_sim w) \<and> L \<subseteq> insert ?p (set l))"
    by (rule GlobalEvent_new_lim [OF wd(1,2)]) (use E in auto)
  have "repeats E ((sw_exits w)(?p \<mapsto> ?g))" using wd(4) r by (simp add: repeats_def)
  from world_result_sim [where k = "Suc (sw_news w)", OF res wd(3) this] show ?thesis
    by (auto simp: GlobalSimLoopExitEvent_new_def rbind_def Let_def split: sum.splits)
qed

lemma schedStatEvent_world:
  assumes w: "world_inv env E lim T w l" and env: "inj (env_new env)"
    and E: "\<not> curTick (sw_sim w) \<le> when + simQuantum env \<Longrightarrow> tick_error \<in> E"
  shows "world_result env E lim T w (schedStatEvent env when w)"
proof -
  let ?p = "env_new env (sw_news w)"
  note wd = world_invD [OF w env]
  have "lim_result E (sw_exits w) lim T (GlobalEvent_new ?p (when + simQuantum env) Stat_Event_Pri 0 (sw_sim w))
      (\<lambda>s' L. curTick s' = curTick (sw_sim w) \<and> L \<subseteq> insert ?p (set l))"
    by (rule GlobalEvent_new_lim [OF wd(1,2)]) (use E in auto)
  from world_result_sim [where k = "Suc (sw_news w)", OF this wd(3,4)] show ?thesis by (simp add: schedStatEvent_def)
qed

lemma poll_world:
  assumes w: "world_inv env E lim T w l" and env: "env_ok env E A N" "lim \<notin> A"
  shows "world_result env E lim T w (rbind (env_poll env (sw_sim w)) (\<lambda>s. Inr (w\<lparr>sw_sim := s\<rparr>)))"
proof -
  obtain cs where cs: "env_poll env (sw_sim w) = calls_do cs (sw_sim w)" "list_all (\<lambda>c. call_target c \<in> A) cs"
    using env(1) unfolding env_ok_def by metis
  have inv: "lim_inv (sw_exits w) lim T (sw_sim w) l" using w by (simp add: world_inv_def)
  have res: "lim_result E (sw_exits w) lim T (calls_do cs (sw_sim w)) (\<lambda>s' L. curTick s' = curTick (sw_sim w) \<and> L \<subseteq> set l \<union> A)"
  proof (rule lim_result_errors)
    show "lim_result UNIV (sw_exits w) lim T (calls_do cs (sw_sim w)) (\<lambda>s' L. curTick s' = curTick (sw_sim w) \<and> L \<subseteq> set l \<union> A)"
      by (rule lim_result_mono [OF calls_lim [OF inv cs(2) env(2)]]) blast
    fix err assume "calls_do cs (sw_sim w) = Inl err"
    then have "env_poll env (sw_sim w) = Inl err" by (simp add: cs(1))
    moreover obtain e where "e \<notin> set l" using ex_new_if_finite [OF infinite_UNIV_nat finite_set] by blast
    ultimately show "err \<in> E" using env(1) inv unfolding env_ok_def lim_inv_def by blast
  qed
  have rep: "repeats E (sw_exits w)" using w by (simp add: world_inv_def)
  have "env_new env n \<notin> set l \<union> A" if "sw_news w \<le> n" for n
    using w that env_ok_new [OF env(1)] by (simp add: world_inv_def)
  from world_result_sim [where k = "sw_news w", OF res this rep] show ?thesis by (simp add: cs(1))
qed

lemma service_async_world:
  assumes w: "world_inv env E lim T w l" and env: "env_ok env E A N" "lim \<notin> A"
  shows "case service_async env w of
      Inl err \<Rightarrow> err \<in> fails E
    | Inr (null, w') \<Rightarrow> (\<exists>l'. world_inv env E lim T w' l') \<and> curTick (sw_sim w') = curTick (sw_sim w) \<and>
        simulate_limit_event w' = simulate_limit_event w \<and> \<not> async_event (sw_async w') \<and> \<not> async_exception (sw_async w') \<and>
        null = async_exception (sw_async w)"
proof -
  let ?fl = "sw_async w"
  have inj: "inj (env_new env)" using env(1) by (simp add: env_ok_def)
  have E: "tick_error \<in> E" if "\<not> t \<le> t + simQuantum env" for t
    using env(1) that by (cases "simQuantum env = 0") (auto simp: env_ok_def)
  let ?a = "if async_statdump ?fl \<or> async_statreset ?fl then schedStatEvent env (curTick (sw_sim w)) w else Inr w"
  let ?b = "\<lambda>w1. if async_io ?fl then rbind (env_poll env (sw_sim w1)) (\<lambda>s. Inr (w1\<lparr>sw_sim := s\<rparr>)) else Inr w1"
  let ?c = "\<lambda>w2. if async_exit ?fl then exitSimLoop env ''user interrupt received'' 0 (curTick (sw_sim w2)) 0 w2 else Inr w2"
  have "world_result env E lim T w (rbind ?a (\<lambda>w1. rbind (?b w1) ?c))"
  proof (rule world_result_bind)
    show "world_result env E lim T w ?a"
      using schedStatEvent_world [OF w inj E] world_result_refl [OF w] by simp
    fix w1 l1 assume w1: "world_inv env E lim T w1 l1"
    show "world_result env E lim T w1 (rbind (?b w1) ?c)"
    proof (rule world_result_bind)
      show "world_result env E lim T w1 (?b w1)" using poll_world [OF w1 env] world_result_refl [OF w1] by simp
      fix w2 l2 assume w2: "world_inv env E lim T w2 l2"
      show "world_result env E lim T w2 (?c w2)"
        using GlobalSimLoopExitEvent_new_world [OF w2 inj refl E] world_result_refl [OF w2] by (simp add: exitSimLoop_def)
    qed
  qed
  moreover have "service_async env w = rbind (rbind ?a (\<lambda>w1. rbind (?b w1) ?c)) (\<lambda>w3. Inr (async_exception ?fl,
         w3\<lparr>sw_async := \<lparr>async_event = False, async_statdump = False, async_statreset = False, async_io = False,
           async_exit = False, async_exception = False\<rparr>\<rparr>))"
    unfolding service_async_def Let_def rbind_assoc ..
  moreover have "world_inv env E lim T (w3\<lparr>sw_async := fl\<rparr>) = world_inv env E lim T w3" for w3 fl
    by (simp add: world_inv_def fun_eq_iff)
  ultimately show ?thesis
    by (cases "rbind ?a (\<lambda>w1. rbind (?b w1) ?c)") (simp_all add: world_result_def)
qed

section \<open>Servicing the first event\<close>

text \<open>
  What decreases in every round without a signal: the time left, the events due at the current tick, and the
  length of the queue.
\<close>

definition sim_measure :: "Tick \<Rightarrow> (sim_state \<times> eptr list) \<Rightarrow> nat \<times> nat \<times> nat" where
  "sim_measure T = (\<lambda>(s, l). (unat T - unat (curTick s), card (due_now s (set l)), length l))"

definition sim_order :: "Tick \<Rightarrow> ((sim_state \<times> eptr list) \<times> (sim_state \<times> eptr list)) set" where
  "sim_order T = inv_image (less_than <*lex*> less_than <*lex*> less_than) (sim_measure T)"

lemma wf_sim_order: "wf (sim_order T)"
  by (auto simp: sim_order_def)

lemma only_event_pop: "only_event e s (serviceOne_pop 0 e s)"
  by (auto simp: only_event_def)

lemma sim_inv_initialized: "sim_inv ex s l \<Longrightarrow> x \<in> set l \<Longrightarrow> Event_initialized (sim_heap s x)"
  unfolding sim_inv_def queue_inv_def by blast

lemma pop_inv:
  assumes "sim_inv ex s (e # l)"
  shows "sim_inv ex (serviceOne_pop 0 e s) l" "sim_inv ex (service_state 0 e s) l" "e \<notin> set l"
    "\<And>x. x \<in> set l \<Longrightarrow> ev_when (sim_heap s e) \<le> ev_when (sim_heap s x)"
proof -
  have q: "queue_inv 0 s (e # l)" using assms by (simp add: sim_inv_def)
  note st = queue_inv_service_state [OF q]
  show "e \<notin> set l" by (rule st(3))
  show "ev_when (sim_heap s e) \<le> ev_when (sim_heap s x)" if "x \<in> set l" for x
    using evq.earliest_first [of 0 s e l x] q that by (auto simp: queue_inv_def ev_key_def less_eq_prod_def)
  show pop: "sim_inv ex (serviceOne_pop 0 e s) l"
    by (rule sim_invI [OF assms st(2) only_event_pop]) (use st(4) in auto)
  show "sim_inv ex (service_state 0 e s) l"
    using pop st(1) by (simp add: sim_inv_def owned_by_def)
qed

lemma release_inv:
  assumes inv: "sim_inv ex s l"
  shows "\<exists>s'. Event_release e s = Inr s' \<and> sim_inv ex s' l \<and> only_event e s s' \<and> (\<forall>x. ev_when (sim_heap s' x) = ev_when (sim_heap s x))"
proof (cases "Event_scheduled (sim_heap s e)")
  case True
  then show ?thesis using inv by (auto simp: Event_release_def Event_releaseImpl_def)
next
  case False
  then obtain s' where s': "Event_release e s = Inr s'" using Event_release_total by blast
  have e: "e \<notin> set l" using False inv by (auto simp: sim_inv_def queue_inv_def)
  have "queue_inv 0 s' l" using queue_inv_release [OF _ s' e] inv by (simp add: sim_inv_def)
  then have "sim_inv ex s' l"
    by (rule sim_invI [OF inv _ only_event_release [OF s']]) (use Event_release_frame(3) [OF s' False] in auto)
  moreover have "ev_when (sim_heap s' x) = ev_when (sim_heap s x)" for x
    using fun_cong [OF Event_release_frame(8) [OF s'], of x] by (simp add: ev_key_def)
  ultimately show ?thesis using s' only_event_release [OF s'] by blast
qed

lemma due_now_cong: "curTick s' = curTick s \<Longrightarrow> (\<And>x. x \<in> L \<Longrightarrow> ev_when (sim_heap s' x) = ev_when (sim_heap s x)) \<Longrightarrow> due_now s' L = due_now s L"
  by (auto simp: due_now_def)

lemma squashed_round:
  assumes inv: "lim_inv ex lim T s (e # l)" and sq: "Event_squashed (sim_heap s e)"
  shows "\<exists>s'. EventQueue_serviceOne process 0 s = Inr (s', None) \<and> lim_inv ex lim T s' l \<and> curTick s' = curTick s \<and>
    ((s', l), (s, e # l)) \<in> sim_order T"
proof -
  have si: "sim_inv ex s (e # l)" and e: "e \<noteq> lim" and lim: "lim \<in> set l" using inv sq by (auto simp: lim_inv_def)
  let ?s1 = "upd_flags e (\<lambda>fl. Flags_clear fl Squashed) (serviceOne_pop 0 e s)"
  have pop: "queue_inv 0 (serviceOne_pop 0 e s) l" using pop_inv(1) [OF si] by (simp add: sim_inv_def)
  have o1: "only_event e s ?s1" by (intro only_event_flags only_event_pop) simp
  have ns: "\<not> Event_scheduled (sim_heap ?s1 e)" by (simp add: Event_scheduled_def)
  obtain s' where s': "EventQueue_serviceOne process 0 s = Inr (s', None)" "queue_inv 0 s' l"
    "sim_key s' = sim_key s" "curTick s' = curTick s"
    using serviceOne_squashed [of 0 s e l process] si sq by (auto simp: sim_inv_def)
  have hd: "eq_head (sim_queues s 0) = Some e" using sim_inv_head [OF si] by simp
  have rel: "Event_release e ?s1 = Inr s'"
    using s'(1) hd sq by (auto simp: EventQueue_serviceOne_def Let_def Event_squashed_def result_eq_Inr)
  have only: "only_event e s s'" by (rule only_event_trans [OF o1 only_event_release [OF rel]])
  have "sim_inv ex s' l"
    by (rule sim_invI [OF si s'(2) only]) (use Event_release_frame(3) [OF rel ns] in auto)
  then have inv': "lim_inv ex lim T s' l" by (rule lim_inv_only [OF inv _ only e lim])
  have wh: "ev_when (sim_heap s' x) = ev_when (sim_heap s x)" for x
    using fun_cong [OF s'(3), of x] by (simp add: ev_key_def)
  have "due_now s' (set l) \<subseteq> due_now s (set (e # l))" using s'(4) wh by (auto simp: due_now_def)
  then have "card (due_now s' (set l)) \<le> card (due_now s (set (e # l)))"
    by (rule card_mono [rotated]) (simp add: due_now_def)
  then have "((s', l), (s, e # l)) \<in> sim_order T"
    using s'(4) by (auto simp: sim_order_def sim_measure_def)
  with s' inv' show ?thesis by blast
qed

lemma process_lim:
  assumes inv: "lim_inv ex lim T s l" and e: "e \<noteq> lim" "e \<notin> set l" and env: "env_ok env E A N" "lim \<notin> A"
    and rep: "repeats E ex" and fl: "\<not> Event_scheduled (sim_heap s e)" "Event_initialized (sim_heap s e)"
  shows "lim_result E ex lim T (sim_process ex (env_handler env) e s) (\<lambda>s' L. curTick s' = curTick s \<and>
    L \<subseteq> insert e (set l) \<union> A \<and> due_now s' L \<subseteq> due_now s (set l))"
proof (cases "ex e")
  case None
  obtain cs where cs: "env_handler env e s = calls_do cs s" "list_all (\<lambda>c. call_target c \<in> A \<and> later_call (curTick s) c) cs"
    using env(1) unfolding env_ok_def by metis
  then have "list_all (\<lambda>c. call_target c \<in> A) cs" "list_all (later_call (curTick s)) cs"
    by (auto simp: list_all_iff)
  then have "lim_result UNIV ex lim T (calls_do cs s) (\<lambda>s' L. curTick s' = curTick s \<and> L \<subseteq> insert e (set l) \<union> A \<and>
      due_now s' L \<subseteq> due_now s (set l))"
    by (intro lim_result_mono [OF calls_lim [OF inv _ env(2)]]) auto
  moreover have "err \<in> E" if "calls_do cs s = Inl err" for err
  proof -
    have "env_handler env e s = Inl err" using that cs(1) by simp
    then show ?thesis using env(1) inv e(2) unfolding env_ok_def lim_inv_def by blast
  qed
  ultimately show ?thesis
    unfolding sim_process_def None option.case cs(1) by (rule lim_result_errors)
next
  case (Some g)
  show ?thesis
  proof (cases "exit_repeat g = 0")
    case True
    with Some inv show ?thesis
      by (auto simp: sim_process_def GlobalSimLoopExitEvent_process_def intro!: lim_result_Inr)
  next
    case False
    then have E: "tick_error \<in> E" using rep Some by (auto simp: repeats_def)
    from False have later: "curTick s \<le> curTick s + exit_repeat g \<Longrightarrow> curTick s < curTick s + exit_repeat g"
      by (simp add: order.strict_iff_order)
    from Some False have "sim_process ex (env_handler env) e s = EventQueue_schedule 0 e (curTick s + exit_repeat g) True s"
      by (simp add: sim_process_def GlobalSimLoopExitEvent_process_def)
    moreover have "due_now s' L \<subseteq> due_now s (set l)"
      if "L \<subseteq> insert e (set l)" "ev_when (sim_heap s' e) = curTick s + exit_repeat g" "curTick s \<le> curTick s + exit_repeat g"
        "only_event e s s'" for s' L
      using due_now_mono [OF that(4,1)] that(2) later [OF that(3)] by simp
    ultimately show ?thesis
      by (auto intro!: lim_result_mono [OF lim_result_schedule [OF inv e(1) fl E]])
  qed
qed

lemma service_state_lim:
  assumes inv: "lim_inv ex lim T s (e # l)" and e: "e \<noteq> lim"
  shows "lim_inv ex lim T (service_state 0 e s) l"
proof -
  have si: "sim_inv ex s (e # l)" using inv by (simp add: lim_inv_def)
  have "lim_inv ex lim T (serviceOne_pop 0 e s) l"
    by (rule lim_inv_only [OF inv pop_inv(1) [OF si] only_event_pop e]) (use inv e in \<open>auto simp: lim_inv_def\<close>)
  then show ?thesis using pop_inv(2) [OF si] by (simp add: lim_inv_def)
qed

lemma finish_inv:
  assumes inv: "sim_inv ex s l"
  shows "serviceOne_finish e s = Inr (s, Some e) \<and> ex e \<noteq> None \<or>
    (\<exists>s'. serviceOne_finish e s = Inr (s', None) \<and> sim_inv ex s' l \<and> only_event e s s' \<and> \<not> Event_isExitEvent (sim_heap s e) \<and>
      (\<forall>x. ev_when (sim_heap s' x) = ev_when (sim_heap s x)))"
proof (cases "Event_isExitEvent (sim_heap s e)")
  case True
  then have "\<not> Event_isManaged (sim_heap s e)" "ex e \<noteq> None" using inv by (auto simp: sim_inv_def)
  with True show ?thesis by (simp add: serviceOne_finish_def Event_isManaged_def)
next
  case False
  with release_inv [OF inv, of e] show ?thesis by (auto simp: serviceOne_finish_def)
qed

lemma tick_order:
  assumes inv: "sim_inv ex s (e # l)" and T: "lim \<in> set (e # l)" "ev_when (sim_heap s lim) = T"
    and tick: "curTick s' = ev_when (sim_heap s e)" and due: "due_now s' (set l') \<subseteq> due_now (service_state 0 e s) (set l)"
  shows "curTick s \<le> curTick s'" "curTick s' \<le> T" "((s', l'), (s, e # l)) \<in> sim_order T"
proof -
  have e: "curTick s \<le> ev_when (sim_heap s e)" using inv by (simp add: sim_inv_def queue_inv_def)
  then show "curTick s \<le> curTick s'" by (simp add: tick)
  show le: "curTick s' \<le> T" using T pop_inv(4) [OF inv] by (auto simp: tick)
  show "((s', l'), (s, e # l)) \<in> sim_order T"
  proof (cases "ev_when (sim_heap s e) = curTick s")
    case True
    have "due_now (service_state 0 e s) (set l) = due_now s (set l)" by (rule due_now_cong) (simp_all add: True)
    moreover have "e \<in> due_now s (set (e # l))" "e \<notin> due_now s (set l)" "due_now s (set l) \<subseteq> due_now s (set (e # l))"
      using True pop_inv(3) [OF inv] by (auto simp: due_now_def)
    ultimately have "due_now s' (set l') \<subset> due_now s (set (e # l))" using due by blast
    then have "card (due_now s' (set l')) < card (due_now s (set (e # l)))"
      by (rule psubset_card_mono [rotated]) (simp add: due_now_def)
    moreover have "curTick s' = curTick s" using True tick by simp
    ultimately show ?thesis by (simp add: sim_order_def sim_measure_def)
  next
    case False
    with e have "curTick s < curTick s'" by (simp add: tick)
    then have "unat T - unat (curTick s') < unat T - unat (curTick s)"
      using le by (simp add: word_less_nat_alt word_le_nat_alt)
    then show ?thesis by (simp add: sim_order_def sim_measure_def)
  qed
qed

text \<open>The limit event between two runs of the loop.\<close>

definition limit_ok :: "exits \<Rightarrow> eptr \<Rightarrow> sim_state \<Rightarrow> bool" where
  "limit_ok ex lim s \<longleftrightarrow> Event_isExitEvent (sim_heap s lim) \<and> \<not> Event_squashed (sim_heap s lim) \<and>
    Event_initialized (sim_heap s lim) \<and>
    (Event_scheduled (sim_heap s lim) \<longrightarrow> owned_by 0 s lim) \<and> (\<exists>g. ex lim = Some g \<and> exit_repeat g = 0)"

lemma lim_inv_limit_ok: "lim_inv ex lim T s l \<Longrightarrow> limit_ok ex lim s"
  by (auto simp: lim_inv_def limit_ok_def sim_inv_def queue_inv_def)

text \<open>The outcome of a round: a failed assertion, an exit event, or a smaller state.\<close>

definition round_ok :: "gem5_error set \<Rightarrow> exits \<Rightarrow> eptr \<Rightarrow> Tick \<Rightarrow> eptr set \<Rightarrow> sim_state \<Rightarrow> eptr list \<Rightarrow> (sim_state \<times> eptr option) result \<Rightarrow> bool" where
  "round_ok E ex lim T A s l r \<longleftrightarrow>
    (case r of
       Inl err \<Rightarrow> err \<in> fails E
     | Inr (s', exit) \<Rightarrow> curTick s \<le> curTick s' \<and> curTick s' \<le> T \<and> (\<exists>l'. set l' \<subseteq> set l \<union> A \<and>
         (case exit of
            Some x \<Rightarrow> ex x \<noteq> None \<and> sim_inv ex s' l' \<and> limit_ok ex lim s'
          | None \<Rightarrow> lim_inv ex lim T s' l' \<and> ((s', l'), (s, l)) \<in> sim_order T)))"

lemma limit_round:
  assumes inv: "lim_inv ex lim T s (lim # l)"
  shows "round_ok E ex lim T A s (lim # l) (EventQueue_serviceOne (sim_process ex handler) 0 s)"
proof -
  let ?s1 = "service_state 0 lim s"
  have si: "sim_inv ex s (lim # l)" and nsq: "\<not> Event_squashed (sim_heap s lim)"
    and exit: "Event_isExitEvent (sim_heap s lim)" and T: "ev_when (sim_heap s lim) = T"
    using inv by (auto simp: lim_inv_def)
  obtain g where g: "ex lim = Some g" "exit_repeat g = 0" using inv by (auto simp: lim_inv_def)
  have rep: "queue_rep 0 s (lim # l)" using si by (simp add: sim_inv_def queue_inv_def)
  have p: "sim_process ex handler lim ?s1 = Inr ?s1"
    using g by (simp add: sim_process_def GlobalSimLoopExitEvent_process_def)
  have fl: "Event_isExitEvent (sim_heap ?s1 lim)" "\<not> Event_squashed (sim_heap ?s1 lim)" "\<not> Event_scheduled (sim_heap ?s1 lim)"
    "Event_initialized (sim_heap ?s1 lim)"
    using exit nsq sim_inv_initialized [OF si, of lim]
    by (simp_all add: Event_isExitEvent_def Event_squashed_def Event_scheduled_def Event_initialized_def Flags_isSet_clear_disjoint)
  have s1: "sim_inv ex ?s1 l" by (rule pop_inv(2) [OF si])
  have "EventQueue_serviceOne (sim_process ex handler) 0 s = Inr (?s1, Some lim)"
    using serviceOne_run [OF rep nsq, of "sim_process ex handler"] p finish_inv [OF s1, of lim] fl(1) by auto
  moreover have "curTick s \<le> T" using si T by (simp add: sim_inv_def queue_inv_def)
  ultimately show ?thesis
    using s1 g fl T by (auto simp: round_ok_def limit_ok_def intro!: exI [of _ l])
qed

lemma event_round:
  assumes inv: "lim_inv ex lim T s (e # l)" and e: "e \<noteq> lim" "\<not> Event_squashed (sim_heap s e)"
    and env: "env_ok env E A N" "lim \<notin> A" and rep: "repeats E ex"
  shows "round_ok E ex lim T A s (e # l) (EventQueue_serviceOne (sim_process ex (env_handler env)) 0 s)"
proof -
  let ?s1 = "service_state 0 e s"
  have si: "sim_inv ex s (e # l)" and T: "lim \<in> set (e # l)" "ev_when (sim_heap s lim) = T"
    using inv by (auto simp: lim_inv_def)
  have qrep: "queue_rep 0 s (e # l)" using si by (simp add: sim_inv_def queue_inv_def)
  note run = serviceOne_run [OF qrep e(2), of "sim_process ex (env_handler env)"]
  have "\<not> Event_scheduled (sim_heap ?s1 e)" "Event_initialized (sim_heap ?s1 e)"
    using sim_inv_initialized [OF si, of e] by (simp_all add: Event_scheduled_def Event_initialized_def)
  note res = process_lim [OF service_state_lim [OF inv e(1)] e(1) pop_inv(3) [OF si] env rep this]
  show ?thesis
  proof (cases "sim_process ex (env_handler env) e ?s1")
    case (Inl err)
    then show ?thesis using res run by (simp add: lim_result_def round_ok_def)
  next
    case (Inr s2)
    then obtain l2 where l2: "lim_inv ex lim T s2 l2" "curTick s2 = curTick ?s1" "set l2 \<subseteq> insert e (set l) \<union> A"
      "due_now s2 (set l2) \<subseteq> due_now ?s1 (set l)"
      using res by (auto simp: lim_result_def)
    then have t2: "curTick s2 = ev_when (sim_heap s e)" by simp
    note ord = tick_order [OF si T]
    have si2: "sim_inv ex s2 l2" using l2(1) by (simp add: lim_inv_def)
    from finish_inv [OF si2, of e] show ?thesis
    proof (elim disjE exE conjE)
      assume "serviceOne_finish e s2 = Inr (s2, Some e)" "ex e \<noteq> None"
      with run Inr ord(1,2) [OF t2 l2(4)] l2(3) si2 lim_inv_limit_ok [OF l2(1)] show ?thesis
        by (auto simp: round_ok_def intro!: exI [of _ l2])
    next
      fix s3 assume s3: "serviceOne_finish e s2 = Inr (s3, None)" "sim_inv ex s3 l2" "only_event e s2 s3"
        "\<forall>x. ev_when (sim_heap s3 x) = ev_when (sim_heap s2 x)"
      have t3: "curTick s3 = ev_when (sim_heap s e)" using only_eventD(1) [OF s3(3)] t2 by simp
      have "due_now s3 (set l2) = due_now s2 (set l2)" by (rule due_now_cong) (use s3(4) t3 t2 in auto)
      then have d3: "due_now s3 (set l2) \<subseteq> due_now ?s1 (set l)" using l2(4) by simp
      have "lim_inv ex lim T s3 l2"
        by (rule lim_inv_only [OF l2(1) s3(2,3) e(1)]) (use l2(1) in \<open>simp add: lim_inv_def\<close>)
      with run Inr s3(1) ord [OF t3 d3] l2(3) show ?thesis
        by (auto simp: round_ok_def intro!: exI [of _ l2])
    qed
  qed
qed

lemma serviceOne_round:
  assumes inv: "lim_inv ex lim T s l" and env: "env_ok env E A N" "lim \<notin> A" and rep: "repeats E ex"
  shows "round_ok E ex lim T A s l (EventQueue_serviceOne (sim_process ex (env_handler env)) 0 s)"
proof -
  obtain e k where l: "l = e # k" using inv by (cases l) (auto simp: lim_inv_def)
  have T: "curTick s \<le> T" using inv by (auto simp: lim_inv_def sim_inv_def queue_inv_def)
  show ?thesis
  proof (cases "Event_squashed (sim_heap s e)")
    case True
    from squashed_round [OF inv [unfolded l] True, of "sim_process ex (env_handler env)"] show ?thesis
      using T unfolding l by (fastforce simp: round_ok_def)
  next
    case False
    then show ?thesis using limit_round event_round [OF _ _ False env rep] inv unfolding l by blast
  qed
qed

section \<open>The loop ends\<close>

text \<open>
  The simulator between two runs. Nothing in the sources raises \<open>async_exception\<close>.
\<close>

definition world_ok :: "sim_env \<Rightarrow> gem5_error set \<Rightarrow> eptr set \<Rightarrow> sim_world \<Rightarrow> eptr list \<Rightarrow> bool" where
  "world_ok env E A w l \<longleftrightarrow> sim_inv (sw_exits w) (sw_sim w) l \<and> repeats E (sw_exits w) \<and>
    (\<forall>n \<ge> sw_news w. env_new env n \<notin> set l) \<and>
    \<not> async_exception (sw_async w) \<and> (\<forall>n. \<not> async_exception (env_signals env n)) \<and>
    (case simulate_limit_event w of
       None \<Rightarrow> True
     | Some lim \<Rightarrow> lim \<notin> A \<and> (\<forall>n \<ge> sw_news w. env_new env n \<noteq> lim) \<and> limit_ok (sw_exits w) lim (sw_sim w))"

text \<open>The simulator in a run that is to end at \<open>lim\<close>.\<close>

definition run_inv :: "sim_env \<Rightarrow> gem5_error set \<Rightarrow> eptr \<Rightarrow> Tick \<Rightarrow> sim_world \<Rightarrow> eptr list \<Rightarrow> bool" where
  "run_inv env E lim T w l \<longleftrightarrow> world_inv env E lim T w l \<and> simulate_limit_event w = Some lim \<and>
    \<not> async_exception (sw_async w) \<and> (\<forall>n. \<not> async_exception (env_signals env n))"

lemma run_inv_world_ok: "run_inv env E lim T w l \<Longrightarrow> lim \<notin> A \<Longrightarrow> world_ok env E A w l"
  by (auto simp: run_inv_def world_inv_def world_ok_def lim_inv_def dest: lim_inv_limit_ok)
    (auto simp: lim_inv_def intro: lim_inv_limit_ok)

definition step_ok :: "sim_env \<Rightarrow> gem5_error set \<Rightarrow> eptr \<Rightarrow> Tick \<Rightarrow> eptr set \<Rightarrow> sim_world \<Rightarrow> eptr list \<Rightarrow> (eptr option option \<times> sim_world) result \<Rightarrow> bool" where
  "step_ok env E lim T A w l r \<longleftrightarrow>
    (case r of
       Inl err \<Rightarrow> err \<in> fails E
     | Inr (ret, w') \<Rightarrow> curTick (sw_sim w) \<le> curTick (sw_sim w') \<and> curTick (sw_sim w') \<le> T \<and> (\<exists>l'.
         case ret of
           Some x \<Rightarrow> (\<exists>e. x = Some e \<and> sw_exits w' e \<noteq> None) \<and> world_ok env E A w' l'
         | None \<Rightarrow> run_inv env E lim T w' l' \<and> \<not> async_event (sw_async w') \<and>
             (\<not> async_event (sw_async w) \<longrightarrow> ((sw_sim w', l'), (sw_sim w, l)) \<in> sim_order T)))"

lemma serviceOne_step:
  assumes inv: "run_inv env E lim T w l" and quiet: "\<not> async_event (sw_async w)" and env: "env_ok env E A N" "lim \<notin> A"
  shows "step_ok env E lim T A w l (rbind (EventQueue_serviceOne (sim_process (sw_exits w) (env_handler env)) 0 (sw_sim w))
    (\<lambda>(s', exit_event). Inr (map_option Some exit_event, w\<lparr>sw_sim := s'\<rparr>)))"
proof -
  let ?r = "EventQueue_serviceOne (sim_process (sw_exits w) (env_handler env)) 0 (sw_sim w)"
  have lim: "lim_inv (sw_exits w) lim T (sw_sim w) l" "lim \<in> set l" and rep: "repeats E (sw_exits w)"
    using inv by (simp_all add: run_inv_def world_inv_def lim_inv_def)
  have new: "env_new env n \<notin> set l \<union> A" if "sw_news w \<le> n" for n
    using inv that env_ok_new [OF env(1)] by (simp add: run_inv_def world_inv_def)
  note round = serviceOne_round [OF lim(1) env rep]
  show ?thesis
  proof (cases ?r)
    case (Inl err)
    then show ?thesis using round by (simp add: round_ok_def step_ok_def)
  next
    case (Inr p)
    obtain s' exit where p: "p = (s', exit)" by (cases p)
    from round Inr p obtain l' where l': "set l' \<subseteq> set l \<union> A" "curTick (sw_sim w) \<le> curTick s'" "curTick s' \<le> T"
      "case exit of Some x \<Rightarrow> sw_exits w x \<noteq> None \<and> sim_inv (sw_exits w) s' l' \<and> limit_ok (sw_exits w) lim s'
        | None \<Rightarrow> lim_inv (sw_exits w) lim T s' l' \<and> ((s', l'), (sw_sim w, l)) \<in> sim_order T"
      by (auto simp: round_ok_def)
    have new': "env_new env n \<notin> set l'" "env_new env n \<noteq> lim" if "sw_news w \<le> n" for n
      using new [OF that] l'(1) lim(2) by blast+
    show ?thesis
    proof (cases exit)
      case None
      with l'(4) new' inv have "run_inv env E lim T (w\<lparr>sw_sim := s'\<rparr>) l'" by (simp add: run_inv_def world_inv_def)
      with None Inr p l' quiet show ?thesis by (auto simp: step_ok_def)
    next
      case (Some x)
      with l'(4) new' inv env(2) have "world_ok env E A (w\<lparr>sw_sim := s'\<rparr>) l'" by (simp add: run_inv_def world_inv_def world_ok_def)
      with Some Inr p l' show ?thesis by (auto simp: step_ok_def)
    qed
  qed
qed

lemma doSimLoop_step_ok:
  assumes inv: "run_inv env E lim T w l" and env: "env_ok env E A N" "lim \<notin> A"
  shows "step_ok env E lim T A w l (doSimLoop_step env w)"
proof -
  have w: "world_inv env E lim T w l" and ne: "\<not> async_exception (sw_async w)" using inv by (auto simp: run_inv_def)
  have si: "sim_inv (sw_exits w) (sw_sim w) l" and lim: "lim \<in> set l" using w by (simp_all add: world_inv_def lim_inv_def)
  then have "l \<noteq> []" by auto
  then have head: "eq_head (sim_queues (sw_sim w) 0) = Some (hd l)" by (rule sim_inv_head [OF si])
  have tick: "curTick (sw_sim w) \<le> ev_when (sim_heap (sw_sim w) (hd l))"
    by (rule sim_inv_ticks [OF si]) (simp add: \<open>l \<noteq> []\<close>)
  let ?k = "\<lambda>w1. rbind (EventQueue_serviceOne (sim_process (sw_exits w1) (env_handler env)) 0 (sw_sim w1))
      (\<lambda>(s', exit_event). Inr (map_option Some exit_event, w1\<lparr>sw_sim := s'\<rparr>))"
  have run: "doSimLoop_step env w = rbind (if async_event (sw_async w) then service_async env w else Inr (False, w))
      (\<lambda>(null, w1). if null then Inr (Some None, w1) else ?k w1)"
    using head tick by (simp add: doSimLoop_step_def EventQueue_empty_def EventQueue_nextTick_def)
  show ?thesis
  proof (cases "async_event (sw_async w)")
    case False
    then show ?thesis using run serviceOne_step [OF inv False env] by simp
  next
    case True
    show ?thesis
    proof (cases "service_async env w")
      case (Inl err)
      then show ?thesis using service_async_world [OF w env] run True by (simp add: step_ok_def)
    next
      case (Inr p)
      obtain null w1 where p: "p = (null, w1)" by (cases p)
      with Inr service_async_world [OF w env] ne obtain l1 where w1: "world_inv env E lim T w1 l1" "\<not> null"
        "curTick (sw_sim w1) = curTick (sw_sim w)" "simulate_limit_event w1 = simulate_limit_event w"
        "\<not> async_event (sw_async w1)" "\<not> async_exception (sw_async w1)"
        by auto
      have "run_inv env E lim T w1 l1" using w1 inv by (simp add: run_inv_def)
      from serviceOne_step [OF this w1(5) env] have "step_ok env E lim T A w1 l1 (?k w1)" .
      then have "step_ok env E lim T A w l (?k w1)"
        using w1(3) True unfolding step_ok_def by (auto split: sum.splits prod.splits option.splits)
      with run True Inr p w1(2) show ?thesis by simp
    qed
  qed
qed

definition loop_ok :: "sim_env \<Rightarrow> gem5_error set \<Rightarrow> Tick \<Rightarrow> eptr set \<Rightarrow> Tick \<Rightarrow> (eptr option \<times> sim_world) result \<Rightarrow> bool" where
  "loop_ok env E T A t r \<longleftrightarrow>
    (case r of
       Inl err \<Rightarrow> err \<in> fails E
     | Inr (ret, w') \<Rightarrow> t \<le> curTick (sw_sim w') \<and> curTick (sw_sim w') \<le> T \<and> (\<exists>e. ret = Some e \<and> sw_exits w' e \<noteq> None) \<and>
         (\<exists>l'. world_ok env E A w' l'))"

lemma loop_ok_mono: "loop_ok env E T A t' r \<Longrightarrow> t \<le> t' \<Longrightarrow> loop_ok env E T A t r"
  by (auto simp: loop_ok_def split: sum.splits)

text \<open>One round, followed by what the rest of the loop does if there is a rest.\<close>

lemma doSimLoop_round:
  assumes inv: "run_inv env E lim T w l" and env: "env_ok env E A N" "lim \<notin> A"
    and rest: "\<And>w' l'. run_inv env E lim T w' l' \<Longrightarrow> \<not> async_event (sw_async w') \<Longrightarrow>
      (\<not> async_event (sw_async w) \<Longrightarrow> \<not> async_event (env_signals env n) \<Longrightarrow> ((sw_sim w', l'), (sw_sim w, l)) \<in> sim_order T) \<Longrightarrow>
      \<exists>r. doSimLoop_loop env (Suc n) w' = Some r \<and> loop_ok env E T A (curTick (sw_sim w')) r"
  shows "\<exists>r. doSimLoop_loop env n w = Some r \<and> loop_ok env E T A (curTick (sw_sim w)) r"
proof -
  let ?w = "w\<lparr>sw_async := raise_async (sw_async w) (env_signals env n)\<rparr>"
  have inv': "run_inv env E lim T ?w l"
    using inv by (simp add: run_inv_def world_inv_def raise_async_def)
  note step = doSimLoop_step_ok [OF inv' env]
  note unroll = doSimLoop_loop.simps [of env n w]
  show ?thesis
  proof (cases "doSimLoop_step env ?w")
    case (Inl err)
    then show ?thesis using unroll step by (simp add: step_ok_def loop_ok_def)
  next
    case (Inr p)
    obtain ret w' where p: "p = (ret, w')" by (cases p)
    from step Inr p have ticks: "curTick (sw_sim w) \<le> curTick (sw_sim w')" "curTick (sw_sim w') \<le> T"
      by (simp_all add: step_ok_def)
    show ?thesis
    proof (cases ret)
      case None
      from step Inr p None obtain l' where l': "run_inv env E lim T w' l'" "\<not> async_event (sw_async w')"
        "\<not> async_event (sw_async ?w) \<Longrightarrow> ((sw_sim w', l'), (sw_sim w, l)) \<in> sim_order T"
        by (auto simp: step_ok_def)
      have "\<exists>r. doSimLoop_loop env (Suc n) w' = Some r \<and> loop_ok env E T A (curTick (sw_sim w')) r"
        by (rule rest [OF l'(1,2)]) (rule l'(3), simp add: raise_async_def)
      then show ?thesis using unroll Inr p None loop_ok_mono [OF _ ticks(1)] by auto
    next
      case (Some x)
      with step Inr p ticks have "loop_ok env E T A (curTick (sw_sim w)) (Inr (x, w'))"
        by (auto simp: step_ok_def loop_ok_def)
      with unroll Inr p Some show ?thesis by simp
    qed
  qed
qed

lemma quiet_loop:
  assumes "run_inv env E lim T w l" "\<not> async_event (sw_async w)" "N \<le> n" and env: "env_ok env E A N" "lim \<notin> A"
  shows "\<exists>r. doSimLoop_loop env n w = Some r \<and> loop_ok env E T A (curTick (sw_sim w)) r"
  using assms(1-3)
proof (induction "(sw_sim w, l)" arbitrary: w l n rule: wf_induct_rule [OF wf_sim_order [of T]])
  case 1
  have "\<not> async_event (env_signals env n)" using env(1) 1(4) by (simp add: env_ok_def)
  with 1 show ?case by (intro doSimLoop_round [OF 1(2) env]) auto
qed

lemma doSimLoop_loop_returns:
  assumes "run_inv env E lim T w l" and env: "env_ok env E A N" "lim \<notin> A"
  shows "\<exists>r. doSimLoop_loop env n w = Some r \<and> loop_ok env E T A (curTick (sw_sim w)) r"
  using assms(1)
proof (induction "N - n" arbitrary: n w l)
  case 0
  show ?case
  proof (rule doSimLoop_round [OF 0(2) env])
    fix w' l' assume "run_inv env E lim T w' l'" "\<not> async_event (sw_async w')"
    then show "\<exists>r. doSimLoop_loop env (Suc n) w' = Some r \<and> loop_ok env E T A (curTick (sw_sim w')) r"
      using 0(1) by (intro quiet_loop [OF _ _ _ env]) auto
  qed
next
  case (Suc k)
  show ?case by (rule doSimLoop_round [OF Suc(3) env]) (use Suc in auto)
qed

lemma doSimLoop_returns:
  assumes inv: "run_inv env E lim T w l" and env: "env_ok env E A N" "lim \<notin> A"
  shows "loop_ok env E T A (curTick (sw_sim w)) (doSimLoop env w)"
proof -
  let ?s = "(sw_sim w)\<lparr>curEventQueue := Some 0\<rparr>"
  have si: "lim_inv (sw_exits w) lim T (sw_sim w) l" using inv by (simp add: run_inv_def world_inv_def)
  then have async: "async_queue (sim_queues (sw_sim w) 0) = []" by (simp add: lim_inv_def sim_inv_def)
  have q: "queue_rep 0 (sw_sim w) l" "queue_inv 0 (sw_sim w) l"
    using si by (simp_all add: lim_inv_def sim_inv_def queue_inv_def)
  have "queue_rep 0 ?s l" by (rule queue_rep_cong [OF q(1)]) (auto simp: ev_key_def)
  then have "queue_inv 0 ?s l" using q(2) by (simp add: queue_inv_def owned_by_def)
  then have "lim_inv (sw_exits w) lim T ?s l" using si by (simp add: lim_inv_def sim_inv_def owned_by_def)
  then have "run_inv env E lim T (w\<lparr>sw_sim := ?s\<rparr>) l" using inv by (simp add: run_inv_def world_inv_def)
  from doSimLoop_loop_returns [OF this env, of 0] obtain r where
    "doSimLoop_loop env 0 (w\<lparr>sw_sim := ?s\<rparr>) = Some r" "loop_ok env E T A (curTick (sw_sim w)) r" by auto
  then show ?thesis using async
    by (simp add: doSimLoop_def EventQueue_handleAsyncInsertions_def)
qed

section \<open>The limit\<close>

lemma exit_flags [simp]:
  "Flags_isSet (Flags_set fl Scheduled) IsExitEvent = Flags_isSet fl IsExitEvent"
  "Flags_isSet (Flags_clear fl Squashed) IsExitEvent = Flags_isSet fl IsExitEvent"
  by (simp_all add: Flags_isSet_set Flags_isSet_clear_disjoint) (simp add: Flags_isSet_def)

lemma reschedule_limit:
  assumes inv: "sim_inv ex s l" and lim: "limit_ok ex lim s" and tick: "curTick s \<le> tick"
  shows "\<exists>s' l'. BaseGlobalEvent_reschedule lim tick s = Inr s' \<and> lim_inv ex lim tick s' l' \<and> curTick s' = curTick s \<and>
    set l' = insert lim (set l)"
proof -
  obtain s' l' where s': "BaseGlobalEvent_reschedule lim tick s = Inr s'" "sim_inv ex s' l'" "only_event lim s s'"
    "set l' = insert lim (set l)" "ev_when (sim_heap s' lim) = tick"
    "Event_isExitEvent (sim_heap s' lim)" "\<not> Event_squashed (sim_heap s' lim)"
  proof (cases "Event_scheduled (sim_heap s lim)")
    case True
    with reschedule_ok [OF inv, of tick False lim] lim tick that show ?thesis
      by (auto simp: BaseGlobalEvent_reschedule_def limit_ok_def Event_isExitEvent_def Event_squashed_def)
  next
    case False
    with schedule_ok [OF inv, of tick lim True] lim tick that show ?thesis
      by (auto simp: BaseGlobalEvent_reschedule_def limit_ok_def Event_isExitEvent_def Event_squashed_def)
  qed
  then have "lim_inv ex lim tick s' l'" using lim by (simp add: lim_inv_def limit_ok_def)
  with s' only_eventD(1) [OF s'(3)] show ?thesis by blast
qed

text \<open>Setting the limit succeeds.\<close>

definition limit_set :: "sim_env \<Rightarrow> gem5_error set \<Rightarrow> eptr set \<Rightarrow> Tick \<Rightarrow> sim_world \<Rightarrow> sim_world result \<Rightarrow> bool" where
  "limit_set env E A tick w r \<longleftrightarrow>
    (\<exists>w' lim l'. r = Inr w' \<and> curTick (sw_sim w') = curTick (sw_sim w) \<and> lim \<notin> A \<and> run_inv env E lim tick w' l')"

lemma limit_setI:
  assumes inv: "sim_inv (sw_exits w) (sw_sim w) l" and lim: "limit_ok (sw_exits w) lim (sw_sim w)"
    and tick: "curTick (sw_sim w) \<le> tick" and rep: "repeats E (sw_exits w)"
    and new: "\<And>n. sw_news w \<le> n \<Longrightarrow> env_new env n \<notin> insert lim (set l)" and A: "lim \<notin> A"
    and rest: "simulate_limit_event w = Some lim" "\<not> async_exception (sw_async w)" "\<forall>n. \<not> async_exception (env_signals env n)"
  shows "limit_set env E A tick w (rbind (BaseGlobalEvent_reschedule lim tick (sw_sim w)) (\<lambda>s. Inr (w\<lparr>sw_sim := s\<rparr>)))"
proof -
  obtain s' l' where l': "BaseGlobalEvent_reschedule lim tick (sw_sim w) = Inr s'" "lim_inv (sw_exits w) lim tick s' l'"
    "curTick s' = curTick (sw_sim w)" "set l' = insert lim (set l)"
    using reschedule_limit [OF inv lim tick] by blast
  then have "run_inv env E lim tick (w\<lparr>sw_sim := s'\<rparr>) l'"
    using new rest rep by (simp add: run_inv_def world_inv_def)
  with l'(1,3) A show ?thesis by (auto simp: limit_set_def)
qed

lemma set_max_tick_ok:
  assumes w: "world_ok env E A w l" and env: "env_ok env E A N" and tick: "curTick (sw_sim w) \<le> tick"
  shows "limit_set env E A tick w (set_max_tick env tick w)"
proof (cases "simulate_limit_event w")
  case (Some lim)
  then have "limit_set env E A tick w (rbind (BaseGlobalEvent_reschedule lim tick (sw_sim w)) (\<lambda>s. Inr (w\<lparr>sw_sim := s\<rparr>)))"
    using w tick by (intro limit_setI) (auto simp: world_ok_def)
  with Some show ?thesis by (simp add: set_max_tick_def)
next
  case None
  let ?p = "env_new env (sw_news w)" and ?t = "curTick (sw_sim w)"
  let ?ex = "(sw_exits w)(?p \<mapsto> \<lparr>exit_cause = ''simulate() limit reached'', exit_code = 0, exit_repeat = 0\<rparr>)"
  have si: "sim_inv (sw_exits w) (sw_sim w) l" and new: "\<And>n. sw_news w \<le> n \<Longrightarrow> env_new env n \<notin> set l"
    and ne: "\<not> async_exception (sw_async w)" "\<forall>n. \<not> async_exception (env_signals env n)" and rep: "repeats E (sw_exits w)"
    using w by (auto simp: world_ok_def)
  have inj: "env_new env n \<noteq> ?p" if "Suc (sw_news w) \<le> n" for n
    using env that by (auto simp: env_ok_def dest: injD)
  obtain s1 where s1: "GlobalEvent_new ?p ?t Sim_Exit_Pri IsExitEvent (sw_sim w) = EventQueue_schedule 0 ?p ?t True s1"
    "sim_inv ?ex s1 l" "sim_queues s1 = sim_queues (sw_sim w)" "ev_flags (sim_heap s1 ?p) = Initialized OR IsExitEvent"
    using GlobalEvent_new_schedule [OF si new [OF order.refl], of ?ex IsExitEvent ?t Sim_Exit_Pri] by auto
  have "curTick s1 \<le> ?t" "\<not> Event_scheduled (sim_heap s1 ?p)" "Event_initialized (sim_heap s1 ?p)"
    using s1(3,4) by (simp_all add: Event_scheduled_def Event_initialized_def Flags_isSet_def)
  then obtain s2 l2 where l2: "EventQueue_schedule 0 ?p ?t True s1 = Inr s2" "sim_inv ?ex s2 l2" "only_event ?p s1 s2"
    "set l2 = insert ?p (set l)" "ev_flags (sim_heap s2 ?p) = Flags_set (Initialized OR IsExitEvent) Scheduled"
    using schedule_ok [OF s1(2), of ?t ?p True] s1(4) by auto
  let ?w = "w\<lparr>sw_sim := s2, sw_exits := ?ex, sw_news := Suc (sw_news w), simulate_limit_event := Some ?p\<rparr>"
  have cur: "curTick (sw_sim ?w) = curTick (sw_sim w)" using only_eventD(1) [OF l2(3)] s1(3) by simp
  have "owned_by 0 s2 ?p" "Event_initialized (sim_heap s2 ?p)"
    using l2(2,4) sim_inv_initialized [OF l2(2), of ?p] by (auto simp: sim_inv_def queue_inv_def)
  then have lim: "limit_ok ?ex ?p s2"
    using l2(5) by (simp add: limit_ok_def Event_isExitEvent_def Event_squashed_def) (simp add: Flags_isSet_def)
  have "limit_set env E A tick ?w (rbind (BaseGlobalEvent_reschedule ?p tick (sw_sim ?w)) (\<lambda>s. Inr (?w\<lparr>sw_sim := s\<rparr>)))"
  proof (rule limit_setI)
    show "sim_inv (sw_exits ?w) (sw_sim ?w) l2" "limit_ok (sw_exits ?w) ?p (sw_sim ?w)" using l2(2) lim by simp_all
    show "curTick (sw_sim ?w) \<le> tick" using cur tick by simp
    show "repeats E (sw_exits ?w)" using rep by (simp add: repeats_def)
    show "env_new env n \<notin> insert ?p (set l2)" if "sw_news ?w \<le> n" for n using that new inj l2(4) by simp
  qed (use ne env_ok_new [OF env] in simp_all)
  moreover have "set_max_tick env tick w = rbind (BaseGlobalEvent_reschedule ?p tick (sw_sim ?w)) (\<lambda>s. Inr (?w\<lparr>sw_sim := s\<rparr>))"
    using None s1(1) l2(1) by (simp add: set_max_tick_def GlobalSimLoopExitEvent_new_def Let_def)
  ultimately show ?thesis unfolding limit_set_def cur by (simp only:)
qed

section \<open>Simulation\<close>

text \<open>The tick at which a simulation for a number of cycles has to be over.\<close>

definition tick_limit :: "Tick \<Rightarrow> sim_world \<Rightarrow> nat" where
  "tick_limit num_cycles w =
    (if num_cycles = - 1 then unat (get_max_tick w)
     else min (unat (curTick (sw_sim w)) + unat num_cycles) (2 ^ 64 - 1))"

lemma max_tick_value:
  fixes cur num :: Tick
  shows "unat (if num < MaxTick - cur then cur + num else MaxTick) = min (unat cur + unat num) (2 ^ 64 - 1)"
proof -
  have top: "unat (- 1 :: Tick) = 2 ^ 64 - 1" by (simp add: unsigned_minus_1_eq_mask mask_eq_exp_minus_1)
  have "unat (MaxTick - cur) = 2 ^ 64 - 1 - unat cur" by (subst unat_sub) (simp_all add: top)
  then have less: "num < MaxTick - cur \<longleftrightarrow> unat num < 2 ^ 64 - 1 - unat cur" by (simp add: word_less_nat_alt)
  show ?thesis
  proof (cases "num < MaxTick - cur")
    case True
    then have "unat cur + unat num < 2 ^ 64" using less by linarith
    then have "unat (cur + num) = unat cur + unat num" by (intro unat_add_lem [THEN iffD1]) simp
    with True less show ?thesis by simp
  next
    case False
    with less show ?thesis by (simp add: top)
  qed
qed

abbreviation max_tick :: "Tick \<Rightarrow> sim_world \<Rightarrow> Tick" where
  "max_tick num_cycles w \<equiv>
    (if num_cycles < MaxTick - curTick (sw_sim w) then curTick (sw_sim w) + num_cycles else MaxTick)"

lemma max_tick_later: "curTick (sw_sim w) \<le> max_tick num_cycles w"
proof -
  have "unat (curTick (sw_sim w)) < 2 ^ 64" using unsigned_less [of "curTick (sw_sim w)"] by simp
  then have "unat (curTick (sw_sim w)) \<le> 2 ^ 64 - 1" by linarith
  then show ?thesis using max_tick_value [of num_cycles "curTick (sw_sim w)"] by (simp only: word_le_nat_alt)
qed

lemma simulate_limit:
  assumes w: "world_ok env E A w l" and env: "env_ok env E A N"
    and lim: "num_cycles \<noteq> - 1 \<or> simulate_limit_event w = None \<or> Event_scheduled (sim_heap (sw_sim w) (the (simulate_limit_event w)))"
  shows "\<exists>T. unat T = tick_limit num_cycles w \<and>
    limit_set env E A T w (rbind (if simulate_limit_event w = None then set_max_tick env MaxTick w else Inr w)
      (\<lambda>w1. if num_cycles \<noteq> - 1 then set_max_tick env (max_tick num_cycles w1) w1 else Inr w1))"
    (is "\<exists>T. _ \<and> limit_set env E A T w (rbind ?r ?f)")
proof -
  let ?T = "max_tick num_cycles w"
  have limit: "unat ?T = tick_limit num_cycles w" if "num_cycles \<noteq> - 1"
    using that max_tick_value [of num_cycles "curTick (sw_sim w)"] by (simp only: tick_limit_def if_False)
  show ?thesis
  proof (cases "simulate_limit_event w")
    case None
    obtain w1 e l1 where w1: "set_max_tick env MaxTick w = Inr w1" "curTick (sw_sim w1) = curTick (sw_sim w)" "e \<notin> A"
      "run_inv env E e MaxTick w1 l1"
      using set_max_tick_ok [OF w env, of MaxTick] by (auto simp: limit_set_def)
    show ?thesis
    proof (cases "num_cycles = - 1")
      case True
      with None w1 show ?thesis by (intro exI [of _ MaxTick]) (auto simp: limit_set_def tick_limit_def get_max_tick_def)
    next
      case False
      have "limit_set env E A ?T w1 (set_max_tick env ?T w1)"
        using max_tick_later [of w num_cycles] w1(2) by (intro set_max_tick_ok [OF run_inv_world_ok [OF w1(4,3)] env]) (simp only:)
      then have "limit_set env E A ?T w (?f w1)"
        unfolding limit_set_def by (simp only: w1(2) False not_False_eq_True if_True)
      with None w1(1) limit [OF False] show ?thesis by (intro exI [of _ ?T]) (simp only: refl if_True rbind_Inr)
    qed
  next
    case (Some e)
    show ?thesis
    proof (cases "num_cycles = - 1")
      case False
      with set_max_tick_ok [OF w env max_tick_later] Some limit show ?thesis by (intro exI [of _ ?T]) simp
    next
      case True
      let ?S = "ev_when (sim_heap (sw_sim w) e)"
      have "e \<notin> A" "limit_ok (sw_exits w) e (sw_sim w)" "sim_inv (sw_exits w) (sw_sim w) l"
        using w Some by (auto simp: world_ok_def)
      then have "run_inv env E e ?S w l"
        using w Some lim True by (simp add: run_inv_def world_inv_def lim_inv_def limit_ok_def world_ok_def) (simp add: sim_inv_def)
      with Some True \<open>e \<notin> A\<close> show ?thesis
        by (intro exI [of _ ?S]) (auto simp: tick_limit_def get_max_tick_def limit_set_def)
    qed
  qed
qed

lemma simulate_run:
  assumes inv: "run_inv env E lim T w2 l" and env: "env_ok env E A N" "lim \<notin> A"
  shows "case rbind (doSimLoop env w2) (\<lambda>(local_event, w3).
      case local_event of
        None \<Rightarrow> Inl (AssertFail ''local_event'')
      | Some e \<Rightarrow> assert_that (sw_exits w3 e \<noteq> None) ''global_event''
          (Inr (e, w3\<lparr>sw_sim := (sw_sim w3)\<lparr>inParallelMode := False\<rparr>\<rparr>))) of
      Inl err \<Rightarrow> err \<in> fails E
    | Inr (e, w') \<Rightarrow> sw_exits w' e \<noteq> None \<and> curTick (sw_sim w2) \<le> curTick (sw_sim w') \<and> curTick (sw_sim w') \<le> T \<and>
        (\<exists>l'. world_ok env E A w' l')"
proof (cases "doSimLoop env w2")
  case (Inl err)
  then show ?thesis using doSimLoop_returns [OF inv env] by (simp add: loop_ok_def)
next
  case (Inr p)
  obtain ret w3 where p: "p = (ret, w3)" by (cases p)
  with Inr doSimLoop_returns [OF inv env] obtain e l' where e: "ret = Some e" "sw_exits w3 e \<noteq> None"
    "curTick (sw_sim w2) \<le> curTick (sw_sim w3)" "curTick (sw_sim w3) \<le> T" "world_ok env E A w3 l'"
    by (auto simp: loop_ok_def)
  have "\<not> inParallelMode (sw_sim w3)" using e(5) by (simp add: world_ok_def sim_inv_def)
  then have "w3\<lparr>sw_sim := (sw_sim w3)\<lparr>inParallelMode := False\<rparr>\<rparr> = w3"
    by (cases w3; cases "sw_sim w3") simp
  with Inr p e show ?thesis by auto
qed

text \<open>A simulator with the two events of the queue above, which schedule themselves every ten ticks.\<close>

definition quiet :: async_flags where
  "quiet = \<lparr>async_event = False, async_statdump = False, async_statreset = False, async_io = False,
     async_exit = False, async_exception = False\<rparr>"

definition demo_calls :: "eptr \<Rightarrow> sim_state \<Rightarrow> queue_call list" where
  "demo_calls e s =
    (if e \<in> {1, 2} \<and> curTick s < 1000 \<and> \<not> Event_scheduled (sim_heap s e) \<and> Event_initialized (sim_heap s e)
     then [QSchedule e (curTick s + 10)] else [])"

definition demo_env :: sim_env where
  "demo_env = \<lparr>simQuantum = 0, env_handler = (\<lambda>e s. calls_do (demo_calls e s) s),
     env_poll = Inr, env_new = (\<lambda>n. 100 + n), env_signals = (\<lambda>_. quiet)\<rparr>"

definition demo_world :: sim_world where
  "demo_world = \<lparr>sw_sim = demo_sim, sw_exits = Map.empty, sw_async = quiet, simulate_limit_event = None, sw_news = 0\<rparr>"

lemma demo_env_ok: "env_ok demo_env {} {1, 2} 0"
proof -
  have later: "t < t + 10" if "t < 1000" for t :: Tick
    using that by (simp add: word_less_nat_alt unat_word_ariths)
  have "list_all (\<lambda>c. call_target c \<in> {1, 2} \<and> later_call (curTick s) c) (demo_calls e s)" for e s
    using later by (simp add: demo_calls_def)
  then have "\<exists>cs. env_handler demo_env e s = calls_do cs s \<and> list_all (\<lambda>c. call_target c \<in> {1, 2} \<and> later_call (curTick s) c) cs" for e s
    by (auto simp: demo_env_def)
  moreover have "\<exists>cs. env_poll demo_env s = calls_do cs s \<and> list_all (\<lambda>c. call_target c \<in> {1, 2}) cs" for s
    by (auto simp: demo_env_def intro!: exI [of _ "[]"])
  moreover have "env_handler demo_env e s \<noteq> Inl err" if "sim_inv ex s l" for ex e s l err
  proof (cases "demo_calls e s = []")
    case False
    then have "curTick s \<le> curTick s + 10" "\<not> Event_scheduled (sim_heap s e)" "Event_initialized (sim_heap s e)"
      "demo_calls e s = [QSchedule e (curTick s + 10)]"
      using later [of "curTick s"] by (auto simp: demo_calls_def split: if_splits)
    with schedule_ok [OF that, of "curTick s + 10" e False] show ?thesis by (auto simp: demo_env_def)
  qed (simp add: demo_env_def)
  ultimately show ?thesis by (auto simp: env_ok_def demo_env_def quiet_def inj_def)
qed

lemma demo_world_ok: "world_ok demo_env {} {1, 2} demo_world [1, 2]"
  using demo_inv
  by (auto simp: world_ok_def sim_inv_def demo_world_def demo_env_def demo_sim_def demo_heap_def quiet_def repeats_def
      Event_scheduled_def Event_isExitEvent_def Flags_isSet_def split: if_splits)

text \<open>A simulator with nothing but a limit event, as it is between two runs.\<close>

definition idle_env :: sim_env where
  "idle_env = \<lparr>simQuantum = 0, env_handler = (\<lambda>_. Inr), env_poll = Inr, env_new = (\<lambda>n. n), env_signals = (\<lambda>_. quiet)\<rparr>"

definition idle_world :: sim_world where
  "idle_world =
    \<lparr>sw_sim = \<lparr>sim_heap = (\<lambda>_. \<lparr>nextBin = None, nextInBin = None, ev_when = 0, ev_priority = Sim_Exit_Pri,
         ev_flags = Initialized OR IsExitEvent, ev_queue = None\<rparr>),
       sim_queues = (\<lambda>_. EventQueue_new ''MainEventQueue-0''), inParallelMode = False, curEventQueue = Some 0, deleted = []\<rparr>,
     sw_exits = [0 \<mapsto> \<lparr>exit_cause = ''simulate() limit reached'', exit_code = 0, exit_repeat = 0\<rparr>], sw_async = quiet,
     simulate_limit_event = Some 0, sw_news = 1\<rparr>"

section \<open>Properties\<close>

text \<open>
  C2: A simulation ends. Let the handlers call the queue for events of their own and for later ticks only, and
  let finitely many signals ask for statistics, input or an interrupt. Then \<open>simulate\<close> returns an exit event no later
  than at the current tick plus the cycles asked for, without wrap-around, and leaves the simulator ready for the
  next run. The only way it can fail is that a handler does, in a state with a well-formed queue and on an assertion
  about its own call, or that the tick of a repeated exit event or the quantum wraps around; if \<open>E\<close>, the set of these
  errors, is empty, it returns. For the default number of cycles the limit event has to be in the queue.
\<close>

theorem simulate_returns:
  assumes "world_ok env E A w l" "env_ok env E A N"
    and "num_cycles \<noteq> - 1 \<or> simulate_limit_event w = None \<or> Event_scheduled (sim_heap (sw_sim w) (the (simulate_limit_event w)))"
  shows "case simulate env num_cycles w of
      Inl err \<Rightarrow> err \<in> E \<inter> AssertFail ` client_asserts
    | Inr (e, w') \<Rightarrow> sw_exits w' e \<noteq> None \<and> curTick (sw_sim w) \<le> curTick (sw_sim w') \<and>
        unat (curTick (sw_sim w')) \<le> tick_limit num_cycles w \<and> (\<exists>l'. world_ok env E A w' l')"
proof -
  obtain T w2 lim l2 where T: "unat T = tick_limit num_cycles w"
    and w2: "rbind (if simulate_limit_event w = None then set_max_tick env MaxTick w else Inr w)
      (\<lambda>w1. if num_cycles \<noteq> - 1 then set_max_tick env (max_tick num_cycles w1) w1 else Inr w1) = Inr w2"
      "lim \<notin> A" "run_inv env E lim T w2 l2" "curTick (sw_sim w2) = curTick (sw_sim w)"
    using simulate_limit [OF assms] unfolding limit_set_def by blast
  from simulate_run [OF w2(3) assms(2) w2(2)] w2(1,4) T show ?thesis
    by (simp add: simulate_def word_le_nat_alt fails_def flip: rbind_assoc split: sum.splits prod.splits)
qed

theorem simulate_returns_witness:
  "\<exists>e w'. simulate demo_env 30 demo_world = Inr (e, w') \<and> sw_exits w' e \<noteq> None \<and> unat (curTick (sw_sim w')) \<le> 35"
proof -
  have "(30 :: Tick) \<noteq> - 1" by simp
  moreover have "tick_limit 30 demo_world = 35"
    by (simp add: demo_world_def demo_sim_def tick_limit_def)
  ultimately show ?thesis
    using simulate_returns [OF demo_world_ok demo_env_ok, of 30] by (auto split: sum.splits)
qed

text \<open>
  C38: After a simulation that ended at its limit, a simulation for the default number of cycles sets no
  limit: the limit event exists and is no longer in the queue. If no other event is left, the loop
  stops at the assertion that the queue is not empty, although its comment says that the limit event
  has just been scheduled.
\<close>

theorem simulate_default_asserts:
  assumes "simulate_limit_event w \<noteq> None" "EventQueue_empty 0 (sw_sim w)" "async_queue (sim_queues (sw_sim w) 0) = []"
  shows "simulate env (- 1) w = Inl (AssertFail ''!eventq->empty()'')"
proof -
  have "doSimLoop env w = Inl (AssertFail ''!eventq->empty()'')"
    using assms(2,3)
    by (simp add: doSimLoop_def EventQueue_handleAsyncInsertions_def doSimLoop_step_def EventQueue_empty_def
        doSimLoop_loop.simps [of env 0])
  with assms(1) show ?thesis by (auto simp: simulate_def)
qed

theorem simulate_default_asserts_witness:
  "\<exists>e w. simulate idle_env 10 idle_world = Inr (e, w) \<and> curTick (sw_sim w) = 10 \<and>
     simulate idle_env (- 1) w = Inl (AssertFail ''!eventq->empty()'')"
proof -
  have "map_sum id (\<lambda>(e, w). (curTick (sw_sim w), EventQueue_empty 0 (sw_sim w), async_queue (sim_queues (sw_sim w) 0),
      simulate_limit_event w)) (simulate idle_env 10 idle_world) = Inr (10, True, [], Some 0)"
    by code_simp
  then obtain e w where w: "simulate idle_env 10 idle_world = Inr (e, w)" "curTick (sw_sim w) = 10"
    "EventQueue_empty 0 (sw_sim w)" "async_queue (sim_queues (sw_sim w) 0) = []" "simulate_limit_event w \<noteq> None"
    by (cases "simulate idle_env 10 idle_world") auto
  with simulate_default_asserts [OF w(5,3,4), of idle_env] show ?thesis by blast
qed

end
