(* ===== verification/Spec2Isabelle.thy ===== *)
theory Spec2Isabelle
  imports Event_Queue_Correct Addr_Range_Correct Circular_Queue Bloom_Filter_Correct
    Replacement_Correct Indexing_Correct O3_Rename_Progress Snoop_Filter_Correct Compressor_Correct
    Cache_Tags_Correct Stack_Dist_Correct Sim_Loop_Correct
begin

text \<open>
  \<^bold>\<open>A verification library for the gem5 simulator.\<close>

  gem5 is a discrete-event simulator of computer systems. Simulated objects (CPUs, caches, buses,
  devices) put events into event queues; the main loop services the earliest one, whose handler
  changes the state of objects and schedules further events. CPUs issue memory requests, which
  travel as packets through caches and crossbars to the memories. The library models the
  components of this machinery that are written as data structures and algorithms of their own,
  from the sources under \<open>src/gem5/src\<close>, and proves what their clients rely on.

  \<^bold>\<open>Conventions.\<close> A definition \<open>Class_method\<close> models the method of that class; a template or a free
  function keeps its name, with a short prefix where HOL uses the name. A class is a record of its
  members. Ticks and addresses are 64-bit words, other machine integers words of their width
  or, where no value can wrap, natural numbers. State is passed and returned. An operation that
  can end abnormally returns \<^typ>\<open>'a result\<close>, where \<open>Inl\<close> carries the \<open>panic\<close>, \<open>fatal\<close>, failed
  \<open>assert\<close>, exception, undefined behaviour or divergence (theory \<open>Gem5_Prelude\<close>). Loops over
  pointer structures that might not end are \<open>partial_function (option)\<close>, and the theorems that say
  they return establish the result; all other loops are structural recursion or carry a termination
  measure, so no model runs on fuel. Statistics, tracing and printing are left out throughout.

  \<^bold>\<open>Foundations.\<close>
  \<^item> \<open>Gem5_Prelude\<close>: abnormal outcomes, stable sorting, shared list and word lemmas.
  \<^item> \<open>Gem5_Flags\<close>: the flag sets of \<open>base/flags.hh\<close>, used by events, requests and packets.
  \<^item> \<open>Bitfield\<close>: \<open>base/bitfield.hh\<close> and \<open>base/intmath.hh\<close>; logarithms, multiplication without a wide
    type, and rounding are exact, the bit searches agree with their fallbacks.
  \<^item> \<open>Sat_Counter\<close>: \<open>base/sat_counter.hh\<close>; arithmetic clamps at the bounds.
  \<^item> \<open>Circular_Queue\<close>: \<open>base/circular_queue.hh\<close>; refines a bounded list (locale \<open>bounded_queue\<close>),
    including the wrap-around of its 64-bit indices.
  \<^item> \<open>Addr_Range\<close>, \<open>Addr_Range_Correct\<close>: \<open>base/addr_range.hh\<close>; removing the interleaving bits of an
    address and adding them is a round trip, merging the stripes of a range gives the range,
    exclusion is set difference.
  \<^item> \<open>Bloom_Filter\<close>, \<open>Bloom_Filter_Correct\<close>: all classes of \<open>base/filters\<close>; no false negatives, proved
    once for any hash family (locale \<open>hashed_filter\<close>).

  \<^bold>\<open>The event queue.\<close> \<open>Event_Queue\<close> models \<open>sim/eventq.hh\<close> and \<open>sim/eventq.cc\<close>: events are cells of a
  heap linked by \<open>nextBin\<close> and \<open>nextInBin\<close>. \<open>Event_Queue_Correct\<close> relates the pointer structure to
  a sorted list of events (locale \<open>timed_queue\<close>): insertion and removal refine the list operations,
  scheduling and descheduling keep the invariant, the earliest event is serviced, servicing up
  to a tick ends, with the events that were due serviced in order and none left, also when handlers rearm
  their events (\<open>well_behaved\<close>), \<open>debugVerify\<close> accepts exactly the sorted queues.

  \<^bold>\<open>The main loop.\<close> \<open>Sim_Loop\<close> models \<open>sim/simulate.cc\<close> with the global exit events of \<open>sim/sim_events.cc\<close> and
  \<open>sim/global_event.cc\<close>, on top of the event queue and for one main queue: \<open>simulate\<close> sets the limit event, and
  \<open>doSimLoop\<close> serves the requests of signals and services events until an exit event comes up. \<open>Sim_Loop_Correct\<close>
  lets handlers be arbitrary programs of calls to the queue (\<open>queue_call\<close>): no program corrupts the queue, because a
  call that the state does not allow is stopped by an assertion, and if handlers schedule for later ticks only, the
  loop ends by the limit. Each round decreases the time left, the number of events due at the current tick, or the
  length of the queue. The second run for the default number of cycles may be without a limit event.

  \<^bold>\<open>Register renaming.\<close> \<open>O3_Rename\<close> models the free lists, rename maps and the scoreboard of
  \<open>cpu/o3\<close>, and what \<open>rename.cc\<close> does with them; \<open>rename_run\<close> executes any sequence of renames,
  squashes, commits and releases. \<open>O3_Rename_Correct\<close>: no physical register is lost or doubled, a
  squash restores the map, \<open>canRename\<close> suffices for success unless an instruction pins a
  pinned register (\<open>pins_twice\<close>). \<open>O3_Rename_Progress\<close>: renaming is never
  stuck for good.

  \<^bold>\<open>The memory system.\<close>
  \<^item> \<open>Mem_Request\<close>, \<open>Packet\<close>, \<open>Packet_Correct\<close>: \<open>mem/request.hh\<close> and \<open>mem/packet.hh\<close>; the command
    table is well formed, functional accesses act like one memory, splitting a request divides it.
  \<^item> \<open>Snoop_Filter\<close>, \<open>Snoop_Filter_Correct\<close>: \<open>mem/snoop_filter.cc\<close> with the calls the coherent
    crossbar makes to it; a cache that may hold a line is always snooped.
  \<^item> \<open>Indexing\<close>, \<open>Indexing_Correct\<close>: the indexing policies of \<open>mem/cache/tags/indexing_policies\<close>
    (locale \<open>indexing_policy\<close>); the address of a block is regenerated from tag and position.
  \<^item> \<open>Replacement\<close>, \<open>Replacement_Correct\<close>: the policies of \<open>mem/cache/replacement_policies\<close> and the
    dueling monitor. The contract is that a victim is found among the candidates (locale
    \<open>replacement_policy\<close>); LRU, LFU, FIFO and weighted LRU meet it as scans for a smallest key
    (\<open>min_key_policy\<close>), second chance and BRRIP by themselves, and set dueling keeps it
    (\<open>dueling_policies\<close>). Which victim LRU, second chance, tree-PLRU, BRRIP and dueling pick, and that
    the search of second chance ends, are theorems of their own.
  \<^item> \<open>Cache_Tags\<close>, \<open>Cache_Tags_Correct\<close>: cache blocks (\<open>mem/cache/cache_blk.hh\<close>) with their load-locked
    lists, and the set-associative tag store (\<open>mem/cache/tags/base_set_assoc.cc\<close>) over the
    set-associative indexing policy. \<open>tags_run\<close> makes the calls of \<open>BaseCache\<close> for references that allocate
    on a miss and for invalidations. The store implements a map from lines to the ticks of their last uses, for every replacement policy
    that chooses a victim by these ticks (locale \<open>tag_policy\<close>, which gives \<open>replacement_policy\<close>); LRU and MRU do.
    FIFO does not: it goes by the ticks of the insertions and invalidations. With LRU a line is given up for one of the same
    set, a least recently used one; as tick 0 also marks a free entry, a line last used at
    tick 0 may be given up while a way is free. A
    store-conditional succeeds only after a load-locked of its context and its bytes that nothing has broken. The move
    of a block loses its line. The theorems ask for a tag that starts at bit 32 or
    below, because the set number is shifted in 32 bits. The code of the indexing policy is that of
    \<open>set_associative.cc\<close>, which \<open>TaggedSetAssociative\<close> (\<open>tagged_entry.hh\<close>) repeats for the store.
  \<^item> \<open>Compressor\<close>, \<open>Compressor_Correct\<close>: the cache compressors (locale \<open>dictionary_code\<close>);
    decompression gives the block back, the composed compressor keeps the result with the highest factor and, among these, the
    lowest latency. What a read of the dictionary outside its bounds gives is a parameter:
    the round trip holds for all bytes it may yield, and if it is an error, decompression of a block whose first value has
    no match ends in it.
  \<^item> \<open>Stack_Dist\<close>, \<open>Stack_Dist_Correct\<close>: the stack distance calculator, \<open>mem/stack_dist_calc.cc\<close>, a
    growing binary tree of partial sums with pointers to parents, from which nodes with no live leaf
    are deleted. Any sequence of calls (\<open>sd_run\<close>) returns the distances and marks that a list of
    the addresses in the order of their last use gives, no deleted node is ever reached, and the checks
    the code makes on itself hold unless an address is deleted. The theorem covers
    \<open>2 ^ 31\<close> added nodes, because a larger tree has a layer 31, for which the shift of an \<open>int\<close> no longer
    gives the width of the nodes.

  \<^bold>\<open>Parameters.\<close> Random numbers are arguments of the operations that draw them. The time is an
  argument. The handler \<open>process()\<close> of an event is a parameter of the queue that services it; the main loop is
  also given the poll queue, the pointers \<open>new\<close> returns and the signals that arrive (\<open>sim_env\<close>). The
  contents of memory fresh from \<open>new\<close> are a parameter of the packets. The flattening of register
  identifiers by the instruction set is a parameter of the rename model; that renaming succeeds
  when \<open>canRename\<close> says so has the hypothesis that it keeps the register class.

  \<^bold>\<open>Not modelled.\<close> The instruction sets and the Ruby protocols are generated at build time from
  description languages. CPUs other than the renaming of the out-of-order one, the cache
  controllers, crossbars, memory controllers, the GPU model and the devices exchange packets through
  ports whose peers the Python configuration sets, in thousands of lines per object; only the
  structures they are built from are modelled. Statistics use floating point. Loaders, sockets,
  checkpoint files, the threads and barriers of simulations with several queues, SystemC, the vendored libraries, the Python layer, SimPoint and the experiment
  scripts deal with the host. Of the modelled areas these are missing: the sector, compressed and
  fully associative tag stores, partition managers, the frequent-values compressor,
  the atomic operation and accessor objects of requests, the mutexes and migration scopes of the
  event queue, typed packet accessors, the status machine of the rename stage and the values in
  the register file. Branch predictors, prefetchers, page tables, the address range map
  and the trie are self-contained and could be added.
\<close>

end
